(* ===== verification/Prelude.thy ===== *)
theory Prelude
  imports Main "HOL-Library.Word"
begin

text \<open>
  Shared vocabulary of the development: the machine types of the simulator
  (\<^verbatim>\<open>base/types.hh\<close>), the outcome type of code that may abort, the lemma
  collections the component theories add to, and the generic facts on words,
  lists and outcomes the components share.

  The C++ code has five ways not to return a value: a failed \<^verbatim>\<open>assert\<close>, a
  \<^verbatim>\<open>panic\<close> or \<^verbatim>\<open>panic_if\<close> (a simulator bug), a \<^verbatim>\<open>fatal\<close> or
  \<^verbatim>\<open>fatal_if\<close> (a user error), an exception that nothing catches (the range check of
  \<^verbatim>\<open>std::vector::at\<close>) and undefined behaviour (a null dereference, an
  index outside a vector, a shift by the width of the operand or more). Each is a
  value of \<open>abort\<close>, and code that can reach one returns an \<open>'a outcome\<close>. A loop that
  need not end is a partial function into \<open>option\<close>; \<open>after_loop\<close> continues with its result
  and turns \<open>None\<close> into \<open>Diverges\<close>.
\<close>

unbundle bit_operations_syntax

section \<open>Machine types\<close>

type_synonym u8 = "8 word"
type_synonym u16 = "16 word"
type_synonym u32 = "32 word"
type_synonym u64 = "64 word"
type_synonym addr = "64 word"
type_synonym tick = "64 word"

section \<open>Outcomes\<close>

datatype abort = Assert_Failed | Panic | Fatal | Exception | Undefined | Diverges

type_synonym 'a outcome = "abort + 'a"

fun obind :: "'a outcome \<Rightarrow> ('a \<Rightarrow> 'b outcome) \<Rightarrow> 'b outcome" where
  "obind (Inl e) f = Inl e"
| "obind (Inr x) f = f x"

definition check :: "bool \<Rightarrow> abort \<Rightarrow> 'a outcome \<Rightarrow> 'a outcome" where
  "check b e k = (if b then k else Inl e)"

definition after_loop :: "'a option \<Rightarrow> ('a \<Rightarrow> 'b outcome) \<Rightarrow> 'b outcome" where
  "after_loop m k = (case m of None \<Rightarrow> Inl Diverges | Some x \<Rightarrow> k x)"

lemma after_loop_simps [simp]: "after_loop None k = Inl Diverges" "after_loop (Some x) k = k x"
  by (simp_all add: after_loop_def)

lemma case_option_mono [partial_function_mono]:
  assumes "mono_option B" "\<And>y. mono_option (\<lambda>f. C f y)"
  shows "mono_option (\<lambda>f. case x of None \<Rightarrow> B f | Some y \<Rightarrow> C f y)"
  using assms by (cases x) simp_all

lemma obind_eq_Inr [simp]: "obind m f = Inr y \<longleftrightarrow> (\<exists>x. m = Inr x \<and> f x = Inr y)"
  by (cases m) auto

lemma obind_assoc: "obind (obind m f) g = obind m (\<lambda>x. obind (f x) g)"
  by (cases m) auto

lemma obind_cong [fundef_cong]:
  "m = m' \<Longrightarrow> (\<And>x. m' = Inr x \<Longrightarrow> f x = f' x) \<Longrightarrow> obind m f = obind m' f'"
  by (cases m') auto

lemma check_eq_Inr [simp]: "check b e k = Inr y \<longleftrightarrow> b \<and> k = Inr y"
  by (simp add: check_def)

lemma check_True [simp]: "check True e k = k"
  and check_False [simp]: "check False e k = Inl e"
  by (simp_all add: check_def)

section \<open>Lemma collections\<close>

named_theorems bit_char \<open>what each bit of a result is\<close>
named_theorems unat_char \<open>the natural number a word result stands for\<close>

section \<open>Words\<close>

lemma word64_eqI: "(\<And>n. n < 64 \<Longrightarrow> bit v n = bit w n) \<Longrightarrow> v = (w :: u64)"
  by (rule bit_word_eqI) simp

lemma bit_u64_lt: "bit (w :: u64) n \<Longrightarrow> n < 64"
  using bit_imp_le_length [of w n] by simp

lemma bit_u32_lt: "bit (w :: u32) n \<Longrightarrow> n < 32"
  using bit_imp_le_length [of w n] by simp

lemma unat_u64_lt: "unat (w :: u64) < 2 ^ 64"
  using unsigned_less [of w] by simp

lemma bit_iff_unat: "bit (w :: 'a::len word) n \<longleftrightarrow> odd (unat w div 2 ^ n)"
proof -
  have "bit (unat w) n \<longleftrightarrow> bit w n"
    by (simp add: bit_unsigned_iff)
  then show ?thesis by (simp add: bit_iff_odd)
qed

lemma unat_drop_bit_word [unat_char]: "unat (drop_bit n (w :: 'a::len word)) = unat w div 2 ^ n"
  by (simp add: unat_drop_bit_eq drop_bit_eq_div flip: drop_bit_eq_div)

lemma unat_and_mask_word [unat_char]: "unat ((w :: 'a::len word) AND mask n) = unat w mod 2 ^ n"
proof -
  have "unat (take_bit n w) = take_bit n (unat w)" by (rule unsigned_take_bit_eq)
  then show ?thesis by (simp only: take_bit_eq_mask) (simp add: take_bit_eq_mod flip: take_bit_eq_mask)
qed

lemma unat_nonzero_word: "(w :: 'a::len word) \<noteq> 0 \<longleftrightarrow> 0 < unat w"
  by (simp add: unat_gt_0)

lemma unat_pow2 [unat_char]: "k < LENGTH('a) \<Longrightarrow> unat (2 ^ k :: 'a::len word) = 2 ^ k"
proof -
  assume "k < LENGTH('a)"
  then have "take_bit LENGTH('a) (2 ^ k :: nat) = 2 ^ k" by (intro take_bit_nat_eq_self) simp
  then show ?thesis by (metis of_nat_numeral of_nat_power unat_of_nat take_bit_eq_mod)
qed

lemma unat_mask_word [unat_char]: "k \<le> LENGTH('a) \<Longrightarrow> unat (mask k :: 'a::len word) = 2 ^ k - 1"
proof -
  assume "k \<le> LENGTH('a)"
  then have "unat (mask k :: 'a word) = mask k"
    by (intro bit_eqI) (auto simp: bit_unsigned_iff bit_mask_iff)
  then show ?thesis by (simp add: mask_eq_exp_minus_1)
qed

section \<open>Lists\<close>

lemma fold_invariant_list:
  "P s \<Longrightarrow> (\<And>x s. x \<in> set xs \<Longrightarrow> P s \<Longrightarrow> P (f x s)) \<Longrightarrow> P (fold f xs s)"
  by (induction xs arbitrary: s) auto

lemma sorted_wrt_snoc:
  "sorted_wrt R (xs @ [x]) \<longleftrightarrow> sorted_wrt R xs \<and> (\<forall>y \<in> set xs. R y x)"
  by (auto simp: sorted_wrt_append)

end
