(* ===== verification/Bitfield.thy ===== *)
theory Bitfield
  imports Prelude
begin

text \<open>
  The bit-twiddling helpers of \<^verbatim>\<open>base/bitfield.hh\<close>, at the type \<^verbatim>\<open>uint64_t\<close> the
  simulator uses them at. An \<^verbatim>\<open>unsigned\<close> position is a natural number below
  \<open>2 ^ 32\<close>; where the code computes with positions modulo \<open>2 ^ 32\<close> the wrap-around
  is written out. \<open>bits\<close> and \<open>insertBits\<close> are the bodies of the C++ functions;
  \<open>bits_checked\<close> and \<open>insertBits_checked\<close> add the assertion at their entry and the
  shift that is undefined from position 64 on. The compiler builtins
  (\<^verbatim>\<open>__builtin_ctzll\<close>, \<^verbatim>\<open>__builtin_clzll\<close>, \<^verbatim>\<open>__builtin_popcountl\<close>) are written
  out from their documentation as scans over the bits, and the portable code the
  file keeps for compilers without them is shown to agree with them.
\<close>

section \<open>Masks, extraction and insertion\<close>

definition mask_bf :: "nat \<Rightarrow> u64" where
  "mask_bf nbits = (if nbits \<ge> 64 then - 1 else push_bit nbits 1 - 1)"

definition bits :: "u64 \<Rightarrow> nat \<Rightarrow> nat \<Rightarrow> u64" where
  "bits val first lst = drop_bit lst val AND mask_bf (first - lst + 1)"

definition bits_checked :: "u64 \<Rightarrow> nat \<Rightarrow> nat \<Rightarrow> u64 outcome" where
  "bits_checked val first lst =
     check (first \<ge> lst) Assert_Failed
       (check (lst < 64) Undefined (Inr (bits val first lst)))"

definition bits1 :: "u64 \<Rightarrow> nat \<Rightarrow> u64" where
  "bits1 val b = bits val b b"

definition mbits :: "u64 \<Rightarrow> nat \<Rightarrow> nat \<Rightarrow> u64" where
  "mbits val first lst = val AND (mask_bf ((first + 1) mod 2 ^ 32) AND NOT (mask_bf lst))"

definition mask_range :: "nat \<Rightarrow> nat \<Rightarrow> u64" where
  "mask_range first lst = mbits (- 1) first lst"

definition sext :: "u64 \<Rightarrow> nat \<Rightarrow> u64" where
  "sext val N = (if bits1 val (N - 1) \<noteq> 0 then val OR NOT (mask_bf N) else val)"

definition szext :: "u64 \<Rightarrow> nat \<Rightarrow> u64" where
  "szext val N =
     (if bits1 val (N - 1) \<noteq> 0 then val OR NOT (mask_bf N) else val AND mask_bf N)"

definition insertBits :: "u64 \<Rightarrow> nat \<Rightarrow> nat \<Rightarrow> u64 \<Rightarrow> u64" where
  "insertBits val first lst bit_val =
     (let bmask = mask_range first lst;
          val = val AND NOT bmask
      in val OR (push_bit lst bit_val AND bmask))"

definition insertBits_checked :: "u64 \<Rightarrow> nat \<Rightarrow> nat \<Rightarrow> u64 \<Rightarrow> u64 outcome" where
  "insertBits_checked val first lst bit_val =
     check (first \<ge> lst) Assert_Failed
       (check (lst < 64) Undefined (Inr (insertBits val first lst bit_val)))"

definition insertBits1 :: "u64 \<Rightarrow> nat \<Rightarrow> u64 \<Rightarrow> u64" where
  "insertBits1 val b bit_val = insertBits val b b bit_val"

definition replaceBits :: "u64 \<Rightarrow> nat \<Rightarrow> nat \<Rightarrow> u64 \<Rightarrow> u64" where
  "replaceBits val first lst bit_val = insertBits val first lst bit_val"

definition replaceBits1 :: "u64 \<Rightarrow> nat \<Rightarrow> u64 \<Rightarrow> u64" where
  "replaceBits1 val b bit_val = insertBits val b b bit_val"

section \<open>Bit reversal\<close>

definition reverseBitsLookUpTable :: "u8 list" where
  "reverseBitsLookUpTable = [
    0, 128, 64, 192, 32, 160, 96, 224, 16, 144, 80, 208, 48, 176, 112, 240,
    8, 136, 72, 200, 40, 168, 104, 232, 24, 152, 88, 216, 56, 184, 120, 248,
    4, 132, 68, 196, 36, 164, 100, 228, 20, 148, 84, 212, 52, 180, 116, 244,
    12, 140, 76, 204, 44, 172, 108, 236, 28, 156, 92, 220, 60, 188, 124, 252,
    2, 130, 66, 194, 34, 162, 98, 226, 18, 146, 82, 210, 50, 178, 114, 242,
    10, 138, 74, 202, 42, 170, 106, 234, 26, 154, 90, 218, 58, 186, 122, 250,
    6, 134, 70, 198, 38, 166, 102, 230, 22, 150, 86, 214, 54, 182, 118, 246,
    14, 142, 78, 206, 46, 174, 110, 238, 30, 158, 94, 222, 62, 190, 126, 254,
    1, 129, 65, 193, 33, 161, 97, 225, 17, 145, 81, 209, 49, 177, 113, 241,
    9, 137, 73, 201, 41, 169, 105, 233, 25, 153, 89, 217, 57, 185, 121, 249,
    5, 133, 69, 197, 37, 165, 101, 229, 21, 149, 85, 213, 53, 181, 117, 245,
    13, 141, 77, 205, 45, 173, 109, 237, 29, 157, 93, 221, 61, 189, 125, 253,
    3, 131, 67, 195, 35, 163, 99, 227, 19, 147, 83, 211, 51, 179, 115, 243,
    11, 139, 75, 203, 43, 171, 107, 235, 27, 155, 91, 219, 59, 187, 123, 251,
    7, 135, 71, 199, 39, 167, 103, 231, 23, 151, 87, 215, 55, 183, 119, 247,
    15, 143, 79, 207, 47, 175, 111, 239, 31, 159, 95, 223, 63, 191, 127, 255]"

definition reverseBits8 :: "u8 \<Rightarrow> u8" where
  "reverseBits8 val = reverseBitsLookUpTable ! unat val"

fun reverseBits_loop :: "nat \<Rightarrow> u64 \<Rightarrow> u64 \<Rightarrow> u64" where
  "reverseBits_loop 0 val output = output"
| "reverseBits_loop (Suc n) val output =
     reverseBits_loop n (drop_bit 8 val)
       (push_bit 8 output OR ucast (reverseBitsLookUpTable ! unat (val AND mask_bf 8)))"

definition reverseBits :: "u64 \<Rightarrow> nat \<Rightarrow> u64 outcome" where
  "reverseBits val sz = check (sz \<le> 8) Assert_Failed (Inr (reverseBits_loop sz val 0))"

section \<open>Searching and counting bits\<close>

definition findMsbSet :: "u64 \<Rightarrow> nat" where
  "findMsbSet val =
    (if val = 0 then 0 else
     let (msb, val) = (if bits val 63 32 \<noteq> 0 then (32, drop_bit 32 val) else (0, val));
         (msb, val) = (if bits val 31 16 \<noteq> 0 then (msb + 16, drop_bit 16 val) else (msb, val));
         (msb, val) = (if bits val 15 8 \<noteq> 0 then (msb + 8, drop_bit 8 val) else (msb, val));
         (msb, val) = (if bits val 7 4 \<noteq> 0 then (msb + 4, drop_bit 4 val) else (msb, val));
         (msb, val) = (if bits val 3 2 \<noteq> 0 then (msb + 2, drop_bit 2 val) else (msb, val))
     in if bits val 1 1 \<noteq> 0 then msb + 1 else msb)"

definition findLsbSetFallback :: "u64 \<Rightarrow> nat" where
  "findLsbSetFallback val =
    (if val = 0 then 64 else
     let (lsb, val) = (if bits val 31 0 = 0 then (32, drop_bit 32 val) else (0, val));
         (lsb, val) = (if bits val 15 0 = 0 then (lsb + 16, drop_bit 16 val) else (lsb, val));
         (lsb, val) = (if bits val 7 0 = 0 then (lsb + 8, drop_bit 8 val) else (lsb, val));
         (lsb, val) = (if bits val 3 0 = 0 then (lsb + 4, drop_bit 4 val) else (lsb, val));
         (lsb, val) = (if bits val 1 0 = 0 then (lsb + 2, drop_bit 2 val) else (lsb, val))
     in if bits val 0 0 = 0 then lsb + 1 else lsb)"

definition ctz64 :: "u64 \<Rightarrow> nat" where
  "ctz64 value = length (takeWhile (\<lambda>i. \<not> bit value i) [0..<64])"

definition ctz32 :: "u32 \<Rightarrow> nat" where
  "ctz32 value = length (takeWhile (\<lambda>i. \<not> bit value i) [0..<32])"

definition clz64 :: "u64 \<Rightarrow> nat" where
  "clz64 value = length (takeWhile (\<lambda>i. \<not> bit value i) (rev [0..<64]))"

definition clz32 :: "u32 \<Rightarrow> nat" where
  "clz32 value = length (takeWhile (\<lambda>i. \<not> bit value i) (rev [0..<32]))"

definition findLsbSet :: "u64 \<Rightarrow> nat" where
  "findLsbSet val = (if val = 0 then 64 else ctz64 val)"

text \<open>
  \<^verbatim>\<open>findLsbSet\<close> on a \<^verbatim>\<open>std::bitset<N>\<close>: the bitset is the natural number its bits
  spell, \<open>bitset_qword\<close> its 64 lowest bits.
\<close>

definition bitset_qword :: "nat \<Rightarrow> u64" where
  "bitset_qword bs = of_nat (bs mod 2 ^ 64)"

function findLsbSet_loop :: "nat \<Rightarrow> nat \<Rightarrow> nat" where
  "findLsbSet_loop bs i =
     (if bs \<noteq> 0 \<and> bs mod 2 ^ 64 = 0 then findLsbSet_loop (bs div 2 ^ 64) (i + 64)
      else i + findLsbSet (bitset_qword bs))"
  by pat_completeness auto
termination
  by (relation "measure fst") auto

declare findLsbSet_loop.simps [simp del]

definition findLsbSet_bitset :: "nat \<Rightarrow> nat \<Rightarrow> nat" where
  "findLsbSet_bitset N bs =
     (if N \<le> 64 then findLsbSet (of_nat bs)
      else if bs = 0 then N else findLsbSet_loop bs 0)"

definition popCount :: "u64 \<Rightarrow> nat" where
  "popCount val = length (filter (bit val) [0..<64])"

definition popCount_fallback :: "u64 \<Rightarrow> nat" where
  "popCount_fallback val =
    (let m1 = 0x5555555555555555; m2 = 0x3333333333333333;
         m4 = 0x0f0f0f0f0f0f0f0f; sum = 0x0101010101010101;
         val = val - (drop_bit 1 val AND m1);
         val = (val AND m2) + (drop_bit 2 val AND m2);
         val = (val + drop_bit 4 val) AND m4
     in unat (drop_bit 56 (val * sum)))"

definition alignToPowerOfTwo :: "u64 \<Rightarrow> u64" where
  "alignToPowerOfTwo val =
    (let val = val - 1;
         val = val OR drop_bit 1 val;
         val = val OR drop_bit 2 val;
         val = val OR drop_bit 4 val;
         val = val OR drop_bit 8 val;
         val = val OR drop_bit 16 val;
         val = val OR drop_bit 32 val
     in val + 1)"

section \<open>What each bit of the results is\<close>

lemma mask_bf_eq [simp]: "mask_bf n = mask n"
  by (cases "n \<ge> 64")
     (auto simp: mask_bf_def mask_eq_exp_minus_1 push_bit_eq_mult bit_simps intro!: word64_eqI
       simp flip: mask_eq_exp_minus_1)

lemma mbits_code [code]:
  "mbits val first lst = val AND (mask_bf (unat (of_nat (first + 1) :: u32)) AND NOT (mask_bf lst))"
  by (simp only: mbits_def unat_of_nat take_bit_eq_mod len_of_numeral_defs) simp

lemma bit_bits [bit_char]:
  "bit (bits v f l) n \<longleftrightarrow> n < f - l + 1 \<and> bit v (l + n)"
  by (auto simp: bits_def bit_simps dest: bit_u64_lt)

lemma unat_bits [unat_char]: "unat (bits v f l) = unat v div 2 ^ l mod 2 ^ (f - l + 1)"
  by (simp only: bits_def mask_bf_eq unat_and_mask_word unat_drop_bit_word)

lemma bits_eq_0: "bits v f l = 0 \<longleftrightarrow> (\<forall>n < f - l + 1. \<not> bit v (l + n))"
proof -
  have "bits v f l = 0 \<longleftrightarrow> (\<forall>n. \<not> bit (bits v f l) n)"
    by (metis bit_0_eq bot_apply bot_bool_def bit_eqI)
  then show ?thesis by (auto simp: bit_bits)
qed

lemma bit_bits1 [bit_char]: "bit (bits1 v b) n \<longleftrightarrow> n = 0 \<and> bit v b"
  by (simp only: bits1_def bit_bits) auto

lemma bits1_eq_0 [simp]: "bits1 v b = 0 \<longleftrightarrow> \<not> bit v b"
  by (auto simp: bits1_def bits_eq_0)

lemma bit_mask_range [bit_char]:
  "f < 64 \<Longrightarrow> bit (mask_range f l) n \<longleftrightarrow> l \<le> n \<and> n \<le> f"
  by (auto simp: mask_range_def mbits_def bit_simps)

lemma bit_insertBits [bit_char]:
  "f < 64 \<Longrightarrow> bit (insertBits v f l b) n \<longleftrightarrow>
     (if l \<le> n \<and> n \<le> f then bit b (n - l) else bit v n)"
  by (auto simp: insertBits_def Let_def bit_simps bit_char dest: bit_u64_lt)


section \<open>Searching for a bit\<close>

definition msb_step :: "nat \<Rightarrow> nat \<times> u64 \<Rightarrow> nat \<times> u64" where
  "msb_step h s = (case s of (msb, val) \<Rightarrow>
     if bits val (2 * h - 1) h \<noteq> 0 then (msb + h, drop_bit h val) else (msb, val))"

definition lsb_step :: "nat \<Rightarrow> nat \<times> u64 \<Rightarrow> nat \<times> u64" where
  "lsb_step h s = (case s of (lsb, val) \<Rightarrow>
     if bits val (h - 1) 0 = 0 then (lsb + h, drop_bit h val) else (lsb, val))"

definition msb_inv :: "u64 \<Rightarrow> nat \<Rightarrow> nat \<times> u64 \<Rightarrow> bool" where
  "msb_inv V k s = (case s of (m, v) \<Rightarrow>
     0 < unat v \<and> unat v < 2 ^ k \<and> unat v = unat V div 2 ^ m)"

definition lsb_inv :: "u64 \<Rightarrow> nat \<Rightarrow> nat \<times> u64 \<Rightarrow> bool" where
  "lsb_inv V k s = (case s of (m, v) \<Rightarrow>
     v = drop_bit m V \<and> (\<forall>i < m. \<not> bit V i) \<and> (\<exists>i < k. bit v i))"

lemma msb_step_inv:
  assumes "msb_inv V (2 * h) s" "0 < h"
  shows "msb_inv V h (msb_step h s)"
proof -
  obtain m v where s: "s = (m, v)" by fastforce
  from assms have v: "0 < unat v" "unat v < 2 ^ h * 2 ^ h" "unat v = unat V div 2 ^ m"
    by (auto simp: msb_inv_def s mult_2 power_add)
  have "2 * h - 1 - h + 1 = h" using assms(2) by simp
  then have "unat (bits v (2 * h - 1) h) = unat v div 2 ^ h"
    using v(2) by (simp only: unat_bits) (simp add: less_mult_imp_div_less)
  then have c: "bits v (2 * h - 1) h \<noteq> 0 \<longleftrightarrow> 2 ^ h \<le> unat v"
    by (simp add: unat_nonzero_word div_greater_zero_iff)
  show ?thesis
    using v c
    by (auto simp: msb_step_def msb_inv_def s unat_drop_bit_word div_greater_zero_iff
        less_mult_imp_div_less power_add div_mult2_eq)
qed

lemma lsb_step_inv:
  assumes "lsb_inv V (2 * h) s" "0 < h"
  shows "lsb_inv V h (lsb_step h s)"
proof -
  obtain m v where s: "s = (m, v)" by fastforce
  from assms have v: "v = drop_bit m V" "\<forall>i < m. \<not> bit V i" "\<exists>i < 2 * h. bit v i"
    by (auto simp: lsb_inv_def s)
  have c: "bits v (h - 1) 0 = 0 \<longleftrightarrow> (\<forall>n < h. \<not> bit v n)"
    using assms(2) by (simp add: bits_eq_0)
  show ?thesis
  proof (cases "\<forall>n < h. \<not> bit v n")
    case True
    from v(3) obtain i where i: "i < 2 * h" "bit v i" by blast
    with True have "h \<le> i" by (meson not_le)
    with i have "i - h < h \<and> bit (drop_bit h v) (i - h)" by (auto simp: bit_simps)
    moreover have "\<not> bit V j" if "j < m + h" for j
    proof (cases "j < m")
      case False
      then have "\<not> bit v (j - m)" using True that by auto
      with False show ?thesis by (simp add: v(1) bit_simps)
    qed (use v(2) in blast)
    ultimately show ?thesis
      using True c v(1) by (auto simp: lsb_step_def lsb_inv_def s add.commute)
  next
    case False
    with c v show ?thesis by (auto simp: lsb_step_def lsb_inv_def s)
  qed
qed

lemma length_takeWhile_upt:
  assumes "k \<le> n" "\<forall>i < k. P i" "k = n \<or> \<not> P k"
  shows "length (takeWhile P [0..<n]) = k"
proof -
  have "[0..<n] = [0..<k] @ [k..<n]"
    using assms(1) upt_add_eq_append [of 0 k "n - k"] by simp
  moreover have "takeWhile P [k..<n] = []"
    using assms(1,3) by (cases "k < n") (auto simp: upt_conv_Cons)
  moreover have "takeWhile P ([0..<k] @ [k..<n]) = [0..<k] @ takeWhile P [k..<n]"
    using assms(2) by (intro takeWhile_append2) auto
  ultimately show ?thesis by simp
qed

lemma ctz64_eqI: "bit w n \<Longrightarrow> (\<And>i. i < n \<Longrightarrow> \<not> bit w i) \<Longrightarrow> ctz64 w = n"
  unfolding ctz64_def by (rule length_takeWhile_upt) (auto dest: bit_u64_lt)

lemma ctz64_0 [simp]: "ctz64 0 = 64"
  unfolding ctz64_def by (rule length_takeWhile_upt) auto

lemma ctz64_nonzero:
  assumes "w \<noteq> 0"
  shows "bit w (ctz64 w)" and "i < ctz64 w \<Longrightarrow> \<not> bit w i" and "ctz64 w < 64"
proof -
  define n where "n = (LEAST i. bit w i)"
  from assms obtain j where "bit w j" by (auto simp: bit_eq_iff)
  then have n: "bit w n" "\<And>i. i < n \<Longrightarrow> \<not> bit w i"
    unfolding n_def by (auto intro: LeastI dest: not_less_Least)
  then have "ctz64 w = n" by (rule ctz64_eqI)
  with n show "bit w (ctz64 w)" and "i < ctz64 w \<Longrightarrow> \<not> bit w i" and "ctz64 w < 64"
    by (auto dest: bit_u64_lt)
qed

lemma msb_step_fold:
  "(if bits v 63 32 \<noteq> 0 then (32, drop_bit 32 v) else (0, v)) = msb_step 32 (0, v)"
  "(if bits v 31 16 \<noteq> 0 then (m + 16, drop_bit 16 v) else (m, v)) = msb_step 16 (m, v)"
  "(if bits v 15 8 \<noteq> 0 then (m + 8, drop_bit 8 v) else (m, v)) = msb_step 8 (m, v)"
  "(if bits v 7 4 \<noteq> 0 then (m + 4, drop_bit 4 v) else (m, v)) = msb_step 4 (m, v)"
  "(if bits v 3 2 \<noteq> 0 then (m + 2, drop_bit 2 v) else (m, v)) = msb_step 2 (m, v)"
  by (simp_all add: msb_step_def)

lemma lsb_step_fold:
  "(if bits v 31 0 = 0 then (32, drop_bit 32 v) else (0, v)) = lsb_step 32 (0, v)"
  "(if bits v 15 0 = 0 then (m + 16, drop_bit 16 v) else (m, v)) = lsb_step 16 (m, v)"
  "(if bits v 7 0 = 0 then (m + 8, drop_bit 8 v) else (m, v)) = lsb_step 8 (m, v)"
  "(if bits v 3 0 = 0 then (m + 4, drop_bit 4 v) else (m, v)) = lsb_step 4 (m, v)"
  "(if bits v 1 0 = 0 then (m + 2, drop_bit 2 v) else (m, v)) = lsb_step 2 (m, v)"
  by (simp_all add: lsb_step_def)

lemma findMsbSet_steps:
  "findMsbSet V =
    (if V = 0 then 0 else
     case msb_step 2 (msb_step 4 (msb_step 8 (msb_step 16 (msb_step 32 (0, V))))) of
       (m, v) \<Rightarrow> if bits v 1 1 \<noteq> 0 then m + 1 else m)"
  by (simp only: findMsbSet_def msb_step_fold Let_def case_prod_beta prod.collapse)

lemma findLsbSetFallback_steps:
  "findLsbSetFallback V =
    (if V = 0 then 64 else
     case lsb_step 2 (lsb_step 4 (lsb_step 8 (lsb_step 16 (lsb_step 32 (0, V))))) of
       (m, v) \<Rightarrow> if bits v 0 0 = 0 then m + 1 else m)"
  by (simp only: findLsbSetFallback_def lsb_step_fold Let_def case_prod_beta prod.collapse)

lemma findMsbSet_div: "V \<noteq> 0 \<Longrightarrow> unat V div 2 ^ findMsbSet V = 1"
proof -
  assume V: "V \<noteq> 0"
  then have "msb_inv V 64 (0, V)"
    using unat_u64_lt [of V] by (simp add: msb_inv_def unat_gt_0)
  then have "msb_inv V 2 (msb_step 2 (msb_step 4 (msb_step 8 (msb_step 16 (msb_step 32 (0, V))))))"
    using msb_step_inv [of V 32] msb_step_inv [of V 16] msb_step_inv [of V 8]
      msb_step_inv [of V 4] msb_step_inv [of V 2] by simp
  moreover obtain m v where
    e: "msb_step 2 (msb_step 4 (msb_step 8 (msb_step 16 (msb_step 32 (0, V))))) = (m, v)"
    by fastforce
  ultimately have v: "0 < unat v" "unat v < 4" "unat v = unat V div 2 ^ m"
    by (auto simp: msb_inv_def)
  have b: "unat (bits v 1 1) = unat v div 2 mod 2"
    by (simp add: unat_bits)
  have "unat V div 2 ^ (m + 1) = unat v div 2"
    by (simp only: power_add div_mult2_eq v(3) power_one_right)
  then show ?thesis
    using V v(1,2) b v(3) [symmetric]
    by (cases "bits v 1 1 = 0") (auto simp: findMsbSet_steps e unat_nonzero_word unat_eq_0)
qed

lemma findLsbSetFallback_ctz: "findLsbSetFallback V = ctz64 V"
proof (cases "V = 0")
  case False
  then obtain j where "bit V j" by (auto simp: bit_eq_iff)
  then have "lsb_inv V 64 (0, V)"
    by (auto simp: lsb_inv_def dest: bit_u64_lt)
  then have "lsb_inv V 2 (lsb_step 2 (lsb_step 4 (lsb_step 8 (lsb_step 16 (lsb_step 32 (0, V))))))"
    using lsb_step_inv [of V 32] lsb_step_inv [of V 16] lsb_step_inv [of V 8]
      lsb_step_inv [of V 4] lsb_step_inv [of V 2] by simp
  moreover obtain m v where
    e: "lsb_step 2 (lsb_step 4 (lsb_step 8 (lsb_step 16 (lsb_step 32 (0, V))))) = (m, v)"
    by fastforce
  ultimately have v: "\<And>i. bit v i = bit V (m + i)" "\<And>i. i < m \<Longrightarrow> \<not> bit V i" "\<exists>i < 2. bit v i"
    by (auto simp: lsb_inv_def bit_simps)
  have "ctz64 V = (if bit V m then m else m + 1)"
  proof (rule ctz64_eqI)
    show "bit V (if bit V m then m else m + 1)"
      using v(1) [of 0] v(1) [of 1] v(3) by (auto simp: less_Suc_eq numeral_2_eq_2)
  next
    fix i
    assume "i < (if bit V m then m else m + 1)"
    then show "\<not> bit V i"
      by (cases "i < m") (auto simp: v(2) less_Suc_eq split: if_splits)
  qed
  with False v(1) [of 0] show ?thesis
    by (simp add: findLsbSetFallback_steps e bits_eq_0)
qed (simp add: findLsbSetFallback_steps)

section \<open>Rounding to a power of two\<close>

lemma smear_step:
  assumes "\<And>i. bit y i \<longleftrightarrow> (\<exists>j < k. bit x (i + j))"
  shows "bit (y OR drop_bit k y) i \<longleftrightarrow> (\<exists>j < 2 * k. bit (x :: u64) (i + j))"
proof -
  have "(\<exists>j < 2 * k. bit x (i + j)) \<longleftrightarrow> (\<exists>j < k. bit x (i + j)) \<or> (\<exists>j < k. bit x (i + k + j))"
    (is "?l \<longleftrightarrow> ?a \<or> ?b")
  proof
    assume ?l
    then obtain j where j: "j < 2 * k" "bit x (i + j)" by blast
    show "?a \<or> ?b"
    proof (cases "j < k")
      case False
      with j have "j - k < k \<and> bit x (i + k + (j - k))" by simp
      then show ?thesis by blast
    qed (use j in blast)
  next
    assume "?a \<or> ?b"
    then show ?l
    proof
      assume ?b
      then obtain j where "j < k" "bit x (i + k + j)" by blast
      then show ?l by (intro exI [of _ "k + j"]) (simp add: add.assoc)
    next
      assume ?a
      then obtain j where "j < k" "bit x (i + j)" by blast
      then show ?l by (intro exI [of _ j]) simp
    qed
  qed
  then show ?thesis by (simp add: bit_simps assms add.commute)
qed

lemma alignToPowerOfTwo_smear:
  "\<exists>y. alignToPowerOfTwo v = y + 1 \<and> (\<forall>i. bit y i \<longleftrightarrow> (\<exists>j < 64. bit (v - 1) (i + j)))"
proof -
  let ?x = "v - 1"
  define y1 where "y1 = ?x OR drop_bit 1 ?x"
  define y2 where "y2 = y1 OR drop_bit 2 y1"
  define y3 where "y3 = y2 OR drop_bit 4 y2"
  define y4 where "y4 = y3 OR drop_bit 8 y3"
  define y5 where "y5 = y4 OR drop_bit 16 y4"
  define y6 where "y6 = y5 OR drop_bit 32 y5"
  have 1: "bit y1 i \<longleftrightarrow> (\<exists>j < 2. bit ?x (i + j))" for i
    unfolding y1_def using smear_step [of ?x 1 ?x i] by simp
  have 2: "bit y2 i \<longleftrightarrow> (\<exists>j < 4. bit ?x (i + j))" for i
    unfolding y2_def using smear_step [OF 1, of i] by simp
  have 3: "bit y3 i \<longleftrightarrow> (\<exists>j < 8. bit ?x (i + j))" for i
    unfolding y3_def using smear_step [OF 2, of i] by simp
  have 4: "bit y4 i \<longleftrightarrow> (\<exists>j < 16. bit ?x (i + j))" for i
    unfolding y4_def using smear_step [OF 3, of i] by simp
  have 5: "bit y5 i \<longleftrightarrow> (\<exists>j < 32. bit ?x (i + j))" for i
    unfolding y5_def using smear_step [OF 4, of i] by simp
  have 6: "bit y6 i \<longleftrightarrow> (\<exists>j < 64. bit ?x (i + j))" for i
    unfolding y6_def using smear_step [OF 5, of i] by simp
  have "alignToPowerOfTwo v = y6 + 1"
    by (simp only: alignToPowerOfTwo_def Let_def y1_def y2_def y3_def y4_def y5_def y6_def)
  with 6 show ?thesis by blast
qed

lemma bit_findMsbSet: "x \<noteq> 0 \<Longrightarrow> bit x (findMsbSet x)"
  by (simp add: bit_iff_unat findMsbSet_div)

lemma bit_le_findMsbSet: "bit x i \<Longrightarrow> i \<le> findMsbSet x"
proof (rule ccontr)
  assume b: "bit x i" and "\<not> i \<le> findMsbSet x"
  then obtain k where i: "i = findMsbSet x + Suc k"
    by (metis add_Suc_right less_iff_Suc_add not_le)
  from b have "x \<noteq> 0" by auto
  then have "unat x div 2 ^ i = 1 div 2 ^ Suc k"
    by (metis findMsbSet_div div_mult2_eq i power_add)
  also have "\<dots> = (0::nat)"
    using one_less_power [of "2 :: nat" "Suc k"] by (simp only: div_less)
  finally show False using b by (simp add: bit_iff_unat)
qed

lemma alignToPowerOfTwo_mask:
  assumes "v \<noteq> 0" "v \<noteq> 1"
  shows "alignToPowerOfTwo v = mask (findMsbSet (v - 1) + 1) + 1"
proof -
  from assms have x: "v - 1 \<noteq> 0" by simp
  obtain y where y: "alignToPowerOfTwo v = y + 1"
    "\<And>i. bit y i \<longleftrightarrow> (\<exists>j < 64. bit (v - 1) (i + j))"
    using alignToPowerOfTwo_smear by blast
  let ?m = "findMsbSet (v - 1)"
  have "y = mask (?m + 1)"
  proof (rule word64_eqI)
    fix n :: nat
    assume "n < 64"
    have "(\<exists>j < 64. bit (v - 1) (n + j)) \<longleftrightarrow> n \<le> ?m"
    proof
      assume "n \<le> ?m"
      then show "\<exists>j < 64. bit (v - 1) (n + j)"
        using bit_findMsbSet [OF x] bit_u64_lt [OF bit_findMsbSet [OF x]]
        by (intro exI [of _ "?m - n"]) auto
    qed (auto dest: bit_le_findMsbSet)
    then show "bit y n \<longleftrightarrow> bit (mask (?m + 1) :: u64) n"
      using \<open>n < 64\<close> y(2) by (auto simp: bit_simps)
  qed
  with y(1) show ?thesis by simp
qed

lemma unat_findMsbSet_bounds:
  assumes "x \<noteq> 0"
  shows "2 ^ findMsbSet x \<le> unat x" and "unat x < 2 ^ (findMsbSet x + 1)" and "findMsbSet x < 64"
proof -
  from findMsbSet_div [OF assms] show "2 ^ findMsbSet x \<le> unat x"
    by (metis div_less not_le zero_neq_one)
  have "unat x = unat x div 2 ^ findMsbSet x * 2 ^ findMsbSet x + unat x mod 2 ^ findMsbSet x"
    by (rule div_mult_mod_eq [symmetric])
  also have "\<dots> < 2 ^ (findMsbSet x + 1)"
    using mod_less_divisor [of "2 ^ findMsbSet x" "unat x"] by (simp add: findMsbSet_div [OF assms])
  finally show "unat x < 2 ^ (findMsbSet x + 1)" .
  show "findMsbSet x < 64"
    using bit_findMsbSet [OF assms] by (rule bit_u64_lt)
qed

lemma alignToPowerOfTwo_0: "alignToPowerOfTwo 0 = 0"
proof -
  obtain y where y: "alignToPowerOfTwo 0 = y + 1" "\<And>i. bit y i \<longleftrightarrow> (\<exists>j < 64. bit (- 1 :: u64) (i + j))"
    using alignToPowerOfTwo_smear [of 0] by auto
  have "y = - 1"
    by (rule word64_eqI) (auto simp: y(2) bit_simps intro: exI [of _ 0])
  with y(1) show ?thesis by simp
qed

lemma alignToPowerOfTwo_1: "alignToPowerOfTwo 1 = 1"
  by (simp add: alignToPowerOfTwo_def)

section \<open>Sign extension and field insertion\<close>

lemma bit_sext:
  "0 < N \<Longrightarrow> N \<le> 64 \<Longrightarrow> unat v < 2 ^ N \<Longrightarrow>
   bit (sext v N) n \<longleftrightarrow> n < 64 \<and> (if n < N then bit v n else bit v (N - 1))"
proof -
  assume N: "0 < N" "N \<le> 64" "unat v < 2 ^ N"
  have "\<not> bit v n" if "N \<le> n"
  proof -
    have "unat v < 2 ^ n" using N(3) that by (meson less_le_trans one_le_numeral power_increasing)
    then show ?thesis by (simp add: bit_iff_unat)
  qed
  then show ?thesis
    using N by (auto simp: sext_def bit_simps not_less dest: bit_u64_lt)
qed

lemma insertBits_bits_same:
  "f < 64 \<Longrightarrow> l \<le> f \<Longrightarrow> bits (insertBits v f l b) f l = b AND mask (f - l + 1)"
  by (rule word64_eqI) (auto simp: bit_char bit_simps)

lemma insertBits_bits_other:
  "f < 64 \<Longrightarrow> f' < l \<or> f < l' \<Longrightarrow> l' \<le> f' \<Longrightarrow> bits (insertBits v f l b) f' l' = bits v f' l'"
  by (rule word64_eqI) (auto simp: bit_char)

lemma insertBits_self: "f < 64 \<Longrightarrow> l \<le> f \<Longrightarrow> insertBits v f l (bits v f l) = v"
  by (rule word64_eqI) (auto simp: bit_char)

section \<open>Bit reversal\<close>

definition rev_byte :: "nat \<Rightarrow> nat" where
  "rev_byte i = 128 * (i mod 2) + 64 * (i div 2 mod 2) + 32 * (i div 4 mod 2) +
     16 * (i div 8 mod 2) + 8 * (i div 16 mod 2) + 4 * (i div 32 mod 2) +
     2 * (i div 64 mod 2) + i div 128 mod 2"

lemma rev_byte_horner: "rev_byte i = horner_sum of_bool 2 (rev (map (bit i) [0..<8]))"
  by (simp add: rev_byte_def upt_rec bit_iff_odd of_bool_odd_eq_mod_2)

lemma bit_rev_byte: "bit (rev_byte i) k \<longleftrightarrow> k < 8 \<and> bit i (7 - k)"
  by (auto simp: rev_byte_horner bit_horner_sum_bit_iff rev_nth)

lemma table_rev_byte: "reverseBitsLookUpTable = map (of_nat \<circ> rev_byte) [0..<256]"
proof -
  have u: "[0..<256] = 0 # 1 # [2..<256]"
    by (simp add: upt_conv_Cons)
  show ?thesis
    by (simp only: u list.map o_def)
       (simp add: reverseBitsLookUpTable_def upt_rec_numeral rev_byte_def)
qed

lemma bit_table: "i < 256 \<Longrightarrow> bit (reverseBitsLookUpTable ! i) k \<longleftrightarrow> k < 8 \<and> bit i (7 - k)"
  by (auto simp: table_rev_byte bit_rev_byte bit_simps)

lemma bit_table_byte:
  "bit (reverseBitsLookUpTable ! unat (v AND mask 8)) k \<longleftrightarrow> k < 8 \<and> bit (v :: u64) (7 - k)"
proof -
  have "unat (v AND mask 8) < 256"
    by (simp only: unat_and_mask_word) simp
  moreover have "bit (unat (v AND mask 8)) (7 - k) \<longleftrightarrow> bit v (7 - k)" if "k < 8"
    using that by (auto simp: bit_simps)
  ultimately show ?thesis by (auto simp: bit_table)
qed

lemma bit_reverseBits_loop:
  "n \<le> 8 \<Longrightarrow> bit (reverseBits_loop n v out) k \<longleftrightarrow>
     k < 64 \<and> (if k < 8 * n then bit v (8 * n - 1 - k) else bit out (k - 8 * n))"
proof (induction n arbitrary: v out)
  case (Suc n)
  then show ?case
    by (auto simp: bit_simps bit_table_byte not_less le_diff_conv2 add.commute dest: bit_u64_lt)
qed (auto dest: bit_u64_lt)

lemma reverseBits_eq: "reverseBits v 8 = Inr (reverseBits_loop 8 v 0)"
  by (simp add: reverseBits_def)

lemma reverseBits_loop_invol: "reverseBits_loop 8 (reverseBits_loop 8 v 0) 0 = v"
  by (rule word64_eqI) (auto simp: bit_reverseBits_loop)

section \<open>The bitset search\<close>

lemma findLsbSet_lowest: "v \<noteq> 0 \<Longrightarrow> bit v (findLsbSet v) \<and> (\<forall>i < findLsbSet v. \<not> bit v i)"
  by (auto simp: findLsbSet_def ctz64_nonzero)

lemma bit_bitset_qword: "bit (bitset_qword bs) i \<longleftrightarrow> i < 64 \<and> bit bs i"
proof -
  have "bitset_qword bs = of_nat (take_bit 64 bs)"
    by (simp add: bitset_qword_def take_bit_eq_mod)
  then show ?thesis by (auto simp: bit_simps)
qed

lemma findLsbSet_loop_lowest:
  "bs \<noteq> 0 \<Longrightarrow> \<exists>k. findLsbSet_loop bs i = i + k \<and> bit bs k \<and> (\<forall>j < k. \<not> bit bs j)"
proof (induction bs i rule: findLsbSet_loop.induct)
  case (1 bs i)
  show ?case
  proof (cases "bs mod 2 ^ 64 = 0")
    case True
    then have "take_bit 64 bs = 0" by (simp add: take_bit_eq_mod)
    then have low: "\<not> bit bs j" if "j < 64" for j
      using that by (metis bit_0_eq bit_take_bit_iff bot_apply bot_bool_def)
    from True "1.prems" have "bs div 2 ^ 64 \<noteq> 0" by (metis mod_less div_eq_0_iff power_eq_0_iff zero_neq_numeral)
    with "1.IH" True "1.prems" obtain k where
      k: "findLsbSet_loop (bs div 2 ^ 64) (i + 64) = i + 64 + k" "bit (bs div 2 ^ 64) k"
        "\<forall>j < k. \<not> bit (bs div 2 ^ 64) j" by blast
    have sh: "bit (bs div 2 ^ 64) j \<longleftrightarrow> bit bs (64 + j)" for j
      by (metis bit_drop_bit_eq comp_apply drop_bit_eq_div)
    have "\<not> bit bs j" if "j < 64 + k" for j
      using low [of j] k(3) sh [of "j - 64"] that by (cases "j < 64") auto
    moreover have "findLsbSet_loop bs i = i + (64 + k)"
      using True "1.prems" k(1) by (simp add: findLsbSet_loop.simps [of bs i])
    ultimately show ?thesis using k(2) sh by blast
  next
    case False
    then have "take_bit 64 bs \<noteq> 0" by (simp add: take_bit_eq_mod)
    then obtain j where "bit (take_bit 64 bs) j" by (auto simp: bit_eq_iff)
    then have "bitset_qword bs \<noteq> 0" by (auto simp: bit_take_bit_iff bit_eq_iff bit_bitset_qword)
    from findLsbSet_lowest [OF this] False show ?thesis
      by (intro exI [of _ "findLsbSet (bitset_qword bs)"])
        (auto simp: findLsbSet_loop.simps [of bs i] bit_bitset_qword)
  qed
qed

section \<open>Properties\<close>

text \<open>
  The searches find the lowest and the highest set bit of every non-zero value,
  the portable binary search for the lowest bit agrees with the compiler builtin on
  all inputs, and the search over a bitset wider than 64 bits finds its lowest bit.
\<close>

theorem find_set_bits_correct:
  assumes "v \<noteq> 0" and "64 < N" and "bs \<noteq> 0"
  shows "bit v (findLsbSet v) \<and> (\<forall>i < findLsbSet v. \<not> bit v i) \<and>
    bit v (findMsbSet v) \<and> (\<forall>i > findMsbSet v. \<not> bit v i) \<and>
    (\<forall>w. findLsbSetFallback w = findLsbSet w) \<and>
    bit bs (findLsbSet_bitset N bs) \<and> (\<forall>j < findLsbSet_bitset N bs. \<not> bit bs j)"
proof (intro conjI)
  show "\<forall>w. findLsbSetFallback w = findLsbSet w"
    by (auto simp: findLsbSetFallback_ctz findLsbSet_def)
  have "findLsbSet_bitset N bs = findLsbSet_loop bs 0"
    using assms by (simp add: findLsbSet_bitset_def)
  then show "bit bs (findLsbSet_bitset N bs)" and "\<forall>j < findLsbSet_bitset N bs. \<not> bit bs j"
    using findLsbSet_loop_lowest [OF assms(3), of 0] by auto
  show "\<forall>i > findMsbSet v. \<not> bit v i"
    using bit_le_findMsbSet leD by blast
qed (use assms findLsbSet_lowest bit_findMsbSet in auto)

theorem find_set_bits_correct_witness:
  "bit (40 :: u64) (findLsbSet 40) \<and> bit (40 :: u64) (findMsbSet 40) \<and>
   bit (2 ^ 70 :: nat) (findLsbSet_bitset 100 (2 ^ 70))"
  using find_set_bits_correct [of 40 100 "2 ^ 70"] by simp

text \<open>
  \<^verbatim>\<open>alignToPowerOfTwo\<close> returns the least power of two that is not below its
  argument, for every argument up to \<open>2 ^ 63\<close>, and maps 0 to 0.
\<close>

theorem alignToPowerOfTwo_least:
  assumes "0 < unat v" and "unat v \<le> 2 ^ 63"
  shows "alignToPowerOfTwo 0 = 0 \<and>
    (\<exists>k. unat (alignToPowerOfTwo v) = 2 ^ k \<and> unat v \<le> 2 ^ k \<and> (\<forall>j. unat v \<le> 2 ^ j \<longrightarrow> k \<le> j))"
proof (cases "v = 1")
  case True
  then show ?thesis by (auto simp: alignToPowerOfTwo_0 alignToPowerOfTwo_1 intro: exI [of _ 0])
next
  case False
  let ?m = "findMsbSet (v - 1)"
  from assms(1) False have nz: "v \<noteq> 0" "v - 1 \<noteq> 0" by auto
  then have u: "unat (v - 1) = unat v - 1" by (simp add: unat_minus_one)
  note b = unat_findMsbSet_bounds [OF nz(2), unfolded u]
  have m: "?m < 63"
  proof (rule ccontr)
    assume "\<not> ?m < 63"
    then have "(2 :: nat) ^ 63 \<le> 2 ^ ?m" by (intro power_increasing) auto
    with b(1) assms show False by linarith
  qed
  have "alignToPowerOfTwo v = 2 ^ (?m + 1)"
    using alignToPowerOfTwo_mask [OF nz(1) False] by (simp add: mask_eq_exp_minus_1)
  moreover have "unat (2 ^ (?m + 1) :: u64) = 2 ^ (?m + 1)"
    using m unat_pow2 [of "?m + 1", where 'a = 64] by simp
  moreover have "?m + 1 \<le> j" if "unat v \<le> 2 ^ j" for j
  proof -
    have "(2 :: nat) ^ ?m < 2 ^ j" using b(1) that assms(1) by linarith
    then show ?thesis by (simp add: Suc_le_eq)
  qed
  ultimately show ?thesis using b(2) by (auto simp: alignToPowerOfTwo_0 intro!: exI [of _ "?m + 1"])
qed

theorem alignToPowerOfTwo_least_witness:
  "\<exists>k. unat (alignToPowerOfTwo 1000) = 2 ^ k \<and> 1000 \<le> (2 :: nat) ^ k \<and>
     (\<forall>j. 1000 \<le> (2 :: nat) ^ j \<longrightarrow> k \<le> j)"
  using alignToPowerOfTwo_least [of 1000] by simp

text \<open>
  \<^verbatim>\<open>insertBits\<close> and \<^verbatim>\<open>bits\<close> are inverse on a field of a 64-bit value: reading
  the field back gives the inserted low bits, every other field is unchanged, and
  writing back what was read changes nothing.
\<close>

theorem insert_extract_roundtrip:
  assumes "f < 64" and "l \<le> f"
  shows "bits (insertBits v f l b) f l = b AND mask_bf (f - l + 1) \<and>
    insertBits v f l (bits v f l) = v \<and>
    (\<forall>f' l'. l' \<le> f' \<and> (f' < l \<or> f < l') \<longrightarrow> bits (insertBits v f l b) f' l' = bits v f' l') \<and>
    insertBits_checked v f l b = Inr (insertBits v f l b)"
  using assms
  by (auto simp: insertBits_bits_same insertBits_self insertBits_bits_other insertBits_checked_def)

theorem insert_extract_roundtrip_witness:
  "bits (insertBits 0xFFFF 7 4 0) 7 4 = 0 \<and> insertBits_checked 0xFFFF 7 4 0 = Inr 0xFF0F"
  using insert_extract_roundtrip [of 7 4 "0xFFFF" 0]
  by (simp add: insertBits_def mask_range_def mbits_def mask_eq_exp_minus_1)

text \<open>
  \<^verbatim>\<open>reverseBits\<close> on a full 64-bit value, computed byte by byte through the 256
  entry table, mirrors every bit position and undoes itself.
\<close>

theorem reverseBits_mirrors:
  "\<exists>r. reverseBits v 8 = Inr r \<and> (\<forall>k < 64. bit r k \<longleftrightarrow> bit v (63 - k)) \<and> reverseBits r 8 = Inr v"
  by (intro exI [of _ "reverseBits_loop 8 v 0"])
    (simp add: reverseBits_eq reverseBits_loop_invol bit_reverseBits_loop)

theorem reverseBits_mirrors_witness:
  "\<exists>r. reverseBits 1 8 = Inr r \<and> bit r 63 \<and> reverseBits r 8 = Inr 1"
  using reverseBits_mirrors [of 1] by fastforce

end
