(* ===== verification/Intmath.thy ===== *)
theory Intmath
  imports Bitfield
begin

text \<open>
  The integer helpers of \<^verbatim>\<open>base/intmath.hh\<close>: logarithms, powers of two, rounding to
  an alignment and double-width multiplication. A template argument \<^verbatim>\<open>T\<close> of
  \<^verbatim>\<open>floorLog2\<close> is its size in bytes \<open>ts\<close>; its argument is the integer passed, and
  the conversion to \<^verbatim>\<open>uint64_t\<close> through the unsigned type of that size is written
  out. The multiplications take the 32-bit and 64-bit instances. Where the header
  has a 128-bit and a manual branch, both are modelled and shown to agree.
\<close>

section \<open>Logarithms and powers of two\<close>

definition floorLog2_u :: "nat \<Rightarrow> u64 \<Rightarrow> nat" where
  "floorLog2_u ts ux =
    (let (y, ux) = (if ts \<ge> 8 \<and> ux AND 0xffffffff00000000 \<noteq> 0 then (32, drop_bit 32 ux) else (0, ux));
         (y, ux) = (if ts \<ge> 4 \<and> ux AND 0x00000000ffff0000 \<noteq> 0 then (y + 16, drop_bit 16 ux) else (y, ux));
         (y, ux) = (if ts \<ge> 2 \<and> ux AND 0x000000000000ff00 \<noteq> 0 then (y + 8, drop_bit 8 ux) else (y, ux));
         (y, ux) = (if ux AND 0x00000000000000f0 \<noteq> 0 then (y + 4, drop_bit 4 ux) else (y, ux));
         (y, ux) = (if ux AND 0x000000000000000c \<noteq> 0 then (y + 2, drop_bit 2 ux) else (y, ux))
     in if ux AND 0x0000000000000002 \<noteq> 0 then y + 1 else y)"

definition floorLog2 :: "nat \<Rightarrow> int \<Rightarrow> nat outcome" where
  "floorLog2 ts x =
     check (x > 0) Assert_Failed
       (Inr (floorLog2_u ts (word_of_int (take_bit (8 * ts) x))))"

definition ceilLog2 :: "nat \<Rightarrow> int \<Rightarrow> nat outcome" where
  "ceilLog2 ts n =
     check (n > 0) Assert_Failed
       (if n = 1 then Inr 0
        else obind (floorLog2 (max ts 4) (n - 1)) (\<lambda>y. Inr (y + 1)))"

definition isPowerOf2 :: "'a::len word \<Rightarrow> bool" where
  "isPowerOf2 n \<longleftrightarrow> n \<noteq> 0 \<and> n AND (n - 1) = 0"

definition divCeil :: "u64 \<Rightarrow> u64 \<Rightarrow> u64 outcome" where
  "divCeil a b = check (b \<noteq> 0) Undefined (Inr ((a + b - 1) div b))"

definition log2i :: "u32 \<Rightarrow> nat outcome" where
  "log2i value = check (isPowerOf2 value \<and> 0 < sint value) Assert_Failed (Inr (ctz32 value))"

section \<open>Rounding to an alignment\<close>

definition roundUp :: "u64 \<Rightarrow> u64 \<Rightarrow> u64 outcome" where
  "roundUp val align =
     check (isPowerOf2 align) Assert_Failed
       (let m = align - 1 in Inr ((val + m) AND NOT m))"

definition roundDown :: "u64 \<Rightarrow> u64 \<Rightarrow> u64 outcome" where
  "roundDown val align =
     check (isPowerOf2 align) Assert_Failed
       (let m = align - 1 in Inr (val AND NOT m))"

section \<open>Double-width multiplication\<close>

definition mulUnsigned32 :: "u32 \<Rightarrow> u32 \<Rightarrow> u32 \<times> u32" where
  "mulUnsigned32 val_a val_b =
     (let product = (ucast val_a :: u64) * ucast val_b
      in (ucast (drop_bit 32 product), ucast product))"

definition mulSigned32 :: "u32 \<Rightarrow> u32 \<Rightarrow> u32 \<times> u32" where
  "mulSigned32 val_a val_b =
     (let product = (scast val_a :: u64) * scast val_b
      in (ucast (drop_bit 32 product), ucast product))"

definition mulUnsignedManual :: "u64 \<Rightarrow> u64 \<Rightarrow> u64 \<times> u64" where
  "mulUnsignedManual val_a val_b =
     (let low = val_a * val_b;
          A = ucast (ucast (drop_bit 32 val_a) :: u32) :: u64;
          a = ucast (ucast val_a :: u32);
          B = ucast (ucast (drop_bit 32 val_b) :: u32);
          b = ucast (ucast val_b :: u32);
          ab = a * b; Ab = A * b; aB = a * B; AB = A * B;
          c1 = ucast (ucast (drop_bit 32 ab) :: u32);
          c2 = drop_bit 1 c1 + drop_bit 1 Ab + drop_bit 1 aB;
          c2 = c2 + drop_bit 1 ((c1 AND 1) + (Ab AND 1) + (aB AND 1));
          c2 = drop_bit 31 c2
      in (AB + c2, low))"

definition mulUnsigned :: "u64 \<Rightarrow> u64 \<Rightarrow> u64 \<times> u64" where
  "mulUnsigned val_a val_b =
     (let val = (ucast val_a :: 128 word) * ucast val_b
      in (ucast (drop_bit 64 val), ucast val))"

definition mulSignedManual :: "u64 \<Rightarrow> u64 \<Rightarrow> u64 \<times> u64" where
  "mulSignedManual val_a val_b =
     (let (u_high, u_low) = mulUnsigned val_a val_b;
          u_high = (if sint val_a < 0 then u_high - val_b else u_high);
          u_high = (if sint val_b < 0 then u_high - val_a else u_high)
      in (u_high, u_low))"

definition mulSigned :: "u64 \<Rightarrow> u64 \<Rightarrow> u64 \<times> u64" where
  "mulSigned val_a val_b =
     (let val = (scast val_a :: 128 word) * scast val_b
      in (ucast (signed_drop_bit 64 val), ucast val))"

section \<open>Logarithms\<close>

lemma and_field_eq_0:
  "(v :: u64) AND push_bit l (mask n) = 0 \<longleftrightarrow> bits v (l + n - 1) l = 0" if "0 < n" "l + n \<le> 64"
proof -
  have "v AND push_bit l (mask n) = 0 \<longleftrightarrow> (\<forall>i. \<not> bit (v AND push_bit l (mask n)) i)"
    by (metis bit_0_eq bot_apply bot_bool_def bit_eqI)
  also have "\<dots> \<longleftrightarrow> (\<forall>i < n. \<not> bit v (l + i))"
  proof (intro iffI allI impI)
    fix i
    assume "\<forall>i. \<not> bit (v AND push_bit l (mask n)) i" "i < n"
    from spec [OF this(1), of "l + i"] this(2) that show "\<not> bit v (l + i)"
      by (auto simp: bit_simps)
  next
    fix j
    assume h: "\<forall>i < n. \<not> bit v (l + i)"
    show "\<not> bit (v AND push_bit l (mask n)) j"
      using h [rule_format, of "j - l"] by (auto simp: bit_simps)
  qed
  also have "\<dots> \<longleftrightarrow> bits v (l + n - 1) l = 0"
    using that by (simp add: bits_eq_0)
  finally show ?thesis .
qed

lemma floorLog2_masks:
  "(ux :: u64) AND 0xffffffff00000000 = 0 \<longleftrightarrow> bits ux 63 32 = 0"
  "ux AND 0x00000000ffff0000 = 0 \<longleftrightarrow> bits ux 31 16 = 0"
  "ux AND 0x000000000000ff00 = 0 \<longleftrightarrow> bits ux 15 8 = 0"
  "ux AND 0x00000000000000f0 = 0 \<longleftrightarrow> bits ux 7 4 = 0"
  "ux AND 0x000000000000000c = 0 \<longleftrightarrow> bits ux 3 2 = 0"
  "ux AND 0x0000000000000002 = 0 \<longleftrightarrow> bits ux 1 1 = 0"
  using and_field_eq_0 [of 32 32 ux] and_field_eq_0 [of 16 16 ux] and_field_eq_0 [of 8 8 ux]
    and_field_eq_0 [of 4 4 ux] and_field_eq_0 [of 2 2 ux] and_field_eq_0 [of 1 1 ux]
  by (simp_all add: mask_eq_exp_minus_1 push_bit_eq_mult)

lemma bits_high_0: "unat v < 2 ^ l \<Longrightarrow> bits v f l = 0"
  by (simp add: unat_bits flip: unat_eq_0)

lemma msb_step_small: "unat v < 2 ^ h \<Longrightarrow> msb_step h (m, v) = (m, v)"
  by (simp add: msb_step_def bits_high_0)

lemma floorLog2_u_findMsbSet:
  assumes "ts \<in> {1, 2, 4, 8}" "unat ux < 2 ^ (8 * ts)" "ux \<noteq> 0"
  shows "floorLog2_u ts ux = findMsbSet ux"
proof -
  let ?fin = "\<lambda>(m, v). if bits v 1 1 \<noteq> 0 then m + 1 else m"
  have c: "floorLog2_u ts ux =
     ?fin (msb_step 2 (msb_step 4
       ((if ts \<ge> 2 then msb_step 8 else id) ((if ts \<ge> 4 then msb_step 16 else id)
       ((if ts \<ge> 8 then msb_step 32 else id) (0, ux))))))"
    by (cases "ts \<ge> 8"; cases "ts \<ge> 4"; cases "ts \<ge> 2")
       (simp_all only: floorLog2_u_def floorLog2_masks msb_step_fold Let_def case_prod_beta
          prod.collapse if_True if_False simp_thms id_apply)
  show ?thesis
    using assms by (auto simp: c findMsbSet_steps msb_step_small)
qed


section \<open>Powers of two and alignment\<close>

lemma isPowerOf2_iff: "isPowerOf2 (w :: 'a::len word) \<longleftrightarrow> (\<exists>k < LENGTH('a). w = 2 ^ k)"
proof
  assume w: "isPowerOf2 w"
  then have "1 \<le> unat w" by (simp add: isPowerOf2_def unat_gt_0 Suc_le_eq)
  then obtain m where m: "2 ^ m \<le> unat w" "unat w < 2 ^ (m + 1)"
    using ex_power_ivl1 [of 2 "unat w"] by auto
  have lt: "m < LENGTH('a)"
  proof (rule ccontr)
    assume "\<not> m < LENGTH('a)"
    then have "(2 :: nat) ^ LENGTH('a) \<le> 2 ^ m" by simp
    with m(1) unsigned_less [of w, where 'a = nat] show False by simp
  qed
  have top: "bit x m" if "2 ^ m \<le> unat x" "unat x < 2 ^ (m + 1)" for x :: "'a word"
  proof -
    have "unat x div 2 ^ m = 1" using that by (simp add: div_nat_eqI)
    then show ?thesis by (simp add: bit_iff_unat)
  qed
  have "unat w = 2 ^ m"
  proof (rule ccontr)
    assume "unat w \<noteq> 2 ^ m"
    with m have "2 ^ m \<le> unat (w - 1)" "unat (w - 1) < 2 ^ (m + 1)"
      using w by (auto simp: unat_minus_one isPowerOf2_def)
    then have "bit (w AND (w - 1)) m" using top m by (simp add: bit_simps)
    with w show False by (simp add: isPowerOf2_def)
  qed
  with lt have "w = 2 ^ m" by (simp add: word_unat_eq_iff unat_pow2)
  with lt show "\<exists>k < LENGTH('a). w = 2 ^ k" by blast
next
  assume "\<exists>k < LENGTH('a). w = 2 ^ k"
  then obtain k where k: "k < LENGTH('a)" "w = 2 ^ k" by blast
  have "w - 1 = mask k" by (simp add: k(2) mask_eq_exp_minus_1)
  moreover have "w \<noteq> 0" using k by simp
  moreover have "2 ^ k AND (mask k :: 'a word) = 0"
    by (rule bit_word_eqI) (auto simp: bit_simps)
  ultimately show "isPowerOf2 w" by (simp add: isPowerOf2_def k(2))
qed

lemma unat_and_not_mask:
  "unat ((w :: u64) AND NOT (mask k)) = unat w div 2 ^ k * 2 ^ k"
proof -
  have "w AND NOT (mask k) = push_bit k (drop_bit k w)"
    by (rule word64_eqI) (auto simp: bit_simps)
  moreover have "unat (push_bit k (drop_bit k w)) = push_bit k (unat (drop_bit k w)) mod 2 ^ 64"
    using unsigned_push_bit_eq [of k "drop_bit k w"] by (simp only: take_bit_eq_mod) simp
  ultimately have "unat (w AND NOT (mask k)) = unat w div 2 ^ k * 2 ^ k mod 2 ^ 64"
    by (simp only: unat_drop_bit_word push_bit_eq_mult)
  also have "\<dots> = unat w div 2 ^ k * 2 ^ k"
    using le_less_trans [OF div_times_less_eq_dividend unat_u64_lt, of w "2 ^ k"] by simp
  finally show ?thesis .
qed

lemma pow2_minus_1: "(2 ^ k :: u64) - 1 = mask k"
  by (simp add: mask_eq_exp_minus_1)

lemma unat_mask_u64: "k < 64 \<Longrightarrow> unat (mask k :: u64) = 2 ^ k - 1"
  by (simp add: pow2_minus_1 [symmetric] unat_minus_one unat_pow2)

lemma roundDown_pow2:
  "k < 64 \<Longrightarrow> \<exists>r. roundDown v (2 ^ k) = Inr r \<and> unat r = unat v div 2 ^ k * 2 ^ k"
  by (auto simp: roundDown_def isPowerOf2_iff pow2_minus_1 unat_and_not_mask)

lemma roundUp_pow2:
  assumes "k < 64" "unat v + (2 ^ k - 1) < 2 ^ 64"
  shows "\<exists>r. roundUp v (2 ^ k) = Inr r \<and>
     unat r = (unat v + (2 ^ k - 1)) div 2 ^ k * 2 ^ k"
proof -
  have "unat (v + mask k) = unat v + (2 ^ k - 1)"
    using assms by (simp add: unat_word_ariths unat_mask_u64)
  moreover have "isPowerOf2 (2 ^ k :: u64)"
    using assms(1) by (auto simp: isPowerOf2_iff)
  ultimately show ?thesis
    by (simp only: roundUp_def Let_def pow2_minus_1 check_True)
       (simp only: unat_and_not_mask sum.inject ex_simps simp_thms)
qed

section \<open>Multiplication\<close>

lemma unat_lo32: "unat (ucast (ucast (v :: u64) :: u32) :: u64) = unat v mod 2 ^ 32"
  by (simp add: unsigned_ucast_eq unsigned_take_bit_eq) (simp add: take_bit_eq_mod)

lemma unat_hi32: "unat (ucast (ucast (drop_bit 32 (v :: u64)) :: u32) :: u64) = unat v div 2 ^ 32"
  by (simp only: unat_lo32 unat_drop_bit_word)
     (use unat_u64_lt [of v] in \<open>simp add: less_mult_imp_div_less\<close>)

lemma unat_mult_lo32:
  assumes "unat (x :: u64) < 2 ^ 32" "unat y < 2 ^ 32"
  shows "unat (x * y) = unat x * unat y" and "unat x * unat y \<le> (2 ^ 32 - 1) * (2 ^ 32 - 1)"
proof -
  show le: "unat x * unat y \<le> (2 ^ 32 - 1) * (2 ^ 32 - 1)"
    using assms by (intro mult_le_mono) auto
  then show "unat (x * y) = unat x * unat y"
    by (simp add: unat_word_ariths)
qed

lemma half_sum3: "(c div 2 + x div 2 + y div 2 + (c mod 2 + x mod 2 + y mod 2) div 2) = (c + x + y) div (2::nat)"
proof -
  have "(c1 * 2 + c0) + (x1 * 2 + x0) + (y1 * 2 + y0) = (c0 + x0 + y0) + (c1 + x1 + y1) * (2::nat)"
    for c0 c1 x0 x1 y0 y1 by simp
  from this [of "c div 2" "c mod 2" "x div 2" "x mod 2" "y div 2" "y mod 2"]
  have e: "c + x + y = (c mod 2 + x mod 2 + y mod 2) + (c div 2 + x div 2 + y div 2) * 2"
    by (simp only: div_mult_mod_eq)
  show ?thesis unfolding e by (subst div_mult_self1) simp_all
qed

lemma mul_split:
  fixes A a B b p :: nat
  assumes "0 < p"
  shows "(A * p + a) * (B * p + b) div (p * p) = A * B + ((a * b) div p + A * b + a * B) div p"
proof -
  have "(A * p + a) * (B * p + b) = (A * B * p + A * b + a * B) * p + a * b"
    by (simp add: algebra_simps)
  then have "(A * p + a) * (B * p + b) div p = A * B * p + (a * b div p + A * b + a * B)"
    using div_mult_self3 [of p "A * B * p + A * b + a * B" "a * b"] assms
    by (simp only: add.assoc add.commute ac_simps)
  then have "(A * p + a) * (B * p + b) div p div p = A * B + (a * b div p + A * b + a * B) div p"
    using assms by simp
  then show ?thesis by (simp only: div_mult2_eq)
qed

lemma and_1_word: "unat ((w :: u64) AND 1) = unat w mod 2"
  using unat_and_mask_word [of w 1] by simp

lemma carry_word:
  fixes c x y :: u64
  assumes "unat c < 2 ^ 32" "unat x \<le> (2 ^ 32 - 1) * (2 ^ 32 - 1)"
    "unat y \<le> (2 ^ 32 - 1) * (2 ^ 32 - 1)"
  shows "unat (drop_bit 1 c + drop_bit 1 x + drop_bit 1 y
      + drop_bit 1 ((c AND 1) + (x AND 1) + (y AND 1))) = (unat c + unat x + unat y) div 2"
proof -
  have "unat (drop_bit 1 c + drop_bit 1 x + drop_bit 1 y) = unat c div 2 + unat x div 2 + unat y div 2"
    using assms by (simp only: unat_word_ariths unat_drop_bit_word) simp
  moreover have "unat (drop_bit 1 ((c AND 1) + (x AND 1) + (y AND 1)))
      = (unat c mod 2 + unat x mod 2 + unat y mod 2) div 2"
    by (simp only: unat_word_ariths unat_drop_bit_word and_1_word) simp
  moreover have "(unat c + unat x + unat y) div 2 < 2 ^ 64"
    using assms by (simp add: div_less_iff_less_mult)
  ultimately show ?thesis
    by (simp only: unat_word_ariths(1) [of "_ + _ + _"] half_sum3) simp
qed

lemma fst_mulUnsignedManual:
  "unat (fst (mulUnsignedManual x y)) = unat x * unat y div 2 ^ 64"
proof -
  define A a B b :: u64 where
    d: "A = ucast (ucast (drop_bit 32 x) :: u32)" "a = ucast (ucast x :: u32)"
    "B = ucast (ucast (drop_bit 32 y) :: u32)" "b = ucast (ucast y :: u32)"
  have u: "unat A = unat x div 2 ^ 32" "unat a = unat x mod 2 ^ 32"
    "unat B = unat y div 2 ^ 32" "unat b = unat y mod 2 ^ 32"
    unfolding d by (rule unat_hi32, rule unat_lo32, rule unat_hi32, rule unat_lo32)
  then have lt: "unat A < 2 ^ 32" "unat a < 2 ^ 32" "unat B < 2 ^ 32" "unat b < 2 ^ 32"
    using unat_u64_lt [of x] unat_u64_lt [of y] by (simp_all add: less_mult_imp_div_less)
  note m = unat_mult_lo32(1) [OF lt(2) lt(4)] unat_mult_lo32(1) [OF lt(1) lt(4)]
    unat_mult_lo32(1) [OF lt(2) lt(3)] unat_mult_lo32(1) [OF lt(1) lt(3)]
  note le = unat_mult_lo32(2) [OF lt(2) lt(4)] unat_mult_lo32(2) [OF lt(1) lt(4)]
    unat_mult_lo32(2) [OF lt(2) lt(3)] unat_mult_lo32(2) [OF lt(1) lt(3)]
  define c :: u64 where "c = ucast (ucast (drop_bit 32 (a * b)) :: u32)"
  have c: "unat c = unat a * unat b div 2 ^ 32" by (simp only: c_def unat_hi32 m)
  have clt: "unat c < 2 ^ 32"
    unfolding c using le(1) by (intro less_mult_imp_div_less) simp
  define k where "k = drop_bit 31 (drop_bit 1 c + drop_bit 1 (A * b) + drop_bit 1 (a * B)
      + drop_bit 1 ((c AND 1) + (A * b AND 1) + (a * B AND 1)))"
  have "unat k = (unat c + unat (A * b) + unat (a * B)) div 2 div 2 ^ 31"
    using carry_word [of c "A * b" "a * B"] clt le m by (simp only: k_def unat_drop_bit_word)
  also have "\<dots> = (unat c + unat A * unat b + unat a * unat B) div 2 ^ 32"
    using div_mult2_eq [of "unat c + unat A * unat b + unat a * unat B" 2 "2 ^ 31"]
    by (simp only: m) simp
  finally have k: "unat k = (unat c + unat A * unat b + unat a * unat B) div 2 ^ 32" .
  have "unat k < 2 ^ 33 - 1"
    unfolding k using le(2,3) clt by (intro less_mult_imp_div_less) simp
  then have "unat A * unat B + unat k < 2 ^ 64"
    using le(4) by simp
  then have "unat (A * B + k) = unat A * unat B + unat k"
    by (simp only: unat_word_ariths m) simp
  also have "\<dots> = (unat A * 2 ^ 32 + unat a) * (unat B * 2 ^ 32 + unat b) div (2 ^ 32 * 2 ^ 32)"
    using mul_split [of "2 ^ 32" "unat A" "unat a" "unat B" "unat b"]
    by (simp only: k c zero_less_power zero_less_numeral)
  also have "\<dots> = unat x * unat y div (2 ^ 32 * 2 ^ 32)"
    by (simp only: u div_mult_mod_eq)
  finally show ?thesis
    by (simp only: mulUnsignedManual_def Let_def d [symmetric] c_def [symmetric] k_def [symmetric] fst_conv)
       simp
qed

lemma mulUnsigned_product:
  "unat (fst (mulUnsigned x y)) = unat x * unat y div 2 ^ 64"
  "unat (snd (mulUnsigned x y)) = unat x * unat y mod 2 ^ 64"
proof -
  have lt: "unat x * unat y < 2 ^ 64 * 2 ^ 64"
    using unat_u64_lt [of x] unat_u64_lt [of y] by (intro mult_strict_mono) auto
  let ?p = "(ucast x :: 128 word) * ucast y"
  have p: "unat ?p = unat x * unat y"
    using lt unat_u64_lt [of x] unat_u64_lt [of y]
    by (simp add: unat_word_ariths unsigned_ucast_eq take_bit_eq_mod)
  have low: "unat (ucast w :: u64) = unat w mod 2 ^ 64" for w :: "128 word"
    by (simp add: unsigned_ucast_eq unsigned_take_bit_eq) (simp add: take_bit_eq_mod)
  show "unat (fst (mulUnsigned x y)) = unat x * unat y div 2 ^ 64"
    using lt by (simp only: mulUnsigned_def Let_def fst_conv low unat_drop_bit_word p)
      (simp add: less_mult_imp_div_less)
  show "unat (snd (mulUnsigned x y)) = unat x * unat y mod 2 ^ 64"
    by (simp only: mulUnsigned_def Let_def snd_conv low p)
qed

lemma mulUnsignedManual_mulUnsigned: "mulUnsignedManual x y = mulUnsigned x y"
proof (rule prod_eqI)
  show "fst (mulUnsignedManual x y) = fst (mulUnsigned x y)"
    by (simp add: word_unat_eq_iff fst_mulUnsignedManual mulUnsigned_product)
  show "snd (mulUnsignedManual x y) = snd (mulUnsigned x y)"
    by (simp add: word_unat_eq_iff mulUnsigned_product)
       (simp add: mulUnsignedManual_def Let_def unat_word_ariths)
qed

lemma uint_minus_push64:
  "uint (P - push_bit 64 Q) = take_bit 128 (uint P - uint (Q :: 128 word) * 2 ^ 64)"
  by (simp add: uint_word_ariths take_bit_eq_mod push_bit_eq_mult mod_simps)

lemma lo64_minus: "(ucast (P - push_bit 64 Q) :: u64) = ucast (P :: 128 word)"
proof -
  have "take_bit 64 (uint P - uint Q * 2 ^ 64) = take_bit 64 (uint P)"
    unfolding take_bit_eq_mod by (simp add: mod_diff_eq [symmetric])
  then show ?thesis
    by (simp add: word_uint_eq_iff unsigned_ucast_eq uint_minus_push64)
qed

lemma hi64_minus:
  "(ucast (drop_bit 64 (P - push_bit 64 Q)) :: u64) = ucast (drop_bit 64 P) - ucast (Q :: 128 word)"
proof -
  have "drop_bit 64 (uint (P - push_bit 64 Q)) = take_bit 64 (drop_bit 64 (uint P - uint Q * 2 ^ 64))"
    by (simp add: drop_bit_take_bit uint_minus_push64)
  also have "drop_bit 64 (uint P - uint Q * 2 ^ 64) = drop_bit 64 (uint P) - uint Q"
    by (simp add: drop_bit_eq_div)
  finally have e: "drop_bit 64 (uint (P - push_bit 64 Q)) = take_bit 64 (drop_bit 64 (uint P) - uint Q)" .
  have ud: "uint (drop_bit 64 W) = drop_bit 64 (uint W)" for W :: "128 word"
    using unsigned_take_bit_eq [of 128 W, where 'a = int] take_bit_length_eq [of W]
    by (simp add: unsigned_drop_bit_eq)
  have u: "uint (ucast (drop_bit 64 W) :: u64) = take_bit 64 (drop_bit 64 (uint W))" for W :: "128 word"
    by (simp add: unsigned_ucast_eq unsigned_drop_bit_eq drop_bit_take_bit)
  have "uint (ucast (drop_bit 64 P) - ucast Q :: u64) = take_bit 64 (drop_bit 64 (uint P) - uint Q)"
    by (simp add: uint_word_ariths u unsigned_ucast_eq)
       (simp add: take_bit_eq_mod mod_simps ud)
  with e u [of "P - push_bit 64 Q"] show ?thesis
    by (simp add: word_uint_eq_iff)
qed

lemma take_bit_add_wider:
  "m \<le> n \<Longrightarrow> take_bit m (take_bit n a + take_bit n b) = take_bit m (a + b :: int)"
  by (metis (no_types) min.absorb1 take_bit_add take_bit_take_bit)

lemma mulSignedManual_mulSigned: "mulSignedManual x y = mulSigned x y"
proof -
  define neg where "neg w = (if sint w < 0 then 1 else 0 :: 128 word)" for w :: u64
  have sx: "(scast w :: 128 word) = ucast w - push_bit 64 (neg w)" for w :: u64
  proof -
    have "sint w = uint w - (if sint w < 0 then 2 ^ 64 else 0)"
      using unsigned_take_bit_eq [of 64 w, where 'a = int] take_bit_length_eq [of w]
      by (auto simp: sint_uint signed_take_bit_negative_iff)
         (auto simp: signed_take_bit_eq_take_bit_minus)
    then have "(word_of_int (sint w) :: 128 word) = word_of_int (uint w - (if sint w < 0 then 2 ^ 64 else 0))"
      by simp
    then show ?thesis by (simp add: neg_def push_bit_eq_mult split: if_splits)
  qed
  define Q where "Q = neg x * ucast y + neg y * ucast x"
  have prod: "(scast x :: 128 word) * scast y = ucast x * ucast y - push_bit 64 Q"
  proof -
    have z: "(340282366920938463463374607431768211456 :: 128 word) = 0"
    proof -
      have "(340282366920938463463374607431768211456 :: 128 word) = 2 ^ 128" by simp
      also have "\<dots> = 0" by (simp only: exp_eq_zero_iff) simp
      finally show ?thesis .
    qed
    show ?thesis by (simp only: sx Q_def push_bit_eq_mult) (simp add: algebra_simps z)
  qed
  have "(ucast (signed_drop_bit 64 W) :: u64) = ucast (drop_bit 64 W)" for W :: "128 word"
    by (rule word64_eqI) (simp add: bit_simps)
  with prod have "fst (mulSigned x y) = ucast (drop_bit 64 (ucast x * ucast y :: 128 word)) - ucast Q"
    by (simp only: mulSigned_def Let_def fst_conv hi64_minus)
  moreover have "(ucast Q :: u64) = (if sint x < 0 then y else 0) + (if sint y < 0 then x else 0)"
  proof -
    have "(ucast (ucast w :: 128 word) :: u64) = w" for w
      by (rule word64_eqI) (simp add: bit_simps)
    moreover have "(ucast (a + b) :: u64) = ucast a + ucast b" for a b :: "128 word"
      by transfer (simp add: take_bit_add_wider)
    ultimately show ?thesis by (simp add: Q_def neg_def)
  qed
  moreover have "snd (mulSigned x y) = snd (mulUnsigned x y)"
    by (simp only: mulSigned_def mulUnsigned_def Let_def snd_conv prod lo64_minus)
  ultimately show ?thesis
    by (cases "mulUnsigned x y") (auto simp: mulSignedManual_def mulUnsigned_def Let_def prod_eq_iff)
qed

lemma floorLog2_bounds:
  assumes "ts \<in> {1, 2, 4, 8}" "0 < x" "x < 2 ^ (8 * ts)"
  shows "\<exists>y. floorLog2 ts x = Inr y \<and> 2 ^ y \<le> x \<and> x < 2 ^ (y + 1)"
proof -
  define u :: u64 where "u = word_of_int x"
  have le: "(2 :: int) ^ (8 * ts) \<le> 2 ^ 64" using assms(1) by auto
  then have x: "int (unat u) = x"
    using assms by (simp add: u_def uint_word_of_int)
  then have nz: "u \<noteq> 0" using assms(2) by auto
  have "unat u < 2 ^ (8 * ts)" using x assms(3) by (simp flip: of_nat_less_iff [where 'a = int])
  then have "floorLog2 ts x = Inr (findMsbSet u)"
    using floorLog2_u_findMsbSet [OF assms(1) _ nz] assms
    by (simp add: floorLog2_def take_bit_int_eq_self u_def)
  moreover have "2 ^ findMsbSet u \<le> x \<and> x < 2 ^ (findMsbSet u + 1)"
    using unat_findMsbSet_bounds(1,2) [OF nz] x
    by (metis of_nat_le_iff of_nat_less_iff of_nat_numeral of_nat_power)
  ultimately show ?thesis by blast
qed

lemma ceilLog2_least:
  assumes "ts \<in> {1, 2, 4, 8}" "0 < x" "x < 2 ^ (8 * ts)"
  shows "\<exists>z. ceilLog2 ts x = Inr z \<and> x \<le> 2 ^ z \<and> (\<forall>j. x \<le> 2 ^ j \<longrightarrow> z \<le> j)"
proof (cases "x = 1")
  case False
  have le: "(2 :: int) ^ (8 * ts) \<le> 2 ^ (8 * max ts 4)" by simp
  have "max ts 4 \<in> {1, 2, 4, 8}" using assms(1) by auto
  then obtain y where y: "floorLog2 (max ts 4) (x - 1) = Inr y" "2 ^ y \<le> x - 1" "x - 1 < 2 ^ (y + 1)"
    using floorLog2_bounds [of "max ts 4" "x - 1"] assms False le by fastforce
  have "y + 1 \<le> j" if "x \<le> 2 ^ j" for j
  proof -
    have "(2 :: int) ^ y < 2 ^ j" using y(2) that by linarith
    then show ?thesis by (simp add: Suc_le_eq)
  qed
  with y False assms(2) show ?thesis by (auto simp: ceilLog2_def)
qed (auto simp: ceilLog2_def)

section \<open>Properties\<close>

text \<open>
  \<^verbatim>\<open>floorLog2\<close> and \<^verbatim>\<open>ceilLog2\<close> compute the base-2 logarithm rounded down and up
  for every positive argument of an integer type of 1, 2, 4 or 8 bytes.
\<close>

theorem log2_correct:
  assumes "ts \<in> {1, 2, 4, 8}" and "0 < x" and "x < 2 ^ (8 * ts)"
  shows "(\<exists>y. floorLog2 ts x = Inr y \<and> 2 ^ y \<le> x \<and> x < 2 ^ (y + 1)) \<and>
    (\<exists>z. ceilLog2 ts x = Inr z \<and> x \<le> 2 ^ z \<and> (\<forall>j. x \<le> 2 ^ j \<longrightarrow> z \<le> j))"
  using floorLog2_bounds [OF assms] ceilLog2_least [OF assms] by blast

theorem log2_correct_witness:
  "(\<exists>y. floorLog2 2 1000 = Inr y \<and> 2 ^ y \<le> (1000 :: int) \<and> 1000 < (2 :: int) ^ (y + 1)) \<and>
   (\<exists>z. ceilLog2 2 1000 = Inr z \<and> 1000 \<le> (2 :: int) ^ z)"
  using log2_correct [of 2 1000] by auto

text \<open>
  C33. The manual 64-bit multiplications (unsigned with hand-carried partial products,
  signed by correcting the unsigned high word) agree with the 128-bit ones on all
  inputs, and the two result words spell the exact product.
\<close>

theorem mul_manual_exact:
  "mulUnsignedManual x y = mulUnsigned x y \<and>
   mulSignedManual x y = mulSigned x y \<and>
   unat (fst (mulUnsignedManual x y)) * 2 ^ 64 + unat (snd (mulUnsignedManual x y)) = unat x * unat y"
  by (simp add: mulUnsignedManual_mulUnsigned mulSignedManual_mulSigned mulUnsigned_product
      div_mult_mod_eq del: power_numeral)

text \<open>
  Rounding an address to a power-of-two alignment: \<^verbatim>\<open>roundDown\<close> gives the
  greatest multiple not above the value, \<^verbatim>\<open>roundUp\<close> the least multiple not below
  it whenever that sum does not leave 64 bits, and an alignment that is not a power
  of two fails the assertion.
\<close>

theorem round_align_correct:
  assumes "unat v + (unat al - 1) < 2 ^ 64"
  shows "if isPowerOf2 al
    then (\<exists>d u. roundDown v al = Inr d \<and> roundUp v al = Inr u \<and>
        unat al dvd unat d \<and> unat d \<le> unat v \<and> unat v < unat d + unat al \<and>
        unat al dvd unat u \<and> unat v \<le> unat u \<and> unat u < unat v + unat al)
    else roundDown v al = Inl Assert_Failed \<and> roundUp v al = Inl Assert_Failed"
proof (cases "isPowerOf2 al")
  case True
  then obtain k where k: "k < 64" "al = 2 ^ k" by (auto simp: isPowerOf2_iff)
  then have u: "unat al = 2 ^ k" by (simp add: unat_pow2)
  obtain d where d: "roundDown v al = Inr d" "unat d = unat v div 2 ^ k * 2 ^ k"
    using roundDown_pow2 [OF k(1), of v] k(2) by blast
  obtain r where r: "roundUp v al = Inr r" "unat r = (unat v + (2 ^ k - 1)) div 2 ^ k * 2 ^ k"
    using roundUp_pow2 [OF k(1), of v] k(2) assms u by auto
  define p :: nat where "p = 2 ^ k"
  have p: "0 < p" by (simp add: p_def)
  have fl: "n div p * p \<le> n \<and> n < n div p * p + p" for n
    using div_times_less_eq_dividend [of n p] dividend_less_div_times [OF p, of n] by simp
  from fl [of "unat v"] fl [of "unat v + (p - 1)"] p
  have "unat v div p * p \<le> unat v" "unat v < unat v div p * p + p"
    "unat v \<le> (unat v + (p - 1)) div p * p" "(unat v + (p - 1)) div p * p < unat v + p"
    by linarith+
  then show ?thesis
    using True d r by (simp add: u p_def)
qed (simp add: roundDown_def roundUp_def)

theorem round_align_correct_witness:
  "(\<exists>d u. roundDown 0x1234 0x100 = Inr d \<and> roundUp 0x1234 0x100 = Inr u \<and>
      256 dvd unat d \<and> unat d \<le> 0x1234 \<and> 0x1234 < unat d + 256 \<and>
      256 dvd unat u \<and> 0x1234 \<le> unat u \<and> unat u < 0x1234 + 256) \<and>
   roundUp 0x1234 0x101 = Inl Assert_Failed"
  using round_align_correct [of "0x1234" "0x100"] round_align_correct [of "0x1234" "0x101"]
  by (simp add: isPowerOf2_def)

end
