(* ===== verification/AddrRange.thy ===== *)
theory AddrRange
  imports Intmath
begin

text \<open>
  Address ranges, \<^verbatim>\<open>base/addr_range.hh\<close>. A range is a half-open interval
  \<open>[start, end)\<close> of 64-bit addresses and, when \<open>masks\<close> is not empty, an interleaving:
  the parity of the address under each mask is one bit of a selector that must equal
  \<open>intlvMatch\<close>. Integer widths are the source's: \<^verbatim>\<open>granularity\<close> accumulates the masks
  in an \<^verbatim>\<open>int\<close>, \<^verbatim>\<open>removeIntlvBits\<close> computes positions in unsigned 32-bit arithmetic
  and \<^verbatim>\<open>addIntlvBits\<close> builds its mask with an \<^verbatim>\<open>int\<close> shift.
\<close>

section \<open>The class and its constructors\<close>

record addr_range =
  ar_start :: addr
  ar_end :: addr
  masks :: "addr list"
  intlvMatch :: u8

definition AddrRange_empty :: addr_range where
  "AddrRange_empty = \<lparr>ar_start = 1, ar_end = 0, masks = [], intlvMatch = 0\<rparr>"

definition AddrRange_plain :: "addr \<Rightarrow> addr \<Rightarrow> addr_range" where
  "AddrRange_plain s e = \<lparr>ar_start = s, ar_end = e, masks = [], intlvMatch = 0\<rparr>"

definition AddrRange_masks :: "addr \<Rightarrow> addr \<Rightarrow> addr list \<Rightarrow> u8 \<Rightarrow> addr_range outcome" where
  "AddrRange_masks s e ms m =
     check (\<not> (ms \<noteq> [] \<and> unat m \<ge> 2 ^ length ms)) Fatal
       (Inr \<lparr>ar_start = s, ar_end = e, masks = ms, intlvMatch = m\<rparr>)"

text \<open>
  The loop of the legacy constructor fills \<^verbatim>\<open>masks[_intlv_bits - i - 1]\<close> for
  \<open>i = 0, 1, \<dots>\<close>; the positions are \<^verbatim>\<open>uint8_t\<close>, so they wrap, and a shift by 64 or
  more is undefined.
\<close>

fun legacy_masks :: "u8 \<Rightarrow> u8 \<Rightarrow> nat \<Rightarrow> nat \<Rightarrow> addr list \<Rightarrow> addr list outcome" where
  "legacy_masks hi xhi n 0 ms = Inr ms"
| "legacy_masks hi xhi n (Suc k) ms =
     (let i = n - Suc k;
          bit1 = hi - of_nat i;
          bit2 = xhi - of_nat i
      in check (unat bit1 < 64) Undefined
           (check (xhi = 0 \<or> unat bit2 < 64) Undefined
             (let m = push_bit (unat bit1) 1;
                  m = (if xhi \<noteq> 0 then m OR push_bit (unat bit2) 1 else m)
              in legacy_masks hi xhi n k (ms[n - i - 1 := m]))))"

definition AddrRange_legacy :: "addr \<Rightarrow> addr \<Rightarrow> u8 \<Rightarrow> u8 \<Rightarrow> u8 \<Rightarrow> u8 \<Rightarrow> addr_range outcome" where
  "AddrRange_legacy s e hi xhi nb m =
     check (\<not> (nb \<noteq> 0 \<and> unat m \<ge> 2 ^ unat nb)) Fatal
      (check (\<not> (nb \<noteq> 0 \<and> xhi \<noteq> 0 \<and> xhi = hi)) Fatal
       (check (\<not> (nb \<noteq> 0 \<and> xhi \<noteq> 0 \<and> xhi > hi \<and> unat xhi - unat hi < unat nb)) Fatal
        (check (\<not> (nb \<noteq> 0 \<and> xhi \<noteq> 0 \<and> xhi < hi \<and> unat hi - unat xhi < unat nb)) Fatal
         (obind (legacy_masks hi xhi (unat nb) (unat nb) (replicate (unat nb) 0))
           (\<lambda>ms. Inr \<lparr>ar_start = s, ar_end = e, masks = ms, intlvMatch = m\<rparr>)))))"

definition RangeEx :: "addr \<Rightarrow> addr \<Rightarrow> addr_range" where
  "RangeEx s e = AddrRange_plain s e"

definition RangeIn :: "addr \<Rightarrow> addr \<Rightarrow> addr_range" where
  "RangeIn s e = AddrRange_plain s (e + 1)"

definition RangeSize :: "addr \<Rightarrow> addr \<Rightarrow> addr_range" where
  "RangeSize s n = AddrRange_plain s (s + n)"

section \<open>Queries\<close>

definition interleaved :: "addr_range \<Rightarrow> bool" where
  "interleaved r \<longleftrightarrow> length (masks r) > 0"

definition ar_size :: "addr_range \<Rightarrow> addr" where
  "ar_size r = drop_bit (length (masks r)) (ar_end r - ar_start r)"

definition stripes :: "addr_range \<Rightarrow> u32" where
  "stripes r = ucast (push_bit (length (masks r)) 1 :: u64)"

definition combined_mask :: "addr list \<Rightarrow> u32" where
  "combined_mask ms = fold (\<lambda>m c. ucast ((scast c :: u64) OR m)) ms 0"

definition granularity :: "addr_range \<Rightarrow> u64 outcome" where
  "granularity r =
     (if interleaved r
      then let lowest_bit = ctz64 (scast (combined_mask (masks r)))
           in check (lowest_bit < 64) Undefined (Inr (push_bit lowest_bit 1))
      else Inr (ar_size r))"

definition valid :: "addr_range \<Rightarrow> bool" where
  "valid r \<longleftrightarrow> ar_start r \<le> ar_end r"

definition mergesWith :: "addr_range \<Rightarrow> addr_range \<Rightarrow> bool" where
  "mergesWith t r \<longleftrightarrow> ar_start r = ar_start t \<and> ar_end r = ar_end t \<and> masks r = masks t"

fun sel_loop :: "addr \<Rightarrow> nat \<Rightarrow> addr list \<Rightarrow> int \<Rightarrow> int" where
  "sel_loop a i [] sel = sel"
| "sel_loop a i (m # ms) sel =
     sel_loop a (Suc i) ms (sel OR push_bit i (int (popCount (a AND m) mod 2)))"

definition contains :: "addr_range \<Rightarrow> addr \<Rightarrow> bool" where
  "contains r a \<longleftrightarrow>
     (if ar_start r \<le> a \<and> a < ar_end r
      then sel_loop a 0 (masks r) 0 = uint (intlvMatch r)
      else False)"

definition intersects :: "addr_range \<Rightarrow> addr_range \<Rightarrow> bool outcome" where
  "intersects t r =
     (if ar_start t \<ge> ar_end r \<or> ar_end t \<le> ar_start r then Inr False
      else if \<not> interleaved t \<and> \<not> interleaved r then Inr True
      else if ar_size r = 1 then Inr (contains t (ar_start r))
      else if mergesWith t r then Inr (intlvMatch t = intlvMatch r)
      else Inl Panic)"

definition isSubset :: "addr_range \<Rightarrow> addr_range \<Rightarrow> bool outcome" where
  "isSubset t r =
     (if interleaved t then Inl Panic
      else if interleaved r then
        (if contains r (ar_start t) \<and> contains r (ar_end t - 1)
         then obind (granularity r) (\<lambda>g. Inr (ar_size t \<le> g))
         else Inr False)
      else if ar_end t \<le> ar_start t then Inr (ar_start t \<ge> ar_start r \<and> ar_end r = 0)
      else if ar_end r \<le> ar_start r then Inr (ar_start t \<ge> ar_start r)
      else Inr (ar_start t \<ge> ar_start r \<and> ar_end t \<le> ar_end r))"

definition ar_less :: "addr_range \<Rightarrow> addr_range \<Rightarrow> bool" where
  "ar_less t r =
     (if ar_start t \<noteq> ar_start r then ar_start t < ar_start r
      else if interleaved t \<and> interleaved r then intlvMatch t < intlvMatch r
      else interleaved t)"

definition ar_equal :: "addr_range \<Rightarrow> addr_range \<Rightarrow> bool" where
  "ar_equal t r =
     (if ar_start t \<noteq> ar_start r then False
      else if ar_end t \<noteq> ar_end r then False
      else if masks t \<noteq> masks r then False
      else if intlvMatch t \<noteq> intlvMatch r then False
      else True)"

definition ar_intersection :: "addr_range \<Rightarrow> addr_range \<Rightarrow> addr_range outcome" where
  "ar_intersection t r =
     check (\<not> (interleaved t \<or> interleaved r)) Panic
       (let s = max (ar_start t) (ar_start r); e = min (ar_end t) (ar_end r)
        in Inr (if e \<le> s then AddrRange_plain 0 0 else AddrRange_plain s e))"

section \<open>Merging interleaved ranges\<close>

fun merge_check :: "addr_range \<Rightarrow> u8 \<Rightarrow> addr_range list \<Rightarrow> unit outcome" where
  "merge_check t match [] = Inr ()"
| "merge_check t match (r # rs) =
     check (mergesWith t r) Fatal
       (check (intlvMatch r = match) Fatal (merge_check t (match + 1) rs))"

definition AddrRange_merge :: "addr_range list \<Rightarrow> addr_range outcome" where
  "AddrRange_merge rs =
     (let t = (case rs of [] \<Rightarrow> AddrRange_empty | r # _ \<Rightarrow> r)
      in if length rs > 1
         then check (length rs = 2 ^ length (masks t)) Fatal
                (obind (merge_check t 0 rs) (\<lambda>_. Inr (t\<lparr>masks := [], intlvMatch := 0\<rparr>)))
         else Inr t)"

section \<open>Removing and adding the interleaving bits\<close>

definition masks_lsb :: "addr list \<Rightarrow> nat list" where
  "masks_lsb ms = sort (map ctz64 ms)"

fun remove_loop :: "nat \<Rightarrow> nat list \<Rightarrow> addr \<Rightarrow> addr" where
  "remove_loop i [] a = a"
| "remove_loop i (intlv_bit # ls) a =
     remove_loop (Suc i) ls
       (if intlv_bit > 0
        then insertBits (drop_bit 1 a) (unat (of_nat intlv_bit - of_nat i - 1 :: u32)) 0 a
        else drop_bit 1 a)"

definition removeIntlvBits :: "addr_range \<Rightarrow> addr \<Rightarrow> addr" where
  "removeIntlvBits r a =
     (if \<not> interleaved r then a else remove_loop 0 (masks_lsb (masks r)) a)"

fun add_loop :: "nat list \<Rightarrow> addr \<Rightarrow> addr" where
  "add_loop [] a = a"
| "add_loop (intlv_bit # ls) a =
     add_loop ls
       (if intlv_bit > 0 then insertBits (push_bit 1 a) (intlv_bit - 1) 0 a else push_bit 1 a)"

fun select_loop :: "u8 \<Rightarrow> nat \<Rightarrow> addr list \<Rightarrow> addr \<Rightarrow> addr outcome" where
  "select_loop match i [] a = Inr a"
| "select_loop match i (m # ms) a =
     (let lsb = ctz64 m
      in check (lsb < 32) Undefined
          (let intlv_bit = bits (ucast match) i i;
               masked = a AND m AND scast (NOT (push_bit lsb 1 :: u32))
           in select_loop match (Suc i) ms
                (insertBits1 a lsb (intlv_bit XOR of_nat (popCount masked)))))"

definition addIntlvBits :: "addr_range \<Rightarrow> addr \<Rightarrow> addr outcome" where
  "addIntlvBits r a =
     (if \<not> interleaved r then Inr a
      else select_loop (intlvMatch r) 0 (masks r) (add_loop (masks_lsb (masks r)) a))"

definition getOffset :: "addr_range \<Rightarrow> addr \<Rightarrow> addr" where
  "getOffset r a =
     (if \<not> (ar_start r \<le> a \<and> a < ar_end r) then - 1
      else if interleaved r then removeIntlvBits r a - removeIntlvBits r (ar_start r)
      else a - ar_start r)"

section \<open>Excluding ranges\<close>

text \<open>\<^verbatim>\<open>std::list::sort\<close> is a stable sort by \<^verbatim>\<open>operator<\<close>.\<close>

fun insort_ar :: "addr_range \<Rightarrow> addr_range list \<Rightarrow> addr_range list" where
  "insort_ar x [] = [x]"
| "insort_ar x (y # ys) = (if ar_less y x then y # insort_ar x ys else x # y # ys)"

definition sort_ar :: "addr_range list \<Rightarrow> addr_range list" where
  "sort_ar rs = foldr insort_ar rs []"

fun exclude_loop :: "addr_range \<Rightarrow> addr_range list \<Rightarrow> addr \<Rightarrow> addr_range list \<Rightarrow> addr_range list outcome" where
  "exclude_loop t [] next_start ranges =
     Inr (if next_start < ar_end t then ranges @ [AddrRange_plain next_start (ar_end t)] else ranges)"
| "exclude_loop t (e # es) next_start ranges =
     check (\<not> interleaved e) Assert_Failed
      (obind (intersects t e) (\<lambda>hit.
        if \<not> hit then exclude_loop t es next_start ranges
        else if ar_start e \<le> next_start then
          (if ar_end e < ar_end t
           then exclude_loop t es (if next_start < ar_end e then ar_end e else next_start) ranges
           else Inr ranges)
        else
          (let ranges = ranges @ [AddrRange_plain next_start (ar_start e)]
           in if ar_end e < ar_end t then exclude_loop t es (ar_end e) ranges else Inr ranges)))"

definition ar_exclude :: "addr_range \<Rightarrow> addr_range list \<Rightarrow> addr_range list outcome" where
  "ar_exclude t exclude_ranges =
     check (\<not> interleaved t) Assert_Failed
       (exclude_loop t (sort_ar exclude_ranges) (ar_start t) [])"

definition ar_exclude1 :: "addr_range \<Rightarrow> addr_range \<Rightarrow> addr_range list outcome" where
  "ar_exclude1 t e = ar_exclude t [e]"

fun exclude_bases :: "addr_range list \<Rightarrow> addr_range list \<Rightarrow> addr_range list \<Rightarrow> addr_range list outcome" where
  "exclude_bases [] ex ret = Inr ret"
| "exclude_bases (r # rs) ex ret =
     obind (ar_exclude r ex) (\<lambda>xs. exclude_bases rs ex (ret @ xs))"

definition exclude_list :: "addr_range list \<Rightarrow> addr_range list \<Rightarrow> addr_range list outcome" where
  "exclude_list base to_exclude = exclude_bases base (sort_ar to_exclude) []"

section \<open>What a range contains\<close>

definition in_bounds :: "addr_range \<Rightarrow> addr \<Rightarrow> bool" where
  "in_bounds r a \<longleftrightarrow> ar_start r \<le> a \<and> a < ar_end r"

definition ar_wf :: "addr_range \<Rightarrow> bool" where
  "ar_wf r \<longleftrightarrow> length (masks r) \<le> 8 \<and> unat (intlvMatch r) < 2 ^ length (masks r)"

definition parity :: "addr \<Rightarrow> addr \<Rightarrow> bool" where
  "parity a m \<longleftrightarrow> odd (popCount (a AND m))"

lemma popCount_card: "popCount w = card {i. bit w i}"
proof -
  have "set (filter (bit w) [0..<64]) = {i. bit w i}"
    by (auto dest: bit_u64_lt)
  then show ?thesis
    by (metis popCount_def distinct_card distinct_filter distinct_upt)
qed

lemma bit_sel_loop:
  "bit (sel_loop a i ms sel) n \<longleftrightarrow>
     bit sel n \<or> (i \<le> n \<and> n < i + length ms \<and> parity a (ms ! (n - i)))"
proof (induction ms arbitrary: i sel)
  case (Cons m ms)
  have "bit (push_bit i (int (popCount (a AND m) mod 2))) n \<longleftrightarrow> n = i \<and> parity a m"
    by (auto simp: bit_push_bit_iff parity_def mod_2_eq_odd bit_1_iff)
  then show ?case
    by (auto simp: Cons.IH bit_or_iff nth_Cons' Suc_le_eq)
qed auto

lemma contains_iff:
  "contains r a \<longleftrightarrow> in_bounds r a \<and>
     (\<forall>n. bit (intlvMatch r) n \<longleftrightarrow> n < length (masks r) \<and> parity a (masks r ! n))"
proof -
  have u: "bit (uint w) n = bit w n" for w :: u8 and n
    using bit_imp_le_length [of w n] by (auto simp: bit_uint_iff)
  have "sel_loop a 0 (masks r) 0 = uint (intlvMatch r) \<longleftrightarrow>
      (\<forall>n. bit (sel_loop a 0 (masks r) 0) n = bit (uint (intlvMatch r)) n)"
    by (metis bit_eqI)
  also have "\<dots> \<longleftrightarrow> (\<forall>n. bit (intlvMatch r) n \<longleftrightarrow> n < length (masks r) \<and> parity a (masks r ! n))"
    by (simp only: bit_sel_loop u) auto
  finally show ?thesis by (simp only: contains_def in_bounds_def if_bool_eq_conj) blast
qed

lemma contains_bounds: "contains r a \<Longrightarrow> in_bounds r a"
  by (simp only: contains_iff)

lemma interleaved_iff [simp]: "interleaved r \<longleftrightarrow> masks r \<noteq> []"
  by (simp add: interleaved_def)

lemma ar_wf_plain: "ar_wf r \<Longrightarrow> masks r = [] \<Longrightarrow> intlvMatch r = 0"
  by (simp add: ar_wf_def unat_eq_0)

lemma contains_plain: "ar_wf r \<Longrightarrow> \<not> interleaved r \<Longrightarrow> contains r a \<longleftrightarrow> in_bounds r a"
  by (simp add: contains_def in_bounds_def ar_wf_plain)

lemma contains_AddrRange_plain [simp]: "contains (AddrRange_plain s e) a \<longleftrightarrow> s \<le> a \<and> a < e"
  by (simp add: contains_def AddrRange_plain_def)

lemma AddrRange_plain_simps [simp]:
  "ar_start (AddrRange_plain s e) = s" "ar_end (AddrRange_plain s e) = e"
  "masks (AddrRange_plain s e) = []"
  by (simp_all add: AddrRange_plain_def)

section \<open>Excluding ranges\<close>

lemma set_insort_ar [simp]: "set (insort_ar x ys) = insert x (set ys)"
  by (induction ys) auto

lemma set_sort_ar [simp]: "set (sort_ar rs) = set rs"
  by (induction rs) (auto simp: sort_ar_def)

lemma ar_less_start: "ar_less y x \<Longrightarrow> ar_start y \<le> ar_start x" "\<not> ar_less y x \<Longrightarrow> ar_start x \<le> ar_start y"
  by (auto simp: ar_less_def split: if_splits)

abbreviation starts_sorted :: "addr_range list \<Rightarrow> bool" where
  "starts_sorted \<equiv> sorted_wrt (\<lambda>x y. ar_start x \<le> ar_start y)"

lemma sorted_insort_ar: "starts_sorted ys \<Longrightarrow> starts_sorted (insort_ar x ys)"
  by (induction ys) (auto dest: ar_less_start intro: order.trans)

lemma sorted_sort_ar: "starts_sorted (sort_ar rs)"
  by (induction rs) (auto simp: sort_ar_def sorted_insort_ar)

definition excludable :: "addr_range \<Rightarrow> bool" where
  "excludable e \<longleftrightarrow> \<not> interleaved e \<and> ar_wf e \<and> valid e"

abbreviation ordered_disjoint :: "addr_range list \<Rightarrow> bool" where
  "ordered_disjoint \<equiv> sorted_wrt (\<lambda>x y. ar_end x \<le> ar_start y)"

declare exclude_loop.simps(2) [simp del]

lemma exclude_loop_correct:
  assumes "\<not> interleaved t" "\<forall>e \<in> set es. excludable e" "starts_sorted es" "ar_start t \<le> ns"
    "ordered_disjoint acc" "\<forall>r \<in> set acc. ar_end r \<le> ns"
  shows "\<exists>rs. exclude_loop t es ns acc = Inr rs \<and> ordered_disjoint rs \<and>
    (\<forall>a. (\<exists>r \<in> set rs. contains r a) \<longleftrightarrow>
      (\<exists>r \<in> set acc. contains r a) \<or>
      (ns \<le> a \<and> a < ar_end t \<and> \<not> (\<exists>e \<in> set es. in_bounds e a)))"
  using assms
proof (induction es arbitrary: ns acc)
  case Nil
  then show ?case by (auto simp: sorted_wrt_snoc)
next
  case (Cons e es)
  then have e: "masks e = []" "valid e" "\<forall>x \<in> set es. ar_start e \<le> ar_start x"
    "\<forall>x \<in> set es. excludable x" "starts_sorted es"
    by (auto simp: excludable_def)
  have step: "exclude_loop t (e # es) ns acc =
    (if ar_start t \<ge> ar_end e \<or> ar_end t \<le> ar_start e then exclude_loop t es ns acc
     else if ar_start e \<le> ns
       then (if ar_end e < ar_end t
             then exclude_loop t es (if ns < ar_end e then ar_end e else ns) acc else Inr acc)
       else (if ar_end e < ar_end t
             then exclude_loop t es (ar_end e) (acc @ [AddrRange_plain ns (ar_start e)])
             else Inr (acc @ [AddrRange_plain ns (ar_start e)])))"
    using Cons.prems(1) e(1) by (simp add: exclude_loop.simps(2) intersects_def)
  consider (miss) "ar_start t \<ge> ar_end e \<or> ar_end t \<le> ar_start e"
    | (low) "\<not> (ar_start t \<ge> ar_end e \<or> ar_end t \<le> ar_start e)" "ar_start e \<le> ns" "ar_end e < ar_end t"
    | (lowend) "\<not> (ar_start t \<ge> ar_end e \<or> ar_end t \<le> ar_start e)" "ar_start e \<le> ns" "\<not> ar_end e < ar_end t"
    | (high) "\<not> (ar_start t \<ge> ar_end e \<or> ar_end t \<le> ar_start e)" "\<not> ar_start e \<le> ns" "ar_end e < ar_end t"
    | (highend) "\<not> (ar_start t \<ge> ar_end e \<or> ar_end t \<le> ar_start e)" "\<not> ar_start e \<le> ns" "\<not> ar_end e < ar_end t"
    by blast
  then show ?case
  proof cases
    case miss
    from Cons.IH [OF Cons.prems(1) e(4,5) Cons.prems(4,5,6)] obtain rs where
      rs: "exclude_loop t es ns acc = Inr rs" "ordered_disjoint rs"
      "\<And>a. (\<exists>r \<in> set rs. contains r a) \<longleftrightarrow> (\<exists>r \<in> set acc. contains r a) \<or>
        (ns \<le> a \<and> a < ar_end t \<and> \<not> (\<exists>e \<in> set es. in_bounds e a))" by blast
    have "\<not> in_bounds e a" if "ns \<le> a" "a < ar_end t" for a
      using miss that Cons.prems(4) by (auto simp: in_bounds_def)
    with rs(3) have "\<forall>a. (\<exists>r \<in> set rs. contains r a) \<longleftrightarrow> (\<exists>r \<in> set acc. contains r a) \<or>
        (ns \<le> a \<and> a < ar_end t \<and> \<not> (\<exists>e \<in> set (e # es). in_bounds e a))" by auto
    with rs(1,2) show ?thesis by (simp only: step miss if_True) blast
  next
    case low
    let ?ns = "if ns < ar_end e then ar_end e else ns"
    have "ar_start t \<le> ?ns" "\<forall>r \<in> set acc. ar_end r \<le> ?ns"
      using Cons.prems(4,6) by (auto intro: order.trans)
    from Cons.IH [OF Cons.prems(1) e(4,5) this(1) Cons.prems(5) this(2)] obtain rs where
      rs: "exclude_loop t es ?ns acc = Inr rs" "ordered_disjoint rs"
      "\<And>a. (\<exists>r \<in> set rs. contains r a) \<longleftrightarrow> (\<exists>r \<in> set acc. contains r a) \<or>
        (?ns \<le> a \<and> a < ar_end t \<and> \<not> (\<exists>e \<in> set es. in_bounds e a))" by blast
    have "?ns \<le> a \<longleftrightarrow> ns \<le> a \<and> \<not> in_bounds e a" for a
      using low by (auto simp: in_bounds_def)
    with rs(3) have "\<forall>a. (\<exists>r \<in> set rs. contains r a) \<longleftrightarrow> (\<exists>r \<in> set acc. contains r a) \<or>
        (ns \<le> a \<and> a < ar_end t \<and> \<not> (\<exists>e \<in> set (e # es). in_bounds e a))" by auto
    with rs(1,2) show ?thesis by (simp only: step low if_False if_True) blast
  next
    case lowend
    have "in_bounds e a" if "ns \<le> a" "a < ar_end t" for a
      using lowend that by (auto simp: in_bounds_def)
    then have "\<forall>a. (\<exists>r \<in> set acc. contains r a) \<longleftrightarrow> (\<exists>r \<in> set acc. contains r a) \<or>
        (ns \<le> a \<and> a < ar_end t \<and> \<not> (\<exists>e \<in> set (e # es). in_bounds e a))" by auto
    with Cons.prems(5) show ?thesis by (simp only: step lowend if_False if_True) blast
  next
    case high
    let ?acc = "acc @ [AddrRange_plain ns (ar_start e)]"
    have se: "ar_start e \<le> ar_end e" using e(2) by (simp add: valid_def)
    with high Cons.prems(4-6) have p: "ar_start t \<le> ar_end e" "ordered_disjoint ?acc"
      "\<forall>r \<in> set ?acc. ar_end r \<le> ar_end e"
      by (auto simp: sorted_wrt_snoc)
    from Cons.IH [OF Cons.prems(1) e(4,5) p] obtain rs where
      rs: "exclude_loop t es (ar_end e) ?acc = Inr rs" "ordered_disjoint rs"
      "\<And>a. (\<exists>r \<in> set rs. contains r a) \<longleftrightarrow> (\<exists>r \<in> set ?acc. contains r a) \<or>
        (ar_end e \<le> a \<and> a < ar_end t \<and> \<not> (\<exists>e \<in> set es. in_bounds e a))" by blast
    have "(ns \<le> a \<and> a < ar_start e) \<or> (ar_end e \<le> a \<and> a < ar_end t \<and> \<not> (\<exists>e \<in> set es. in_bounds e a))
      \<longleftrightarrow> ns \<le> a \<and> a < ar_end t \<and> \<not> (\<exists>e' \<in> set (e # es). in_bounds e' a)" for a
    proof (cases "a < ar_start e")
      case True
      then have "\<not> (\<exists>e' \<in> set (e # es). in_bounds e' a)"
        using e(3) by (auto simp: in_bounds_def)
      with True high se show ?thesis by auto
    next
      case False
      with high se show ?thesis by (auto simp: in_bounds_def)
    qed
    with rs(3) have "\<forall>a. (\<exists>r \<in> set rs. contains r a) \<longleftrightarrow> (\<exists>r \<in> set acc. contains r a) \<or>
        (ns \<le> a \<and> a < ar_end t \<and> \<not> (\<exists>e \<in> set (e # es). in_bounds e a))" by auto
    with rs(1,2) show ?thesis by (simp only: step high if_False if_True) blast
  next
    case highend
    have "ns \<le> a \<and> a < ar_start e \<longleftrightarrow> ns \<le> a \<and> a < ar_end t \<and> \<not> (\<exists>e' \<in> set (e # es). in_bounds e' a)" for a
    proof (cases "a < ar_start e")
      case True
      then have "\<not> (\<exists>e' \<in> set (e # es). in_bounds e' a)"
        using e(3) by (auto simp: in_bounds_def)
      with True highend show ?thesis by auto
    next
      case False
      with highend show ?thesis by (auto simp: in_bounds_def)
    qed
    then have "\<forall>a. (\<exists>r \<in> set (acc @ [AddrRange_plain ns (ar_start e)]). contains r a) \<longleftrightarrow>
        (\<exists>r \<in> set acc. contains r a) \<or>
        (ns \<le> a \<and> a < ar_end t \<and> \<not> (\<exists>e \<in> set (e # es). in_bounds e a))" by auto
    moreover have "ordered_disjoint (acc @ [AddrRange_plain ns (ar_start e)])"
      using Cons.prems(5,6) by (auto simp: sorted_wrt_snoc)
    ultimately show ?thesis by (simp only: step highend if_False if_True) blast
  qed
qed

section \<open>Selectors and merging\<close>

definition selector :: "addr \<Rightarrow> addr list \<Rightarrow> u8" where
  "selector a ms = word_of_int (sel_loop a 0 ms 0)"

lemma bit_selector: "length ms \<le> 8 \<Longrightarrow> bit (selector a ms) n \<longleftrightarrow> n < length ms \<and> parity a (ms ! n)"
  by (auto simp: selector_def bit_simps bit_sel_loop)

lemma contains_selector:
  "length (masks r) \<le> 8 \<Longrightarrow>
   contains r a \<longleftrightarrow> in_bounds r a \<and> intlvMatch r = selector a (masks r)"
proof -
  assume "length (masks r) \<le> 8"
  then have "intlvMatch r = selector a (masks r) \<longleftrightarrow>
      (\<forall>n. bit (intlvMatch r) n \<longleftrightarrow> n < length (masks r) \<and> parity a (masks r ! n))"
    by (metis bit_eqI bit_selector)
  then show ?thesis by (simp only: contains_iff)
qed

lemma unat_selector_less: "length ms \<le> 8 \<Longrightarrow> unat (selector a ms) < 2 ^ length ms"
proof -
  assume l: "length ms \<le> 8"
  have "take_bit (length ms) (selector a ms) = selector a ms"
    using l by (intro bit_eqI) (auto simp: bit_simps bit_selector)
  then have "unat (selector a ms) = unat (selector a ms) mod 2 ^ length ms"
    by (metis take_bit_eq_mod unsigned_take_bit_eq)
  then show ?thesis by (metis mod_less_divisor zero_less_numeral zero_less_power)
qed

lemma merge_check_ok:
  "merge_check t m rs = Inr () \<longleftrightarrow>
     (\<forall>j < length rs. mergesWith t (rs ! j) \<and> intlvMatch (rs ! j) = m + of_nat j)"
proof (induction rs arbitrary: m)
  case (Cons r rs)
  have "(\<forall>j < Suc (length rs). P j) \<longleftrightarrow> P 0 \<and> (\<forall>j < length rs. P (Suc j))" for P
    by (auto simp: less_Suc_eq_0_disj)
  then show ?case by (simp add: Cons.IH add.assoc)
qed simp

lemma AddrRange_merge_shape:
  assumes "AddrRange_merge rs = Inr t" "length rs > 1"
  shows "masks t = [] \<and> intlvMatch t = 0 \<and>
    (\<exists>ms. length rs = 2 ^ length ms \<and>
      (\<forall>j < length rs. ar_start (rs ! j) = ar_start t \<and> ar_end (rs ! j) = ar_end t \<and>
         masks (rs ! j) = ms \<and> intlvMatch (rs ! j) = of_nat j))"
proof -
  obtain r rs' where rs: "rs = r # rs'" using assms(2) by (cases rs) auto
  with assms have "length rs = 2 ^ length (masks r)" "merge_check r 0 rs = Inr ()"
    "t = r\<lparr>masks := [], intlvMatch := 0\<rparr>"
    by (auto simp: AddrRange_merge_def)
  then show ?thesis
    by (auto simp: merge_check_ok mergesWith_def intro!: exI [of _ "masks r"])
qed

section \<open>The interleaving bits\<close>

definition below :: "nat list \<Rightarrow> nat \<Rightarrow> nat" where
  "below ls n = length (filter (\<lambda>x. x < n) ls)"

lemma below_simps [simp]:
  "below [] n = 0" "below (p # ls) n = (if p < n then Suc (below ls n) else below ls n)"
  by (simp_all add: below_def)

lemma below_0: "\<forall>x \<in> set ls. n \<le> x \<Longrightarrow> below ls n = 0"
  by (auto simp: below_def filter_empty_conv not_less)

lemma below_le: "sorted_wrt (<) ls \<Longrightarrow> \<forall>x \<in> set ls. p < x \<Longrightarrow> p < n \<Longrightarrow> below ls n < n - p"
proof (induction ls arbitrary: p)
  case (Cons q ls)
  show ?case
  proof (cases "q < n")
    case True
    have "below ls n < n - q" using Cons True by simp
    moreover have "p < q" using Cons.prems by simp
    ultimately show ?thesis using True by simp
  next
    case False
    with Cons.prems have "below (q # ls) n = 0" by (intro below_0) auto
    with Cons.prems show ?thesis by (simp del: below_simps)
  qed
qed simp

lemma mask_range_wrapped: "insertBits v (2 ^ 32 - 1) 0 b = v"
  by (simp add: insertBits_def mask_range_def mbits_def Let_def)

lemma unat_position: "Suc i \<le> p \<Longrightarrow> p < 64 \<Longrightarrow> unat (of_nat p - of_nat i - 1 :: u32) = p - i - 1"
proof -
  assume a: "Suc i \<le> p" "p < 64"
  then obtain k where k: "p = Suc (i + k)" by (metis add_Suc less_iff_Suc_add Suc_le_eq)
  then have "(of_nat p - of_nat i - 1 :: u32) = of_nat k" by simp
  moreover have "unat (of_nat k :: u32) = k"
    using a k by (simp add: unat_of_nat take_bit_nat_eq_self)
  ultimately show ?thesis using k by simp
qed

lemma bit_remove_step:
  assumes "p < 64" "i \<le> p"
  shows "bit (if p > 0 then insertBits (drop_bit 1 a) (unat (of_nat p - of_nat i - 1 :: u32)) 0 a
      else drop_bit 1 a) n \<longleftrightarrow> (if n < p - i then bit a n else bit a (Suc n))"
proof (cases "i = p")
  case True
  have "unat (- 1 :: u32) = 2 ^ 32 - 1" by (simp add: unsigned_minus_1_eq_mask mask_eq_exp_minus_1)
  then show ?thesis using True mask_range_wrapped [of "drop_bit 1 a" a] by (simp add: bit_simps)
next
  case False
  with assms show ?thesis by (auto simp: unat_position bit_char bit_simps)
qed

lemma bit_push1: "bit (push_bit 1 (a :: addr)) n \<longleftrightarrow> 0 < n \<and> n < 64 \<and> bit a (n - 1)"
  by (simp only: bit_push_bit_iff) auto

lemma bit_add_step:
  assumes "p < 64" "n < 64" "n \<noteq> p"
  shows "bit (if p > 0 then insertBits (push_bit 1 a) (p - 1) 0 a else push_bit 1 a) n \<longleftrightarrow>
    (if n < p then bit a n else bit (a :: addr) (n - 1))"
  using assms by (cases "p > 0") (simp_all only: if_True if_False bit_push1, auto simp: bit_char bit_push1 simp del: One_nat_def)

lemma bit_remove_loop:
  assumes "sorted_wrt (<) ls" "\<forall>x \<in> set ls. i \<le> x \<and> x < 64" "n + i \<notin> set ls"
  shows "bit (remove_loop i ls a) (n - below ls (n + i)) \<longleftrightarrow> bit a n"
  using assms
proof (induction ls arbitrary: i n a)
  case (Cons p ls)
  let ?a = "if p > 0 then insertBits (drop_bit 1 a) (unat (of_nat p - of_nat i - 1 :: u32)) 0 a
      else drop_bit 1 a"
  from Cons.prems have p: "p < 64" "i \<le> p" and ls: "sorted_wrt (<) ls" "\<forall>x \<in> set ls. Suc i \<le> x \<and> x < 64"
    and gt: "\<forall>x \<in> set ls. p < x"
    by auto
  note step = bit_remove_step [OF p, of a]
  show ?case
  proof (cases "n + i < p")
    case True
    with gt have "n + Suc i \<notin> set ls" by auto
    moreover have "below ls (n + Suc i) = 0" "below ls (n + i) = 0"
      using gt True by (intro below_0; fastforce)+
    ultimately show ?thesis
      using Cons.IH [OF ls, of n ?a] step [of n] True less_diff_conv [of n p i] by simp
  next
    case False
    with Cons.prems(3) have gp: "p < n + i" by simp
    then obtain m where m: "n = Suc m" using p(2) by (cases n) auto
    with Cons.prems(3) have "m + Suc i \<notin> set ls" by simp
    with Cons.IH [OF ls, of m ?a] step [of m] gp p(2) m less_diff_conv [of m p i] show ?thesis by simp
  qed
qed simp

lemma bit_add_loop:
  assumes "sorted_wrt (<) ls" "\<forall>x \<in> set ls. x < 64" "n \<notin> set ls" "n < 64"
  shows "bit (add_loop ls b) n \<longleftrightarrow> bit b (n - below ls n)"
  using assms
proof (induction ls arbitrary: b)
  case (Cons p ls)
  let ?b = "if p > 0 then insertBits (push_bit 1 b) (p - 1) 0 b else push_bit 1 b"
  from Cons.prems have p: "p < 64" "n \<noteq> p" and gt: "\<forall>x \<in> set ls. p < x" and s: "sorted_wrt (<) ls"
    by auto
  have IH: "bit (add_loop (p # ls) b) n \<longleftrightarrow> bit ?b (n - below ls n)"
    using Cons by simp
  show ?case
  proof (cases "n < p")
    case True
    with gt have "below ls n = 0" by (intro below_0) auto
    with True IH bit_add_step [of p n b] p Cons.prems(4) show ?thesis by simp
  next
    case False
    with p have "p < n" by simp
    with below_le [OF s gt this] have "p < n - below ls n" by simp
    with \<open>p < n\<close> IH bit_add_step [of p "n - below ls n" b] p Cons.prems(4) show ?thesis by simp
  qed
qed simp

definition masks_ok :: "addr list \<Rightarrow> bool" where
  "masks_ok ms \<longleftrightarrow>
     (\<forall>m \<in> set ms. m \<noteq> 0 \<and> ctz64 m < 31) \<and> distinct (map ctz64 ms) \<and>
     sorted_wrt (\<lambda>m m'. \<not> bit m (ctz64 m')) ms"

lemma masks_lsb_sorted:
  assumes "masks_ok ms"
  shows "sorted_wrt (<) (masks_lsb ms)" and "\<forall>x \<in> set (masks_lsb ms). x < 64"
    and "set (masks_lsb ms) = ctz64 ` set ms"
proof -
  from assms have "distinct (masks_lsb ms)" by (simp add: masks_ok_def masks_lsb_def)
  then show "sorted_wrt (<) (masks_lsb ms)"
    by (simp add: masks_lsb_def strict_sorted_iff)
  from assms show "\<forall>x \<in> set (masks_lsb ms). x < 64"
    by (force simp: masks_ok_def masks_lsb_def)
  show "set (masks_lsb ms) = ctz64 ` set ms" by (simp add: masks_lsb_def)
qed

lemma add_remove_agree:
  assumes "masks_ok ms" "n \<notin> ctz64 ` set ms" "n < 64"
  shows "bit (add_loop (masks_lsb ms) (remove_loop 0 (masks_lsb ms) a)) n \<longleftrightarrow> bit a n"
  using bit_remove_loop [of "masks_lsb ms" 0 n a]
    bit_add_loop [of "masks_lsb ms" n "remove_loop 0 (masks_lsb ms) a"]
    masks_lsb_sorted [OF assms(1)] assms(2,3) by simp

lemma int_not_shift: "l < 31 \<Longrightarrow> (scast (NOT (push_bit l 1 :: u32)) :: addr) = NOT (push_bit l 1)"
  by (rule word64_eqI) (auto simp: bit_simps)

lemma popCount_remove_bit:
  "popCount w = popCount (w AND NOT (push_bit l 1)) + of_bool (bit w l)"
proof -
  have "{i. bit (w AND NOT (push_bit l 1)) i} = {i. bit w i} - {l}"
    by (auto simp: bit_simps dest: bit_u64_lt)
  moreover have "card {i. bit w i} = card ({i. bit w i} - {l}) + of_bool (bit w l)"
    using card.remove [of "{i. bit w i}" l] by (cases "bit w l") simp_all
  ultimately show ?thesis by (simp only: popCount_card)
qed

lemma select_loop_restores:
  assumes "\<forall>m \<in> set ms. m \<noteq> 0 \<and> ctz64 m < 31" "distinct (map ctz64 ms)"
    "sorted_wrt (\<lambda>m m'. \<not> bit m (ctz64 m')) ms"
    "\<forall>n < 64. n \<notin> ctz64 ` set ms \<longrightarrow> (bit b n \<longleftrightarrow> bit a n)"
    "\<forall>j < length ms. bit match (i + j) \<longleftrightarrow> parity a (ms ! j)"
  shows "select_loop match i ms b = Inr a"
  using assms
proof (induction ms arbitrary: i b)
  case Nil
  then have "b = a" by (intro word64_eqI) simp
  then show ?case by simp
next
  case (Cons m ms)
  define l where "l = ctz64 m"
  from Cons.prems have m: "m \<noteq> 0" "l < 31" "l \<notin> ctz64 ` set ms" "\<forall>m' \<in> set ms. \<not> bit m (ctz64 m')"
    by (auto simp: l_def)
  define masked where "masked = b AND m AND NOT (push_bit l 1)"
  have masked: "masked = a AND m AND NOT (push_bit l 1)"
  proof (rule word64_eqI)
    fix n :: nat
    assume "n < 64"
    show "bit masked n = bit (a AND m AND NOT (push_bit l 1)) n"
    proof (cases "bit m n \<and> n \<noteq> l")
      case True
      with m(4) have "n \<notin> ctz64 ` set (m # ms)" by (auto simp: l_def)
      with Cons.prems(4) \<open>n < 64\<close> show ?thesis by (simp add: masked_def bit_simps)
    qed (auto simp: masked_def bit_simps)
  qed
  have "bit m l" using ctz64_nonzero(1) [OF m(1)] by (simp add: l_def)
  then have "popCount (a AND m) = popCount masked + of_bool (bit a l)"
    using popCount_remove_bit [of "a AND m" l] by (simp add: masked bit_simps and.assoc)
  moreover have "bit match i \<longleftrightarrow> parity a m" using Cons.prems(5) by auto
  ultimately have par: "(bit match i \<noteq> odd (popCount masked)) \<longleftrightarrow> bit a l"
    by (auto simp: parity_def)
  define b' where "b' = insertBits1 b l (bits (ucast match) i i XOR of_nat (popCount masked))"
  have bit0: "bit (bits (ucast match) i i XOR of_nat (popCount masked) :: addr) 0 \<longleftrightarrow> bit a l"
  proof -
    have "bit (bits (ucast match) i i :: addr) 0 \<longleftrightarrow> bit match i"
      by (auto simp: bit_bits bit_simps dest: bit_imp_le_length)
    moreover have "bit (of_nat (popCount masked) :: addr) 0 \<longleftrightarrow> odd (popCount masked)"
      by (simp add: bit_0)
    ultimately show ?thesis using par by (simp only: bit_xor_iff)
  qed
  have agree: "\<forall>n < 64. n \<notin> ctz64 ` set ms \<longrightarrow> (bit b' n \<longleftrightarrow> bit a n)"
    using Cons.prems(4) bit0 m(2) by (auto simp: b'_def insertBits1_def bit_insertBits l_def)
  have "select_loop match (Suc i) ms b' = Inr a"
  proof (rule Cons.IH)
    show "\<forall>j < length ms. bit match (Suc i + j) \<longleftrightarrow> parity a (ms ! j)"
      using Cons.prems(5) by (auto dest: spec [of _ "Suc j" for j])
  qed (use Cons.prems agree in auto)
  moreover have "(l < 32) = True" using m(2) by simp
  ultimately show ?case
    by (simp only: select_loop.simps Let_def int_not_shift [OF m(2)] check_True
        flip: l_def masked_def b'_def)
qed

lemma add_remove_roundtrip:
  assumes "masks_ok (masks r)" "contains r a"
  shows "addIntlvBits r (removeIntlvBits r a) = Inr a"
proof (cases "interleaved r")
  case True
  from assms(2) have "\<forall>j < length (masks r). bit (intlvMatch r) (0 + j) \<longleftrightarrow> parity a (masks r ! j)"
    by (auto simp: contains_iff)
  with assms(1) True show ?thesis
    by (auto simp: addIntlvBits_def removeIntlvBits_def add_remove_agree masks_ok_def
        intro!: select_loop_restores)
qed (simp add: addIntlvBits_def removeIntlvBits_def)

section \<open>Subsets of an interleaved range\<close>

lemma bit_combined_mask: "bit (combined_mask ms) n \<longleftrightarrow> n < 32 \<and> (\<exists>m \<in> set ms. bit m n)"
proof -
  have "bit (fold (\<lambda>m c. ucast ((scast c :: u64) OR m)) ms c) n \<longleftrightarrow>
      n < 32 \<and> (bit c n \<or> (\<exists>m \<in> set ms. bit m n))" for c :: u32
    by (induction ms arbitrary: c) (auto simp: bit_simps dest: bit_u32_lt)
  then show ?thesis by (simp add: combined_mask_def)
qed

lemma granularity_below_masks:
  assumes "granularity r = Inr g" "interleaved r"
  shows "\<exists>k < 32. g = 2 ^ k \<and> (\<forall>m \<in> set (masks r). \<forall>n < k. \<not> bit m n)"
proof -
  let ?c = "combined_mask (masks r)" and ?s = "scast (combined_mask (masks r)) :: u64"
  define k where "k = ctz64 ?s"
  from assms have k: "k < 64" "g = 2 ^ k" by (auto simp: granularity_def Let_def k_def)
  then have "?s \<noteq> 0" by (auto simp: k_def)
  note z = ctz64_nonzero [OF this]
  have low: "bit ?s n \<longleftrightarrow> bit ?c n" if "n < 32" for n
    using that by (auto simp: bit_simps)
  have "k < 32"
  proof (rule ccontr)
    assume "\<not> k < 32"
    then have "\<not> bit ?s 31" using z(2) by (simp add: k_def)
    moreover have "bit ?s 31" using z(1) \<open>\<not> k < 32\<close> by (auto simp: bit_simps k_def split: if_splits)
    ultimately show False by simp
  qed
  moreover have "\<not> bit m n" if "m \<in> set (masks r)" "n < k" for m n
    using z(2) [of n] low [of n] that \<open>k < 32\<close> by (auto simp: k_def bit_combined_mask)
  ultimately show ?thesis using k(2) by blast
qed

lemma parity_same_chunk:
  assumes "\<forall>n < k. \<not> bit m n" "unat a div 2 ^ k = unat b div 2 ^ k"
  shows "parity a m = parity b m"
proof -
  have "drop_bit k a = drop_bit k b"
    using assms(2) by (simp add: word_unat_eq_iff unat_drop_bit_word)
  have "bit a n \<longleftrightarrow> bit b n" if "k \<le> n" for n
  proof -
    have "bit (drop_bit k a) (n - k) \<longleftrightarrow> bit (drop_bit k b) (n - k)"
      by (simp only: \<open>drop_bit k a = drop_bit k b\<close>)
    with that show ?thesis by (simp add: bit_simps)
  qed
  with assms(1) have "a AND m = b AND m"
    by (intro word64_eqI) (metis bit_and_iff not_le)
  then show ?thesis by (simp add: parity_def)
qed

lemma chunk_between:
  fixes s a e g :: nat
  assumes "s \<le> a" "a \<le> e" "e - s < g"
  shows "a div g = s div g \<or> a div g = e div g"
proof -
  have "e div g \<le> (s + g) div g" using assms by (intro div_le_mono) simp
  then have "e div g \<le> s div g + 1" using assms(3) by (simp add: div_add_self2)
  moreover have "s div g \<le> a div g" "a div g \<le> e div g" using assms by (auto intro: div_le_mono)
  ultimately show ?thesis by linarith
qed

lemma isSubset_interleaved:
  assumes "isSubset t r = Inr True" "interleaved r" "ar_start t < ar_end t" "in_bounds t a"
  shows "contains r a"
proof -
  from assms(1,2) have c: "masks t = []" "contains r (ar_start t)" "contains r (ar_end t - 1)"
    and "\<exists>g. granularity r = Inr g \<and> ar_size t \<le> g"
    by (auto simp: isSubset_def split: if_splits)
  then obtain g where g: "granularity r = Inr g" "ar_size t \<le> g" by blast
  obtain k where k: "k < 32" "g = 2 ^ k" "\<forall>m \<in> set (masks r). \<forall>n < k. \<not> bit m n"
    using granularity_below_masks [OF g(1) assms(2)] by blast
  let ?e = "ar_end t - 1"
  have e: "unat ?e = unat (ar_end t) - 1" using assms(3) by (intro unat_minus_one) auto
  have b: "unat (ar_start t) \<le> unat a" "unat a < unat (ar_end t)"
    using assms(4) by (auto simp: in_bounds_def word_le_nat_alt word_less_nat_alt)
  have "unat (ar_end t - ar_start t) = unat (ar_end t) - unat (ar_start t)"
    using assms(3) by (simp add: unat_sub word_le_nat_alt word_less_nat_alt)
  moreover have "unat g = 2 ^ k" using k(1,2) by (simp add: unat_pow2)
  ultimately have "unat (ar_end t) - unat (ar_start t) \<le> 2 ^ k"
    using g(2) c(1) by (simp add: ar_size_def word_le_nat_alt)
  then have "unat ?e - unat (ar_start t) < 2 ^ k" using b by (simp add: e)
  then have "unat a div 2 ^ k = unat (ar_start t) div 2 ^ k \<or> unat a div 2 ^ k = unat ?e div 2 ^ k"
    using b by (intro chunk_between) (simp_all add: e)
  then obtain x where x: "contains r x" "unat a div 2 ^ k = unat x div 2 ^ k"
    using c by blast
  have "in_bounds r a"
  proof -
    have "ar_start r \<le> ar_start t" "?e < ar_end r" using c by (auto simp: contains_iff in_bounds_def)
    moreover have "ar_start t \<le> a" "a \<le> ?e" using b by (simp_all add: word_le_nat_alt e)
    ultimately show ?thesis by (auto simp: in_bounds_def)
  qed
  moreover have "\<forall>n < length (masks r). parity a (masks r ! n) = parity x (masks r ! n)"
    using k(3) x(2) parity_same_chunk nth_mem by blast
  ultimately show ?thesis using x(1) by (auto simp: contains_iff)
qed

lemma merge_members:
  assumes "AddrRange_merge rs = Inr t" "1 < length rs" "\<forall>r \<in> set rs. length (masks r) \<le> 8"
  shows "\<exists>i < length rs. \<forall>j < length rs. contains (rs ! j) a \<longleftrightarrow> contains t a \<and> j = i"
proof -
  obtain ms where t: "masks t = []" "intlvMatch t = 0" and l: "length rs = 2 ^ length ms"
    and r: "\<And>j. j < length rs \<Longrightarrow> ar_start (rs ! j) = ar_start t \<and> ar_end (rs ! j) = ar_end t \<and>
      masks (rs ! j) = ms \<and> intlvMatch (rs ! j) = of_nat j"
    using AddrRange_merge_shape [OF assms(1,2)] by blast
  have ms: "length ms \<le> 8" using r [of 0] assms(2,3) nth_mem [of 0 rs] by fastforce
  have t': "contains t a \<longleftrightarrow> in_bounds t a" by (simp add: contains_plain ar_wf_def t)
  have c: "contains (rs ! j) a \<longleftrightarrow> in_bounds t a \<and> j = unat (selector a ms)" if "j < length rs" for j
  proof -
    have "2 ^ length ms \<le> (2 :: nat) ^ 8" using ms by (intro power_increasing) simp_all
    then have "j < 2 ^ 8" using that l by simp
    then have "unat (of_nat j :: u8) = j" by (simp add: unat_of_nat take_bit_nat_eq_self)
    then have "of_nat j = selector a ms \<longleftrightarrow> j = unat (selector a ms)"
      by (simp only: word_unat_eq_iff)
    then show ?thesis using r [OF that] ms by (simp add: contains_selector in_bounds_def)
  qed
  have "unat (selector a ms) < length rs" using unat_selector_less [OF ms] l by simp
  then show ?thesis using c t' by blast
qed

lemma isSubset_sound:
  assumes "isSubset t r = Inr True" "contains t a" "ar_wf r" "ar_start t < ar_end t" "interleaved r \<or> ar_start r < ar_end r"
  shows "contains r a"
proof (cases "interleaved r")
  case True
  from isSubset_interleaved [OF assms(1) this assms(4) contains_bounds [OF assms(2)]] show ?thesis .
next
  case False
  with assms(1,4,5) have "ar_start t \<ge> ar_start r \<and> ar_end t \<le> ar_end r"
    by (auto simp: isSubset_def not_le split: if_splits)
  then have "in_bounds r a" using contains_bounds [OF assms(2)] by (auto simp: in_bounds_def)
  with False assms(3) show ?thesis by (simp add: contains_plain)
qed

section \<open>Properties\<close>

text \<open>A memory channel of four, selected by bit 6 xor bit 11 and by bit 7, for the examples.\<close>

definition channel :: "u8 \<Rightarrow> addr_range" where
  "channel k = \<lparr>ar_start = 0, ar_end = 0x1000, masks = [0x840, 0x80], intlvMatch = k\<rparr>"

text \<open>
  C17. \<^verbatim>\<open>AddrRange::exclude\<close>. For a plain range and a list of plain ranges in any order,
  overlapping or not, the call succeeds, and the ranges it returns are in address order and
  disjoint and contain exactly the addresses of the range that no excluded range contains.
\<close>

theorem exclude_exact:
  assumes "\<not> interleaved t" "ar_wf t" "\<forall>e \<in> set ex. excludable e"
  shows "\<exists>rs. ar_exclude t ex = Inr rs \<and> ordered_disjoint rs \<and>
    (\<forall>a. (\<exists>r \<in> set rs. contains r a) \<longleftrightarrow> contains t a \<and> \<not> (\<exists>e \<in> set ex. contains e a))"
proof -
  have c: "contains e a \<longleftrightarrow> in_bounds e a" if "e \<in> set ex" for e a
    using assms(3) that by (auto simp: excludable_def contains_plain)
  have "\<exists>rs. exclude_loop t (sort_ar ex) (ar_start t) [] = Inr rs \<and> ordered_disjoint rs \<and>
    (\<forall>a. (\<exists>r \<in> set rs. contains r a) \<longleftrightarrow> (\<exists>r \<in> set []. contains r a) \<or>
      (ar_start t \<le> a \<and> a < ar_end t \<and> \<not> (\<exists>e \<in> set (sort_ar ex). in_bounds e a)))"
    using assms by (intro exclude_loop_correct) (auto simp: sorted_sort_ar)
  with assms(1,2) show ?thesis
    by (auto simp: ar_exclude_def c contains_plain [of t] in_bounds_def [of t])
qed

theorem exclude_exact_witness:
  "\<exists>rs. ar_exclude (RangeEx 0 100) [RangeEx 50 60, RangeEx 10 20, RangeEx 15 30] = Inr rs \<and>
     ordered_disjoint rs \<and>
     (\<forall>a. (\<exists>r \<in> set rs. contains r a) \<longleftrightarrow> contains (RangeEx 0 100) a \<and>
        \<not> (\<exists>e \<in> set [RangeEx 50 60, RangeEx 10 20, RangeEx 15 30]. contains e a))"
  by (rule exclude_exact) (simp_all add: RangeEx_def ar_wf_def AddrRange_plain_def excludable_def valid_def)

text \<open>
  C31. The merging constructor. When it accepts a list of at least two interleaved ranges, every
  address of the merged range is contained in exactly one of them, so the interleaving
  partitions the merged range and no member reaches outside it.
\<close>

theorem merge_partition:
  assumes "AddrRange_merge rs = Inr t" "1 < length rs" "\<forall>r \<in> set rs. length (masks r) \<le> 8"
  shows "(contains t a \<longleftrightarrow> (\<exists>!j. j < length rs \<and> contains (rs ! j) a)) \<and>
    (contains t a \<longleftrightarrow> (\<exists>r \<in> set rs. contains r a))"
proof -
  obtain i where i: "i < length rs" "\<And>j. j < length rs \<Longrightarrow> contains (rs ! j) a \<longleftrightarrow> contains t a \<and> j = i"
    using merge_members [OF assms] by blast
  moreover have "(\<exists>r \<in> set rs. contains r a) \<longleftrightarrow> (\<exists>j < length rs. contains (rs ! j) a)"
    by (metis in_set_conv_nth)
  ultimately show ?thesis by auto
qed

theorem merge_partition_witness:
  "(contains (RangeEx 0 0x1000) 0x40 \<longleftrightarrow> (\<exists>!j. j < length (map channel [0, 1, 2, 3]) \<and>
       contains (map channel [0, 1, 2, 3] ! j) 0x40)) \<and>
   (contains (RangeEx 0 0x1000) 0x40 \<longleftrightarrow> (\<exists>r \<in> set (map channel [0, 1, 2, 3]). contains r 0x40))"
  by (rule merge_partition)
    (simp_all add: AddrRange_merge_def mergesWith_def RangeEx_def AddrRange_plain_def channel_def)

text \<open>
  C32. \<^verbatim>\<open>addIntlvBits\<close> inverts \<^verbatim>\<open>removeIntlvBits\<close> on the addresses of the range, when the
  masks have distinct lowest bits below bit 31 and no mask covers the lowest bit of a later one,
  and then \<^verbatim>\<open>getOffset\<close> maps different addresses of the range to different offsets.
\<close>

theorem intlv_bits_roundtrip:
  assumes "masks_ok (masks r)" "contains r a"
  shows "addIntlvBits r (removeIntlvBits r a) = Inr a \<and>
    (\<forall>b. contains r b \<longrightarrow> (getOffset r a = getOffset r b \<longleftrightarrow> a = b))"
proof -
  have inj: "a = b" if "contains r b" "removeIntlvBits r a = removeIntlvBits r b" for b
    by (metis add_remove_roundtrip assms sum.inject(2) that)
  have off: "getOffset r b = removeIntlvBits r b - removeIntlvBits r (ar_start r)" if "contains r b" for b
    using that by (simp add: getOffset_def removeIntlvBits_def contains_iff in_bounds_def)
  have "getOffset r a = getOffset r b \<Longrightarrow> a = b" if "contains r b" for b
    using inj [OF that] by (simp only: off [OF that] off [OF assms(2)] diff_conv_add_uminus add_right_cancel)
  with add_remove_roundtrip [OF assms] show ?thesis by blast
qed

theorem intlv_bits_roundtrip_witness:
  "addIntlvBits (channel 1) (removeIntlvBits (channel 1) 0x47) = Inr 0x47 \<and>
   getOffset (channel 1) 0x47 \<noteq> getOffset (channel 1) 0x147"
proof -
  have "ctz64 0x840 = 6" "ctz64 0x80 = 7" by code_simp+
  then have "masks_ok (masks (channel 1))" by (simp add: masks_ok_def channel_def bit_simps)
  moreover have "contains (channel 1) 0x47" "contains (channel 1) 0x147" by code_simp+
  ultimately show ?thesis using intlv_bits_roundtrip [of "channel 1" "0x47"] by auto
qed

text \<open>
  \<^verbatim>\<open>isSubset\<close>. When it answers true for a non-empty range, every address of that range
  is contained in the other, interleaved or not: an interleaved range accepts only a range that
  fits its granularity and whose first and last addresses it contains. For two non-empty
  ranges without interleaving the answer is exact.
\<close>

theorem isSubset_correct:
  assumes "ar_wf t" "ar_wf r" "ar_start t < ar_end t" "interleaved r \<or> ar_start r < ar_end r"
  shows "(isSubset t r = Inr True \<longrightarrow> (\<forall>a. contains t a \<longrightarrow> contains r a)) \<and>
    (\<not> interleaved t \<and> \<not> interleaved r \<longrightarrow>
      isSubset t r = Inr (\<forall>a. contains t a \<longrightarrow> contains r a))"
proof -
  have plain: "isSubset t r = Inr (\<forall>a. contains t a \<longrightarrow> contains r a)"
    if "masks t = []" "masks r = []"
  proof -
    have "isSubset t r = Inr (ar_start t \<ge> ar_start r \<and> ar_end t \<le> ar_end r)"
      using that assms(3,4) by (auto simp: isSubset_def)
    moreover have "ar_start t \<ge> ar_start r \<and> ar_end t \<le> ar_end r \<longleftrightarrow>
        (\<forall>a. in_bounds t a \<longrightarrow> in_bounds r a)" (is "?l \<longleftrightarrow> ?r")
    proof
      assume ?l then show ?r by (auto simp: in_bounds_def)
    next
      assume r: ?r
      have e: "unat (ar_end t - 1) = unat (ar_end t) - 1" using assms(3) by (intro unat_minus_one) auto
      have "in_bounds t (ar_start t)" "in_bounds t (ar_end t - 1)"
        using assms(3) by (simp_all add: in_bounds_def word_le_nat_alt word_less_nat_alt e)
      with r have "in_bounds r (ar_start t)" "in_bounds r (ar_end t - 1)" by simp_all
      then show ?l using assms(3) by (auto simp: in_bounds_def word_le_nat_alt word_less_nat_alt e)
    qed
    ultimately show ?thesis using that assms(1,2) by (simp add: contains_plain)
  qed
  with isSubset_sound [OF _ _ assms(2-4)] show ?thesis by simp
qed

theorem isSubset_correct_witness:
  "isSubset (RangeEx 0x40 0x80) (channel 1) = Inr True \<and> contains (channel 1) 0x55"
proof -
  have "ar_wf (RangeEx 0x40 0x80)" "ar_wf (channel 1)" "interleaved (channel 1)"
    by (simp_all add: ar_wf_def RangeEx_def AddrRange_plain_def channel_def)
  moreover have "ar_start (RangeEx 0x40 0x80) < ar_end (RangeEx 0x40 0x80)"
    "contains (RangeEx 0x40 0x80) 0x55" by (simp_all add: RangeEx_def)
  moreover have "isSubset (RangeEx 0x40 0x80) (channel 1) = Inr True" by code_simp
  ultimately show ?thesis using isSubset_correct [of "RangeEx 0x40 0x80" "channel 1"] by blast
qed

text \<open>
  \<^verbatim>\<open>intersects\<close>. Whenever it returns, its answer is the truth about a common address,
  for ranges that both hold an address, except that an interleaved argument must not have size
  one: then the code looks at the first address of the interval only.
\<close>

theorem intersects_correct:
  assumes "ar_wf t" "ar_wf r" "intersects t r = Inr b" "\<not> (interleaved r \<and> ar_size r = 1)"
    "contains t x" "contains r y"
  shows "b \<longleftrightarrow> (\<exists>a. contains t a \<and> contains r a)"
proof -
  let ?apart = "ar_start t \<ge> ar_end r \<or> ar_end t \<le> ar_start r"
  have bnd: "ar_start t < ar_end t" "ar_start r < ar_end r"
    using contains_bounds [OF assms(5)] contains_bounds [OF assms(6)] by (auto simp: in_bounds_def)
  consider "?apart" | "\<not> ?apart" "masks t = []" "masks r = []"
    | "\<not> ?apart" "masks t \<noteq> []" "masks r = []" "ar_size r = 1" "b = contains t (ar_start r)"
    | "\<not> ?apart" "mergesWith t r" "b = (intlvMatch t = intlvMatch r)"
    using assms(3,4) by (auto simp: intersects_def split: if_splits)
  then show ?thesis
  proof cases
    case 1
    then have "\<not> b" using assms(3) by (auto simp: intersects_def)
    moreover have "\<not> (in_bounds t a \<and> in_bounds r a)" for a using 1 by (auto simp: in_bounds_def)
    ultimately show ?thesis using contains_bounds by blast
  next
    case 2
    then have b using assms(3) by (simp add: intersects_def)
    moreover have "contains t (max (ar_start t) (ar_start r))" "contains r (max (ar_start t) (ar_start r))"
      using 2 bnd assms(1,2) by (simp_all add: contains_plain in_bounds_def not_le)
    ultimately show ?thesis by blast
  next
    case 3
    then have "ar_end r = ar_start r + 1" by (simp add: ar_size_def diff_eq_eq add.commute)
    moreover from this have "unat (ar_end r) = Suc (unat (ar_start r))"
      using bnd(2) by (metis add.commute unatSuc word_not_simps(1))
    ultimately have "in_bounds r a \<longleftrightarrow> a = ar_start r" for a
      by (auto simp: in_bounds_def word_less_nat_alt word_le_nat_alt word_unat_eq_iff)
    with 3(3,5) assms(2) show ?thesis by (simp add: contains_plain)
  next
    case 4
    then have "contains t a \<and> contains r a \<longleftrightarrow> contains t a \<and> b" for a
      using assms(1) contains_selector [of t a] contains_selector [of r a]
      by (auto simp only: ar_wf_def mergesWith_def in_bounds_def)
    with assms(5) show ?thesis by blast
  qed
qed

theorem intersects_correct_witness:
  "False \<longleftrightarrow> (\<exists>a. contains (channel 1) a \<and> contains (channel 2) a)"
  by (rule intersects_correct [of "channel 1" "channel 2" False "0x40" "0x80"]) code_simp+

text \<open>
  The exception is real: a two-byte range interleaved on bit 0 has size one, and the code
  answers that a range holding its only address does not intersect it.
\<close>

theorem intersects_misses_interleaved_byte:
  "\<exists>t r a. ar_wf t \<and> ar_wf r \<and> contains t a \<and> contains r a \<and> intersects t r = Inr False"
proof (intro exI conjI)
  let ?t = "RangeEx 1 4" and ?r = "\<lparr>ar_start = 0, ar_end = 2, masks = [1], intlvMatch = 1\<rparr> :: addr_range"
  show "ar_wf ?t" "ar_wf ?r" by (simp_all add: ar_wf_def RangeEx_def AddrRange_plain_def)
  show "contains ?t 1" "contains ?r 1" "intersects ?t ?r = Inr False" by code_simp+
qed

text \<open>
  \<^verbatim>\<open>addIntlvBits\<close> clears the selected bit with an \<^verbatim>\<open>int\<close> shift. With bit 31 as the
  lowest bit of a mask the complement loses the upper half of the mask, and the call
  does not restore an address of the range.
\<close>

theorem addIntlvBits_bit31:
  "\<exists>r a. ar_wf r \<and> contains r a \<and> addIntlvBits r (removeIntlvBits r a) \<noteq> Inr a"
proof (intro exI conjI)
  let ?r = "\<lparr>ar_start = 0, ar_end = 0x200000000, masks = [0x180000000], intlvMatch = 0\<rparr> :: addr_range"
  show "ar_wf ?r" by (simp add: ar_wf_def)
  show "contains ?r 0x180000000" "addIntlvBits ?r (removeIntlvBits ?r 0x180000000) \<noteq> Inr 0x180000000"
    by code_simp+
qed

end
