(* ===== verification/Flags.thy ===== *)
theory Flags
  imports Prelude
begin

text \<open>
  Groups of flag bits, \<^verbatim>\<open>base/flags.hh\<close>: the operations of the class template \<^verbatim>\<open>Flags<T>\<close> on
  the underlying unsigned container, and how they act on single bits.
\<close>

definition fl_isSet :: "'a::len word \<Rightarrow> 'a word \<Rightarrow> bool" where
  "fl_isSet fl m \<longleftrightarrow> fl AND m \<noteq> 0"

definition fl_allSet :: "'a::len word \<Rightarrow> 'a word \<Rightarrow> bool" where
  "fl_allSet fl m \<longleftrightarrow> fl AND m = m"

definition fl_noneSet :: "'a::len word \<Rightarrow> 'a word \<Rightarrow> bool" where
  "fl_noneSet fl m \<longleftrightarrow> fl AND m = 0"

definition fl_clear_all :: "'a::len word \<Rightarrow> 'a word" where
  "fl_clear_all fl = 0"

definition fl_clear :: "'a::len word \<Rightarrow> 'a word \<Rightarrow> 'a word" where
  "fl_clear fl m = fl AND NOT m"

definition fl_set :: "'a::len word \<Rightarrow> 'a word \<Rightarrow> 'a word" where
  "fl_set fl m = fl OR m"

definition fl_set_cond :: "'a::len word \<Rightarrow> 'a word \<Rightarrow> bool \<Rightarrow> 'a word" where
  "fl_set_cond fl m condition = (if condition then fl_set fl m else fl_clear fl m)"

definition fl_replace :: "'a::len word \<Rightarrow> 'a word \<Rightarrow> 'a word \<Rightarrow> 'a word" where
  "fl_replace fl new m = (fl AND NOT m) OR (new AND m)"

section \<open>Laws\<close>

lemma bit_fl_set [bit_char]: "bit (fl_set fl m) n \<longleftrightarrow> bit fl n \<or> bit m n"
  by (simp add: fl_set_def bit_or_iff)

lemma bit_fl_clear [bit_char]: "bit (fl_clear fl m) n \<longleftrightarrow> bit fl n \<and> \<not> bit m n"
  by (auto simp: fl_clear_def bit_simps dest: bit_imp_le_length)

lemma bit_fl_replace [bit_char]: "bit (fl_replace fl new m) n \<longleftrightarrow> (if bit m n then bit new n else bit fl n)"
  by (auto simp: fl_replace_def bit_simps dest: bit_imp_le_length)

lemma fl_isSet_iff: "fl_isSet fl m \<longleftrightarrow> (\<exists>n. bit fl n \<and> bit m n)"
  by (simp add: fl_isSet_def bit_eq_iff bit_simps) (metis bit_imp_le_length)

lemma fl_noneSet_iff: "fl_noneSet fl m \<longleftrightarrow> \<not> fl_isSet fl m"
  by (simp add: fl_isSet_def fl_noneSet_def)

lemma fl_allSet_iff: "fl_allSet fl m \<longleftrightarrow> (\<forall>n. bit m n \<longrightarrow> bit fl n)"
  by (simp add: fl_allSet_def bit_eq_iff bit_simps) (metis bit_imp_le_length)

text \<open>The documented equivalence of \<^verbatim>\<open>replace\<close> with \<^verbatim>\<open>clear\<close> followed by \<^verbatim>\<open>set\<close>.\<close>

lemma fl_replace_clear_set: "fl_replace fl new m = fl_set (fl_clear fl m) (new AND m)"
  by (simp add: fl_replace_def fl_set_def fl_clear_def)

lemma fl_set_cond_iff: "fl_isSet m m \<Longrightarrow> fl_allSet (fl_set_cond fl m c) m \<longleftrightarrow> c"
  by (auto simp: fl_set_cond_def fl_allSet_iff fl_isSet_iff bit_char)

lemma fl_masked_set: "m AND k = 0 \<Longrightarrow> fl_set fl m AND k = fl AND k"
  by (auto simp: fl_set_def bit_eq_iff bit_simps)

lemma fl_masked_clear: "m AND k = 0 \<Longrightarrow> fl_clear fl m AND k = fl AND k"
  by (auto simp: bit_eq_iff bit_char bit_and_iff)

lemma fl_isSet_set_other: "m AND k = 0 \<Longrightarrow> fl_isSet (fl_set fl m) k = fl_isSet fl k"
  by (simp add: fl_isSet_def fl_masked_set)

lemma fl_isSet_clear_other: "m AND k = 0 \<Longrightarrow> fl_isSet (fl_clear fl m) k = fl_isSet fl k"
  by (simp add: fl_isSet_def fl_masked_clear)

lemma fl_isSet_set_same: "m \<noteq> 0 \<Longrightarrow> fl_isSet (fl_set fl m) m"
  by (auto simp: fl_isSet_iff bit_char bit_eq_iff)

lemma fl_isSet_clear_same: "\<not> fl_isSet (fl_clear fl m) m"
  by (simp add: fl_isSet_iff bit_char)

lemmas fl_laws = fl_isSet_set_other fl_isSet_clear_other fl_isSet_set_same fl_isSet_clear_same
  fl_masked_set fl_masked_clear

end
