(* ===== verification/Contracts.thy ===== *)
theory Contracts
  imports Prelude
begin

text \<open>
  Interfaces that several components share, as locales: the operations a client calls, the laws
  their provider promises, and what follows from the laws alone. Each locale is interpreted on
  the model of the component that provides it.
\<close>

section \<open>Repeating an operation\<close>

fun ofold :: "('s \<Rightarrow> 'e \<Rightarrow> 's outcome) \<Rightarrow> 's \<Rightarrow> 'e list \<Rightarrow> 's outcome" where
  "ofold f s [] = Inr s"
| "ofold f s (e # es) = obind (f s e) (\<lambda>s. ofold f s es)"

fun odrain :: "('s \<Rightarrow> ('e \<times> 's) outcome) \<Rightarrow> nat \<Rightarrow> 's \<Rightarrow> ('e list \<times> 's) outcome" where
  "odrain f 0 s = Inr ([], s)"
| "odrain f (Suc n) s = obind (f s) (\<lambda>(e, s). obind (odrain f n s) (\<lambda>(es, s). Inr (e # es, s)))"

section \<open>Priority lists\<close>

text \<open>
  A container of distinct elements in the order of their keys, where a new element goes before
  the elements of equal key.
\<close>

locale priority_list =
  fixes rel :: "'s \<Rightarrow> 'e list \<Rightarrow> bool"
    and key :: "'s \<Rightarrow> 'e \<Rightarrow> 'k::linorder"
    and ins :: "'s \<Rightarrow> 'e \<Rightarrow> 's outcome"
    and pop :: "'s \<Rightarrow> ('e \<times> 's) outcome"
  assumes rel_sorted: "rel s xs \<Longrightarrow> sorted (map (key s) xs) \<and> distinct xs"
    and ins_law: "rel s xs \<Longrightarrow> e \<notin> set xs \<Longrightarrow>
      \<exists>s'. ins s e = Inr s' \<and> rel s' (insort_key (key s) e xs) \<and> key s' = key s"
    and pop_law: "rel s (e # xs) \<Longrightarrow> \<exists>s'. pop s = Inr (e, s') \<and> rel s' xs \<and> key s' = key s"
    and pop_empty: "rel s [] \<Longrightarrow> \<exists>a. pop s = Inl a"
begin

lemma ins_all:
  "rel s xs \<Longrightarrow> distinct es \<Longrightarrow> set es \<inter> set xs = {} \<Longrightarrow>
   \<exists>s'. ofold ins s es = Inr s' \<and> rel s' (fold (insort_key (key s)) es xs) \<and> key s' = key s"
proof (induction es arbitrary: s xs)
  case (Cons e es)
  then obtain s1 where s1: "ins s e = Inr s1" "rel s1 (insort_key (key s) e xs)" "key s1 = key s"
    using ins_law [of s xs e] by auto
  moreover have "set es \<inter> set (insort_key (key s) e xs) = {}" using Cons.prems by (auto simp: set_insort_key)
  ultimately show ?case using Cons.IH [OF s1(2)] Cons.prems(2) by auto
qed simp

lemma drain_all: "rel s xs \<Longrightarrow> \<exists>s'. odrain pop (length xs) s = Inr (xs, s') \<and> rel s' []"
proof (induction xs arbitrary: s)
  case (Cons x xs)
  then obtain s1 where s1: "pop s = Inr (x, s1)" "rel s1 xs" using pop_law by blast
  from Cons.IH [OF s1(2)] s1(1) show ?case by auto
qed simp

text \<open>Filling an empty container and draining it sorts, later elements of equal key first.\<close>

lemma fill_drain:
  assumes "rel s []" "distinct es"
  shows "\<exists>s1 s2. ofold ins s es = Inr s1 \<and> odrain pop (length es) s1 = Inr (sort_key (key s) (rev es), s2) \<and> rel s2 []"
proof -
  have eq: "fold (insort_key (key s)) es [] = sort_key (key s) (rev es)"
    by (simp add: sort_key_def foldr_conv_fold)
  obtain s1 where s1: "ofold ins s es = Inr s1" "rel s1 (sort_key (key s) (rev es))"
    using ins_all [OF assms(1,2)] eq by auto
  from drain_all [OF s1(2)] s1(1) show ?thesis by auto
qed

end

section \<open>Membership filters\<close>

text \<open>
  A filter that answers whether an element was added. Adding and joining may add answers but
  never take one away, so an element that was added is reported from then on.
\<close>

datatype ('s, 'e) filter_op = Add 'e | Join 's

fun filter_step ::
  "('s \<Rightarrow> 'e \<Rightarrow> 's outcome) \<Rightarrow> ('s \<Rightarrow> 's \<Rightarrow> 's outcome) \<Rightarrow> 's \<Rightarrow> ('s, 'e) filter_op \<Rightarrow> 's outcome" where
  "filter_step add join s (Add e) = add s e"
| "filter_step add join s (Join t) = join s t"

locale membership_filter =
  fixes ok :: "'s \<Rightarrow> bool"
    and holds :: "'s \<Rightarrow> 'e \<Rightarrow> bool"
    and add :: "'s \<Rightarrow> 'e \<Rightarrow> 's outcome"
    and join :: "'s \<Rightarrow> 's \<Rightarrow> 's outcome"
  assumes add_law: "ok s \<Longrightarrow> add s e = Inr s' \<Longrightarrow> ok s' \<and> holds s' e \<and> (\<forall>x. holds s x \<longrightarrow> holds s' x)"
    and join_law: "ok s \<Longrightarrow> join s t = Inr s' \<Longrightarrow> ok s' \<and> (\<forall>x. holds s x \<longrightarrow> holds s' x)"
begin

lemma steps_keep:
  "ofold (filter_step add join) s ps = Inr s' \<Longrightarrow> ok s \<Longrightarrow> ok s' \<and> (\<forall>x. holds s x \<longrightarrow> holds s' x)"
proof (induction ps arbitrary: s)
  case (Cons p ps)
  then obtain s1 where s1: "filter_step add join s p = Inr s1" "ofold (filter_step add join) s1 ps = Inr s'" by auto
  have "ok s1 \<and> (\<forall>x. holds s x \<longrightarrow> holds s1 x)"
  proof (cases p)
    case (Add e)
    with s1(1) add_law [OF Cons.prems(2)] show ?thesis by simp
  next
    case (Join t)
    with s1(1) join_law [OF Cons.prems(2)] show ?thesis by simp
  qed
  with Cons.IH [OF s1(2)] show ?case by auto
qed simp

lemma no_false_negative:
  "ok s \<Longrightarrow> add s e = Inr s1 \<Longrightarrow> ofold (filter_step add join) s1 ps = Inr s' \<Longrightarrow> holds s' e"
  using add_law [of s e s1] steps_keep [of s1 ps s'] by simp

end

end
