(* ===== verification/EventQueue.thy ===== *)
theory EventQueue
  imports Flags Contracts "HOL-Library.Product_Lexorder"
begin

text \<open>
  The event queue, \<^verbatim>\<open>sim/eventq.hh\<close> and \<^verbatim>\<open>sim/eventq.cc\<close>. Events live in a heap, a
  function from addresses to event records, and are linked in place by \<^verbatim>\<open>nextBin\<close> and
  \<^verbatim>\<open>nextInBin\<close>: a list of bins ordered by time and priority, each bin a stack of events
  with the same time and priority, whose lower elements have stale \<^verbatim>\<open>nextBin\<close> pointers. The
  operations are translated pointer by pointer; the abstraction of a queue is the list of its
  events in service order, on which insertion is \<open>insort_key\<close>, removal \<open>remove1\<close> and service
  takes the head. A deleted event stays in the heap with its mark \<open>ev_deleted\<close> set; touching
  it through the interface is undefined behaviour. Threads and locks are not modelled.
\<close>

section \<open>Events\<close>

type_synonym ev = nat
type_synonym qid = nat

record event =
  nextBin :: "ev option"
  nextInBin :: "ev option"
  ev_when :: tick
  ev_priority :: int
  ev_flags :: u16
  ev_queue :: "qid option"
  ev_deleted :: bool

type_synonym heap = "ev \<Rightarrow> event"

definition PublicRead :: u16 where "PublicRead = 0x003f"
definition PublicWrite :: u16 where "PublicWrite = 0x001d"
definition Squashed :: u16 where "Squashed = 0x0001"
definition Scheduled :: u16 where "Scheduled = 0x0002"
definition Managed :: u16 where "Managed = 0x0004"
definition IsExitEvent :: u16 where "IsExitEvent = 0x0010"
definition IsMainQueue :: u16 where "IsMainQueue = 0x0020"
definition Initialized :: u16 where "Initialized = 0x7a40"
definition InitMask :: u16 where "InitMask = 0xffc0"

lemmas flag_consts = Squashed_def Scheduled_def Managed_def IsExitEvent_def IsMainQueue_def
  Initialized_def InitMask_def PublicRead_def PublicWrite_def

definition Event_new :: "int \<Rightarrow> u16 \<Rightarrow> event outcome" where
  "Event_new p f =
     check (fl_noneSet f (NOT PublicWrite)) Assert_Failed
       (Inr \<lparr>nextBin = None, nextInBin = None, ev_when = 0, ev_priority = p,
         ev_flags = Initialized OR f, ev_queue = None, ev_deleted = False\<rparr>)"

definition setWhen :: "tick \<Rightarrow> qid \<Rightarrow> event \<Rightarrow> event" where
  "setWhen t q e = e\<lparr>ev_when := t, ev_queue := Some q\<rparr>"

definition initialized :: "event \<Rightarrow> bool" where
  "initialized e \<longleftrightarrow> ev_flags e AND InitMask = Initialized"

definition getFlags :: "event \<Rightarrow> u16" where
  "getFlags e = ev_flags e AND PublicRead"

definition isFlagSet :: "event \<Rightarrow> u16 \<Rightarrow> bool outcome" where
  "isFlagSet e f = check (fl_noneSet f (NOT PublicRead)) Assert_Failed (Inr (fl_isSet (ev_flags e) f))"

definition setFlags :: "event \<Rightarrow> u16 \<Rightarrow> event outcome" where
  "setFlags e f =
     check (fl_noneSet f (NOT PublicWrite)) Assert_Failed (Inr (e\<lparr>ev_flags := fl_set (ev_flags e) f\<rparr>))"

definition clearFlags :: "event \<Rightarrow> u16 \<Rightarrow> event outcome" where
  "clearFlags e f =
     check (fl_noneSet f (NOT PublicWrite)) Assert_Failed (Inr (e\<lparr>ev_flags := fl_clear (ev_flags e) f\<rparr>))"

definition clearFlags_public :: "event \<Rightarrow> event" where
  "clearFlags_public e = e\<lparr>ev_flags := fl_clear (ev_flags e) PublicWrite\<rparr>"

definition scheduled :: "event \<Rightarrow> bool" where
  "scheduled e \<longleftrightarrow> fl_isSet (ev_flags e) Scheduled"

definition squash :: "event \<Rightarrow> event" where
  "squash e = e\<lparr>ev_flags := fl_set (ev_flags e) Squashed\<rparr>"

definition squashed :: "event \<Rightarrow> bool" where
  "squashed e \<longleftrightarrow> fl_isSet (ev_flags e) Squashed"

definition isExitEvent :: "event \<Rightarrow> bool" where
  "isExitEvent e \<longleftrightarrow> fl_isSet (ev_flags e) IsExitEvent"

definition isManaged :: "event \<Rightarrow> bool" where
  "isManaged e \<longleftrightarrow> fl_isSet (ev_flags e) Managed"

definition isAutoDelete :: "event \<Rightarrow> bool" where
  "isAutoDelete e \<longleftrightarrow> isManaged e"

text \<open>The destructor and the default memory management hooks.\<close>

definition Event_delete :: "event \<Rightarrow> event outcome" where
  "Event_delete e = check (\<not> scheduled e) Assert_Failed (Inr (e\<lparr>ev_flags := 0, ev_deleted := True\<rparr>))"

definition acquireImpl :: "event \<Rightarrow> event" where
  "acquireImpl e = e"

definition acquire :: "event \<Rightarrow> event" where
  "acquire e = (if fl_isSet (ev_flags e) Managed then acquireImpl e else e)"

definition releaseImpl :: "event \<Rightarrow> event outcome" where
  "releaseImpl e = (if \<not> scheduled e then Event_delete e else Inr e)"

definition release :: "event \<Rightarrow> event outcome" where
  "release e = (if fl_isSet (ev_flags e) Managed then releaseImpl e else Inr e)"

text \<open>Checkpoints hold the time, the priority and the flags.\<close>

definition ev_serialize :: "event \<Rightarrow> tick \<times> int \<times> u16" where
  "ev_serialize e = (ev_when e, ev_priority e, ev_flags e)"

definition ev_unserialize :: "event \<Rightarrow> tick \<times> int \<times> u16 \<Rightarrow> event outcome" where
  "ev_unserialize e cp =
     check (\<not> scheduled e) Assert_Failed
      (case cp of (w, p, f) \<Rightarrow>
        check (initialized e) Assert_Failed
         (let fl = fl_set f Initialized;
              e = e\<lparr>ev_when := w, ev_priority := p, ev_flags := fl\<rparr>
          in Inr (if fl_isSet fl Scheduled \<and> \<not> fl_isSet fl Squashed
                  then e\<lparr>ev_flags := fl_clear fl (Squashed OR Scheduled)\<rparr> else e)))"

section \<open>Order of events\<close>

definition ev_lt :: "event \<Rightarrow> event \<Rightarrow> bool" where
  "ev_lt l r \<longleftrightarrow> ev_when l < ev_when r \<or> (ev_when l = ev_when r \<and> ev_priority l < ev_priority r)"

definition ev_gt :: "event \<Rightarrow> event \<Rightarrow> bool" where
  "ev_gt l r \<longleftrightarrow> ev_when l > ev_when r \<or> (ev_when l = ev_when r \<and> ev_priority l > ev_priority r)"

definition ev_le :: "event \<Rightarrow> event \<Rightarrow> bool" where
  "ev_le l r \<longleftrightarrow> ev_when l < ev_when r \<or> (ev_when l = ev_when r \<and> ev_priority l \<le> ev_priority r)"

definition ev_ge :: "event \<Rightarrow> event \<Rightarrow> bool" where
  "ev_ge l r \<longleftrightarrow> ev_when l > ev_when r \<or> (ev_when l = ev_when r \<and> ev_priority l \<ge> ev_priority r)"

definition ev_eq :: "event \<Rightarrow> event \<Rightarrow> bool" where
  "ev_eq l r \<longleftrightarrow> ev_when l = ev_when r \<and> ev_priority l = ev_priority r"

definition ev_ne :: "event \<Rightarrow> event \<Rightarrow> bool" where
  "ev_ne l r \<longleftrightarrow> ev_when l \<noteq> ev_when r \<or> ev_priority l \<noteq> ev_priority r"

section \<open>The linked structure\<close>

record evqueue =
  objName :: string
  eq_head :: "ev option"
  eq_curTick :: tick
  async_queue :: "ev list"

definition EventQueue_new :: "string \<Rightarrow> evqueue" where
  "EventQueue_new n = \<lparr>objName = n, eq_head = None, eq_curTick = 0, async_queue = []\<rparr>"

definition insertBefore :: "heap \<Rightarrow> ev \<Rightarrow> ev option \<Rightarrow> heap \<times> ev" where
  "insertBefore h event cur =
     (case cur of
        None \<Rightarrow> (h(event := (h event)\<lparr>nextBin := cur, nextInBin := None\<rparr>), event)
      | Some c \<Rightarrow>
          if ev_lt (h event) (h c)
          then (h(event := (h event)\<lparr>nextBin := cur, nextInBin := None\<rparr>), event)
          else (h(event := (h event)\<lparr>nextBin := nextBin (h c), nextInBin := Some c\<rparr>), event))"

text \<open>The walk along the bins in \<^verbatim>\<open>insert\<close> and \<^verbatim>\<open>remove\<close>.\<close>

partial_function (option) find_bin :: "heap \<Rightarrow> ev \<Rightarrow> ev \<Rightarrow> ev option \<Rightarrow> (ev \<times> ev option) option" where
  "find_bin h event prev cur =
     (case cur of
        None \<Rightarrow> Some (prev, None)
      | Some c \<Rightarrow>
          if ev_lt (h c) (h event) then find_bin h event c (nextBin (h c)) else Some (prev, Some c))"

definition link_after :: "heap \<Rightarrow> ev \<Rightarrow> ev option \<Rightarrow> heap" where
  "link_after h prev p = h(prev := (h prev)\<lparr>nextBin := p\<rparr>)"

definition eq_insert :: "heap \<Rightarrow> evqueue \<Rightarrow> ev \<Rightarrow> (heap \<times> evqueue) outcome" where
  "eq_insert h q event =
     (case eq_head q of
        None \<Rightarrow> (case insertBefore h event None of (h', t) \<Rightarrow> Inr (h', q\<lparr>eq_head := Some t\<rparr>))
      | Some front \<Rightarrow>
          if ev_le (h event) (h front)
          then (case insertBefore h event (Some front) of (h', t) \<Rightarrow> Inr (h', q\<lparr>eq_head := Some t\<rparr>))
          else after_loop (find_bin h event front (nextBin (h front))) (\<lambda>(prev, cur).
            case insertBefore h event cur of (h', t) \<Rightarrow> Inr (link_after h' prev (Some t), q)))"

partial_function (option) find_in_bin :: "heap \<Rightarrow> ev \<Rightarrow> ev \<Rightarrow> ev option \<Rightarrow> ev outcome option" where
  "find_in_bin h event cur nxt =
     (case nxt of
        None \<Rightarrow> Some (Inl Panic)
      | Some n \<Rightarrow> if event = n then Some (Inr cur) else find_in_bin h event n (nextInBin (h n)))"

definition removeItem :: "heap \<Rightarrow> ev \<Rightarrow> ev \<Rightarrow> (heap \<times> ev option) outcome" where
  "removeItem h event tp =
     (if event = tp
      then (case nextInBin (h tp) of
              None \<Rightarrow> Inr (h, nextBin (h tp))
            | Some n \<Rightarrow> Inr (h(n := (h n)\<lparr>nextBin := nextBin (h tp)\<rparr>), Some n))
      else after_loop (find_in_bin h event tp (nextInBin (h tp))) (\<lambda>r.
        obind r (\<lambda>cur.
          Inr (h(cur := (h cur)\<lparr>nextInBin := nextInBin (h event)\<rparr>), Some tp))))"

definition eq_remove :: "qid \<Rightarrow> heap \<Rightarrow> evqueue \<Rightarrow> ev \<Rightarrow> (heap \<times> evqueue) outcome" where
  "eq_remove this h q event =
     (case eq_head q of
        None \<Rightarrow> Inl Panic
      | Some front \<Rightarrow>
          check (ev_queue (h event) = Some this) Assert_Failed
            (if ev_eq (h front) (h event)
             then obind (removeItem h event front) (\<lambda>(h', t). Inr (h', q\<lparr>eq_head := t\<rparr>))
             else after_loop (find_bin h event front (nextBin (h front))) (\<lambda>(prev, cur).
               case cur of
                 None \<Rightarrow> Inl Panic
               | Some c \<Rightarrow>
                   check (\<not> ev_ne (h c) (h event)) Panic
                     (obind (removeItem h event c) (\<lambda>(h', t). Inr (link_after h' prev t, q))))))"

text \<open>The part of \<^verbatim>\<open>serviceOne\<close> that takes the first event off the structure.\<close>

definition eq_pop :: "heap \<Rightarrow> evqueue \<Rightarrow> (ev \<times> heap \<times> evqueue) outcome" where
  "eq_pop h q =
     (case eq_head q of
        None \<Rightarrow> Inl Undefined
      | Some event \<Rightarrow>
          let nxt = nextInBin (h event);
              h = h(event := (h event)\<lparr>ev_flags := fl_clear (ev_flags (h event)) Scheduled\<rparr>)
          in case nxt of
               Some n \<Rightarrow>
                 Inr (event, h(n := (h n)\<lparr>nextBin := nextBin (h event)\<rparr>), q\<lparr>eq_head := Some n\<rparr>)
             | None \<Rightarrow> Inr (event, h, q\<lparr>eq_head := nextBin (h event)\<rparr>))"

text \<open>
  \<^verbatim>\<open>debugVerify\<close>: the inner walk over a bin returns \<open>Inl ()\<close> when a check fails, otherwise
  the last time and priority and the events seen; the outer walk follows the bins.
\<close>

partial_function (option) verify_in_bin ::
  "heap \<Rightarrow> ev option \<Rightarrow> tick \<Rightarrow> int \<Rightarrow> ev list \<Rightarrow> (unit + tick \<times> int \<times> ev list) option" where
  "verify_in_bin h p time prio seen =
     (case p of
        None \<Rightarrow> Some (Inr (time, prio, seen))
      | Some e \<Rightarrow>
          if ev_when (h e) < time then Some (Inl ())
          else if ev_when (h e) = time \<and> ev_priority (h e) < prio then Some (Inl ())
          else if e \<in> set seen then Some (Inl ())
          else verify_in_bin h (nextInBin (h e)) (ev_when (h e)) (ev_priority (h e)) (e # seen))"

partial_function (option) verify_bins ::
  "heap \<Rightarrow> ev option \<Rightarrow> tick \<Rightarrow> int \<Rightarrow> ev list \<Rightarrow> bool option" where
  "verify_bins h p time prio seen =
     (case p of
        None \<Rightarrow> Some True
      | Some e \<Rightarrow>
          (case verify_in_bin h p time prio seen of
             None \<Rightarrow> None
           | Some r \<Rightarrow> if isl r then Some False
                       else verify_bins h (nextBin (h e)) (fst (projr r)) (fst (snd (projr r))) (snd (snd (projr r)))))"

definition debugVerify :: "heap \<Rightarrow> evqueue \<Rightarrow> bool option" where
  "debugVerify h q = verify_bins h (eq_head q) 0 0 []"

section \<open>The list of bins in the heap\<close>

definition ekey :: "heap \<Rightarrow> ev \<Rightarrow> tick \<times> int" where
  "ekey h e = (ev_when (h e), ev_priority (h e))"

lemma ev_order:
  "ev_lt (h x) (h y) \<longleftrightarrow> ekey h x < ekey h y" "ev_gt (h x) (h y) \<longleftrightarrow> ekey h y < ekey h x"
  "ev_le (h x) (h y) \<longleftrightarrow> ekey h x \<le> ekey h y" "ev_ge (h x) (h y) \<longleftrightarrow> ekey h y \<le> ekey h x"
  "ev_eq (h x) (h y) \<longleftrightarrow> ekey h x = ekey h y" "ev_ne (h x) (h y) \<longleftrightarrow> ekey h x \<noteq> ekey h y"
  by (auto simp: ev_lt_def ev_gt_def ev_le_def ev_ge_def ev_eq_def ev_ne_def ekey_def less_prod_def less_eq_prod_def)

fun in_bin :: "heap \<Rightarrow> ev option \<Rightarrow> ev list \<Rightarrow> bool" where
  "in_bin h p [] \<longleftrightarrow> p = None"
| "in_bin h p (e # es) \<longleftrightarrow> p = Some e \<and> in_bin h (nextInBin (h e)) es"

fun bins_at :: "heap \<Rightarrow> ev option \<Rightarrow> ev list list \<Rightarrow> bool" where
  "bins_at h p [] \<longleftrightarrow> p = None"
| "bins_at h p ([] # bs) \<longleftrightarrow> False"
| "bins_at h p ((e # es) # bs) \<longleftrightarrow>
     p = Some e \<and> in_bin h (nextInBin (h e)) es \<and> bins_at h (nextBin (h e)) bs"

definition one_key :: "(ev \<Rightarrow> 'k) \<Rightarrow> ev list \<Rightarrow> bool" where
  "one_key key b \<longleftrightarrow> b \<noteq> [] \<and> (\<forall>x \<in> set b. key x = key (hd b))"

definition bins_ok :: "(ev \<Rightarrow> 'k::linorder) \<Rightarrow> ev list list \<Rightarrow> bool" where
  "bins_ok key bs \<longleftrightarrow>
     (\<forall>b \<in> set bs. one_key key b) \<and>
     sorted_wrt (<) (map (\<lambda>b. key (hd b)) bs) \<and> distinct (concat bs)"

definition queue_rel :: "heap \<Rightarrow> ev option \<Rightarrow> ev list \<Rightarrow> bool" where
  "queue_rel h p xs \<longleftrightarrow> (\<exists>bs. bins_at h p bs \<and> bins_ok (ekey h) bs \<and> xs = concat bs)"

text \<open>Changing links leaves the contents of the events alone.\<close>

definition same_data :: "event \<Rightarrow> event \<Rightarrow> bool" where
  "same_data e e' \<longleftrightarrow> e' = e\<lparr>nextBin := nextBin e', nextInBin := nextInBin e'\<rparr>"

definition relinked :: "ev set \<Rightarrow> heap \<Rightarrow> heap \<Rightarrow> bool" where
  "relinked X h h' \<longleftrightarrow> (\<forall>x. same_data (h x) (h' x)) \<and> (\<forall>x. x \<notin> X \<longrightarrow> h' x = h x)"

lemma same_data_refl [simp]: "same_data e e"
  by (simp add: same_data_def)

lemma same_data_fields:
  assumes "same_data e e'"
  shows "ev_when e' = ev_when e" "ev_priority e' = ev_priority e" "ev_flags e' = ev_flags e"
    "ev_queue e' = ev_queue e" "ev_deleted e' = ev_deleted e"
  by (subst assms [unfolded same_data_def], simp)+

lemma ekey_relinked: "relinked X h h' \<Longrightarrow> ekey h' = ekey h"
  by (rule ext) (simp add: relinked_def ekey_def same_data_fields)

lemma relinked_refl [simp]: "relinked X h h"
  by (simp add: relinked_def)

lemma in_bin_cong:
  "(\<And>x. x \<in> set es \<Longrightarrow> nextInBin (h' x) = nextInBin (h x)) \<Longrightarrow> in_bin h' p es = in_bin h p es"
  by (induction es arbitrary: p) auto

lemma bins_at_cong:
  "(\<And>x. x \<in> set (concat bs) \<Longrightarrow> nextInBin (h' x) = nextInBin (h x) \<and> nextBin (h' x) = nextBin (h x)) \<Longrightarrow>
   bins_at h' p bs = bins_at h p bs"
proof (induction h p bs rule: bins_at.induct)
  case (3 h p e es bs)
  then have "in_bin h' (nextInBin (h e)) es = in_bin h (nextInBin (h e)) es" by (intro in_bin_cong) auto
  with 3 show ?case by simp
qed auto

lemma sorted_wrt_mem: "(\<And>x y. x \<in> set xs \<Longrightarrow> y \<in> set xs \<Longrightarrow> P x y) \<Longrightarrow> sorted_wrt P xs"
  by (induction xs) auto

lemma one_keyD: "one_key key b \<Longrightarrow> b \<noteq> []" "one_key key b \<Longrightarrow> x \<in> set b \<Longrightarrow> key x = key (hd b)"
  unfolding one_key_def by blast+

lemma one_key_single [simp]: "one_key key [e]"
  by (simp add: one_key_def)

lemma one_key_Cons: "one_key key b \<Longrightarrow> key e = key (hd b) \<Longrightarrow> one_key key (e # b)"
  unfolding one_key_def by (metis list.discI list.sel(1) set_ConsD)

lemma bins_okI:
  "bins_ok key (b # bs) \<longleftrightarrow> one_key key b \<and> distinct b \<and>
     set b \<inter> set (concat bs) = {} \<and> (\<forall>c \<in> set bs. key (hd b) < key (hd c)) \<and> bins_ok key bs"
  by (auto simp: bins_ok_def)

lemma bins_ok_Nil [simp]: "bins_ok key []"
  by (simp add: bins_ok_def)

lemma bins_ok_same:
  "bins_ok key bs \<Longrightarrow> b \<in> set bs \<Longrightarrow> x \<in> set b \<Longrightarrow> y \<in> set b \<Longrightarrow> key x = key y"
  unfolding bins_ok_def by (metis one_keyD(2))

lemma bins_ok_later:
  assumes "bins_ok key (b # bs)" "x \<in> set b" "y \<in> set (concat bs)"
  shows "key x < key y"
proof -
  from assms(3) obtain c where c: "c \<in> set bs" "y \<in> set c" by auto
  with assms(1) have "one_key key b" "one_key key c" "key (hd b) < key (hd c)"
    by (auto simp: bins_ok_def)
  with c(2) assms(2) show ?thesis by (metis one_keyD(2))
qed

lemma bins_ok_sorted: "bins_ok key bs \<Longrightarrow> sorted (map key (concat bs))"
proof (induction bs)
  case (Cons b bs)
  have "sorted_wrt (\<lambda>x y. key x \<le> key y) b"
    by (intro sorted_wrt_mem) (metis Cons.prems bins_ok_same list.set_intros(1) order.refl)
  moreover have "key x \<le> key y" if "x \<in> set b" "y \<in> set (concat bs)" for x y
    using bins_ok_later [OF Cons.prems that] by simp
  moreover have "sorted (map key (concat bs))" using Cons by (simp only: bins_okI)
  ultimately show ?case by (auto simp: sorted_wrt_map sorted_wrt_append)
qed simp

lemma queue_rel_empty [simp]: "queue_rel h None xs \<longleftrightarrow> xs = []"
proof
  assume "queue_rel h None xs"
  then obtain bs where bs: "bins_at h None bs" "xs = concat bs" by (auto simp: queue_rel_def)
  then show "xs = []" by (cases bs; cases "hd bs") auto
next
  assume "xs = []"
  then show "queue_rel h None xs" by (auto simp: queue_rel_def intro!: exI [of _ "[]"])
qed

lemma queue_rel_sorted: "queue_rel h p xs \<Longrightarrow> sorted (map (ekey h) xs) \<and> distinct xs"
  by (auto simp: queue_rel_def bins_ok_sorted) (simp add: bins_ok_def)

section \<open>Insertion\<close>

fun bin_insert :: "(ev \<Rightarrow> 'k::linorder) \<Rightarrow> ev \<Rightarrow> ev list list \<Rightarrow> ev list list" where
  "bin_insert key e [] = [[e]]"
| "bin_insert key e (b # bs) =
     (if key e < key (hd b) then [e] # b # bs
      else if key e = key (hd b) then (e # b) # bs
      else b # bin_insert key e bs)"

lemma insort_key_append:
  "\<forall>x \<in> set ys. key x < key e \<Longrightarrow> insort_key key e (ys @ xs) = ys @ insort_key key e xs"
  by (induction ys) auto

lemma bin_insert_concat: "bins_ok key bs \<Longrightarrow> concat (bin_insert key e bs) = insort_key key e (concat bs)"
proof (induction bs)
  case (Cons b bs)
  then obtain x xs where b: "b = x # xs" by (cases b) (auto simp: bins_okI dest: one_keyD(1))
  show ?case
  proof (cases "key e \<le> key x")
    case True
    then show ?thesis by (auto simp: b not_less)
  next
    case False
    have "\<forall>y \<in> set b. key y < key e"
      by (metis Cons.prems False b bins_ok_same list.set_intros(1) not_le)
    note insort_key_append [OF this, of "concat bs"]
    moreover have "bin_insert key e (b # bs) = b # bin_insert key e bs" using False b by auto
    ultimately show ?thesis using Cons by (simp only: bins_okI concat.simps)
  qed
qed simp

lemma bin_insert_ok:
  "bins_ok key bs \<Longrightarrow> e \<notin> set (concat bs) \<Longrightarrow> bins_ok key (bin_insert key e bs)"
proof (induction bs)
  case Nil
  then show ?case by (simp add: bins_okI)
next
  case (Cons b bs)
  then have bs: "bins_ok key bs" "e \<notin> set (concat bs)" "e \<notin> set b" by (auto simp only: bins_okI concat.simps set_append Un_iff)
  have c: "key (hd b) < key (hd c)" if "c \<in> set bs" for c using Cons.prems(1) that by (simp only: bins_okI)
  consider "key e < key (hd b)" | "key e = key (hd b)" | "key (hd b) < key e" by fastforce
  then show ?case
  proof cases
    case 1
    moreover have "bins_ok key ([e] # b # bs)"
      unfolding bins_okI [of key "[e]"] using Cons.prems c 1 by (auto dest: less_trans)
    ultimately show ?thesis by simp
  next
    case 2
    moreover have "bins_ok key ((e # b) # bs)"
      using Cons.prems 2 c by (auto simp: bins_okI intro: one_key_Cons)
    ultimately show ?thesis by simp
  next
    case 3
    have "set (concat (bin_insert key e bs)) = insert e (set (concat bs))"
      by (simp only: bin_insert_concat [OF bs(1)] set_insort_key)
    moreover have "key (hd b) < key (hd c)" if "c \<in> set (bin_insert key e bs)" for c
      using that c 3 by (induction bs) (auto split: if_splits)
    ultimately have "bins_ok key (b # bin_insert key e bs)"
      using Cons.IH [OF bs(1,2)] Cons.prems bs(3) unfolding bins_okI [of key b] by auto
    with 3 show ?thesis by auto
  qed
qed

lemma insertBefore_bins:
  assumes "bins_at h p bs" "e \<notin> set (concat bs)" "\<forall>b \<in> set bs. ekey h e \<le> ekey h (hd b)"
  shows "\<exists>h'. insertBefore h e p = (h', e) \<and> bins_at h' (Some e) (bin_insert (ekey h) e bs) \<and>
    relinked {e} h h'"
proof -
  let ?new = "\<lambda>n i. h(e := (h e)\<lparr>nextBin := n, nextInBin := i\<rparr>)"
  have rel: "relinked {e} h (?new n i)" for n i by (simp add: relinked_def same_data_def)
  have old: "bins_at (?new n i) p' bs' = bins_at h p' bs'" if "e \<notin> set (concat bs')" for n i p' bs'
    using that by (intro bins_at_cong) auto
  have old': "in_bin (?new n i) p' es = in_bin h p' es" if "e \<notin> set es" for n i p' es
    using that by (intro in_bin_cong) auto
  show ?thesis
  proof (cases bs)
    case Nil
    with assms(1) rel show ?thesis by (auto simp: insertBefore_def)
  next
    case (Cons b bs')
    with assms(1) obtain t ts where b: "b = t # ts" "p = Some t" by (cases b) auto
    show ?thesis
    proof (cases "ekey h e < ekey h t")
      case True
      with assms b Cons rel show ?thesis
        by (auto simp: insertBefore_def ev_order old old')
    next
      case False
      with assms(3) b Cons have "ekey h e = ekey h t" by auto
      with assms b Cons rel show ?thesis
        by (auto simp: insertBefore_def ev_order old old')
    qed
  qed
qed

lemma link_after_bins:
  "prev \<notin> set (concat bs) \<Longrightarrow> bins_at (link_after h prev p) q bs = bins_at h q bs"
  by (intro bins_at_cong) (auto simp: link_after_def)

lemma relinked_trans: "relinked X h h' \<Longrightarrow> relinked Y h' h'' \<Longrightarrow> relinked (X \<union> Y) h h''"
  unfolding relinked_def same_data_def by (metis (no_types, lifting) UnCI event.surjective event.update_convs(1,2))

lemma relinked_out: "relinked X h h' \<Longrightarrow> x \<notin> X \<Longrightarrow> h' x = h x"
  by (simp add: relinked_def)

lemma relinked_link: "relinked {prev} h (link_after h prev p)"
  by (simp add: relinked_def same_data_def link_after_def)

lemma relinked_mono: "relinked X h h' \<Longrightarrow> X \<subseteq> Y \<Longrightarrow> relinked Y h h'"
  by (auto simp: relinked_def)

lemma find_bin_None [simp]: "find_bin h e prev None = Some (prev, None)"
  by (subst find_bin.simps) simp

lemma find_bin_Some: "find_bin h e prev (Some c) =
    (if ekey h c < ekey h e then find_bin h e c (nextBin (h c)) else Some (prev, Some c))"
  by (subst find_bin.simps) (simp add: ev_order)

definition splice :: "heap \<Rightarrow> ev \<Rightarrow> ev \<times> ev option \<Rightarrow> heap" where
  "splice h e pc = link_after (fst (insertBefore h e (snd pc))) (fst pc) (Some e)"

lemma find_bin_insert:
  assumes "bins_at h (nextBin (h prev)) bs" "bins_ok (ekey h) bs" "e \<notin> set (concat bs)"
    "prev \<notin> set (concat bs)" "e \<noteq> prev"
  shows "\<exists>pc h'. find_bin h e prev (nextBin (h prev)) = Some pc \<and> snd (insertBefore h e (snd pc)) = e \<and>
    h' = splice h e pc \<and> bins_at h' (nextBin (h' prev)) (bin_insert (ekey h) e bs) \<and>
    nextInBin (h' prev) = nextInBin (h prev) \<and> relinked ({e, prev} \<union> set (concat bs)) h h'"
  using assms
proof (induction bs arbitrary: prev)
  case Nil
  then show ?case
    by (auto simp: splice_def insertBefore_def link_after_def relinked_def same_data_def)
next
  case (Cons b bs)
  from Cons.prems(1) obtain t ts where b: "b = t # ts" "nextBin (h prev) = Some t"
    and t: "in_bin h (nextInBin (h t)) ts" "bins_at h (nextBin (h t)) bs" by (cases b) auto
  show ?case
  proof (cases "ekey h t < ekey h e")
    case True
    have "bins_ok (ekey h) bs" "e \<notin> set (concat bs)" "t \<notin> set (concat bs)" "e \<noteq> t"
      using Cons.prems b by (auto simp: bins_okI)
    from Cons.IH [OF t(2) this] obtain pc h' where h': "find_bin h e t (nextBin (h t)) = Some pc"
      "snd (insertBefore h e (snd pc)) = e" "h' = splice h e pc"
      "bins_at h' (nextBin (h' t)) (bin_insert (ekey h) e bs)" "nextInBin (h' t) = nextInBin (h t)"
      "relinked ({e, t} \<union> set (concat bs)) h h'" by blast
    have "h' prev = h prev" using h'(6) Cons.prems b by (auto simp: relinked_def)
    moreover have "in_bin h' (nextInBin (h t)) ts"
    proof -
      have "h' x = h x" if "x \<in> set ts" for x
      proof -
        have "x \<notin> {e, t} \<union> set (concat bs)"
          using that Cons.prems b by (auto simp: bins_okI disjoint_iff)
        with h'(6) show ?thesis by (rule relinked_out)
      qed
      then show ?thesis using t(1) in_bin_cong [of ts h' h] by simp
    qed
    moreover have "bin_insert (ekey h) e (b # bs) = b # bin_insert (ekey h) e bs" using True b by auto
    moreover have "relinked ({e, prev} \<union> set (concat (b # bs))) h h'"
      using h'(6) by (rule relinked_mono) (auto simp: b)
    ultimately show ?thesis using h' b True
      by (intro exI [of _ pc] exI [of _ h']) (simp add: find_bin_Some)
  next
    case False
    have le: "\<forall>c \<in> set (b # bs). ekey h e \<le> ekey h (hd c)"
      using False Cons.prems(2) b by (force simp: bins_okI)
    obtain h1 where h1: "insertBefore h e (Some t) = (h1, e)"
      "bins_at h1 (Some e) (bin_insert (ekey h) e (b # bs))" "relinked {e} h h1"
      using insertBefore_bins [OF _ Cons.prems(3) le] Cons.prems(1) b(2) by metis
    let ?h' = "link_after h1 prev (Some e)"
    have "prev \<notin> set (concat (bin_insert (ekey h) e (b # bs)))"
      using Cons.prems(2,4,5) by (simp only: bin_insert_concat set_insort_key) auto
    note link_after_bins [OF this, of h1 "Some e" "Some e"]
    moreover have "nextBin (?h' prev) = Some e" by (simp add: link_after_def)
    ultimately have 1: "bins_at ?h' (nextBin (?h' prev)) (bin_insert (ekey h) e (b # bs))"
      using h1(2) by (simp only:)
    have 2: "relinked ({e, prev} \<union> set (concat (b # bs))) h ?h'"
      by (rule relinked_mono [OF relinked_trans [OF h1(3) relinked_link]]) auto
    have "h1 prev = h prev" using h1(3) Cons.prems(5) by (auto simp: relinked_def)
    then have 3: "nextInBin (?h' prev) = nextInBin (h prev)" by (simp add: link_after_def)
    have 4: "find_bin h e prev (nextBin (h prev)) = Some (prev, Some t)"
      using False b(2) by (simp add: find_bin_Some)
    have 5: "?h' = splice h e (prev, Some t)" "snd (insertBefore h e (snd (prev, Some t))) = e"
      using h1(1) by (simp_all add: splice_def)
    show ?thesis using 1 2 3 4 5 by blast
  qed
qed

text \<open>\<^verbatim>\<open>insert\<close> on the abstract queue is insertion before the first event that is not earlier.\<close>

lemma eq_insert_refines:
  assumes "queue_rel h (eq_head q) xs" "e \<notin> set xs"
  shows "\<exists>h' p. eq_insert h q e = Inr (h', q\<lparr>eq_head := p\<rparr>) \<and>
    queue_rel h' p (insort_key (ekey h) e xs) \<and> relinked (insert e (set xs)) h h'"
proof -
  from assms(1) obtain bs where bs: "bins_at h (eq_head q) bs" "bins_ok (ekey h) bs" "xs = concat bs"
    by (auto simp: queue_rel_def)
  have rel: "queue_rel h' p (insort_key (ekey h) e xs)"
    if "bins_at h' p (bin_insert (ekey h) e bs)" "relinked X h h'" for h' p X
    using that bs assms(2) by (auto simp: queue_rel_def ekey_relinked bin_insert_ok bin_insert_concat)
  show ?thesis
  proof (cases "\<forall>b \<in> set bs. ekey h e \<le> ekey h (hd b)")
    case True
    from insertBefore_bins [OF bs(1) _ True] assms(2) bs(3) obtain h' where
      h': "insertBefore h e (eq_head q) = (h', e)" "bins_at h' (Some e) (bin_insert (ekey h) e bs)"
      "relinked {e} h h'" by auto
    have "relinked (insert e (set xs)) h h'" using h'(3) by (rule relinked_mono) simp
    moreover have "eq_insert h q e = Inr (h', q\<lparr>eq_head := Some e\<rparr>)"
      using h'(1) True bs(1) by (cases bs; cases "hd bs") (auto simp: eq_insert_def ev_order)
    ultimately show ?thesis using rel [OF h'(2,3)] by blast
  next
    case False
    then obtain b bs' where b: "bs = b # bs'" by (cases bs) auto
    with bs(1) obtain t ts where t: "b = t # ts" "eq_head q = Some t" by (cases b) auto
    have gt: "ekey h t < ekey h e" using False bs(2) by (force simp: b t bins_okI)
    have "bins_at h (nextBin (h t)) bs'" "bins_ok (ekey h) bs'" "e \<notin> set (concat bs')"
      "t \<notin> set (concat bs')" "e \<noteq> t" using bs assms(2) by (auto simp: b t bins_okI)
    from find_bin_insert [OF this] obtain pc h' where h': "find_bin h e t (nextBin (h t)) = Some pc"
      "snd (insertBefore h e (snd pc)) = e" "h' = splice h e pc"
      "bins_at h' (nextBin (h' t)) (bin_insert (ekey h) e bs')" "nextInBin (h' t) = nextInBin (h t)"
      "relinked ({e, t} \<union> set (concat bs')) h h'" by blast
    have "eq_insert h q e = Inr (h', q\<lparr>eq_head := Some t\<rparr>)"
      using gt h'(1-3) t by (auto simp: eq_insert_def ev_order splice_def split: prod.splits)
    moreover have "in_bin h' (nextInBin (h t)) ts"
    proof -
      have "h' x = h x" if "x \<in> set ts" for x
        using bs(2,3) that assms(2) by (intro relinked_out [OF h'(6)]) (auto simp: b t bins_okI disjoint_iff)
      then show ?thesis using bs(1) in_bin_cong [of ts h' h] by (simp add: b t)
    qed
    then have "bins_at h' (Some t) (bin_insert (ekey h) e bs)" using gt h'(4,5) by (auto simp: b t)
    moreover have "relinked (insert e (set xs)) h h'" using h'(6) by (rule relinked_mono) (auto simp: bs b t)
    ultimately show ?thesis using rel by blast
  qed
qed

section \<open>Removal\<close>

fun bin_remove :: "ev \<Rightarrow> ev list list \<Rightarrow> ev list list" where
  "bin_remove e [] = []"
| "bin_remove e (b # bs) =
     (if e \<in> set b then (if remove1 e b = [] then bs else remove1 e b # bs) else b # bin_remove e bs)"

lemma bin_remove_concat: "concat (bin_remove e bs) = remove1 e (concat bs)"
proof (induction bs)
  case (Cons b bs)
  then show ?case by (auto simp: remove1_append)
qed simp

lemma one_key_remove1: "one_key key b \<Longrightarrow> remove1 e b \<noteq> [] \<Longrightarrow> one_key key (remove1 e b) \<and> key (hd (remove1 e b)) = key (hd b)"
  unfolding one_key_def by (metis hd_in_set notin_set_remove1)

lemma bin_remove_keys: "bins_ok key bs \<Longrightarrow> c \<in> set (bin_remove e bs) \<Longrightarrow> \<exists>b \<in> set bs. key (hd c) = key (hd b)"
  by (induction bs) (auto simp: bins_okI split: if_splits dest: one_key_remove1)

lemma bin_remove_ok: "bins_ok key bs \<Longrightarrow> bins_ok key (bin_remove e bs)"
proof (induction bs)
  case (Cons b bs)
  have sub: "set (concat (bin_remove e bs)) \<subseteq> set (concat bs)"
    by (simp only: bin_remove_concat set_remove1_subset)
  show ?case
  proof (cases "e \<in> set b")
    case True
    have "set (remove1 e b) \<subseteq> set b" by (rule set_remove1_subset)
    with True Cons.prems show ?thesis
      by (auto simp: bins_okI [of key b] bins_okI [of key "remove1 e b"] dest: one_key_remove1)
  next
    case False
    have "key (hd b) < key (hd c)" if "c \<in> set (bin_remove e bs)" for c
      using bin_remove_keys [of key bs c e] that Cons.prems by (auto simp: bins_okI)
    with False Cons sub show ?thesis by (auto simp: bins_okI [of key b])
  qed
qed simp

lemma find_in_bin_None [simp]: "find_in_bin h e c None = Some (Inl Panic)"
  by (subst find_in_bin.simps) simp

lemma find_in_bin_Some [simp]: "find_in_bin h e c (Some n) =
    (if e = n then Some (Inr c) else find_in_bin h e n (nextInBin (h n)))"
  by (subst find_in_bin.simps) simp

lemma find_in_bin_absent: "in_bin h p es \<Longrightarrow> e \<notin> set es \<Longrightarrow> find_in_bin h e c p = Some (Inl Panic)"
  by (induction es arbitrary: p c) auto

definition unlink :: "heap \<Rightarrow> ev \<Rightarrow> ev \<Rightarrow> heap" where
  "unlink h e c = h(c := (h c)\<lparr>nextInBin := nextInBin (h e)\<rparr>)"

lemma unlink_apply: "unlink h e c x = (if x = c then (h c)\<lparr>nextInBin := nextInBin (h e)\<rparr> else h x)"
  by (simp add: unlink_def)

lemma find_in_bin_present:
  assumes "in_bin h (nextInBin (h c)) es" "e \<in> set es" "distinct (c # es)"
  shows "\<exists>c'. find_in_bin h e c (nextInBin (h c)) = Some (Inr c') \<and> c' \<in> set (c # es) \<and> c' \<noteq> e \<and>
    in_bin (unlink h e c') (nextInBin (unlink h e c' c)) (remove1 e es)"
  using assms
proof (induction es arbitrary: c)
  case (Cons n es)
  show ?case
  proof (cases "e = n")
    case True
    have "in_bin (unlink h e c) (nextInBin (h e)) es = in_bin h (nextInBin (h e)) es"
      using Cons.prems by (intro in_bin_cong) (auto simp: unlink_apply)
    moreover have "nextInBin (unlink h e c c) = nextInBin (h e)" by (simp add: unlink_apply)
    ultimately show ?thesis using True Cons.prems by (intro exI [of _ c]) auto
  next
    case False
    with Cons.prems have "in_bin h (nextInBin (h n)) es" "e \<in> set es" "distinct (n # es)" by auto
    from Cons.IH [OF this] obtain c' where "find_in_bin h e n (nextInBin (h n)) = Some (Inr c')"
      "c' \<in> set (n # es)" "c' \<noteq> e" "in_bin (unlink h e c') (nextInBin (unlink h e c' n)) (remove1 e es)" by blast
    moreover from this(2) Cons.prems(3) have "unlink h e c' c = h c" by (auto simp: unlink_apply)
    ultimately show ?thesis using False Cons.prems by (intro exI [of _ c']) auto
  qed
qed simp

lemma removeItem_bins:
  assumes "bins_at h (Some t) ((t # ts) # bs)" "distinct (concat ((t # ts) # bs))" "e \<in> set (t # ts)"
  shows "\<exists>h' p. removeItem h e t = Inr (h', p) \<and> bins_at h' p (bin_remove e ((t # ts) # bs)) \<and>
    relinked (set (t # ts)) h h'"
proof (cases "e = t")
  case True
  show ?thesis
  proof (cases ts)
    case Nil
    with True assms show ?thesis by (simp add: removeItem_def)
  next
    case (Cons n ns)
    let ?h = "h(n := (h n)\<lparr>nextBin := nextBin (h t)\<rparr>)"
    have "bins_at ?h (nextBin (h t)) bs = bins_at h (nextBin (h t)) bs"
      using assms(2) Cons by (intro bins_at_cong) auto
    moreover have "in_bin ?h (nextInBin (h n)) ns = in_bin h (nextInBin (h n)) ns"
      using assms(2) Cons by (intro in_bin_cong) auto
    ultimately show ?thesis
      using True assms Cons by (simp add: removeItem_def relinked_def same_data_def)
  qed
next
  case False
  with assms have "in_bin h (nextInBin (h t)) ts" "e \<in> set ts" "distinct (t # ts)" by auto
  from find_in_bin_present [OF this] obtain c where c: "find_in_bin h e t (nextInBin (h t)) = Some (Inr c)"
    "c \<in> set (t # ts)" "c \<noteq> e" "in_bin (unlink h e c) (nextInBin (unlink h e c t)) (remove1 e ts)" by blast
  have "bins_at (unlink h e c) (nextBin (h t)) bs = bins_at h (nextBin (h t)) bs"
    using assms(2) c(2) by (intro bins_at_cong) (auto simp: unlink_apply)
  moreover have "relinked (set (t # ts)) h (unlink h e c)"
    using c(2) by (auto simp: relinked_def same_data_def unlink_apply)
  moreover have "nextBin (unlink h e c t) = nextBin (h t)" by (simp add: unlink_apply)
  ultimately show ?thesis using False assms c by (auto simp: removeItem_def simp flip: unlink_def)
qed

lemma find_bin_remove:
  assumes "bins_at h (nextBin (h prev)) bs" "bins_ok (ekey h) bs" "prev \<notin> set (concat bs)" "e \<in> set (concat bs)"
  shows "\<exists>p t h' p'. find_bin h e prev (nextBin (h prev)) = Some (p, Some t) \<and> ekey h t = ekey h e \<and>
    removeItem h e t = Inr (h', p') \<and>
    bins_at (link_after h' p p') (nextBin (link_after h' p p' prev)) (bin_remove e bs) \<and>
    nextInBin (link_after h' p p' prev) = nextInBin (h prev) \<and>
    relinked (insert prev (set (concat bs))) h (link_after h' p p')"
  using assms
proof (induction bs arbitrary: prev)
  case (Cons b bs)
  from Cons.prems(1) obtain t ts where b: "b = t # ts" "nextBin (h prev) = Some t"
    and t: "in_bin h (nextInBin (h t)) ts" "bins_at h (nextBin (h t)) bs" by (cases b) auto
  show ?case
  proof (cases "e \<in> set b")
    case True
    then have eq: "ekey h t = ekey h e" using bins_ok_same [OF Cons.prems(2), of b t e] b by simp
    have d: "distinct (concat (b # bs))" using Cons.prems(2) by (simp only: bins_ok_def)
    from removeItem_bins [of h t ts bs e] Cons.prems(1) True d b obtain h' p' where
      h': "removeItem h e t = Inr (h', p')" "bins_at h' p' (bin_remove e (b # bs))" "relinked (set b) h h'"
      by auto
    let ?h = "link_after h' prev p'"
    have "set (concat (bin_remove e (b # bs))) \<subseteq> set (concat (b # bs))"
      by (simp only: bin_remove_concat set_remove1_subset)
    with Cons.prems(3) have "prev \<notin> set (concat (bin_remove e (b # bs)))" by blast
    from link_after_bins [OF this] h'(2) have "bins_at ?h p' (bin_remove e (b # bs))" by (simp only:)
    moreover have "nextBin (?h prev) = p'" by (simp add: link_after_def)
    moreover have "h' prev = h prev" using Cons.prems(3) b by (intro relinked_out [OF h'(3)]) auto
    then have "nextInBin (?h prev) = nextInBin (h prev)" by (simp add: link_after_def)
    moreover have "relinked (insert prev (set (concat (b # bs)))) h ?h"
      by (rule relinked_mono [OF relinked_trans [OF h'(3) relinked_link]]) auto
    moreover have "find_bin h e prev (nextBin (h prev)) = Some (prev, Some t)"
      using eq b by (simp add: find_bin_Some)
    ultimately show ?thesis using h'(1) eq by metis
  next
    case False
    with Cons.prems(4) have e: "e \<in> set (concat bs)" by simp
    then have lt: "ekey h t < ekey h e" using bins_ok_later [OF Cons.prems(2)] b by simp
    have "bins_ok (ekey h) bs" "t \<notin> set (concat bs)" using Cons.prems(2) b by (auto simp: bins_okI)
    from Cons.IH [OF t(2) this e] obtain p t' h' p' where
      h': "find_bin h e t (nextBin (h t)) = Some (p, Some t')" "ekey h t' = ekey h e"
      "removeItem h e t' = Inr (h', p')"
      "bins_at (link_after h' p p') (nextBin (link_after h' p p' t)) (bin_remove e bs)"
      "nextInBin (link_after h' p p' t) = nextInBin (h t)"
      "relinked (insert t (set (concat bs))) h (link_after h' p p')" by blast
    let ?h = "link_after h' p p'"
    have prev: "?h prev = h prev" using Cons.prems(3) b by (intro relinked_out [OF h'(6)]) auto
    have "?h x = h x" if "x \<in> set ts" for x
      using that Cons.prems(2) b by (intro relinked_out [OF h'(6)]) (auto simp: bins_okI disjoint_iff)
    then have "in_bin ?h (nextInBin (h t)) ts" using t(1) in_bin_cong [of ts ?h h] by simp
    then have "bins_at ?h (Some t) (bin_remove e (b # bs))" using False h'(4,5) b by simp
    moreover have "relinked (insert prev (set (concat (b # bs)))) h ?h"
      using h'(6) by (rule relinked_mono) (auto simp: b)
    moreover have "find_bin h e prev (nextBin (h prev)) = Some (p, Some t')"
      using lt b h'(1) by (simp add: find_bin_Some)
    ultimately show ?thesis using h'(2,3) prev b(2) by metis
  qed
qed simp

text \<open>
  \<^verbatim>\<open>remove\<close> takes exactly the given event out, and an event that is not in the queue is a
  panic or a failed assertion.
\<close>

lemma eq_remove_refines:
  assumes "queue_rel h (eq_head q) xs" "e \<in> set xs" "ev_queue (h e) = Some this"
  shows "\<exists>h' p. eq_remove this h q e = Inr (h', q\<lparr>eq_head := p\<rparr>) \<and>
    queue_rel h' p (remove1 e xs) \<and> relinked (set xs) h h'"
proof -
  from assms(1) obtain bs where bs: "bins_at h (eq_head q) bs" "bins_ok (ekey h) bs" "xs = concat bs"
    by (auto simp: queue_rel_def)
  have rel: "queue_rel h' p (remove1 e xs)" if "bins_at h' p (bin_remove e bs)" "relinked X h h'" for h' p X
    using that bs by (auto simp: queue_rel_def ekey_relinked bin_remove_ok bin_remove_concat)
  from assms(2) bs(3) obtain b bs' where b: "bs = b # bs'" by (cases bs) auto
  with bs(1) obtain t ts where t: "b = t # ts" "eq_head q = Some t" by (cases b) auto
  show ?thesis
  proof (cases "e \<in> set b")
    case True
    then have eq: "ekey h t = ekey h e" using bins_ok_same [OF bs(2), of b t e] b t by simp
    have d: "distinct (concat (b # bs'))" using bs(2) b by (simp only: bins_ok_def)
    from removeItem_bins [of h t ts bs' e] bs(1) True d b t obtain h' p where
      h': "removeItem h e t = Inr (h', p)" "bins_at h' p (bin_remove e bs)" "relinked (set b) h h'" by auto
    have "eq_remove this h q e = Inr (h', q\<lparr>eq_head := p\<rparr>)"
      using h'(1) eq t assms(3) by (simp add: eq_remove_def ev_order)
    moreover have "relinked (set xs) h h'" using h'(3) by (rule relinked_mono) (auto simp: bs b)
    ultimately show ?thesis using rel [OF h'(2,3)] by blast
  next
    case False
    with assms(2) bs(3) b have e: "e \<in> set (concat bs')" by simp
    have lt: "ekey h t < ekey h e" using bins_ok_later [OF bs(2) [unfolded b], of t e] e t by simp
    have "bins_at h (nextBin (h t)) bs'" "bins_ok (ekey h) bs'" "t \<notin> set (concat bs')"
      using bs by (auto simp: b t bins_okI)
    from find_bin_remove [OF this e] obtain p t' h' p' where
      h': "find_bin h e t (nextBin (h t)) = Some (p, Some t')" "ekey h t' = ekey h e"
      "removeItem h e t' = Inr (h', p')"
      "bins_at (link_after h' p p') (nextBin (link_after h' p p' t)) (bin_remove e bs')"
      "nextInBin (link_after h' p p' t) = nextInBin (h t)"
      "relinked (insert t (set (concat bs'))) h (link_after h' p p')" by blast
    let ?h = "link_after h' p p'"
    have "?h x = h x" if "x \<in> set ts" for x
      using that bs(2) by (intro relinked_out [OF h'(6)]) (auto simp: b t bins_okI disjoint_iff)
    then have "in_bin ?h (nextInBin (h t)) ts" using bs(1) in_bin_cong [of ts ?h h] by (simp add: b t)
    then have "bins_at ?h (Some t) (bin_remove e bs)" using False h'(4,5) by (simp add: b t)
    moreover have "eq_remove this h q e = Inr (?h, q\<lparr>eq_head := Some t\<rparr>)"
      using h'(1-3) lt t assms(3) by (auto simp: eq_remove_def ev_order)
    moreover have "relinked (set xs) h ?h" using h'(6) by (rule relinked_mono) (auto simp: bs b t)
    ultimately show ?thesis using rel by blast
  qed
qed

lemma find_bin_total:
  "bins_at h p bs \<Longrightarrow> \<exists>prev' c. find_bin h e prev p = Some (prev', c) \<and>
     (\<forall>t. c = Some t \<longrightarrow> (\<exists>ts. t # ts \<in> set bs \<and> in_bin h (nextInBin (h t)) ts))"
proof (induction h p bs arbitrary: prev rule: bins_at.induct)
  case (3 h p t ts bs)
  show ?case
  proof (cases "ekey h t < ekey h e")
    case True
    from 3 obtain prev' c where "find_bin h e t (nextBin (h t)) = Some (prev', c)"
      "\<forall>t. c = Some t \<longrightarrow> (\<exists>ts. t # ts \<in> set bs \<and> in_bin h (nextInBin (h t)) ts)" by fastforce
    with True 3(2) show ?thesis by (auto simp: find_bin_Some)
  qed (use 3(2) in \<open>auto simp: find_bin_Some\<close>)
qed auto

lemma removeItem_absent: "in_bin h (nextInBin (h t)) ts \<Longrightarrow> e \<notin> set (t # ts) \<Longrightarrow> removeItem h e t = Inl Panic"
  by (simp add: removeItem_def find_in_bin_absent)

lemma eq_remove_absent:
  assumes "queue_rel h (eq_head q) xs" "e \<notin> set xs"
  shows "eq_remove this h q e = Inl Panic \<or> eq_remove this h q e = Inl Assert_Failed"
proof (cases "eq_head q")
  case (Some f)
  from assms(1) obtain bs where bs: "bins_at h (eq_head q) bs" "xs = concat bs" by (auto simp: queue_rel_def)
  then obtain fs bs' where f: "bs = (f # fs) # bs'" "in_bin h (nextInBin (h f)) fs" "bins_at h (nextBin (h f)) bs'"
    using Some by (cases bs; cases "hd bs") auto
  from find_bin_total [OF f(3), of e f] obtain p c where c: "find_bin h e f (nextBin (h f)) = Some (p, c)"
    "\<And>t. c = Some t \<Longrightarrow> \<exists>ts. t # ts \<in> set bs' \<and> in_bin h (nextInBin (h t)) ts" by blast
  have "removeItem h e f = Inl Panic" using f assms(2) bs(2) by (intro removeItem_absent) auto
  moreover have "removeItem h e t = Inl Panic" if t: "c = Some t" for t
  proof -
    from c(2) [OF t] obtain ts where ts: "t # ts \<in> set bs'" "in_bin h (nextInBin (h t)) ts" by blast
    then have "set (t # ts) \<subseteq> set xs" unfolding bs(2) f(1) concat.simps set_append set_concat by blast
    with assms(2) have "e \<notin> set (t # ts)" by blast
    with ts(2) show ?thesis by (rule removeItem_absent)
  qed
  ultimately show ?thesis using Some c(1) by (auto simp: eq_remove_def check_def split: option.splits)
qed (simp add: eq_remove_def)

section \<open>Service\<close>

definition unscheduled :: "heap \<Rightarrow> ev \<Rightarrow> heap" where
  "unscheduled h e = h(e := (h e)\<lparr>ev_flags := fl_clear (ev_flags (h e)) Scheduled\<rparr>)"

lemma unscheduled_links [simp]:
  "nextBin (unscheduled h e x) = nextBin (h x)" "nextInBin (unscheduled h e x) = nextInBin (h x)"
  "ekey (unscheduled h e) = ekey h"
  by (auto simp: unscheduled_def ekey_def fun_eq_iff)

lemma bins_ok_tail: "bins_ok key ((e # n # ns) # bs) \<Longrightarrow> bins_ok key ((n # ns) # bs)"
  using bin_remove_ok [of key "(e # n # ns) # bs" e] by simp

text \<open>\<^verbatim>\<open>serviceOne\<close> takes the first event of the list.\<close>

lemma eq_pop_refines:
  assumes "queue_rel h (eq_head q) (e # xs)"
  shows "\<exists>h' p. eq_pop h q = Inr (e, h', q\<lparr>eq_head := p\<rparr>) \<and> queue_rel h' p xs \<and>
    relinked (set xs) (unscheduled h e) h'"
proof -
  from assms obtain bs where bs: "bins_at h (eq_head q) bs" "bins_ok (ekey h) bs" "e # xs = concat bs"
    by (auto simp: queue_rel_def)
  then obtain es bs' where b: "bs = (e # es) # bs'" "eq_head q = Some e" by (cases bs; cases "hd bs") auto
  let ?h = "unscheduled h e"
  have at: "bins_at ?h p bs = bins_at h p bs" "in_bin ?h p xs = in_bin h p xs" for p bs xs
    by (rule bins_at_cong, simp) (rule in_bin_cong, simp)
  show ?thesis
  proof (cases es)
    case Nil
    have "bins_ok (ekey h) bs'" using bs(2) b by (simp add: bins_okI)
    with Nil b bs show ?thesis
      by (auto simp: eq_pop_def queue_rel_def at simp flip: unscheduled_def intro!: exI [of _ bs'])
  next
    case (Cons n ns)
    let ?h' = "?h(n := (?h n)\<lparr>nextBin := nextBin (?h e)\<rparr>)"
    have ok: "bins_ok (ekey h) ((n # ns) # bs')" using bs(2) b Cons by (auto intro: bins_ok_tail)
    have rl: "relinked {n} ?h ?h'" by (simp add: relinked_def same_data_def)
    have "bins_at ?h' (nextBin (h e)) bs' = bins_at ?h (nextBin (h e)) bs'"
      using ok by (intro bins_at_cong) (auto simp: bins_okI)
    moreover have "in_bin ?h' (nextInBin (h n)) ns = in_bin ?h (nextInBin (h n)) ns"
      using ok by (intro in_bin_cong) (auto simp: bins_okI)
    ultimately have "bins_at ?h' (Some n) ((n # ns) # bs')" using bs(1) b Cons by (simp add: at)
    moreover have "ekey ?h' = ekey h" using ekey_relinked [OF rl] by simp
    ultimately have "queue_rel ?h' (Some n) xs" using ok bs(3) b Cons
      by (auto simp: queue_rel_def intro!: exI [of _ "(n # ns) # bs'"])
    moreover have "relinked (set xs) ?h ?h'" using rl by (rule relinked_mono) (use bs(3) b Cons in auto)
    moreover have "eq_pop h q = Inr (e, ?h', q\<lparr>eq_head := Some n\<rparr>)"
      using bs(1) b Cons by (simp add: eq_pop_def Let_def flip: unscheduled_def)
    ultimately show ?thesis by blast
  qed
qed

lemma eq_pop_empty: "queue_rel h (eq_head q) [] \<Longrightarrow> eq_pop h q = Inl Undefined"
proof -
  assume "queue_rel h (eq_head q) []"
  then obtain bs where "bins_at h (eq_head q) bs" "concat bs = []" by (auto simp: queue_rel_def)
  then show ?thesis by (cases bs; cases "hd bs") (auto simp: eq_pop_def)
qed

section \<open>The debugging check\<close>

lemma verify_in_bin_None [simp]: "verify_in_bin h None t pr seen = Some (Inr (t, pr, seen))"
  by (subst verify_in_bin.simps) simp

lemma verify_in_bin_Some: "verify_in_bin h (Some e) t pr seen =
    (if ekey h e < (t, pr) \<or> e \<in> set seen then Some (Inl ())
     else verify_in_bin h (nextInBin (h e)) (ev_when (h e)) (ev_priority (h e)) (e # seen))"
  by (subst verify_in_bin.simps) (auto simp: ekey_def)

lemma verify_in_bin_ok:
  assumes "in_bin h p es" "distinct es" "set es \<inter> set seen = {}" "\<forall>x \<in> set es. ekey h x = (t, pr)"
  shows "verify_in_bin h p t pr seen = Some (Inr (t, pr, rev es @ seen))"
  using assms
proof (induction es arbitrary: p seen)
  case (Cons e es)
  then have "verify_in_bin h (nextInBin (h e)) t pr (e # seen) = Some (Inr (t, pr, rev es @ e # seen))"
    by auto
  with Cons.prems show ?case by (auto simp: verify_in_bin_Some ekey_def)
qed simp

lemma verify_bins_ok:
  assumes "bins_at h p bs" "bins_ok (ekey h) bs" "set (concat bs) \<inter> set seen = {}"
    "bs = [] \<or> (t, pr) \<le> ekey h (hd (hd bs))"
  shows "verify_bins h p t pr seen = Some True"
  using assms
proof (induction bs arbitrary: p t pr seen)
  case Nil
  then show ?case by (subst verify_bins.simps) simp
next
  case (Cons b bs)
  from Cons.prems(1) obtain e es where b: "b = e # es" "p = Some e"
    and e: "in_bin h (nextInBin (h e)) es" "bins_at h (nextBin (h e)) bs" by (cases b) auto
  let ?t = "ev_when (h e)" and ?pr = "ev_priority (h e)"
  have key: "ekey h x = (?t, ?pr)" if "x \<in> set es" for x
    using bins_ok_same [OF Cons.prems(2), of b x e] that b by (simp add: ekey_def)
  have "verify_in_bin h (nextInBin (h e)) ?t ?pr (e # seen) = Some (Inr (?t, ?pr, rev es @ e # seen))"
    using e(1) Cons.prems(2,3) b key by (intro verify_in_bin_ok) (auto simp: bins_okI)
  then have step: "verify_in_bin h p t pr seen = Some (Inr (?t, ?pr, rev es @ e # seen))"
    using Cons.prems(3,4) b by (auto simp: verify_in_bin_Some)
  have next_key: "bs = [] \<or> (?t, ?pr) \<le> ekey h (hd (hd bs))"
    using Cons.prems(2) b by (cases bs) (auto simp: bins_okI ekey_def)
  have "verify_bins h (nextBin (h e)) ?t ?pr (rev es @ e # seen) = Some True"
    using Cons.prems(2,3) e(2) b next_key by (intro Cons.IH) (auto simp: bins_okI)
  with step b show ?case by (subst verify_bins.simps) simp
qed

lemma verify_bins_early:
  assumes "p = Some e" "ekey h e < (t, pr)"
  shows "verify_bins h p t pr seen = Some False"
  using assms by (subst verify_bins.simps) (simp add: verify_in_bin_Some)

lemma debugVerify_queue:
  assumes "queue_rel h (eq_head q) xs"
  shows "debugVerify h q = Some (xs = [] \<or> (0, 0) \<le> ekey h (hd xs))"
proof -
  from assms obtain bs where bs: "bins_at h (eq_head q) bs" "bins_ok (ekey h) bs" "xs = concat bs"
    by (auto simp: queue_rel_def)
  have hd: "bs \<noteq> [] \<Longrightarrow> eq_head q = Some (hd xs) \<and> hd (hd bs) = hd xs \<and> xs \<noteq> []"
    using bs(1,3) by (cases bs; cases "hd bs") auto
  show ?thesis
  proof (cases "bs = [] \<or> (0, 0) \<le> ekey h (hd (hd bs))")
    case True
    with hd bs(3) have "xs = [] \<or> (0, 0) \<le> ekey h (hd xs)" by (cases "bs = []") auto
    with True verify_bins_ok [OF bs(1,2), of "[]" 0 0] show ?thesis by (simp add: debugVerify_def)
  next
    case False
    with hd verify_bins_early [of "eq_head q" "hd xs" h 0 0 "[]"] show ?thesis
      by (auto simp: debugVerify_def not_le)
  qed
qed

section \<open>The queue as a priority list\<close>

interpretation evq: priority_list "\<lambda>(h, q) xs. queue_rel h (eq_head q) xs" "\<lambda>(h, q). ekey h"
  "\<lambda>(h, q) e. eq_insert h q e" "\<lambda>(h, q). eq_pop h q"
proof (unfold_locales, goal_cases)
  case (1 s xs)
  then show ?case by (auto dest: queue_rel_sorted split: prod.splits)
next
  case (2 s xs e)
  obtain h q where s: "s = (h, q)" by (cases s)
  from 2 eq_insert_refines [of h q xs e] obtain h' p where "eq_insert h q e = Inr (h', q\<lparr>eq_head := p\<rparr>)"
    "queue_rel h' p (insort_key (ekey h) e xs)" "relinked (insert e (set xs)) h h'" by (auto simp: s)
  then show ?case using ekey_relinked by (auto simp: s)
next
  case (3 s e xs)
  obtain h q where s: "s = (h, q)" by (cases s)
  from 3 eq_pop_refines [of h q e xs] obtain h' p where "eq_pop h q = Inr (e, h', q\<lparr>eq_head := p\<rparr>)"
    "queue_rel h' p xs" "relinked (set xs) (unscheduled h e) h'" by (auto simp: s)
  then show ?case using ekey_relinked [of "set xs" "unscheduled h e" h'] by (auto simp: s)
next
  case (4 s)
  then show ?case by (auto simp: eq_pop_empty split: prod.splits)
qed

section \<open>Properties\<close>

text \<open>
  C1. The linked structure refines a sorted list. On a queue that represents the list \<open>xs\<close>,
  \<^verbatim>\<open>insert\<close> always returns and puts a new event before the first event that is not earlier,
  \<^verbatim>\<open>remove\<close> returns and takes out exactly the given event of this queue, an absent event is
  reported as an error, and the first event of the list is the one \<^verbatim>\<open>serviceOne\<close> takes off. The
  loops end, the links of events outside the queue are not touched, and no operation changes the
  time or priority of an event.
\<close>

theorem event_queue_refines_list:
  assumes "queue_rel h (eq_head q) xs"
  shows "(e \<notin> set xs \<longrightarrow> (\<exists>h' p. eq_insert h q e = Inr (h', q\<lparr>eq_head := p\<rparr>) \<and>
      queue_rel h' p (insort_key (ekey h) e xs) \<and> relinked (insert e (set xs)) h h')) \<and>
    (e \<in> set xs \<and> ev_queue (h e) = Some this \<longrightarrow> (\<exists>h' p. eq_remove this h q e = Inr (h', q\<lparr>eq_head := p\<rparr>) \<and>
      queue_rel h' p (remove1 e xs) \<and> relinked (set xs) h h')) \<and>
    (e \<notin> set xs \<longrightarrow> isl (eq_remove this h q e)) \<and>
    (xs \<noteq> [] \<longrightarrow> (\<exists>h' p. eq_pop h q = Inr (hd xs, h', q\<lparr>eq_head := p\<rparr>) \<and> queue_rel h' p (tl xs) \<and>
      relinked (set (tl xs)) (unscheduled h (hd xs)) h'))"
proof -
  have "xs \<noteq> [] \<longrightarrow> (\<exists>h' p. eq_pop h q = Inr (hd xs, h', q\<lparr>eq_head := p\<rparr>) \<and> queue_rel h' p (tl xs) \<and>
      relinked (set (tl xs)) (unscheduled h (hd xs)) h')"
    using eq_pop_refines [of h q "hd xs" "tl xs"] assms by auto
  moreover have "e \<notin> set xs \<longrightarrow> isl (eq_remove this h q e)"
    using eq_remove_absent [OF assms, of e this] by auto
  ultimately show ?thesis
    using eq_insert_refines [OF assms, of e] eq_remove_refines [OF assms, of e this] by blast
qed

text \<open>Two events for the examples, and a queue that holds the first.\<close>

definition demo_event :: "tick \<Rightarrow> int \<Rightarrow> event" where
  "demo_event t p = \<lparr>nextBin = None, nextInBin = None, ev_when = t, ev_priority = p,
     ev_flags = Initialized, ev_queue = Some 0, ev_deleted = False\<rparr>"

definition demo_heap :: heap where
  "demo_heap e = demo_event (if e = 0 then 5 else 7) 0"

definition demo_queue :: evqueue where
  "demo_queue = \<lparr>objName = [], eq_head = Some 0, eq_curTick = 0, async_queue = []\<rparr>"

lemma demo_queue_rel: "queue_rel demo_heap (eq_head demo_queue) [0]"
  by (auto simp: queue_rel_def demo_queue_def demo_heap_def demo_event_def bins_okI intro!: exI [of _ "[[0]]"])

theorem event_queue_refines_list_witness:
  "\<exists>h' p. eq_insert demo_heap demo_queue 1 = Inr (h', demo_queue\<lparr>eq_head := p\<rparr>) \<and>
     queue_rel h' p (insort_key (ekey demo_heap) 1 [0])"
  using event_queue_refines_list [OF demo_queue_rel, of 1 0] by auto

text \<open>
  C28. Service order. Inserting distinct events into an empty queue and taking all of them off
  again yields them sorted by time and priority, and the events of equal time and priority in
  the reverse order of their insertion.
\<close>

theorem service_order:
  assumes "eq_head q = None" "distinct es"
  shows "\<exists>h1 q1 s2. ofold (\<lambda>(h, q) e. eq_insert h q e) (h, q) es = Inr (h1, q1) \<and>
    odrain (\<lambda>(h, q). eq_pop h q) (length es) (h1, q1) = Inr (sort_key (ekey h) (rev es), s2)"
  using evq.fill_drain [of "(h, q)" es] assms by auto

theorem service_order_witness:
  "\<exists>h1 q1 s2. ofold (\<lambda>(h, q) e. eq_insert h q e) (demo_heap, EventQueue_new []) [1, 0, 2] = Inr (h1, q1) \<and>
    odrain (\<lambda>(h, q). eq_pop h q) (length [1, 0, 2 :: ev]) (h1, q1) = Inr ([0, 2, 1], s2)"
proof -
  have "sort_key (ekey demo_heap) (rev [1, 0, 2]) = [0, 2, 1]"
    by (simp add: ekey_def demo_heap_def demo_event_def sort_key_def)
  note service_order [of "EventQueue_new []" "[1, 0, 2]" demo_heap, unfolded this]
  then show ?thesis by (simp add: EventQueue_new_def)
qed

text \<open>
  \<^verbatim>\<open>debugVerify\<close> ends on every well-formed queue, and its answer is whether the first event
  is not before tick 0, priority 0, the values its two local variables start with.
\<close>

theorem debugVerify_answer:
  assumes "queue_rel h (eq_head q) xs"
  shows "debugVerify h q = Some (xs = [] \<or> (0, 0) \<le> ekey h (hd xs))"
  using assms by (rule debugVerify_queue)

theorem debugVerify_answer_witness: "debugVerify demo_heap demo_queue = Some True"
  using debugVerify_answer [OF demo_queue_rel] by (simp add: ekey_def demo_heap_def demo_event_def)

text \<open>
  It follows that a correct queue with an event of negative priority at tick 0 fails the
  check: \<^verbatim>\<open>debugVerify\<close> reports an inverted priority that is not there.
\<close>

theorem debugVerify_false_alarm:
  "\<exists>h q. queue_rel h (eq_head q) [0] \<and> ev_when (h 0) = 0 \<and> debugVerify h q = Some False"
proof (intro exI conjI)
  let ?h = "\<lambda>e. demo_event 0 (- 1)"
  show r: "queue_rel ?h (eq_head demo_queue) [0]"
    by (auto simp: queue_rel_def demo_queue_def demo_event_def bins_okI intro!: exI [of _ "[[0]]"])
  show "debugVerify ?h demo_queue = Some False"
    using debugVerify_queue [OF r] by (simp add: ekey_def demo_event_def)
qed (simp add: demo_event_def)

end
