(* ===== verification/EventSim.thy ===== *)
theory EventSim
  imports EventQueue
begin

text \<open>
  Event queues at work, the interface of \<^verbatim>\<open>sim/eventq.hh\<close>: scheduling, descheduling and
  rescheduling, the service loop, asynchronous insertion, checkpoint restore and destruction, on a
  world of events and queues. The handler \<^verbatim>\<open>Event::process\<close> is virtual, so it is an argument
  of the functions that call it. Every state reachable through the interface keeps the queue
  invariant: each queue lists, in order of time and priority, live scheduled events of its own,
  none of them in the past.
\<close>

section \<open>The world\<close>

record world =
  heap_of :: heap
  queues :: "qid \<Rightarrow> evqueue"
  inParallelMode :: bool
  curEventQueue :: qid

definition upd_ev :: "world \<Rightarrow> ev \<Rightarrow> (event \<Rightarrow> event) \<Rightarrow> world" where
  "upd_ev w e f = w\<lparr>heap_of := (heap_of w)(e := f (heap_of w e))\<rparr>"

definition upd_queue :: "world \<Rightarrow> qid \<Rightarrow> (evqueue \<Rightarrow> evqueue) \<Rightarrow> world" where
  "upd_queue w q f = w\<lparr>queues := (queues w)(q := f (queues w q))\<rparr>"

definition put_queue :: "world \<Rightarrow> qid \<Rightarrow> heap \<times> evqueue \<Rightarrow> world" where
  "put_queue w q hq = w\<lparr>heap_of := fst hq, queues := (queues w)(q := snd hq)\<rparr>"

abbreviation alive :: "world \<Rightarrow> ev \<Rightarrow> bool" where
  "alive w e \<equiv> \<not> ev_deleted (heap_of w e)"

definition insert_w :: "world \<Rightarrow> qid \<Rightarrow> ev \<Rightarrow> world outcome" where
  "insert_w w q e = obind (eq_insert (heap_of w) (queues w q) e) (\<lambda>hq. Inr (put_queue w q hq))"

definition remove_w :: "world \<Rightarrow> qid \<Rightarrow> ev \<Rightarrow> world outcome" where
  "remove_w w q e = obind (eq_remove q (heap_of w) (queues w q) e) (\<lambda>hq. Inr (put_queue w q hq))"

definition release_w :: "world \<Rightarrow> ev \<Rightarrow> world outcome" where
  "release_w w e = obind (release (heap_of w e)) (\<lambda>x. Inr (upd_ev w e (\<lambda>_. x)))"

definition getCurTick :: "world \<Rightarrow> qid \<Rightarrow> tick" where
  "getCurTick w q = eq_curTick (queues w q)"

definition setCurTick :: "world \<Rightarrow> qid \<Rightarrow> tick \<Rightarrow> world" where
  "setCurTick w q t = upd_queue w q (\<lambda>x. x\<lparr>eq_curTick := t\<rparr>)"

definition eq_empty :: "world \<Rightarrow> qid \<Rightarrow> bool" where
  "eq_empty w q \<longleftrightarrow> eq_head (queues w q) = None"

definition nextTick :: "world \<Rightarrow> qid \<Rightarrow> tick outcome" where
  "nextTick w q = (case eq_head (queues w q) of None \<Rightarrow> Inl Undefined | Some e \<Rightarrow> Inr (ev_when (heap_of w e)))"

definition asyncInsert :: "world \<Rightarrow> qid \<Rightarrow> ev \<Rightarrow> world" where
  "asyncInsert w q e = upd_queue w q (\<lambda>x. x\<lparr>async_queue := async_queue x @ [e]\<rparr>)"

definition replaceHead :: "world \<Rightarrow> qid \<Rightarrow> ev option \<Rightarrow> world \<times> ev option" where
  "replaceHead w q s = (upd_queue w q (\<lambda>x. x\<lparr>eq_head := s\<rparr>), eq_head (queues w q))"

section \<open>Scheduling\<close>

definition schedule :: "world \<Rightarrow> qid \<Rightarrow> ev \<Rightarrow> tick \<Rightarrow> bool \<Rightarrow> world outcome" where
  "schedule w q e t global =
     check (t \<ge> getCurTick w q) Assert_Failed
      (check (alive w e) Undefined
       (check (\<not> scheduled (heap_of w e)) Assert_Failed
        (check (initialized (heap_of w e)) Assert_Failed
         (let w = upd_ev w e (setWhen t q)
          in obind (if inParallelMode w \<and> (q \<noteq> curEventQueue w \<or> global)
                    then Inr (asyncInsert w q e) else insert_w w q e) (\<lambda>w.
             Inr (upd_ev w e (\<lambda>x. acquire (x\<lparr>ev_flags := fl_set (ev_flags x) Scheduled\<rparr>))))))))"

definition deschedule :: "world \<Rightarrow> qid \<Rightarrow> ev \<Rightarrow> world outcome" where
  "deschedule w q e =
     check (alive w e) Undefined
      (check (scheduled (heap_of w e)) Assert_Failed
       (check (initialized (heap_of w e)) Assert_Failed
        (check (\<not> inParallelMode w \<or> q = curEventQueue w) Assert_Failed
         (obind (remove_w w q e) (\<lambda>w.
           release_w (upd_ev w e (\<lambda>x. x\<lparr>ev_flags := fl_clear (fl_clear (ev_flags x) Squashed) Scheduled\<rparr>)) e)))))"

definition reschedule :: "world \<Rightarrow> qid \<Rightarrow> ev \<Rightarrow> tick \<Rightarrow> bool \<Rightarrow> world outcome" where
  "reschedule w q e t always =
     check (t \<ge> getCurTick w q) Assert_Failed
      (check (alive w e) Undefined
       (check (always \<or> scheduled (heap_of w e)) Assert_Failed
        (check (initialized (heap_of w e)) Assert_Failed
         (check (\<not> inParallelMode w \<or> q = curEventQueue w) Assert_Failed
          (obind (if scheduled (heap_of w e) then remove_w w q e else Inr (upd_ev w e acquire)) (\<lambda>w.
            obind (insert_w (upd_ev w e (setWhen t q)) q e) (\<lambda>w.
              Inr (upd_ev w e (\<lambda>x. x\<lparr>ev_flags := fl_set (fl_clear (ev_flags x) Squashed) Scheduled\<rparr>)))))))))"

definition checkpointReschedule :: "world \<Rightarrow> qid \<Rightarrow> ev \<Rightarrow> world outcome" where
  "checkpointReschedule w q e =
     (if fl_isSet (ev_flags (heap_of w e)) Scheduled then insert_w w q e else Inr w)"

fun async_loop :: "world \<Rightarrow> qid \<Rightarrow> ev list \<Rightarrow> world outcome" where
  "async_loop w q [] = Inr w"
| "async_loop w q (e # es) =
     obind (insert_w w q e) (\<lambda>w. async_loop (upd_queue w q (\<lambda>x. x\<lparr>async_queue := es\<rparr>)) q es)"

definition handleAsyncInsertions :: "world \<Rightarrow> qid \<Rightarrow> world outcome" where
  "handleAsyncInsertions w q =
     check (q = curEventQueue w) Assert_Failed (async_loop w q (async_queue (queues w q)))"

section \<open>Service\<close>

type_synonym handler = "ev \<Rightarrow> world \<Rightarrow> world outcome"

definition serviceOne :: "handler \<Rightarrow> world \<Rightarrow> qid \<Rightarrow> (world \<times> ev option) outcome" where
  "serviceOne process w q =
     obind (eq_pop (heap_of w) (queues w q)) (\<lambda>(e, hq).
       let w = put_queue w q hq
       in if \<not> squashed (heap_of w e)
          then obind (process e (setCurTick w q (ev_when (heap_of w e)))) (\<lambda>w.
            check (alive w e) Undefined
             (if isExitEvent (heap_of w e)
              then check (\<not> fl_isSet (ev_flags (heap_of w e)) Managed \<or>
                          \<not> fl_isSet (ev_flags (heap_of w e)) IsMainQueue) Assert_Failed
                     (Inr (w, Some e))
              else obind (release_w w e) (\<lambda>w. Inr (w, None))))
          else obind (release_w (upd_ev w e (\<lambda>x. x\<lparr>ev_flags := fl_clear (ev_flags x) Squashed\<rparr>)) e)
                 (\<lambda>w. Inr (w, None)))"

partial_function (option) serviceEvents :: "handler \<Rightarrow> world \<Rightarrow> qid \<Rightarrow> tick \<Rightarrow> world outcome option" where
  "serviceEvents process w q t =
     (if eq_empty w q then Some (Inr (setCurTick w q t))
      else if ev_when (heap_of w (the (eq_head (queues w q)))) > t then Some (Inr (setCurTick w q t))
      else let r = serviceOne process w q
           in if isl r then Some (Inl (projl r)) else serviceEvents process (fst (projr r)) q t)"

text \<open>The destructor of a queue deschedules until it is empty.\<close>

partial_function (option) EventQueue_destroy :: "world \<Rightarrow> qid \<Rightarrow> world outcome option" where
  "EventQueue_destroy w q =
     (if eq_empty w q then Some (Inr w)
      else let r = deschedule w q (the (eq_head (queues w q)))
           in if isl r then Some (Inl (projl r)) else EventQueue_destroy (projr r) q)"

section \<open>The invariant\<close>

definition resident :: "world \<Rightarrow> qid \<Rightarrow> ev \<Rightarrow> bool" where
  "resident w q e \<longleftrightarrow> ev_queue (heap_of w e) = Some q \<and> scheduled (heap_of w e) \<and>
     initialized (heap_of w e) \<and> alive w e"

definition queue_inv :: "world \<Rightarrow> (qid \<Rightarrow> ev list) \<Rightarrow> bool" where
  "queue_inv w L \<longleftrightarrow> (\<forall>q. queue_rel (heap_of w) (eq_head (queues w q)) (L q) \<and>
     (\<forall>e \<in> set (L q) \<union> set (async_queue (queues w q)). resident w q e) \<and>
     distinct (async_queue (queues w q)) \<and> set (async_queue (queues w q)) \<inter> set (L q) = {})"

definition timely :: "world \<Rightarrow> (qid \<Rightarrow> ev list) \<Rightarrow> bool" where
  "timely w L \<longleftrightarrow> (\<forall>q. \<forall>e \<in> set (L q). getCurTick w q \<le> ev_when (heap_of w e))"

section \<open>Frames\<close>

definition same_node :: "event \<Rightarrow> event \<Rightarrow> bool" where
  "same_node x y \<longleftrightarrow> nextBin y = nextBin x \<and> nextInBin y = nextInBin x \<and>
     ev_when y = ev_when x \<and> ev_priority y = ev_priority x"

lemma same_node_refl [simp]: "same_node x x"
  by (simp add: same_node_def)

lemma bins_ok_cong:
  assumes "\<And>x. x \<in> set (concat bs) \<Longrightarrow> key' x = key x"
  shows "bins_ok key' bs = bins_ok key bs"
proof -
  have "one_key key' b = one_key key b" if "b \<in> set bs" for b
  proof (cases "b = []")
    case False
    with that have "hd b \<in> set (concat bs)" using hd_in_set by fastforce
    then have "key' (hd b) = key (hd b)" by (rule assms)
    moreover have "key' x = key x" if "x \<in> set b" for x
      using that \<open>b \<in> set bs\<close> by (intro assms) auto
    ultimately show ?thesis by (simp add: one_key_def)
  qed (simp add: one_key_def)
  moreover have "map (\<lambda>b. key' (hd b)) bs = map (\<lambda>b. key (hd b)) bs" if "\<forall>b \<in> set bs. b \<noteq> []"
  proof (rule map_cong)
    fix b
    assume "b \<in> set bs"
    with that have "hd b \<in> set (concat bs)" using hd_in_set by fastforce
    then show "key' (hd b) = key (hd b)" by (rule assms)
  qed simp
  ultimately show ?thesis unfolding bins_ok_def by (metis (mono_tags, lifting) one_keyD(1))
qed

lemma queue_rel_cong:
  assumes "\<And>x. x \<in> set xs \<Longrightarrow> same_node (h x) (h' x)"
  shows "queue_rel h' p xs = queue_rel h p xs"
proof -
  have "bins_at h' p bs = bins_at h p bs \<and> bins_ok (ekey h') bs = bins_ok (ekey h) bs" if "xs = concat bs" for bs
    using assms that by (intro conjI bins_at_cong bins_ok_cong) (auto simp: same_node_def ekey_def)
  then show ?thesis by (metis queue_rel_def)
qed

definition in_lists :: "world \<Rightarrow> (qid \<Rightarrow> ev list) \<Rightarrow> ev set" where
  "in_lists w L = (\<Union>q. set (L q) \<union> set (async_queue (queues w q)))"

lemma queue_invD:
  assumes "queue_inv w L"
  shows "queue_rel (heap_of w) (eq_head (queues w q)) (L q)"
    "e \<in> set (L q) \<Longrightarrow> resident w q e" "e \<in> set (async_queue (queues w q)) \<Longrightarrow> resident w q e"
    "distinct (async_queue (queues w q))" "set (async_queue (queues w q)) \<inter> set (L q) = {}"
  using assms by (auto simp: queue_inv_def)

lemma queue_inv_owner: "queue_inv w L \<Longrightarrow> e \<in> set (L q) \<union> set (async_queue (queues w q)) \<Longrightarrow>
    ev_queue (heap_of w e) = Some q \<and> scheduled (heap_of w e) \<and> alive w e"
  by (auto simp: queue_inv_def resident_def)

lemma unscheduled_not_listed: "queue_inv w L \<Longrightarrow> \<not> scheduled (heap_of w e) \<Longrightarrow> e \<notin> in_lists w L"
  by (auto simp: in_lists_def dest: queue_inv_owner)

lemma queue_invI:
  assumes "\<And>q. queue_rel (heap_of w) (eq_head (queues w q)) (L q)"
    "\<And>q e. e \<in> set (L q) \<Longrightarrow> resident w q e" "\<And>q e. e \<in> set (async_queue (queues w q)) \<Longrightarrow> resident w q e"
    "\<And>q. distinct (async_queue (queues w q))" "\<And>q. set (async_queue (queues w q)) \<inter> set (L q) = {}"
  shows "queue_inv w L"
  unfolding queue_inv_def using assms by blast

lemma upd_ev_simps [simp]:
  "queues (upd_ev w e f) = queues w" "inParallelMode (upd_ev w e f) = inParallelMode w"
  "curEventQueue (upd_ev w e f) = curEventQueue w" "getCurTick (upd_ev w e f) q = getCurTick w q"
  "heap_of (upd_ev w e f) e = f (heap_of w e)" "x \<noteq> e \<Longrightarrow> heap_of (upd_ev w e f) x = heap_of w x"
  "x \<noteq> e \<Longrightarrow> resident (upd_ev w e f) q x = resident w q x"
  by (simp_all add: upd_ev_def getCurTick_def resident_def)

lemma upd_unlisted:
  assumes "queue_inv w L" "e \<notin> in_lists w L"
  shows "queue_inv (upd_ev w e f) L"
proof (rule queue_invI)
  have e: "x \<noteq> e" if "x \<in> set (L q) \<union> set (async_queue (queues w q))" for x q
    using assms(2) that by (auto simp: in_lists_def)
  show "queue_rel (heap_of (upd_ev w e f)) (eq_head (queues (upd_ev w e f) q)) (L q)" for q
  proof -
    have "queue_rel (heap_of (upd_ev w e f)) p (L q) = queue_rel (heap_of w) p (L q)" for p
      using e [of _ q] by (intro queue_rel_cong) simp
    then show ?thesis using queue_invD(1) [OF assms(1)] by simp
  qed
  show "resident (upd_ev w e f) q x" if "x \<in> set (L q)" for q x
    using that e [of x q] queue_invD(2) [OF assms(1)] by auto
  show "resident (upd_ev w e f) q x" if "x \<in> set (async_queue (queues (upd_ev w e f) q))" for q x
    using that e [of x q] queue_invD(3) [OF assms(1)] by auto
qed (simp_all add: queue_invD [OF assms(1)])

text \<open>Two worlds that differ in links and queue heads only.\<close>

definition relinked_w :: "world \<Rightarrow> world \<Rightarrow> bool" where
  "relinked_w w w' \<longleftrightarrow> (\<forall>x. same_data (heap_of w x) (heap_of w' x)) \<and>
     (\<forall>q. queues w' q = (queues w q)\<lparr>eq_head := eq_head (queues w' q)\<rparr>) \<and>
     inParallelMode w' = inParallelMode w \<and> curEventQueue w' = curEventQueue w"

lemma relinked_w_fields:
  assumes "relinked_w w w'"
  shows "ev_when (heap_of w' x) = ev_when (heap_of w x)" "ev_priority (heap_of w' x) = ev_priority (heap_of w x)"
    "ev_flags (heap_of w' x) = ev_flags (heap_of w x)" "ev_queue (heap_of w' x) = ev_queue (heap_of w x)"
    "ev_deleted (heap_of w' x) = ev_deleted (heap_of w x)"
    "eq_curTick (queues w' q) = eq_curTick (queues w q)" "async_queue (queues w' q) = async_queue (queues w q)"
proof -
  from assms have "same_data (heap_of w x) (heap_of w' x)" by (simp add: relinked_w_def)
  then show "ev_when (heap_of w' x) = ev_when (heap_of w x)" "ev_priority (heap_of w' x) = ev_priority (heap_of w x)"
    "ev_flags (heap_of w' x) = ev_flags (heap_of w x)" "ev_queue (heap_of w' x) = ev_queue (heap_of w x)"
    "ev_deleted (heap_of w' x) = ev_deleted (heap_of w x)" by (simp_all add: same_data_fields)
  from assms have "queues w' q = (queues w q)\<lparr>eq_head := eq_head (queues w' q)\<rparr>" by (simp add: relinked_w_def)
  then show "eq_curTick (queues w' q) = eq_curTick (queues w q)" "async_queue (queues w' q) = async_queue (queues w q)"
    by (metis evqueue.select_convs(3,4) evqueue.surjective evqueue.update_convs(2))+
qed

lemma relinked_w_flags [simp]:
  assumes "relinked_w w w'"
  shows "scheduled (heap_of w' x) = scheduled (heap_of w x)" "initialized (heap_of w' x) = initialized (heap_of w x)"
    "resident w' q x = resident w q x" "getCurTick w' q = getCurTick w q"
  using relinked_w_fields [OF assms]
  by (simp_all add: scheduled_def initialized_def resident_def getCurTick_def)

text \<open>The events of the other queues are untouched by a relinking of one queue's events.\<close>

lemma put_queue_others:
  assumes "queue_inv w L" "relinked (insert e (set (L q))) (heap_of w) h'" "e \<notin> in_lists w L \<or> e \<in> set (L q)" "q' \<noteq> q"
  shows "queue_rel h' p (L q') = queue_rel (heap_of w) p (L q')"
proof (rule queue_rel_cong)
  fix x
  assume x: "x \<in> set (L q')"
  then have "x \<notin> insert e (set (L q))"
    using assms queue_inv_owner [OF assms(1), of x q'] queue_inv_owner [OF assms(1), of x q]
    by (auto simp: in_lists_def)
  with assms(2) show "same_node (heap_of w x) (h' x)" by (simp add: relinked_out)
qed

section \<open>Insertion and removal keep the invariant\<close>

lemma put_queue_simps [simp]:
  "heap_of (put_queue w q hq) = fst hq" "queues (put_queue w q hq) = (queues w)(q := snd hq)"
  "inParallelMode (put_queue w q hq) = inParallelMode w" "curEventQueue (put_queue w q hq) = curEventQueue w"
  by (simp_all add: put_queue_def)

lemma relinked_w_put:
  "relinked X (heap_of w) h' \<Longrightarrow> relinked_w w (put_queue w q (h', (queues w q)\<lparr>eq_head := p\<rparr>))"
  by (simp add: relinked_w_def relinked_def)

abbreviation upd_flags :: "world \<Rightarrow> ev \<Rightarrow> (u16 \<Rightarrow> u16) \<Rightarrow> world" where
  "upd_flags w e g \<equiv> upd_ev w e (\<lambda>x. x\<lparr>ev_flags := g (ev_flags x)\<rparr>)"

lemma insert_inv:
  assumes inv: "queue_inv w L" and e: "e \<notin> in_lists w L" "ev_queue (heap_of w e) = Some q" "alive w e"
    and g: "fl_isSet (g (ev_flags (heap_of w e))) Scheduled" "g (ev_flags (heap_of w e)) AND InitMask = Initialized"
  shows "\<exists>w'. insert_w w q e = Inr w' \<and> relinked_w w w' \<and>
    queue_inv (upd_flags w' e g) (L(q := insort_key (ekey (heap_of w)) e (L q)))"
proof -
  have "e \<notin> set (L q)" using e(1) by (auto simp: in_lists_def)
  from eq_insert_refines [OF queue_invD(1) [OF inv] this] obtain h' p where
    h': "eq_insert (heap_of w) (queues w q) e = Inr (h', (queues w q)\<lparr>eq_head := p\<rparr>)"
    "queue_rel h' p (insort_key (ekey (heap_of w)) e (L q))" "relinked (insert e (set (L q))) (heap_of w) h'"
    by blast
  let ?w = "put_queue w q (h', (queues w q)\<lparr>eq_head := p\<rparr>)" and ?L = "L(q := insort_key (ekey (heap_of w)) e (L q))"
  have rl: "relinked_w w ?w" using h'(3) by (rule relinked_w_put)
  have res: "resident (upd_flags ?w e g) q' x" if "x \<in> set (?L q') \<union> set (async_queue (queues w q'))" for q' x
  proof (cases "x = e")
    case True
    have "q' = q" using that True e(1) by (auto simp: in_lists_def set_insort_key split: if_splits)
    with True e(2,3) g relinked_w_fields [OF rl, of e] show ?thesis
      by (simp add: resident_def scheduled_def initialized_def del: put_queue_simps)
  next
    case False
    with that have "x \<in> set (L q') \<union> set (async_queue (queues w q'))" by (auto simp: set_insort_key split: if_splits)
    with False rl show ?thesis using queue_invD(2,3) [OF inv, of x q'] by auto
  qed
  have "queue_inv (upd_flags ?w e g) ?L"
  proof (rule queue_invI)
    have node: "queue_rel (heap_of (upd_flags ?w e g)) p' xs = queue_rel h' p' xs" for p' xs
      by (intro queue_rel_cong) (auto simp: upd_ev_def same_node_def)
    show "queue_rel (heap_of (upd_flags ?w e g)) (eq_head (queues (upd_flags ?w e g) q')) (?L q')" for q'
      using put_queue_others [OF inv h'(3), of q'] e(1) h'(2) queue_invD(1) [OF inv, of q'] by (auto simp: node)
    show "set (async_queue (queues (upd_flags ?w e g) q')) \<inter> set (?L q') = {}" for q'
      using queue_invD(5) [OF inv, of q'] e(1) by (auto simp: set_insort_key in_lists_def)
    show "distinct (async_queue (queues (upd_flags ?w e g) q'))" for q'
      using queue_invD(4) [OF inv, of q'] by auto
  qed (use res in \<open>auto split: if_splits\<close>)
  moreover have "insert_w w q e = Inr ?w" using h'(1) by (simp add: insert_w_def)
  ultimately show ?thesis using rl by blast
qed

lemma remove_inv:
  assumes inv: "queue_inv w L" and e: "e \<in> set (L q)"
  shows "\<exists>w'. remove_w w q e = Inr w' \<and> relinked_w w w' \<and> queue_inv w' (L(q := remove1 e (L q))) \<and>
    e \<notin> in_lists w' (L(q := remove1 e (L q)))"
proof -
  have own: "ev_queue (heap_of w e) = Some q" using queue_inv_owner [OF inv] e by auto
  from eq_remove_refines [OF queue_invD(1) [OF inv] e own] obtain h' p where
    h': "eq_remove q (heap_of w) (queues w q) e = Inr (h', (queues w q)\<lparr>eq_head := p\<rparr>)"
    "queue_rel h' p (remove1 e (L q))" "relinked (set (L q)) (heap_of w) h'" by blast
  let ?w = "put_queue w q (h', (queues w q)\<lparr>eq_head := p\<rparr>)" and ?L = "L(q := remove1 e (L q))"
  have rl: "relinked_w w ?w" using h'(3) by (rule relinked_w_put)
  have h'3: "relinked (insert e (set (L q))) (heap_of w) h'" using h'(3) by (rule relinked_mono) auto
  have sub: "set (?L q') \<subseteq> set (L q')" for q' by (simp add: set_remove1_subset)
  have "queue_inv ?w ?L"
  proof (rule queue_invI)
    show "queue_rel (heap_of ?w) (eq_head (queues ?w q')) (?L q')" for q'
      using put_queue_others [OF inv h'3, of q'] e h'(2) queue_invD(1) [OF inv, of q'] by auto
    show "set (async_queue (queues ?w q')) \<inter> set (?L q') = {}" for q'
      using queue_invD(5) [OF inv, of q'] sub [of q'] by (auto split: if_splits)
    show "resident ?w q' x" if "x \<in> set (?L q')" for q' x
      using that sub [of q'] queue_invD(2) [OF inv, of x q'] rl by auto
    show "resident ?w q' x" if "x \<in> set (async_queue (queues ?w q'))" for q' x
      using that queue_invD(3) [OF inv, of x q'] rl by (auto split: if_splits)
    show "distinct (async_queue (queues ?w q'))" for q' using queue_invD(4) [OF inv, of q'] by auto
  qed
  moreover have "e \<notin> in_lists ?w ?L"
  proof -
    have "distinct (L q)" using queue_rel_sorted [OF queue_invD(1) [OF inv]] by blast
    moreover have "e \<notin> set (L q')" "e \<notin> set (async_queue (queues w q'))" if "q' \<noteq> q" for q'
      using queue_inv_owner [OF inv, of e q'] own that by auto
    moreover have "e \<notin> set (async_queue (queues w q))" using queue_invD(5) [OF inv, of q] e by auto
    ultimately show ?thesis by (auto simp: in_lists_def split: if_splits)
  qed
  moreover have "remove_w w q e = Inr ?w" using h'(1) by (simp add: remove_w_def)
  ultimately show ?thesis using rl by blast
qed

section \<open>The interface keeps the invariant\<close>

lemma flag_masks [simp]:
  "Scheduled AND InitMask = 0" "Squashed AND InitMask = 0" "Squashed AND Scheduled = 0" "Scheduled AND Squashed = 0"
  "Scheduled \<noteq> 0" "Squashed \<noteq> 0" "Scheduled AND Managed = 0" "Squashed AND Managed = 0"
  by (simp_all add: flag_consts)

lemmas flag_simps = fl_laws scheduled_def initialized_def squashed_def isManaged_def isExitEvent_def

lemma acquire_id [simp]: "acquire x = x"
  by (simp add: acquire_def acquireImpl_def)

lemma setWhen_simps [simp]:
  "ev_flags (setWhen t q x) = ev_flags x" "ev_queue (setWhen t q x) = Some q" "ev_when (setWhen t q x) = t"
  "ev_deleted (setWhen t q x) = ev_deleted x" "ev_priority (setWhen t q x) = ev_priority x"
  by (simp_all add: setWhen_def)

definition ordered_at :: "world \<Rightarrow> ev \<Rightarrow> tick \<Rightarrow> ev list \<Rightarrow> ev list" where
  "ordered_at w e t xs = insort_key ((ekey (heap_of w))(e := (t, ev_priority (heap_of w e)))) e xs"

lemma set_ordered_at [simp]: "set (ordered_at w e t xs) = insert e (set xs)"
  by (simp add: ordered_at_def set_insort_key)

lemma ekey_setWhen: "ekey (heap_of (upd_ev w e (setWhen t q))) = (ekey (heap_of w))(e := (t, ev_priority (heap_of w e)))"
  by (auto simp: ekey_def upd_ev_def fun_eq_iff)

lemma in_lists_upd [simp]: "in_lists (upd_ev w e f) L = in_lists w L"
  by (simp add: in_lists_def)

lemma reinsert_inv:
  assumes "queue_inv w L" "e \<notin> in_lists w L" "alive w e" "initialized (heap_of w e)"
    and g: "g = (\<lambda>f. fl_set f Scheduled) \<or> g = (\<lambda>f. fl_set (fl_clear f Squashed) Scheduled)"
  shows "\<exists>w'. insert_w (upd_ev w e (setWhen t q)) q e = Inr w' \<and> relinked_w (upd_ev w e (setWhen t q)) w' \<and>
    queue_inv (upd_flags w' e g) (L(q := ordered_at w e t (L q)))"
  using insert_inv [of "upd_ev w e (setWhen t q)" L e q g] upd_unlisted [OF assms(1,2)] assms
  by (auto simp: ekey_setWhen ordered_at_def initialized_def fl_laws)

lemma timely_upd:
  assumes "timely w L" "relinked_w (upd_ev w e (setWhen t q)) w'" "getCurTick w q \<le> t" "e \<notin> in_lists w L"
  shows "timely (upd_flags w' e g) (L(q := ordered_at w e t (L q)))"
proof -
  have "ev_when (heap_of (upd_flags w' e g) x) = (if x = e then t else ev_when (heap_of w x))" for x
    using relinked_w_fields(1) [OF assms(2), of x] by (auto simp: upd_ev_def)
  moreover have "getCurTick (upd_flags w' e g) q' = getCurTick w q'" for q' using assms(2) by simp
  ultimately show ?thesis using assms(1,3,4) by (auto simp: timely_def in_lists_def split: if_splits)
qed

text \<open>Scheduling on the running queue succeeds when its assertions hold, and orders the event.\<close>

lemma schedule_serial:
  assumes "queue_inv w L" "timely w L" "\<not> (inParallelMode w \<and> (q \<noteq> curEventQueue w \<or> g))"
    "getCurTick w q \<le> t" "alive w e" "\<not> scheduled (heap_of w e)" "initialized (heap_of w e)"
  shows "\<exists>w'. schedule w q e t g = Inr w' \<and> queue_inv w' (L(q := ordered_at w e t (L q))) \<and>
    timely w' (L(q := ordered_at w e t (L q))) \<and> scheduled (heap_of w' e) \<and> ev_when (heap_of w' e) = t \<and>
    (\<forall>x. x \<noteq> e \<longrightarrow> same_data (heap_of w x) (heap_of w' x)) \<and> (\<forall>q. getCurTick w' q = getCurTick w q) \<and>
    inParallelMode w' = inParallelMode w \<and> curEventQueue w' = curEventQueue w \<and>
    ev_flags (heap_of w' e) = fl_set (ev_flags (heap_of w e)) Scheduled"
proof -
  have un: "e \<notin> in_lists w L" using assms(1,6) by (rule unscheduled_not_listed)
  obtain w1 where w1: "insert_w (upd_ev w e (setWhen t q)) q e = Inr w1" "relinked_w (upd_ev w e (setWhen t q)) w1"
    "queue_inv (upd_flags w1 e (\<lambda>f. fl_set f Scheduled)) (L(q := ordered_at w e t (L q)))"
    using reinsert_inv [OF assms(1) un assms(5,7)] by blast
  let ?w = "upd_flags w1 e (\<lambda>f. fl_set f Scheduled)"
  have "schedule w q e t g = Inr ?w"
    using assms w1(1) by (auto simp: schedule_def Let_def)
  moreover have "ev_when (heap_of ?w e) = t" using relinked_w_fields(1) [OF w1(2), of e] by simp
  moreover have "scheduled (heap_of ?w e)" by (simp add: scheduled_def fl_laws)
  moreover have "same_data (heap_of w x) (heap_of ?w x)" if "x \<noteq> e" for x
    using w1(2) that by (auto simp: relinked_w_def dest: spec [of _ x])
  moreover have "inParallelMode ?w = inParallelMode w" "curEventQueue ?w = curEventQueue w"
    using w1(2) by (simp_all add: relinked_w_def)
  moreover have "ev_flags (heap_of ?w e) = fl_set (ev_flags (heap_of w e)) Scheduled"
    using relinked_w_fields(3) [OF w1(2), of e] by simp
  ultimately show ?thesis
    using timely_upd [OF assms(2) w1(2) assms(4) un] w1(2,3) by auto
qed

lemma release_ok:
  assumes "\<not> scheduled x"
  shows "release x = Inr (if isManaged x then x\<lparr>ev_flags := 0, ev_deleted := True\<rparr> else x)"
  using assms by (simp add: release_def releaseImpl_def Event_delete_def isManaged_def)

lemma release_w_unlisted:
  assumes "queue_inv w L" "e \<notin> in_lists w L" "\<not> scheduled (heap_of w e)"
  shows "\<exists>w'. release_w w e = Inr w' \<and> queue_inv w' L \<and> (\<forall>x. x \<noteq> e \<longrightarrow> heap_of w' x = heap_of w x) \<and>
    queues w' = queues w \<and> inParallelMode w' = inParallelMode w \<and> curEventQueue w' = curEventQueue w \<and>
    \<not> scheduled (heap_of w' e) \<and> (ev_deleted (heap_of w' e) \<longleftrightarrow> ev_deleted (heap_of w e) \<or> isManaged (heap_of w e))"
  using assms release_ok [OF assms(3)] upd_unlisted [OF assms(1,2)]
  by (auto simp: release_w_def scheduled_def fl_isSet_def)

lemma same_data_timely:
  "timely w L \<Longrightarrow> (\<And>q. getCurTick w' q = getCurTick w q) \<Longrightarrow>
   (\<And>q e. e \<in> set (L' q) \<Longrightarrow> e \<in> set (L q) \<and> ev_when (heap_of w' e) = ev_when (heap_of w e)) \<Longrightarrow> timely w' L'"
  by (auto simp: timely_def)

text \<open>Descheduling an event of the queue removes it and leaves every other event in place.\<close>

lemma deschedule_listed:
  assumes "queue_inv w L" "timely w L" "e \<in> set (L q)" "\<not> inParallelMode w \<or> q = curEventQueue w"
  shows "\<exists>w'. deschedule w q e = Inr w' \<and> queue_inv w' (L(q := remove1 e (L q))) \<and>
    timely w' (L(q := remove1 e (L q))) \<and> \<not> scheduled (heap_of w' e) \<and>
    (ev_deleted (heap_of w' e) \<longleftrightarrow> isManaged (heap_of w e)) \<and>
    (\<forall>x. x \<noteq> e \<longrightarrow> same_data (heap_of w x) (heap_of w' x)) \<and> (\<forall>q. getCurTick w' q = getCurTick w q) \<and>
    inParallelMode w' = inParallelMode w \<and> curEventQueue w' = curEventQueue w"
proof -
  have res: "resident w q e" using assms(1,3) by (simp add: queue_invD)
  let ?L = "L(q := remove1 e (L q))" and ?g = "\<lambda>f. fl_clear (fl_clear f Squashed) Scheduled"
  obtain w1 where w1: "remove_w w q e = Inr w1" "relinked_w w w1" "queue_inv w1 ?L" "e \<notin> in_lists w1 ?L"
    using remove_inv [of w L e q] assms(1,3) by blast
  let ?w2 = "upd_flags w1 e ?g"
  have u: "queue_inv ?w2 ?L" "e \<notin> in_lists ?w2 ?L" "\<not> scheduled (heap_of ?w2 e)"
    using upd_unlisted [OF w1(3,4)] w1(4) by (simp_all add: scheduled_def fl_laws)
  have f: "isManaged (heap_of ?w2 e) = isManaged (heap_of w e)" "ev_deleted (heap_of ?w2 e) = ev_deleted (heap_of w e)"
    using relinked_w_fields [OF w1(2), of e] by (simp_all add: isManaged_def fl_laws)
  from release_w_unlisted [OF u] obtain w3 where w3: "release_w ?w2 e = Inr w3" "queue_inv w3 ?L"
    "\<forall>x. x \<noteq> e \<longrightarrow> heap_of w3 x = heap_of ?w2 x" "queues w3 = queues ?w2" "\<not> scheduled (heap_of w3 e)"
    "ev_deleted (heap_of w3 e) \<longleftrightarrow> ev_deleted (heap_of ?w2 e) \<or> isManaged (heap_of ?w2 e)"
    "inParallelMode w3 = inParallelMode ?w2" "curEventQueue w3 = curEventQueue ?w2" by blast
  have "deschedule w q e = Inr w3"
    using res assms(4) w1(1) w3(1) by (simp add: deschedule_def resident_def)
  moreover have same: "same_data (heap_of w x) (heap_of w3 x)" if "x \<noteq> e" for x
    using w1(2) w3(3) that by (auto simp: relinked_w_def)
  moreover have tick: "getCurTick w3 q' = getCurTick w q'" for q'
    using w1(2) w3(4) relinked_w_fields(6) [OF w1(2)] by (simp add: getCurTick_def)
  moreover have "timely w3 ?L"
  proof (rule same_data_timely [OF assms(2) tick])
    fix q' x
    assume x: "x \<in> set (?L q')"
    with w3(2) w3(5) have "x \<noteq> e" by (auto dest: queue_inv_owner [of w3 ?L x q'])
    with x same show "x \<in> set (L q') \<and> ev_when (heap_of w3 x) = ev_when (heap_of w x)"
      using set_remove1_subset [of e "L q'"] by (auto simp: same_data_fields split: if_splits)
  qed
  moreover have "ev_deleted (heap_of w3 e) \<longleftrightarrow> isManaged (heap_of w e)"
    using w3(6) f res by (simp add: resident_def)
  moreover have "inParallelMode w3 = inParallelMode w" "curEventQueue w3 = curEventQueue w"
    using w1(2) w3(7,8) by (simp_all add: relinked_w_def)
  ultimately show ?thesis using w3(2,5) by blast
qed

lemma reschedule_listed:
  assumes "queue_inv w L" "timely w L" "e \<in> set (L q)" "\<not> inParallelMode w \<or> q = curEventQueue w"
    "getCurTick w q \<le> t"
  shows "\<exists>w'. reschedule w q e t a = Inr w' \<and> queue_inv w' (L(q := ordered_at w e t (remove1 e (L q)))) \<and>
    timely w' (L(q := ordered_at w e t (remove1 e (L q)))) \<and> (\<forall>q. getCurTick w' q = getCurTick w q) \<and>
    inParallelMode w' = inParallelMode w \<and> curEventQueue w' = curEventQueue w"
proof -
  have res: "resident w q e" using assms(1,3) by (simp add: queue_invD)
  let ?L = "L(q := remove1 e (L q))" and ?g = "\<lambda>f. fl_set (fl_clear f Squashed) Scheduled"
  obtain w1 where w1: "remove_w w q e = Inr w1" "relinked_w w w1" "queue_inv w1 ?L" "e \<notin> in_lists w1 ?L"
    using remove_inv [of w L e q] assms(1,3) by blast
  have live: "alive w1 e" "initialized (heap_of w1 e)"
    using res w1(2) relinked_w_fields [OF w1(2), of e] by (simp_all add: resident_def)
  have key: "ordered_at w1 e t xs = ordered_at w e t xs" for xs
  proof -
    have "ekey (heap_of w1) = ekey (heap_of w)"
      using relinked_w_fields(1,2) [OF w1(2)] by (simp add: ekey_def fun_eq_iff)
    then show ?thesis using relinked_w_fields(2) [OF w1(2), of e] by (simp add: ordered_at_def)
  qed
  obtain w2 where w2: "insert_w (upd_ev w1 e (setWhen t q)) q e = Inr w2" "relinked_w (upd_ev w1 e (setWhen t q)) w2"
    "queue_inv (upd_flags w2 e ?g) (?L(q := ordered_at w1 e t (?L q)))"
    using reinsert_inv [OF w1(3,4) live, where g = ?g] by blast
  have "timely w1 ?L"
    by (rule same_data_timely [OF assms(2)])
      (use w1(2) relinked_w_fields(1) [OF w1(2)] set_remove1_subset [of e "L q"] in \<open>auto split: if_splits\<close>)
  moreover have "getCurTick w1 q \<le> t" using w1(2) assms(5) by simp
  ultimately have "timely (upd_flags w2 e ?g) (?L(q := ordered_at w1 e t (?L q)))"
    by (rule timely_upd [of w1 ?L, OF _ w2(2) _ w1(4)])
  moreover have "reschedule w q e t a = Inr (upd_flags w2 e ?g)"
    using res assms(4,5) w1(1) w2(1) by (simp add: reschedule_def resident_def)
  moreover have "getCurTick (upd_flags w2 e ?g) q' = getCurTick w q'" for q' using w1(2) w2(2) by simp
  moreover have "inParallelMode (upd_flags w2 e ?g) = inParallelMode w" "curEventQueue (upd_flags w2 e ?g) = curEventQueue w"
    using w1(2) w2(2) by (simp_all add: relinked_w_def)
  ultimately show ?thesis using w2(3) by (auto simp: key)
qed

lemma reschedule_unlisted:
  assumes "queue_inv w L" "timely w L" "\<not> scheduled (heap_of w e)" "alive w e" "initialized (heap_of w e)"
    "\<not> inParallelMode w \<or> q = curEventQueue w" "getCurTick w q \<le> t"
  shows "\<exists>w'. reschedule w q e t True = Inr w' \<and> queue_inv w' (L(q := ordered_at w e t (L q))) \<and>
    timely w' (L(q := ordered_at w e t (L q))) \<and> (\<forall>q. getCurTick w' q = getCurTick w q) \<and>
    inParallelMode w' = inParallelMode w \<and> curEventQueue w' = curEventQueue w"
proof -
  have un: "e \<notin> in_lists w L" using assms(1,3) by (rule unscheduled_not_listed)
  let ?g = "\<lambda>f. fl_set (fl_clear f Squashed) Scheduled"
  obtain w2 where w2: "insert_w (upd_ev w e (setWhen t q)) q e = Inr w2" "relinked_w (upd_ev w e (setWhen t q)) w2"
    "queue_inv (upd_flags w2 e ?g) (L(q := ordered_at w e t (L q)))"
    using reinsert_inv [OF assms(1) un assms(4,5), where g = ?g] by blast
  have "upd_ev w e acquire = w" by (simp add: upd_ev_def)
  then have "reschedule w q e t True = Inr (upd_flags w2 e ?g)"
    using assms(3-7) w2(1) by (simp add: reschedule_def)
  moreover have "getCurTick (upd_flags w2 e ?g) q' = getCurTick w q'" for q' using w2(2) by simp
  moreover have "inParallelMode (upd_flags w2 e ?g) = inParallelMode w" "curEventQueue (upd_flags w2 e ?g) = curEventQueue w"
    using w2(2) by (simp_all add: relinked_w_def)
  ultimately show ?thesis using w2(3) timely_upd [OF assms(2) w2(2) assms(7) un] by auto
qed

text \<open>In parallel mode an event for another queue waits in that queue's asynchronous list.\<close>

lemma schedule_async:
  assumes "queue_inv w L" "timely w L" "inParallelMode w" "q \<noteq> curEventQueue w \<or> g" "getCurTick w q \<le> t"
    "alive w e" "\<not> scheduled (heap_of w e)" "initialized (heap_of w e)"
  shows "\<exists>w'. schedule w q e t g = Inr w' \<and> queue_inv w' L \<and> timely w' L \<and>
    async_queue (queues w' q) = async_queue (queues w q) @ [e] \<and>
    ekey (heap_of w') = (ekey (heap_of w))(e := (t, ev_priority (heap_of w e))) \<and>
    (\<forall>q. getCurTick w' q = getCurTick w q) \<and> inParallelMode w' = inParallelMode w \<and> curEventQueue w' = curEventQueue w"
proof -
  have un: "e \<notin> in_lists w L" using assms(1,7) by (rule unscheduled_not_listed)
  let ?f = "\<lambda>x. (setWhen t q x)\<lparr>ev_flags := fl_set (ev_flags x) Scheduled\<rparr>"
  let ?w = "asyncInsert (upd_ev w e ?f) q e"
  have eq: "schedule w q e t g = Inr ?w"
    using assms by (simp add: schedule_def asyncInsert_def upd_queue_def upd_ev_def setWhen_def)
  have inv: "queue_inv (upd_ev w e ?f) L" using assms(1) un by (rule upd_unlisted)
  have e: "resident (upd_ev w e ?f) q e"
    using assms(6,8) by (simp add: resident_def scheduled_def initialized_def fl_laws)
  have q: "eq_head (queues ?w q') = eq_head (queues w q')" "eq_curTick (queues ?w q') = eq_curTick (queues w q')"
    "heap_of ?w = heap_of (upd_ev w e ?f)"
    "async_queue (queues ?w q') = (if q' = q then async_queue (queues w q) @ [e] else async_queue (queues w q'))" for q'
    by (simp_all add: asyncInsert_def upd_queue_def upd_ev_def)
  have res: "resident ?w q' x = resident (upd_ev w e ?f) q' x" for q' x by (simp add: resident_def q(3))
  have "queue_inv ?w L"
  proof (rule queue_invI)
    show "resident ?w q' x" if "x \<in> set (async_queue (queues ?w q'))" for q' x
      using that e queue_invD(3) [OF inv, of x q'] by (auto simp: q res split: if_splits)
    show "distinct (async_queue (queues ?w q'))" "set (async_queue (queues ?w q')) \<inter> set (L q') = {}" for q'
      using queue_invD(4,5) [OF inv, of q'] un by (auto simp: q in_lists_def)
  qed (use queue_invD(1,2) [OF inv] in \<open>simp_all add: q res\<close>)
  moreover have "timely ?w L"
  proof (rule same_data_timely [OF assms(2)])
    show "x \<in> set (L q') \<and> ev_when (heap_of ?w x) = ev_when (heap_of w x)" if "x \<in> set (L q')" for q' x
    proof -
      have "x \<noteq> e" using that un by (auto simp: in_lists_def)
      with that show ?thesis by (simp add: q(3))
    qed
  qed (simp add: getCurTick_def q)
  moreover have "ekey (heap_of ?w) = (ekey (heap_of w))(e := (t, ev_priority (heap_of w e)))"
    unfolding q(3) by (auto simp: ekey_def upd_ev_def)
  moreover have "inParallelMode ?w = inParallelMode w" "curEventQueue ?w = curEventQueue w"
    by (simp_all add: asyncInsert_def upd_queue_def)
  ultimately show ?thesis using eq by (intro exI [of _ ?w]) (simp add: q getCurTick_def)
qed

section \<open>Asynchronous insertion and destruction\<close>

lemma same_data_trans: "same_data x y \<Longrightarrow> same_data y z \<Longrightarrow> same_data x z"
  unfolding same_data_def by (cases x; cases y; cases z) simp

definition same_clock :: "world \<Rightarrow> world \<Rightarrow> bool" where
  "same_clock w w' \<longleftrightarrow> (\<forall>q. getCurTick w' q = getCurTick w q) \<and>
     inParallelMode w' = inParallelMode w \<and> curEventQueue w' = curEventQueue w"

lemma same_clock_upd [simp]: "same_clock w (upd_ev w e f)"
  by (simp add: same_clock_def)

lemma queue_rel_head: "queue_rel h p (e # xs) \<Longrightarrow> p = Some e" "queue_rel h p [] \<Longrightarrow> p = None"
proof -
  assume "queue_rel h p (e # xs)"
  then obtain bs where "bins_at h p bs" "e # xs = concat bs" by (auto simp: queue_rel_def)
  then show "p = Some e" by (cases bs; cases "hd bs") auto
next
  assume "queue_rel h p []"
  then obtain bs where "bins_at h p bs" "concat bs = []" by (auto simp: queue_rel_def)
  then show "p = None" by (cases bs; cases "hd bs") auto
qed

lemma queue_inv_head: "queue_inv w L \<Longrightarrow> L q = e # xs \<Longrightarrow> eq_head (queues w q) = Some e"
  using queue_invD(1) [of w L q] queue_rel_head(1) by metis

lemma eq_insert_async:
  "eq_insert h q e = Inr (h', q') \<Longrightarrow>
   eq_insert h (q\<lparr>async_queue := es\<rparr>) e = Inr (h', q'\<lparr>async_queue := es\<rparr>)"
  by (auto simp: eq_insert_def after_loop_def split: option.splits prod.splits if_splits)

lemma upd_queue_simps [simp]:
  "heap_of (upd_queue w q f) = heap_of w" "queues (upd_queue w q f) = (queues w)(q := f (queues w q))"
  "inParallelMode (upd_queue w q f) = inParallelMode w" "curEventQueue (upd_queue w q f) = curEventQueue w"
  by (simp_all add: upd_queue_def)

abbreviation set_async :: "world \<Rightarrow> qid \<Rightarrow> ev list \<Rightarrow> world" where
  "set_async w q es \<equiv> upd_queue w q (\<lambda>x. x\<lparr>async_queue := es\<rparr>)"

lemma insert_w_async:
  "insert_w w q e = Inr w' \<Longrightarrow> insert_w (set_async w q es) q e = Inr (set_async w' q es)"
  by (auto simp: insert_w_def put_queue_def upd_queue_def eq_insert_async)

lemma async_pop_inv:
  assumes "queue_inv w L" "async_queue (queues w q) = e # es"
  shows "queue_inv (set_async w q es) L \<and> e \<notin> in_lists (set_async w q es) L"
proof -
  have own: "ev_queue (heap_of w e) = Some q" using queue_inv_owner [OF assms(1), of e q] assms(2) by simp
  have res: "resident (set_async w q es) q' x = resident w q' x" for q' x by (simp add: resident_def)
  have "queue_inv (set_async w q es) L"
  proof (rule queue_invI)
    show "resident (set_async w q es) q' x" if "x \<in> set (async_queue (queues (set_async w q es) q'))" for q' x
      using that assms(2) queue_invD(3) [OF assms(1), of x q'] by (auto simp: res split: if_splits)
    show "distinct (async_queue (queues (set_async w q es) q'))"
      "set (async_queue (queues (set_async w q es) q')) \<inter> set (L q') = {}" for q'
      using queue_invD(4,5) [OF assms(1), of q'] assms(2) by auto
  qed (use queue_invD(1,2) [OF assms(1)] in \<open>auto simp: res\<close>)
  moreover have "e \<notin> in_lists (set_async w q es) L"
  proof -
    have "e \<notin> set (L q')" "e \<notin> set (async_queue (queues w q'))" if "q' \<noteq> q" for q'
      using queue_inv_owner [OF assms(1), of e q'] own that by auto
    then show ?thesis using queue_invD(4,5) [OF assms(1), of q] assms(2)
      by (auto simp: in_lists_def split: if_splits)
  qed
  ultimately show ?thesis ..
qed

lemma async_loop_ok:
  assumes "queue_inv w L" "async_queue (queues w q) = es"
  shows "\<exists>w'. async_loop w q es = Inr w' \<and> async_queue (queues w' q) = [] \<and>
    queue_inv w' (L(q := fold (insort_key (ekey (heap_of w))) es (L q))) \<and>
    (\<forall>x. same_data (heap_of w x) (heap_of w' x)) \<and> same_clock w w'"
  using assms
proof (induction es arbitrary: w L)
  case (Cons e es)
  let ?w = "set_async w q es" and ?L = "L(q := insort_key (ekey (heap_of w)) e (L q))"
  note pop = async_pop_inv [OF Cons.prems]
  have res: "resident w q e" using queue_invD(3) [OF Cons.prems(1), of e q] Cons.prems(2) by simp
  then obtain w1 where w1: "insert_w ?w q e = Inr w1" "relinked_w ?w w1" "queue_inv (upd_flags w1 e (\<lambda>f. f)) ?L"
    using insert_inv [of ?w L e q "\<lambda>f. f"] pop by (auto simp: resident_def scheduled_def initialized_def)
  have "e \<notin> set (L q)" using pop by (auto simp: in_lists_def)
  from eq_insert_refines [OF queue_invD(1) [OF Cons.prems(1)] this] obtain w2 where w2: "insert_w w q e = Inr w2"
    by (auto simp: insert_w_def)
  then have eq: "w1 = set_async w2 q es" using insert_w_async [OF w2, of es] w1(1) by simp
  have "upd_flags w1 e (\<lambda>f. f) = w1" by (simp add: upd_ev_def)
  with w1(3) have "queue_inv w1 ?L" by (simp only:)
  moreover have "async_queue (queues w1 q) = es" using relinked_w_fields(7) [OF w1(2), of q] by simp
  ultimately obtain w' where w': "async_loop w1 q es = Inr w'" "async_queue (queues w' q) = []"
    "queue_inv w' (?L(q := fold (insort_key (ekey (heap_of w1))) es (?L q)))"
    "\<forall>x. same_data (heap_of w1 x) (heap_of w' x)" "same_clock w1 w'" using Cons.IH by blast
  have frame: "same_data (heap_of w x) (heap_of w' x)" for x
    using w1(2) w'(4) by (auto simp: relinked_w_def intro: same_data_trans)
  have clock: "same_clock w w'"
    using w'(5) relinked_w_fields(6) [OF w1(2)] w1(2) by (auto simp: same_clock_def relinked_w_def getCurTick_def)
  have "ekey (heap_of w1) = ekey (heap_of w)"
    using relinked_w_fields(1,2) [OF w1(2)] by (simp add: ekey_def fun_eq_iff)
  then have "?L(q := fold (insort_key (ekey (heap_of w1))) es (?L q)) =
      L(q := fold (insort_key (ekey (heap_of w))) (e # es) (L q))" by simp
  with w'(3) have "queue_inv w' (L(q := fold (insort_key (ekey (heap_of w))) (e # es) (L q)))" by (simp only:)
  moreover have "async_loop w q (e # es) = Inr w'" using w2 w'(1) eq by simp
  ultimately show ?case using w'(2) frame clock by blast
qed (auto simp: same_clock_def)

lemma destroy_step:
  "EventQueue_destroy w q =
     (if eq_empty w q then Some (Inr w)
      else (case deschedule w q (the (eq_head (queues w q))) of
              Inl a \<Rightarrow> Some (Inl a) | Inr w' \<Rightarrow> EventQueue_destroy w' q))"
  by (subst EventQueue_destroy.simps) (auto simp: Let_def split: sum.splits)

lemma destroy_ends:
  assumes "queue_inv w L" "timely w L" "\<not> inParallelMode w \<or> q = curEventQueue w"
  shows "\<exists>w'. EventQueue_destroy w q = Some (Inr w') \<and> queue_inv w' (L(q := [])) \<and> timely w' (L(q := [])) \<and>
    eq_empty w' q \<and> (\<forall>e \<in> set (L q). \<not> scheduled (heap_of w' e)) \<and>
    (\<forall>e. e \<notin> set (L q) \<longrightarrow> same_data (heap_of w e) (heap_of w' e)) \<and> same_clock w w'"
  using assms
proof (induction "L q" arbitrary: w L)
  case Nil
  then have "eq_empty w q" using queue_invD(1) [OF Nil.prems(1), of q] by (auto simp: eq_empty_def dest: queue_rel_head)
  moreover have "L(q := []) = L" using Nil.hyps by auto
  ultimately show ?case using Nil.prems(1,2) Nil.hyps by (auto simp: destroy_step [of w q] same_clock_def)
next
  case (Cons e xs)
  have hd: "eq_head (queues w q) = Some e"
    using queue_invD(1) [OF Cons.prems(1), of q] Cons.hyps(2) queue_rel_head(1) by metis
  have d: "e \<notin> set xs" using queue_rel_sorted [OF queue_invD(1) [OF Cons.prems(1), of q]] Cons.hyps(2) [symmetric] by simp
  have L: "L q = e # xs" using Cons.hyps(2) by simp
  from deschedule_listed [OF Cons.prems(1,2) _ Cons.prems(3), of e] obtain w1 where
    w1: "deschedule w q e = Inr w1" "queue_inv w1 (L(q := xs))" "timely w1 (L(q := xs))"
    "inParallelMode w1 = inParallelMode w" "curEventQueue w1 = curEventQueue w" "\<not> scheduled (heap_of w1 e)"
    "\<forall>x. x \<noteq> e \<longrightarrow> same_data (heap_of w x) (heap_of w1 x)" "\<forall>q. getCurTick w1 q = getCurTick w q"
    by (auto simp: L)
  have "xs = (L(q := xs)) q" "\<not> inParallelMode w1 \<or> q = curEventQueue w1"
    using w1(4,5) Cons.prems(3) by simp_all
  from Cons.hyps(1) [OF this(1) w1(2,3) this(2)] obtain w' where
    w': "EventQueue_destroy w1 q = Some (Inr w')" "queue_inv w' (L(q := []))" "timely w' (L(q := []))" "eq_empty w' q"
    "\<forall>x \<in> set xs. \<not> scheduled (heap_of w' x)" "\<forall>x. x \<notin> set xs \<longrightarrow> same_data (heap_of w1 x) (heap_of w' x)"
    "same_clock w1 w'" by auto
  have "EventQueue_destroy w q = Some (Inr w')"
    using w1(1) w'(1) hd by (subst destroy_step) (simp add: eq_empty_def)
  moreover have "same_clock w w'" using w1(4,5,8) w'(7) by (simp add: same_clock_def)
  moreover have "scheduled (heap_of w' e) = scheduled (heap_of w1 e)"
    using same_data_fields(3) [of "heap_of w1 e" "heap_of w' e"] w'(6) d by (simp add: scheduled_def)
  moreover have "same_data (heap_of w x) (heap_of w' x)" if "x \<notin> set (L q)" for x
    using that w1(7) w'(6) same_data_trans by (auto simp: L)
  ultimately show ?case using w'(2-5) w1(6) by (auto simp: L)
qed

lemma async_good:
  assumes "queue_inv w L" "timely w L" "handleAsyncInsertions w q = Inr w'"
    "\<forall>e \<in> set (async_queue (queues w q)). getCurTick w q \<le> ev_when (heap_of w e)"
  shows "\<exists>L'. queue_inv w' L' \<and> timely w' L' \<and> same_clock w w'"
proof -
  let ?k = "insort_key (ekey (heap_of w))" and ?es = "async_queue (queues w q)"
  from async_loop_ok [OF assms(1) refl, of q] assms(3) have w': "queue_inv w' (L(q := fold ?k ?es (L q)))"
    "\<forall>x. same_data (heap_of w x) (heap_of w' x)" "same_clock w w'"
    by (auto simp: handleAsyncInsertions_def)
  have "set (fold ?k es xs) = set es \<union> set xs" for es xs
    by (induction es arbitrary: xs) (auto simp: set_insort_key)
  then have "timely w' (L(q := fold ?k ?es (L q)))"
    using assms(2,4) w'(3) same_data_fields(1) [OF w'(2) [rule_format]] by (auto simp: timely_def same_clock_def)
  with w' show ?thesis by blast
qed

lemma destroy_good:
  assumes "queue_inv w L" "timely w L" "EventQueue_destroy w q = Some (Inr w')"
  shows "\<exists>L'. queue_inv w' L' \<and> timely w' L' \<and> same_clock w w'"
proof (cases "eq_empty w q")
  case True
  with assms show ?thesis by (auto simp: destroy_step [of w q] same_clock_def)
next
  case False
  then obtain w1 where "deschedule w q (the (eq_head (queues w q))) = Inr w1"
    using assms(3) by (subst (asm) destroy_step) (auto split: sum.splits)
  then have "\<not> inParallelMode w \<or> q = curEventQueue w" by (auto simp: deschedule_def)
  from destroy_ends [OF assms(1,2) this] assms(3) show ?thesis by auto
qed

section \<open>Steps of the simulated objects\<close>

text \<open>
  What the objects of a simulation may do to the queues without moving time: schedule, deschedule
  and reschedule events, squash an event, change its public flags, construct an event in free memory
  and delete one, take in the events that wait in the asynchronous list of the running queue, put an
  event back after a checkpoint, and destroy a queue. Three of these carry a condition that the code
  does not check. \<^verbatim>\<open>handleAsyncInsertions\<close> and \<^verbatim>\<open>checkpointReschedule\<close> insert without looking
  at the clock, so the events they insert must not lie in the past; and \<^verbatim>\<open>checkpointReschedule\<close>
  must be called on the queue that the event belongs to, for an event that is in no queue yet.
\<close>

definition restorable :: "world \<Rightarrow> qid \<Rightarrow> ev \<Rightarrow> bool" where
  "restorable w q e \<longleftrightarrow> (scheduled (heap_of w e) \<longrightarrow> resident w q e \<and>
     getCurTick w q \<le> ev_when (heap_of w e) \<and> (\<forall>L. queue_inv w L \<longrightarrow> e \<notin> in_lists w L))"

inductive api_step :: "world \<Rightarrow> world \<Rightarrow> bool" where
  step_schedule: "schedule w q e t g = Inr w' \<Longrightarrow> api_step w w'"
| step_deschedule: "deschedule w q e = Inr w' \<Longrightarrow> api_step w w'"
| step_reschedule: "reschedule w q e t a = Inr w' \<Longrightarrow> api_step w w'"
| step_squash: "alive w e \<Longrightarrow> api_step w (upd_ev w e squash)"
| step_setFlags: "alive w e \<Longrightarrow> setFlags (heap_of w e) f = Inr x \<Longrightarrow> api_step w (upd_ev w e (\<lambda>_. x))"
| step_clearFlags: "alive w e \<Longrightarrow> clearFlags (heap_of w e) f = Inr x \<Longrightarrow> api_step w (upd_ev w e (\<lambda>_. x))"
| step_new: "ev_deleted (heap_of w e) \<Longrightarrow> Event_new p f = Inr x \<Longrightarrow> api_step w (upd_ev w e (\<lambda>_. x))"
| step_delete: "Event_delete (heap_of w e) = Inr x \<Longrightarrow> api_step w (upd_ev w e (\<lambda>_. x))"
| step_async: "handleAsyncInsertions w q = Inr w' \<Longrightarrow>
    \<forall>e \<in> set (async_queue (queues w q)). getCurTick w q \<le> ev_when (heap_of w e) \<Longrightarrow> api_step w w'"
| step_restore: "checkpointReschedule w q e = Inr w' \<Longrightarrow> restorable w q e \<Longrightarrow> api_step w w'"
| step_destroy: "EventQueue_destroy w q = Some (Inr w') \<Longrightarrow> api_step w w'"

definition good_world :: "world \<Rightarrow> bool" where
  "good_world w \<longleftrightarrow> (\<exists>L. queue_inv w L \<and> timely w L)"

lemma public_flags:
  assumes "fl_noneSet f (NOT PublicWrite)"
  shows "fl_isSet (fl_set x f) Scheduled = fl_isSet x Scheduled" "fl_isSet (fl_clear x f) Scheduled = fl_isSet x Scheduled"
    "fl_set x f AND InitMask = x AND InitMask" "fl_clear x f AND InitMask = x AND InitMask"
proof -
  have "f AND k = 0" if "PublicWrite AND k = 0" for k
  proof -
    have "f AND k = (f AND NOT PublicWrite AND k) OR (f AND (PublicWrite AND k))"
      by (rule bit_eqI) (auto simp: bit_simps)
    then show ?thesis using assms that by (simp add: fl_noneSet_def flip: and.assoc)
  qed
  then have "f AND Scheduled = 0" "f AND InitMask = 0" by (simp_all add: flag_consts)
  then show "fl_isSet (fl_set x f) Scheduled = fl_isSet x Scheduled" "fl_isSet (fl_clear x f) Scheduled = fl_isSet x Scheduled"
    "fl_set x f AND InitMask = x AND InitMask" "fl_clear x f AND InitMask = x AND InitMask"
    by (simp_all add: fl_laws)
qed

lemma upd_flags_inv:
  assumes "queue_inv w L" "timely w L"
    "x = (heap_of w e)\<lparr>ev_flags := fl\<rparr>" "fl_isSet fl Scheduled = scheduled (heap_of w e)"
    "fl AND InitMask = ev_flags (heap_of w e) AND InitMask"
  shows "queue_inv (upd_ev w e (\<lambda>_. x)) L \<and> timely (upd_ev w e (\<lambda>_. x)) L"
proof
  let ?w = "upd_ev w e (\<lambda>_. x)"
  have rel: "queue_rel (heap_of ?w) p xs = queue_rel (heap_of w) p xs" for p xs
    by (rule queue_rel_cong) (auto simp: upd_ev_def same_node_def assms(3))
  have res: "resident ?w q y = resident w q y" for q y
    using assms(3-5) by (cases "y = e") (auto simp: resident_def scheduled_def initialized_def)
  show "queue_inv ?w L" using assms(1) by (simp add: queue_inv_def rel res)
  show "timely ?w L" using assms(2,3) by (auto simp: timely_def upd_ev_def getCurTick_def)
qed

lemma remove_w_listed: "queue_inv w L \<Longrightarrow> remove_w w q e = Inr w' \<Longrightarrow> e \<in> set (L q)"
  using eq_remove_absent [OF queue_invD(1) [of w L q], of e q] by (cases "e \<in> set (L q)") (auto simp: remove_w_def)

lemma schedule_good:
  assumes "good_world w" "schedule w q e t g = Inr w'"
  shows "good_world w' \<and> same_clock w w'"
proof -
  from assms(1) obtain L where L: "queue_inv w L" "timely w L" by (auto simp: good_world_def)
  from assms(2) have a: "getCurTick w q \<le> t" "alive w e" "\<not> scheduled (heap_of w e)" "initialized (heap_of w e)"
    by (simp_all add: schedule_def)
  show ?thesis
  proof (cases "inParallelMode w \<and> (q \<noteq> curEventQueue w \<or> g)")
    case True
    with schedule_async [OF L, of q g t e] a assms(2) show ?thesis
      by (auto simp: good_world_def same_clock_def)
  next
    case False
    from schedule_serial [OF L this a] assms(2) show ?thesis
      by (auto simp: good_world_def same_clock_def)
  qed
qed

lemma deschedule_good:
  assumes "good_world w" "deschedule w q e = Inr w'"
  shows "good_world w' \<and> same_clock w w'"
proof -
  from assms(1) obtain L where L: "queue_inv w L" "timely w L" by (auto simp: good_world_def)
  from assms(2) have "\<not> inParallelMode w \<or> q = curEventQueue w" "e \<in> set (L q)"
    by (auto simp: deschedule_def dest: remove_w_listed [OF L(1)])
  from deschedule_listed [OF L this(2,1)] assms(2) show ?thesis by (auto simp: good_world_def same_clock_def)
qed

lemma reschedule_good:
  assumes "good_world w" "reschedule w q e t a = Inr w'"
  shows "good_world w' \<and> same_clock w w'"
proof -
  from assms(1) obtain L where L: "queue_inv w L" "timely w L" by (auto simp: good_world_def)
  from assms(2) have p: "\<not> inParallelMode w \<or> q = curEventQueue w" "getCurTick w q \<le> t" "alive w e"
    "initialized (heap_of w e)" "a \<or> scheduled (heap_of w e)"
    and r: "scheduled (heap_of w e) \<Longrightarrow> \<exists>w1. remove_w w q e = Inr w1"
    by (auto simp: reschedule_def)
  show ?thesis
  proof (cases "scheduled (heap_of w e)")
    case True
    with r have "e \<in> set (L q)" by (auto dest: remove_w_listed [OF L(1)])
    from reschedule_listed [OF L this p(1,2), of a] assms(2) show ?thesis
      by (auto simp: good_world_def same_clock_def)
  next
    case False
    with p(5) have a by simp
    with reschedule_unlisted [OF L False p(3,4,1,2)] assms(2) show ?thesis
      by (auto simp: good_world_def same_clock_def)
  qed
qed

lemma restore_good:
  assumes "queue_inv w L" "timely w L" "checkpointReschedule w q e = Inr w'" "restorable w q e"
  shows "\<exists>L'. queue_inv w' L' \<and> timely w' L' \<and> same_clock w w'"
proof (cases "scheduled (heap_of w e)")
  case True
  with assms have e: "e \<notin> in_lists w L" "resident w q e" "getCurTick w q \<le> ev_when (heap_of w e)"
    by (auto simp: restorable_def)
  let ?L = "L(q := insort_key (ekey (heap_of w)) e (L q))"
  from insert_inv [OF assms(1) e(1), of q "\<lambda>f. f"] e(2) obtain w1 where
    w1: "insert_w w q e = Inr w1" "relinked_w w w1" "queue_inv (upd_flags w1 e (\<lambda>f. f)) ?L"
    by (auto simp: resident_def scheduled_def initialized_def)
  have "w' = w1" using assms(3) True w1(1) by (simp add: checkpointReschedule_def scheduled_def)
  moreover have "upd_flags w1 e (\<lambda>f. f) = w1" by (simp add: upd_ev_def)
  ultimately have "queue_inv w' ?L" using w1(3) by (simp only:)
  moreover have "timely w' ?L"
    using assms(2) e(3) w1(2) \<open>w' = w1\<close> relinked_w_fields(1) [OF w1(2)] by (auto simp: timely_def set_insort_key)
  moreover have "same_clock w w'" using w1(2) \<open>w' = w1\<close> by (simp add: same_clock_def) (simp add: relinked_w_def)
  ultimately show ?thesis by blast
next
  case False
  with assms show ?thesis by (auto simp: checkpointReschedule_def scheduled_def same_clock_def)
qed

lemma replace_good:
  assumes "good_world w" "\<not> scheduled (heap_of w e) \<or> ev_deleted (heap_of w e)"
  shows "good_world (upd_ev w e (\<lambda>_. x))"
proof -
  from assms(1) obtain L where L: "queue_inv w L" "timely w L" by (auto simp: good_world_def)
  have un: "e \<notin> in_lists w L"
    using assms(2) queue_inv_owner [OF L(1), of e] by (auto simp: in_lists_def)
  have "timely (upd_ev w e (\<lambda>_. x)) L"
    using L(2) un by (intro same_data_timely [OF L(2)]) (auto simp: upd_ev_def in_lists_def getCurTick_def)
  with upd_unlisted [OF L(1) un, of "\<lambda>_. x"] show ?thesis by (auto simp: good_world_def)
qed

lemma api_step_good: "api_step w w' \<Longrightarrow> good_world w \<Longrightarrow> good_world w' \<and> same_clock w w'"
proof (induction rule: api_step.induct)
  case (step_squash w e)
  then obtain L where L: "queue_inv w L" "timely w L" by (auto simp: good_world_def)
  have "queue_inv (upd_ev w e (\<lambda>_. squash (heap_of w e))) L \<and> timely (upd_ev w e (\<lambda>_. squash (heap_of w e))) L"
    by (rule upd_flags_inv [OF L, where fl = "fl_set (ev_flags (heap_of w e)) Squashed"])
      (simp_all add: squash_def scheduled_def fl_laws)
  moreover have "upd_ev w e (\<lambda>_. squash (heap_of w e)) = upd_ev w e squash" by (simp add: upd_ev_def)
  ultimately show ?case by (auto simp: good_world_def)
next
  case (step_setFlags w e f x)
  then obtain L where L: "queue_inv w L" "timely w L" by (auto simp: good_world_def)
  have "queue_inv (upd_ev w e (\<lambda>_. x)) L \<and> timely (upd_ev w e (\<lambda>_. x)) L"
    using step_setFlags(2)
    by (intro upd_flags_inv [OF L, where fl = "fl_set (ev_flags (heap_of w e)) f"])
      (auto simp: setFlags_def scheduled_def public_flags)
  then show ?case by (auto simp: good_world_def)
next
  case (step_clearFlags w e f x)
  then obtain L where L: "queue_inv w L" "timely w L" by (auto simp: good_world_def)
  have "queue_inv (upd_ev w e (\<lambda>_. x)) L \<and> timely (upd_ev w e (\<lambda>_. x)) L"
    using step_clearFlags(2)
    by (intro upd_flags_inv [OF L, where fl = "fl_clear (ev_flags (heap_of w e)) f"])
      (auto simp: clearFlags_def scheduled_def public_flags)
  then show ?case by (auto simp: good_world_def)
next
  case (step_new w e p f x)
  then show ?case by (simp add: replace_good)
next
  case (step_delete w e x)
  then show ?case by (simp add: replace_good Event_delete_def)
next
  case (step_async w q w')
  then show ?case using async_good by (auto simp: good_world_def) blast+
next
  case (step_restore w q e w')
  then show ?case using restore_good by (auto simp: good_world_def) blast+
next
  case (step_destroy w q w')
  then show ?case using destroy_good by (auto simp: good_world_def) blast+
qed (auto dest: schedule_good deschedule_good reschedule_good)

lemma api_steps_good: "api_step\<^sup>*\<^sup>* w w' \<Longrightarrow> good_world w \<Longrightarrow> good_world w' \<and> same_clock w w'"
proof (induction rule: rtranclp_induct)
  case base
  then show ?case by (simp add: same_clock_def)
next
  case (step w1 w2)
  then show ?case using api_step_good [of w1 w2] by (simp add: same_clock_def)
qed

section \<open>Service keeps the invariant and time moves forward\<close>

lemma same_data_unscheduled:
  assumes "relinked X (unscheduled h e) h'" "x \<noteq> e"
  shows "same_data (h x) (h' x)"
  using assms by (simp add: relinked_def unscheduled_def) (metis assms(2))

lemma pop_inv:
  assumes inv: "queue_inv w L" and L: "L q = e # xs"
  shows "\<exists>h' p. eq_pop (heap_of w) (queues w q) = Inr (e, h', (queues w q)\<lparr>eq_head := p\<rparr>) \<and>
    queue_inv (put_queue w q (h', (queues w q)\<lparr>eq_head := p\<rparr>)) (L(q := xs)) \<and>
    e \<notin> in_lists (put_queue w q (h', (queues w q)\<lparr>eq_head := p\<rparr>)) (L(q := xs)) \<and>
    \<not> scheduled (h' e) \<and> ev_deleted (h' e) = ev_deleted (heap_of w e) \<and> ev_when (h' e) = ev_when (heap_of w e) \<and>
    ev_flags (h' e) = fl_clear (ev_flags (heap_of w e)) Scheduled \<and>
    (\<forall>x. x \<noteq> e \<longrightarrow> same_data (heap_of w x) (h' x))"
proof -
  from queue_invD(1) [OF inv, of q] L have "queue_rel (heap_of w) (eq_head (queues w q)) (e # xs)" by simp
  from eq_pop_refines [OF this] queue_rel_sorted [OF this] obtain h' p where
    h': "eq_pop (heap_of w) (queues w q) = Inr (e, h', (queues w q)\<lparr>eq_head := p\<rparr>)" "queue_rel h' p xs"
    "relinked (set xs) (unscheduled (heap_of w) e) h'" and d: "e \<notin> set xs" by auto
  let ?w = "put_queue w q (h', (queues w q)\<lparr>eq_head := p\<rparr>)" and ?L = "L(q := xs)"
  have e: "h' e = (heap_of w e)\<lparr>ev_flags := fl_clear (ev_flags (heap_of w e)) Scheduled\<rparr>"
    using relinked_out [OF h'(3) d] by (simp add: unscheduled_def)
  have same: "same_data (heap_of w x) (h' x)" if "x \<noteq> e" for x
    using h'(3) that by (rule same_data_unscheduled)
  have own: "ev_queue (heap_of w e) = Some q" using queue_inv_owner [OF inv, of e q] L by simp
  have un: "e \<notin> in_lists ?w ?L"
  proof -
    have "e \<notin> set (L q')" "e \<notin> set (async_queue (queues w q'))" if "q' \<noteq> q" for q'
      using queue_inv_owner [OF inv, of e q'] own that by auto
    moreover have "e \<notin> set (async_queue (queues w q))" using queue_invD(5) [OF inv, of q] L by auto
    ultimately show ?thesis using d by (auto simp: in_lists_def split: if_splits)
  qed
  have res: "resident ?w q' x" if "x \<in> set (?L q') \<union> set (async_queue (queues w q'))" for q' x
  proof -
    have "x \<noteq> e" using that un by (auto simp: in_lists_def split: if_splits)
    moreover have "resident w q' x" using that L queue_invD(2,3) [OF inv, of x q'] by (auto split: if_splits)
    ultimately show ?thesis using same_data_fields [OF same]
      by (simp add: resident_def scheduled_def initialized_def)
  qed
  have "queue_inv ?w ?L"
  proof (rule queue_invI)
    show "queue_rel (heap_of ?w) (eq_head (queues ?w q')) (?L q')" for q'
    proof (cases "q' = q")
      case False
      have "h' x = heap_of w x" if "x \<in> set (L q')" for x
      proof -
        have "x \<notin> set xs" "x \<noteq> e"
          using that False L queue_inv_owner [OF inv, of x q] queue_inv_owner [OF inv, of x q'] by auto
        then show ?thesis using relinked_out [OF h'(3)] by (simp add: unscheduled_def)
      qed
      then have "queue_rel h' p' (L q') = queue_rel (heap_of w) p' (L q')" for p'
        by (intro queue_rel_cong) simp
      then show ?thesis using False queue_invD(1) [OF inv, of q'] by simp
    qed (use h'(2) in simp)
    show "set (async_queue (queues ?w q')) \<inter> set (?L q') = {}" for q'
      using queue_invD(5) [OF inv, of q'] L by auto
    show "distinct (async_queue (queues ?w q'))" for q' using queue_invD(4) [OF inv, of q'] by auto
  qed (use res in \<open>auto split: if_splits\<close>)
  moreover have "\<not> scheduled (h' e)" by (simp add: e scheduled_def fl_laws)
  ultimately show ?thesis using h'(1) un e same by (intro exI [of _ h'] exI [of _ p] conjI) auto
qed

lemma release_w_good:
  assumes "queue_inv w L"
  shows "\<exists>w'. release_w w e = Inr w' \<and> queue_inv w' L \<and> (timely w L \<longrightarrow> timely w' L) \<and> same_clock w w'"
proof (cases "scheduled (heap_of w e)")
  case True
  then have "release_w w e = Inr w" by (simp add: release_w_def release_def releaseImpl_def upd_ev_def)
  with assms show ?thesis by (auto simp: same_clock_def)
next
  case False
  have un: "e \<notin> in_lists w L" using assms False by (rule unscheduled_not_listed)
  from release_w_unlisted [OF assms un False] obtain w' where
    w': "release_w w e = Inr w'" "queue_inv w' L" "\<forall>x. x \<noteq> e \<longrightarrow> heap_of w' x = heap_of w x" "queues w' = queues w"
    "inParallelMode w' = inParallelMode w" "curEventQueue w' = curEventQueue w" by blast
  have clock: "getCurTick w' q = getCurTick w q" for q using w'(4) by (simp add: getCurTick_def)
  have "timely w' L" if "timely w L"
  proof (rule same_data_timely [OF that clock])
    show "x \<in> set (L q) \<and> ev_when (heap_of w' x) = ev_when (heap_of w x)" if "x \<in> set (L q)" for q x
      using that un w'(3) by (auto simp: in_lists_def)
  qed
  with w' clock show ?thesis by (auto simp: same_clock_def)
qed

lemma setCurTick_simps [simp]:
  "heap_of (setCurTick w q t) = heap_of w" "getCurTick (setCurTick w q t) q' = (if q' = q then t else getCurTick w q')"
  "inParallelMode (setCurTick w q t) = inParallelMode w" "curEventQueue (setCurTick w q t) = curEventQueue w"
  "eq_head (queues (setCurTick w q t) q') = eq_head (queues w q')"
  "async_queue (queues (setCurTick w q t) q') = async_queue (queues w q')"
  by (simp_all add: setCurTick_def upd_queue_def getCurTick_def)

lemma setCurTick_inv [simp]: "queue_inv (setCurTick w q t) L = queue_inv w L"
  by (simp add: queue_inv_def resident_def)

text \<open>Handlers that act on the queues through the interface only.\<close>

definition api_handler :: "handler \<Rightarrow> bool" where
  "api_handler process \<longleftrightarrow> (\<forall>e w w'. process e w = Inr w' \<longrightarrow> api_step\<^sup>*\<^sup>* w w')"

text \<open>After taking the first event off, moving the clock to its time keeps every event in the future.\<close>

lemma service_clock:
  assumes "queue_inv w L" "timely w L" "L q = e # xs"
    and "\<forall>x. x \<noteq> e \<longrightarrow> same_data (heap_of w x) (h' x)" "t = ev_when (heap_of w e) \<or> t = getCurTick w q"
  shows "timely (setCurTick (put_queue w q (h', (queues w q)\<lparr>eq_head := p\<rparr>)) q t) (L(q := xs))"
proof -
  let ?w = "put_queue w q (h', (queues w q)\<lparr>eq_head := p\<rparr>)"
  have s: "sorted (map (ekey (heap_of w)) (e # xs))" "distinct (e # xs)"
    using queue_rel_sorted [OF queue_invD(1) [OF assms(1), of q]] assms(3) by simp_all
  have own: "ev_queue (heap_of w e) = Some q" using queue_inv_owner [OF assms(1), of e q] assms(3) by simp
  have when': "ev_when (h' x) = ev_when (heap_of w x)" if "x \<noteq> e" for x
    using assms(4) that same_data_fields(1) by blast
  have later: "ev_when (heap_of w e) \<le> ev_when (heap_of w x)" if "x \<in> set xs" for x
    using s(1) that by (fastforce simp: ekey_def)
  have k: "(if q' = q then t else getCurTick w q') \<le> ev_when (h' x)" if "x \<in> set ((L(q := xs)) q')" for q' x
  proof -
    have "x \<noteq> e" "x \<in> set (L q')" using that s(2) own assms(3) queue_inv_owner [OF assms(1), of x q']
      by (auto split: if_splits)
    then show ?thesis using that assms(2,3,5) when' [of x] later [of x]
      by (auto simp: timely_def split: if_splits)
  qed
  have tick: "getCurTick ?w q' = getCurTick w q'" for q' by (simp add: getCurTick_def)
  show ?thesis
    unfolding timely_def
  proof (intro allI ballI)
    fix q' x
    assume "x \<in> set ((L(q := xs)) q')"
    from k [OF this] show "getCurTick (setCurTick ?w q t) q' \<le> ev_when (heap_of (setCurTick ?w q t) x)"
      by (simp add: tick split: if_splits)
  qed
qed

lemma serviceOne_pop:
  assumes "queue_inv w L" "serviceOne process w q = Inr r"
  shows "\<exists>e xs. L q = e # xs"
proof (cases "L q")
  case Nil
  then have "eq_pop (heap_of w) (queues w q) = Inl Undefined"
    using eq_pop_empty queue_invD(1) [OF assms(1), of q] by simp
  with assms(2) show ?thesis by (simp add: serviceOne_def)
qed simp

lemma serviceOne_good:
  assumes "good_world w" "api_handler process" "serviceOne process w q = Inr (w', r)"
  shows "good_world w' \<and> getCurTick w q \<le> getCurTick w' q \<and> (\<forall>q'. q' \<noteq> q \<longrightarrow> getCurTick w' q' = getCurTick w q') \<and>
    (getCurTick w' q = getCurTick w q \<or> getCurTick w' q = ev_when (heap_of w (the (eq_head (queues w q)))))"
proof -
  from assms(1) obtain L where L: "queue_inv w L" "timely w L" by (auto simp: good_world_def)
  from serviceOne_pop [OF L(1) assms(3)] obtain e xs where e: "L q = e # xs" by blast
  from pop_inv [OF L(1) e] obtain h' p where
    h': "eq_pop (heap_of w) (queues w q) = Inr (e, h', (queues w q)\<lparr>eq_head := p\<rparr>)"
    "queue_inv (put_queue w q (h', (queues w q)\<lparr>eq_head := p\<rparr>)) (L(q := xs))"
    "e \<notin> in_lists (put_queue w q (h', (queues w q)\<lparr>eq_head := p\<rparr>)) (L(q := xs))"
    "ev_when (h' e) = ev_when (heap_of w e)" "\<forall>x. x \<noteq> e \<longrightarrow> same_data (heap_of w x) (h' x)" by blast
  have hd: "the (eq_head (queues w q)) = e"
    using queue_inv_head [OF L(1) e] by simp
  let ?w = "put_queue w q (h', (queues w q)\<lparr>eq_head := p\<rparr>)"
  have tick: "getCurTick ?w q' = getCurTick w q'" for q' by (simp add: getCurTick_def)
  have le: "getCurTick w q \<le> ev_when (heap_of w e)" using L(2) e by (auto simp: timely_def)
  show ?thesis
  proof (cases "squashed (h' e)")
    case True
    let ?c = "upd_flags ?w e (\<lambda>f. fl_clear f Squashed)"
    have c: "queue_inv ?c (L(q := xs))" using h'(2,3) by (rule upd_unlisted)
    have "setCurTick ?w q (getCurTick w q) = ?w"
      by (auto simp: setCurTick_def upd_queue_def getCurTick_def put_queue_def)
    with service_clock [OF L e h'(5), of "getCurTick w q" p] have "timely ?w (L(q := xs))" by simp
    then have "timely ?c (L(q := xs))"
    proof (rule same_data_timely)
      show "x \<in> set ((L(q := xs)) q') \<and> ev_when (heap_of ?c x) = ev_when (heap_of ?w x)"
        if "x \<in> set ((L(q := xs)) q')" for q' x
        using that by (cases "x = e") simp_all
    qed simp
    with release_w_good [OF c, of e] True h'(1) assms(3) tick show ?thesis
      by (auto simp: serviceOne_def Let_def good_world_def same_clock_def)
  next
    case False
    let ?t = "setCurTick ?w q (ev_when (heap_of w e))"
    have t: "good_world ?t"
      using h'(2) service_clock [OF L e h'(5), of "ev_when (heap_of w e)" p] by (auto simp: good_world_def)
    from assms(3) h'(1,4) False obtain w2 where w2: "process e ?t = Inr w2"
      "(w' = w2 \<and> r = Some e) \<or> release_w w2 e = Inr w'"
      by (auto simp: serviceOne_def Let_def split: if_splits)
    from w2(1) assms(2) have "api_step\<^sup>*\<^sup>* ?t w2" by (simp add: api_handler_def)
    from api_steps_good [OF this t] have g: "good_world w2" "same_clock ?t w2" by simp_all
    then obtain L2 where "queue_inv w2 L2" "timely w2 L2" by (auto simp: good_world_def)
    with w2(2) release_w_good [of w2 L2 e] have "good_world w' \<and> same_clock w2 w'"
      by (auto simp: good_world_def same_clock_def)
    with g(2) le tick hd show ?thesis by (simp add: same_clock_def)
  qed
qed

section \<open>Steps of the simulation\<close>

lemma serviceEvents_step:
  "serviceEvents process w q t =
     (if eq_empty w q \<or> ev_when (heap_of w (the (eq_head (queues w q)))) > t then Some (Inr (setCurTick w q t))
      else (case serviceOne process w q of Inl a \<Rightarrow> Some (Inl a) | Inr (w', r) \<Rightarrow> serviceEvents process w' q t))"
  by (subst serviceEvents.simps) (auto simp: Let_def split: sum.splits)

lemma advance_good:
  assumes "good_world w" "eq_empty w q \<or> t \<le> ev_when (heap_of w (the (eq_head (queues w q))))"
  shows "good_world (setCurTick w q t)"
proof -
  from assms(1) obtain L where L: "queue_inv w L" "timely w L" by (auto simp: good_world_def)
  note rel = queue_invD(1) [OF L(1), of q]
  have "t \<le> ev_when (heap_of w x)" if x: "x \<in> set (L q)" for x
  proof (cases "L q")
    case (Cons e xs)
    with rel have hd: "eq_head (queues w q) = Some e" by (simp add: queue_rel_head)
    have "ekey (heap_of w) e \<le> ekey (heap_of w) x" using queue_rel_sorted [OF rel] x Cons by auto
    with assms(2) hd show ?thesis by (auto simp: ekey_def eq_empty_def)
  qed (use x in simp)
  then have "timely (setCurTick w q t) L" using L(2) by (simp add: timely_def)
  with L(1) show ?thesis unfolding good_world_def using setCurTick_inv by blast
qed

lemma serviceEvents_good:
  assumes "serviceEvents process w q t = Some r"
  shows "\<forall>w'. r = Inr w' \<longrightarrow> api_handler process \<longrightarrow> good_world w \<longrightarrow> getCurTick w q \<le> t \<longrightarrow>
    good_world w' \<and> (\<forall>q'. getCurTick w q' \<le> getCurTick w' q')"
proof (rule serviceEvents.raw_induct [where P = "\<lambda>process w q t r. \<forall>w'. r = Inr w' \<longrightarrow> api_handler process \<longrightarrow>
    good_world w \<longrightarrow> getCurTick w q \<le> t \<longrightarrow> good_world w' \<and> (\<forall>q'. getCurTick w q' \<le> getCurTick w' q')", OF _ assms],
    intro allI impI)
  fix loop process w q t r w'
  assume IH: "\<And>process w q t r. loop process w q t = Some r \<Longrightarrow> \<forall>w'. r = Inr w' \<longrightarrow> api_handler process \<longrightarrow>
      good_world w \<longrightarrow> getCurTick w q \<le> t \<longrightarrow> good_world w' \<and> (\<forall>q'. getCurTick w q' \<le> getCurTick w' q')"
    and r: "(if eq_empty w q then Some (Inr (setCurTick w q t))
      else if ev_when (heap_of w (the (eq_head (queues w q)))) > t then Some (Inr (setCurTick w q t))
      else let r = serviceOne process w q
           in if isl r then Some (Inl (projl r)) else loop process (fst (projr r)) q t) = Some r"
    and w': "r = Inr w'" and h: "api_handler process" and g: "good_world w" and t: "getCurTick w q \<le> t"
  show "good_world w' \<and> (\<forall>q'. getCurTick w q' \<le> getCurTick w' q')"
  proof (cases "eq_empty w q \<or> ev_when (heap_of w (the (eq_head (queues w q)))) > t")
    case True
    with r w' have "w' = setCurTick w q t" by (auto split: if_splits)
    with True t advance_good [OF g, of q t] show ?thesis by (auto dest: less_imp_le)
  next
    case False
    then obtain w1 x where w1: "serviceOne process w q = Inr (w1, x)" "loop process w1 q t = Some (Inr w')"
      using r w' by (cases "serviceOne process w q") (auto simp: Let_def)
    note s1 = serviceOne_good [OF g h w1(1)]
    have clk: "getCurTick w q' \<le> getCurTick w1 q'" for q' using s1 by (cases "q' = q") simp_all
    have "getCurTick w1 q \<le> t" using s1 False t by (elim conjE disjE) (simp_all add: not_less)
    with IH [OF w1(2)] h s1 have "good_world w' \<and> (\<forall>q'. getCurTick w1 q' \<le> getCurTick w' q')" by simp
    with clk order_trans show ?thesis by blast
  qed
qed

text \<open>
  The simulation takes steps of its objects, moves the clock of a queue forward to a time at which
  none of the queue's events lies in the past, services one event, or services the events up to a
  time. The handlers act through the steps of the objects.
\<close>

inductive sim_step :: "world \<Rightarrow> world \<Rightarrow> bool" where
  sim_object: "api_step w w' \<Longrightarrow> sim_step w w'"
| sim_advance: "getCurTick w q \<le> t \<Longrightarrow> eq_empty w q \<or> (\<exists>u. nextTick w q = Inr u \<and> t \<le> u) \<Longrightarrow>
    sim_step w (setCurTick w q t)"
| sim_serviceOne: "api_handler process \<Longrightarrow> serviceOne process w q = Inr (w', r) \<Longrightarrow> sim_step w w'"
| sim_serviceEvents: "api_handler process \<Longrightarrow> getCurTick w q \<le> t \<Longrightarrow>
    serviceEvents process w q t = Some (Inr w') \<Longrightarrow> sim_step w w'"

lemma sim_step_good: "sim_step w w' \<Longrightarrow> good_world w \<Longrightarrow> good_world w' \<and> (\<forall>q. getCurTick w q \<le> getCurTick w' q)"
proof (induction rule: sim_step.induct)
  case (sim_object w w')
  then show ?case using api_step_good by (auto simp: same_clock_def)
next
  case (sim_advance w q t)
  then show ?case using advance_good [of w q t] by (auto simp: nextTick_def split: option.splits)
next
  case (sim_serviceOne process w q w' r)
  then have "good_world w'" "getCurTick w q' \<le> getCurTick w' q'" for q'
    using serviceOne_good [of w process q w' r] by (cases "q' = q"; simp)+
  then show ?case by simp
next
  case (sim_serviceEvents process w q t w')
  then show ?case using serviceEvents_good by blast
qed

lemma sim_steps_good:
  "sim_step\<^sup>*\<^sup>* w w' \<Longrightarrow> good_world w \<Longrightarrow> good_world w' \<and> (\<forall>q. getCurTick w q \<le> getCurTick w' q)"
proof (induction rule: rtranclp_induct)
  case (step w1 w2)
  then have "good_world w2" "getCurTick w q \<le> getCurTick w1 q" "getCurTick w1 q \<le> getCurTick w2 q" for q
    using sim_step_good [of w1 w2] by simp_all
  then show ?case using order_trans by blast
qed simp

section \<open>The service loop ends\<close>

definition due :: "world \<Rightarrow> tick \<Rightarrow> ev list \<Rightarrow> nat" where
  "due w t xs = length (filter (\<lambda>x. ev_when (heap_of w x) \<le> t) xs)"

text \<open>
  No event has the flag \<^verbatim>\<open>IsMainQueue\<close>: constructors and handlers cannot set it, and the
  assertion on exit events in \<^verbatim>\<open>serviceOne\<close> holds.
\<close>

definition mainless :: "world \<Rightarrow> bool" where
  "mainless w \<longleftrightarrow> (\<forall>e. \<not> fl_isSet (ev_flags (heap_of w e)) IsMainQueue)"

text \<open>
  A handler is tame for a queue and a time when it always returns a good world, adds no event to
  the queue that is due by that time, and does not delete the event being processed.
\<close>

definition tame :: "handler \<Rightarrow> qid \<Rightarrow> tick \<Rightarrow> bool" where
  "tame process q t \<longleftrightarrow> (\<forall>e w L. queue_inv w L \<and> timely w L \<and> mainless w \<and> alive w e \<longrightarrow>
     (\<exists>w' L'. process e w = Inr w' \<and> queue_inv w' L' \<and> timely w' L' \<and> mainless w' \<and>
        due w' t (L' q) \<le> due w t (L q) \<and> alive w' e))"

lemma mainless_clear: "fl_isSet (fl_clear f m) IsMainQueue \<Longrightarrow> fl_isSet f IsMainQueue"
  by (auto simp: fl_isSet_iff bit_char)

lemma mainless_flags: "mainless w \<Longrightarrow> (\<And>f. fl_isSet (g f) IsMainQueue \<Longrightarrow> fl_isSet f IsMainQueue) \<Longrightarrow> mainless (upd_flags w e g)"
  by (auto simp: mainless_def upd_ev_def)

lemma mainless_release: "mainless w \<Longrightarrow> release_w w e = Inr w' \<Longrightarrow> mainless w'"
  by (auto simp: mainless_def release_w_def release_def releaseImpl_def Event_delete_def upd_ev_def fl_isSet_def
      split: if_splits)

lemma mainless_pop:
  assumes "mainless w" "\<forall>x. x \<noteq> e \<longrightarrow> same_data (heap_of w x) (h' x)"
    "ev_flags (h' e) = fl_clear (ev_flags (heap_of w e)) Scheduled"
  shows "mainless (put_queue w q (h', q'))"
  using assms mainless_clear by (auto simp: mainless_def) (metis same_data_fields(3))

lemma release_w_total:
  assumes "queue_inv w L" "timely w L"
  shows "\<exists>w'. release_w w e = Inr w' \<and> queue_inv w' L \<and> timely w' L \<and> due w' t (L q) = due w t (L q)"
proof (cases "scheduled (heap_of w e)")
  case True
  then have "release_w w e = Inr w" by (simp add: release_w_def release_def releaseImpl_def upd_ev_def)
  with assms show ?thesis by auto
next
  case False
  have un: "e \<notin> in_lists w L" using assms(1) False by (rule unscheduled_not_listed)
  from release_w_unlisted [OF assms(1) un False] obtain w' where
    w': "release_w w e = Inr w'" "\<forall>x. x \<noteq> e \<longrightarrow> heap_of w' x = heap_of w x" by blast
  have "due w' t (L q) = due w t (L q)"
    unfolding due_def using un w'(2) by (auto simp: in_lists_def intro!: arg_cong [where f = length] filter_cong)
  with release_w_good [OF assms(1), of e] assms(2) w'(1) show ?thesis by auto
qed

lemma serviceOne_progress:
  assumes inv: "queue_inv w L" "timely w L" and L: "L q = e # xs" and t: "ev_when (heap_of w e) \<le> t"
    and "tame process q t" "mainless w"
  shows "\<exists>w' r L'. serviceOne process w q = Inr (w', r) \<and> queue_inv w' L' \<and> timely w' L' \<and>
    mainless w' \<and> due w' t (L' q) < due w t (L q)"
proof -
  from pop_inv [OF inv(1) L] obtain h' p where
    h': "eq_pop (heap_of w) (queues w q) = Inr (e, h', (queues w q)\<lparr>eq_head := p\<rparr>)"
    "queue_inv (put_queue w q (h', (queues w q)\<lparr>eq_head := p\<rparr>)) (L(q := xs))"
    "e \<notin> in_lists (put_queue w q (h', (queues w q)\<lparr>eq_head := p\<rparr>)) (L(q := xs))"
    "ev_when (h' e) = ev_when (heap_of w e)" "\<forall>x. x \<noteq> e \<longrightarrow> same_data (heap_of w x) (h' x)"
    "ev_deleted (h' e) = ev_deleted (heap_of w e)" "ev_flags (h' e) = fl_clear (ev_flags (heap_of w e)) Scheduled" by blast
  let ?w = "put_queue w q (h', (queues w q)\<lparr>eq_head := p\<rparr>)" and ?L = "L(q := xs)"
  have w: "ev_when (h' x) = ev_when (heap_of w x)" for x
    using h'(4,5) same_data_fields(1) by (cases "x = e") auto
  have fewer: "due v t (?L q) < due w t (L q)" if "\<And>x. ev_when (heap_of v x) = ev_when (h' x)" for v
    using t L by (simp add: due_def that w)
  have ml: "mainless ?w" using assms(6) h'(5,7) by (rule mainless_pop)
  have live: "\<not> ev_deleted (h' e)" using h'(6) L queue_inv_owner [OF inv(1), of e q] by simp
  show ?thesis
  proof (cases "squashed (h' e)")
    case True
    let ?c = "upd_flags ?w e (\<lambda>f. fl_clear f Squashed)"
    have c: "queue_inv ?c ?L" using h'(2,3) by (rule upd_unlisted)
    have "setCurTick ?w q (getCurTick w q) = ?w"
      by (auto simp: setCurTick_def upd_queue_def getCurTick_def put_queue_def)
    with service_clock [OF inv L h'(5), of "getCurTick w q" p] have "timely ?w ?L" by simp
    then have "timely ?c ?L"
    proof (rule same_data_timely)
      show "x \<in> set (?L q') \<and> ev_when (heap_of ?c x) = ev_when (heap_of ?w x)" if "x \<in> set (?L q')" for q' x
        using that by (cases "x = e") simp_all
    qed simp
    from release_w_total [OF c this, of e t q] obtain w' where "release_w ?c e = Inr w'" "queue_inv w' ?L"
      "timely w' ?L" "due w' t (?L q) = due ?c t (?L q)" by blast
    moreover have "ev_when (heap_of ?c x) = ev_when (h' x)" for x by (cases "x = e") simp_all
    note fewer [OF this]
    moreover have "serviceOne process w q = Inr (w', None)"
      using True h'(1) calculation(1) by (simp add: serviceOne_def Let_def)
    moreover have "mainless w'"
      using calculation(1) mainless_flags [OF ml mainless_clear] by (rule mainless_release [rotated])
    ultimately show ?thesis by metis
  next
    case False
    let ?t = "setCurTick ?w q (ev_when (heap_of w e))"
    have tm: "queue_inv ?t ?L" "timely ?t ?L" "alive ?t e"
      using h'(2) live service_clock [OF inv L h'(5), of "ev_when (heap_of w e)" p] by simp_all
    moreover have "mainless ?t" using ml by (simp add: mainless_def)
    ultimately obtain w2 L2 where w2: "process e ?t = Inr w2" "queue_inv w2 L2" "timely w2 L2"
      "due w2 t (L2 q) \<le> due ?t t (?L q)" "alive w2 e" "mainless w2"
      using assms(5) unfolding tame_def by blast
    have less: "due w2 t (L2 q) < due w t (L q)"
      using w2(4) fewer [of ?t] by simp
    show ?thesis
    proof (cases "isExitEvent (heap_of w2 e)")
      case True
      then have "serviceOne process w q = Inr (w2, Some e)"
        using False h'(1,4) w2(1,5,6) by (simp add: serviceOne_def Let_def mainless_def)
      with w2(2,3,6) less show ?thesis by blast
    next
      case exit: False
      from release_w_total [OF w2(2,3), of e t q] obtain w' where w': "release_w w2 e = Inr w'"
        "queue_inv w' L2" "timely w' L2" "due w' t (L2 q) = due w2 t (L2 q)" by blast
      have "serviceOne process w q = Inr (w', None)"
        using False exit h'(1,4) w2(1,5) w'(1) by (simp add: serviceOne_def Let_def)
      with w' less mainless_release [OF w2(6) w'(1)] show ?thesis by metis
    qed
  qed
qed

lemma serviceEvents_ends:
  assumes "queue_inv w L" "timely w L" "tame process q t" "mainless w"
  shows "\<exists>w' L'. serviceEvents process w q t = Some (Inr w') \<and> queue_inv w' L' \<and> getCurTick w' q = t \<and>
    (\<forall>x \<in> set (L' q). t < ev_when (heap_of w' x))"
  using assms(1,2,4)
proof (induction "due w t (L q)" arbitrary: w L rule: less_induct)
  case less
  show ?case
  proof (cases "L q")
    case Nil
    then have "eq_empty w q" using queue_invD(1) [OF less.prems(1), of q] by (auto simp: eq_empty_def dest: queue_rel_head)
    then have "serviceEvents process w q t = Some (Inr (setCurTick w q t))" by (subst serviceEvents_step) simp
    with less.prems Nil show ?thesis by (intro exI [of _ "setCurTick w q t"] exI [of _ L]) simp
  next
    case (Cons e xs)
    have rel: "queue_rel (heap_of w) (eq_head (queues w q)) (e # xs)"
      using queue_invD(1) [OF less.prems(1), of q] Cons by simp
    then have hd: "eq_head (queues w q) = Some e" by (rule queue_rel_head)
    show ?thesis
    proof (cases "ev_when (heap_of w e) \<le> t")
      case True
      from serviceOne_progress [OF less.prems(1,2) Cons True assms(3) less.prems(3)] obtain w1 r L1 where
        w1: "serviceOne process w q = Inr (w1, r)" "queue_inv w1 L1" "timely w1 L1" "due w1 t (L1 q) < due w t (L q)"
        "mainless w1" by blast
      have "serviceEvents process w q t = serviceEvents process w1 q t"
        using w1(1) True hd by (subst serviceEvents_step) (auto simp: eq_empty_def)
      with less.hyps [OF w1(4,2,3,5)] show ?thesis by simp
    next
      case False
      have "t < ev_when (heap_of w x)" if "x \<in> set (L q)" for x
      proof -
        have "ekey (heap_of w) e \<le> ekey (heap_of w) x"
          using queue_rel_sorted [OF rel] that Cons by auto
        then have "ev_when (heap_of w e) \<le> ev_when (heap_of w x)" by (auto simp: ekey_def)
        with False show ?thesis by simp
      qed
      moreover have "serviceEvents process w q t = Some (Inr (setCurTick w q t))"
        using False hd by (subst serviceEvents_step) auto
      ultimately show ?thesis
        using less.prems by (intro exI [of _ "setCurTick w q t"] exI [of _ L]) simp
    qed
  qed
qed

section \<open>Properties\<close>

text \<open>A world of empty queues and constructed events, and a handler that does nothing, for the examples.\<close>

definition demo_world :: world where
  "demo_world = \<lparr>heap_of = (\<lambda>e. (demo_event 0 0)\<lparr>ev_queue := None\<rparr>), queues = (\<lambda>q. EventQueue_new []),
     inParallelMode = False, curEventQueue = 0\<rparr>"

lemma demo_world_inv: "queue_inv demo_world (\<lambda>_. [])" "timely demo_world (\<lambda>_. [])"
  by (simp_all add: queue_inv_def timely_def demo_world_def EventQueue_new_def)

lemma demo_world_event:
  "alive demo_world e" "\<not> scheduled (heap_of demo_world e)" "initialized (heap_of demo_world e)"
  "getCurTick demo_world q = 0" "\<not> inParallelMode demo_world" "mainless demo_world"
  by (simp_all add: demo_world_def demo_event_def scheduled_def initialized_def getCurTick_def EventQueue_new_def
      fl_isSet_def flag_consts mainless_def)

text \<open>
  Scheduling. When the assertions of \<^verbatim>\<open>schedule\<close> hold and the event goes to the running
  queue, the call returns with the event scheduled at the given time and placed in the order of
  time and priority, every other event and every clock as before, and all queues still consistent
  and free of events in the past.
\<close>

theorem schedule_correct:
  assumes "queue_inv w L" "timely w L" "\<not> (inParallelMode w \<and> (q \<noteq> curEventQueue w \<or> g))"
    "getCurTick w q \<le> t" "alive w e" "\<not> scheduled (heap_of w e)" "initialized (heap_of w e)"
  shows "\<exists>w'. schedule w q e t g = Inr w' \<and> queue_inv w' (L(q := ordered_at w e t (L q))) \<and>
    timely w' (L(q := ordered_at w e t (L q))) \<and> scheduled (heap_of w' e) \<and> ev_when (heap_of w' e) = t \<and>
    (\<forall>x. x \<noteq> e \<longrightarrow> same_data (heap_of w x) (heap_of w' x)) \<and> (\<forall>q. getCurTick w' q = getCurTick w q)"
  using schedule_serial [OF assms] by blast

theorem schedule_correct_witness:
  "\<exists>w'. schedule demo_world 0 3 9 False = Inr w' \<and> scheduled (heap_of w' 3) \<and> ev_when (heap_of w' 3) = 9"
  using schedule_correct [OF demo_world_inv, of 0 False 9 3] demo_world_event by auto

text \<open>
  C10. The invariant. Take any sequence of schedule, deschedule and reschedule calls, squashes, public
  flag changes, constructions and deletions of events, asynchronous insertions, checkpoint restores,
  destructions of queues, advances of a clock, and calls of \<^verbatim>\<open>serviceOne\<close> and
  \<^verbatim>\<open>serviceEvents\<close> with handlers made of such calls. It keeps every queue ordered, linked to live
  scheduled events of its own, and free of events in the past, and moves no clock back. The
  conditions the code leaves to its callers are these: the events that \<^verbatim>\<open>handleAsyncInsertions\<close>
  and \<^verbatim>\<open>checkpointReschedule\<close> insert are not in the past; the latter is given an event of the
  queue that is not yet in it; \<^verbatim>\<open>setCurTick\<close> and \<^verbatim>\<open>serviceEvents\<close> are given a time that is
  not before the clock, and \<^verbatim>\<open>setCurTick\<close> one that is not after the first event.
  \<^verbatim>\<open>replaceHead\<close>, which overwrites the list, is not among the steps.
\<close>

theorem reachable_good:
  assumes "sim_step\<^sup>*\<^sup>* w w'" "good_world w"
  shows "good_world w' \<and> (\<forall>q. getCurTick w q \<le> getCurTick w' q)"
  using assms by (rule sim_steps_good)

lemma idle_handler: "api_handler (\<lambda>e w. Inr w)" "tame (\<lambda>e w. Inr w) q t"
  by (auto simp: api_handler_def tame_def)

lemma demo_service:
  "\<exists>w1 w2 r. schedule demo_world 0 3 9 False = Inr w1 \<and> good_world w1 \<and> serviceOne (\<lambda>e w. Inr w) w1 0 = Inr (w2, r)"
proof -
  obtain w1 where w1: "schedule demo_world 0 3 9 False = Inr w1" "queue_inv w1 ((\<lambda>_. [])(0 := ordered_at demo_world 3 9 []))"
    "timely w1 ((\<lambda>_. [])(0 := ordered_at demo_world 3 9 []))"
    using schedule_serial [OF demo_world_inv, of 0 False 9 3] demo_world_event by auto
  have L: "((\<lambda>_. [])(0 := ordered_at demo_world 3 9 [])) 0 = 3 # []" by (simp add: ordered_at_def)
  have "mainless w1"
    using w1(1) by (auto simp: schedule_def demo_world_event insert_w_def eq_insert_def insertBefore_def
        demo_world_def EventQueue_new_def put_queue_def upd_ev_def mainless_def setWhen_def demo_event_def
        fl_isSet_def fl_set_def flag_consts)
  from serviceOne_progress [OF w1(2,3) L _ idle_handler(2) this, of "- 1"] w1
  show ?thesis by (auto simp: good_world_def)
qed

text \<open>A handler that squashes event 4, for the examples.\<close>

definition squash_handler :: handler where
  "squash_handler e w = Inr (if alive w 4 then upd_ev w 4 squash else w)"

lemma squash_handler_ok: "api_handler squash_handler" "tame squash_handler q t"
proof -
  show "api_handler squash_handler"
    by (auto simp: api_handler_def squash_handler_def intro: step_squash split: if_splits)
  have sq: "upd_ev w 4 squash = upd_ev w 4 (\<lambda>_. squash (heap_of w 4))" for w by (simp add: upd_ev_def)
  have "queue_inv (upd_ev w 4 squash) L \<and> timely (upd_ev w 4 squash) L" if "queue_inv w L" "timely w L" for w L
    unfolding sq by (rule upd_flags_inv [OF that, where fl = "fl_set (ev_flags (heap_of w 4)) Squashed"])
      (simp_all add: squash_def scheduled_def fl_laws)
  moreover have "mainless (upd_ev w 4 squash)" if "mainless w" for w
    using that by (auto simp: mainless_def upd_ev_def squash_def fl_laws flag_consts)
  moreover have "due (upd_ev w 4 squash) t xs = due w t xs" "alive (upd_ev w 4 squash) e = alive w e" for w xs e
    by (auto simp: due_def upd_ev_def squash_def intro!: arg_cong [where f = length] filter_cong)
  ultimately show "tame squash_handler q t"
    unfolding tame_def squash_handler_def by (intro allI impI) (auto intro!: exI)
qed

lemma mainless_schedule:
  assumes "mainless w" "\<forall>x. x \<noteq> e \<longrightarrow> same_data (heap_of w x) (heap_of w' x)"
    "ev_flags (heap_of w' e) = fl_set (ev_flags (heap_of w e)) Scheduled"
  shows "mainless w'"
  unfolding mainless_def
proof
  fix x
  show "\<not> fl_isSet (ev_flags (heap_of w' x)) IsMainQueue"
    using assms same_data_fields(3) [of "heap_of w x" "heap_of w' x"]
    by (cases "x = e") (auto simp: mainless_def fl_laws flag_consts)
qed

lemma demo_two:
  "\<exists>w1 w2 L. schedule demo_world 0 3 5 False = Inr w1 \<and> schedule w1 0 4 6 False = Inr w2 \<and>
     queue_inv w2 L \<and> timely w2 L \<and> mainless w2 \<and> 4 \<in> set (L 0) \<and> \<not> inParallelMode w2"
proof -
  let ?L = "(\<lambda>_ :: qid. [])(0 := ordered_at demo_world 3 5 [])"
  obtain w1 where w1: "schedule demo_world 0 3 5 False = Inr w1" "queue_inv w1 ?L" "timely w1 ?L"
    "\<forall>x. x \<noteq> 3 \<longrightarrow> same_data (heap_of demo_world x) (heap_of w1 x)" "\<forall>q. getCurTick w1 q = getCurTick demo_world q"
    "inParallelMode w1 = inParallelMode demo_world" "ev_flags (heap_of w1 3) = fl_set (ev_flags (heap_of demo_world 3)) Scheduled"
    using schedule_serial [OF demo_world_inv, of 0 False 5 3] demo_world_event by auto
  let ?M = "?L(0 :: qid := ordered_at w1 4 6 (?L 0))"
  have "alive w1 4" "\<not> scheduled (heap_of w1 4)" "initialized (heap_of w1 4)"
    using same_data_fields [of "heap_of demo_world 4" "heap_of w1 4"] w1(4) demo_world_event(1-3) [of 4]
    by (simp_all add: scheduled_def initialized_def)
  with schedule_serial [OF w1(2,3), of 0 False 6 4] w1(5,6) demo_world_event obtain w2 where
    w2: "schedule w1 0 4 6 False = Inr w2" "queue_inv w2 (?M)"
    "timely w2 (?M)" "\<forall>x. x \<noteq> 4 \<longrightarrow> same_data (heap_of w1 x) (heap_of w2 x)"
    "inParallelMode w2 = inParallelMode w1" "ev_flags (heap_of w2 4) = fl_set (ev_flags (heap_of w1 4)) Scheduled"
    by auto
  have "mainless w2"
    using mainless_schedule [OF mainless_schedule [OF demo_world_event(6) w1(4,7)] w2(4,6)] .
  moreover have "4 \<in> set (?M 0)" by simp
  moreover have "\<not> inParallelMode w2" using w1(6) w2(5) demo_world_event(5) by simp
  ultimately have "schedule demo_world 0 3 5 False = Inr w1 \<and> schedule w1 0 4 6 False = Inr w2 \<and>
      queue_inv w2 ?M \<and> timely w2 ?M \<and> mainless w2 \<and> 4 \<in> set (?M 0) \<and> \<not> inParallelMode w2"
    using w1(1) w2(1-3) by (intro conjI) assumption+
  then show ?thesis by (intro exI)
qed


theorem reachable_good_witness:
  "\<exists>w1 w2 r. schedule demo_world 0 3 9 False = Inr w1 \<and> serviceOne (\<lambda>e w. Inr w) w1 0 = Inr (w2, r) \<and>
     good_world w2 \<and> getCurTick w1 0 \<le> getCurTick w2 0"
proof -
  obtain w1 w2 r where w: "schedule demo_world 0 3 9 False = Inr w1" "good_world w1"
    "serviceOne (\<lambda>e w. Inr w) w1 0 = Inr (w2, r)" using demo_service by blast
  have s: "sim_step\<^sup>*\<^sup>* demo_world w1" "sim_step\<^sup>*\<^sup>* w1 w2"
    using sim_object [OF step_schedule [OF w(1)]] sim_serviceOne [OF idle_handler(1) w(3)] by blast+
  have "good_world demo_world" using demo_world_inv by (auto simp: good_world_def)
  with reachable_good [OF rtranclp_trans [OF s]] reachable_good [OF s(2) w(2)] w show ?thesis by blast
qed



text \<open>
  C11. \<^verbatim>\<open>serviceEvents\<close> returns, with the clock at the requested time and no event of the queue
  due, when three things hold: the queues are consistent and free of past events; no event carries
  the flag \<^verbatim>\<open>IsMainQueue\<close>, which the assertion on exit events tests and which no constructor
  and no public flag change can set; and the handler always returns, keeps these two conditions, does not delete the
  event it handles, and leaves in the queue no more events due by that time than it found there.
\<close>

theorem serviceEvents_complete:
  assumes "queue_inv w L" "timely w L" "tame process q t" "mainless w"
  shows "\<exists>w' L'. serviceEvents process w q t = Some (Inr w') \<and> queue_inv w' L' \<and> getCurTick w' q = t \<and>
    (\<forall>x \<in> set (L' q). t < ev_when (heap_of w' x))"
  using assms by (rule serviceEvents_ends)

theorem serviceEvents_complete_witness:
  "\<exists>w1 w2 w'. schedule demo_world 0 3 5 False = Inr w1 \<and> schedule w1 0 4 6 False = Inr w2 \<and> \<not> eq_empty w2 0 \<and>
     serviceEvents squash_handler w2 0 7 = Some (Inr w') \<and> getCurTick w' 0 = 7"
proof -
  obtain w1 w2 L where w: "schedule demo_world 0 3 5 False = Inr w1" "schedule w1 0 4 6 False = Inr w2"
    "queue_inv w2 L" "timely w2 L" "mainless w2" "4 \<in> set (L 0)" using demo_two by blast
  have "\<not> eq_empty w2 0" using queue_inv_head [OF w(3)] w(6) by (cases "L 0") (auto simp: eq_empty_def)
  with serviceEvents_complete [OF w(3,4) squash_handler_ok(2) w(5), of 0 7] w(1,2) show ?thesis by blast
qed

text \<open>
  C29. Scheduling across queues. In parallel mode an event scheduled on a queue that is not the
  running one, or scheduled globally, is not inserted but appended to that queue's asynchronous
  list. When the queue runs next, \<^verbatim>\<open>handleAsyncInsertions\<close> moves every waiting event, this one
  last, into the queue in order of time and priority, leaves the asynchronous list empty, and
  changes no other queue. The assertions of \<^verbatim>\<open>schedule\<close> are assumed to hold.
\<close>

theorem handleAsyncInsertions_correct:
  assumes "queue_inv w L" "timely w L" "inParallelMode w" "q \<noteq> curEventQueue w \<or> g" "getCurTick w q \<le> t"
    "alive w e" "\<not> scheduled (heap_of w e)" "initialized (heap_of w e)"
  shows "\<exists>w1 w2. schedule w q e t g = Inr w1 \<and> queue_inv w1 L \<and>
    async_queue (queues w1 q) = async_queue (queues w q) @ [e] \<and>
    handleAsyncInsertions (w1\<lparr>curEventQueue := q\<rparr>) q = Inr w2 \<and> async_queue (queues w2 q) = [] \<and>
    queue_inv w2 (L(q := fold (insort_key ((ekey (heap_of w))(e := (t, ev_priority (heap_of w e)))))
      (async_queue (queues w q) @ [e]) (L q)))"
proof -
  from schedule_async [OF assms] obtain w1 where w1: "schedule w q e t g = Inr w1" "queue_inv w1 L"
    "async_queue (queues w1 q) = async_queue (queues w q) @ [e]"
    "ekey (heap_of w1) = (ekey (heap_of w))(e := (t, ev_priority (heap_of w e)))" by blast
  have "queue_inv (w1\<lparr>curEventQueue := q\<rparr>) L" using w1(2) by (simp add: queue_inv_def resident_def)
  from async_loop_ok [OF this refl, of q] obtain w2 where
    w2: "handleAsyncInsertions (w1\<lparr>curEventQueue := q\<rparr>) q = Inr w2" "async_queue (queues w2 q) = []"
    "queue_inv w2 (L(q := fold (insort_key (ekey (heap_of w1))) (async_queue (queues w1 q)) (L q)))"
    by (auto simp: handleAsyncInsertions_def)
  with w1 show ?thesis by (intro exI [of _ w1] exI [of _ w2]) (simp only: simp_thms)
qed

theorem handleAsyncInsertions_correct_witness:
  "\<exists>w1 w2 L. schedule (demo_world\<lparr>inParallelMode := True\<rparr>) 1 3 9 False = Inr w1 \<and>
     async_queue (queues w1 1) = [3] \<and> handleAsyncInsertions (w1\<lparr>curEventQueue := 1\<rparr>) 1 = Inr w2 \<and>
     async_queue (queues w2 1) = [] \<and> queue_inv w2 L \<and> L 1 = [3]"
proof -
  let ?w = "demo_world\<lparr>inParallelMode := True\<rparr>"
  have "queue_inv ?w (\<lambda>_. [])" "timely ?w (\<lambda>_. [])" "async_queue (queues ?w 1) = []"
    by (simp_all add: queue_inv_def timely_def demo_world_def EventQueue_new_def)
  with handleAsyncInsertions_correct [of ?w "\<lambda>_. []" 1 False 9 3] demo_world_event show ?thesis
    by (force simp: getCurTick_def demo_world_def)
qed

text \<open>
  C30. The destructor of a queue, run outside parallel mode or by the queue's own thread, ends: the
  queue is empty, every event it held is descheduled, every other event keeps its data, every other
  queue its list, and no clock moves.
\<close>

theorem EventQueue_destroy_complete:
  assumes "queue_inv w L" "timely w L" "\<not> inParallelMode w \<or> q = curEventQueue w"
  shows "\<exists>w'. EventQueue_destroy w q = Some (Inr w') \<and> queue_inv w' (L(q := [])) \<and> timely w' (L(q := [])) \<and>
    eq_empty w' q \<and> (\<forall>e \<in> set (L q). \<not> scheduled (heap_of w' e)) \<and>
    (\<forall>e. e \<notin> set (L q) \<longrightarrow> same_data (heap_of w e) (heap_of w' e)) \<and> same_clock w w'"
  using assms by (rule destroy_ends)

theorem EventQueue_destroy_complete_witness:
  "\<exists>w1 w2 w'. schedule demo_world 0 3 5 False = Inr w1 \<and> schedule w1 0 4 6 False = Inr w2 \<and> \<not> eq_empty w2 0 \<and>
     EventQueue_destroy w2 0 = Some (Inr w') \<and> eq_empty w' 0 \<and> \<not> scheduled (heap_of w' 4)"
proof -
  obtain w1 w2 L where w: "schedule demo_world 0 3 5 False = Inr w1" "schedule w1 0 4 6 False = Inr w2"
    "queue_inv w2 L" "timely w2 L" "4 \<in> set (L 0)" "\<not> inParallelMode w2" using demo_two by blast
  have "\<not> eq_empty w2 0" using queue_inv_head [OF w(3)] w(5) by (cases "L 0") (auto simp: eq_empty_def)
  with EventQueue_destroy_complete [OF w(3,4), of 0] w(1,2,5,6) show ?thesis by blast
qed

text \<open>
  Checkpoint restore. \<^verbatim>\<open>unserialize\<close> clears the flag \<^verbatim>\<open>Scheduled\<close> of an event that was
  scheduled and not squashed, so \<^verbatim>\<open>checkpointReschedule\<close>, which inserts events with that flag
  only, leaves such an event out of the queue.
\<close>

theorem restored_event_not_rescheduled:
  assumes "fl_isSet f Scheduled" "\<not> fl_isSet f Squashed" "ev_unserialize (heap_of w e) (t, p, f) = Inr x"
  shows "\<not> scheduled x \<and> checkpointReschedule (upd_ev w e (\<lambda>_. x)) q e = Inr (upd_ev w e (\<lambda>_. x))"
proof -
  have "fl_isSet (fl_set f Initialized) Scheduled = fl_isSet f Scheduled"
    "fl_isSet (fl_set f Initialized) Squashed = fl_isSet f Squashed"
    by (simp_all add: fl_laws flag_consts)
  with assms have "ev_flags x = fl_clear (fl_set f Initialized) (Squashed OR Scheduled)"
    by (auto simp: ev_unserialize_def Let_def)
  moreover have "\<not> fl_isSet (fl_clear g (Squashed OR Scheduled)) Scheduled" for g
    by (auto simp: fl_isSet_iff bit_char bit_or_iff)
  ultimately show ?thesis by (simp add: scheduled_def checkpointReschedule_def)
qed

theorem restored_event_not_rescheduled_witness:
  "\<exists>x. ev_unserialize (heap_of demo_world 3) (9, 0, Initialized OR Scheduled) = Inr x \<and> \<not> scheduled x \<and>
     checkpointReschedule (upd_ev demo_world 3 (\<lambda>_. x)) 0 3 = Inr (upd_ev demo_world 3 (\<lambda>_. x))"
proof -
  have "fl_isSet (Initialized OR Scheduled) Scheduled" "\<not> fl_isSet (Initialized OR Scheduled) Squashed"
    by (simp_all add: fl_isSet_def flag_consts)
  moreover have "\<exists>x. ev_unserialize (heap_of demo_world 3) (9, 0, Initialized OR Scheduled) = Inr x"
    using demo_world_event by (simp add: ev_unserialize_def Let_def)
  ultimately show ?thesis using restored_event_not_rescheduled by blast
qed

end
