(* ===== verification/SatCounter.thy ===== *)
theory SatCounter
  imports Complex_Main Prelude
begin

text \<open>
  Saturating counters (\<^verbatim>\<open>base/sat_counter.hh\<close>, class template \<^verbatim>\<open>GenericSatCounter\<close>), for a
  container of any width. The members are those of the class; the typedefs \<^verbatim>\<open>SatCounter8\<close> to
  \<^verbatim>\<open>SatCounter64\<close> are the instances at those widths. The differences \<^verbatim>\<open>maxVal - counter\<close> are
  taken on the integers, which is what the source computes whenever the counter is within its
  bounds. \<^verbatim>\<open>calcSaturation\<close> is the exact quotient, and \<open>None\<close> for the NaN of a counter of no
  bits.

  The operations are shown to be the saturating arithmetic of the naturals: \<open>sat_spec\<close> states
  every operation on the value alone, with the limit and the initial value as parameters.
\<close>

record (overloaded) 'a sat_counter =
  initialVal :: "'a::len word"
  maxVal :: "'a::len word"
  counter :: "'a::len word"

definition sat_wf :: "'a::len sat_counter \<Rightarrow> bool" where
  "sat_wf c \<longleftrightarrow> counter c \<le> maxVal c \<and> initialVal c \<le> maxVal c"

section \<open>Operations\<close>

definition GenericSatCounter :: "nat \<Rightarrow> 'a::len word \<Rightarrow> 'a sat_counter outcome" where
  "GenericSatCounter bits initial_val =
     check (bits < 64) Undefined
       (let mx = (ucast ((push_bit bits 1 :: u64) - 1) :: 'a word) in
        check (bits \<le> LENGTH('a)) Fatal
          (check (initial_val \<le> mx) Fatal
            (Inr \<lparr>initialVal = initial_val, maxVal = mx, counter = initial_val\<rparr>)))"

definition sc_inc :: "'a::len sat_counter \<Rightarrow> 'a sat_counter" where
  "sc_inc c = (if counter c < maxVal c then c\<lparr>counter := counter c + 1\<rparr> else c)"

definition sc_post_inc :: "'a::len sat_counter \<Rightarrow> 'a sat_counter \<times> 'a sat_counter" where
  "sc_post_inc c = (c, sc_inc c)"

definition sc_dec :: "'a::len sat_counter \<Rightarrow> 'a sat_counter" where
  "sc_dec c = (if counter c > 0 then c\<lparr>counter := counter c - 1\<rparr> else c)"

definition sc_post_dec :: "'a::len sat_counter \<Rightarrow> 'a sat_counter \<times> 'a sat_counter" where
  "sc_post_dec c = (c, sc_dec c)"

text \<open>
  A shift acts on the promoted operand: containers below 32 bits are shifted as \<^verbatim>\<open>int\<close>. A shift
  by the width of the promoted type is undefined, and so is a left shift of an \<^verbatim>\<open>int\<close> out of its
  32 bits.
\<close>

definition promoted_width :: "'a::len itself \<Rightarrow> nat" where
  "promoted_width _ = max 32 (LENGTH('a))"

definition sc_shr :: "'a::len sat_counter \<Rightarrow> int \<Rightarrow> 'a sat_counter outcome" where
  "sc_shr c shift =
     check (0 \<le> shift) Assert_Failed
       (check (nat shift < promoted_width TYPE('a)) Undefined
         (Inr (c\<lparr>counter := drop_bit (nat shift) (counter c)\<rparr>)))"

definition sc_shl :: "'a::len sat_counter \<Rightarrow> int \<Rightarrow> 'a sat_counter outcome" where
  "sc_shl c shift =
     check (0 \<le> shift) Assert_Failed
       (check (nat shift < promoted_width TYPE('a) \<and>
               (LENGTH('a) < 32 \<longrightarrow> unat (counter c) * 2 ^ nat shift < 2 ^ 32)) Undefined
         (let v = push_bit (nat shift) (counter c) in
          Inr (c\<lparr>counter := (if v > maxVal c then maxVal c else v)\<rparr>)))"

text \<open>The branches of \<^verbatim>\<open>+=\<close> and \<^verbatim>\<open>-=\<close> for an operand that is not negative.\<close>

definition sc_add_pos :: "'a::len sat_counter \<Rightarrow> int \<Rightarrow> 'a sat_counter" where
  "sc_add_pos c value =
     (if uint (maxVal c) - uint (counter c) \<ge> value
      then c\<lparr>counter := counter c + word_of_int value\<rparr>
      else c\<lparr>counter := maxVal c\<rparr>)"

definition sc_sub_pos :: "'a::len sat_counter \<Rightarrow> int \<Rightarrow> 'a sat_counter" where
  "sc_sub_pos c value =
     (if uint (counter c) > value then c\<lparr>counter := counter c - word_of_int value\<rparr>
      else c\<lparr>counter := 0\<rparr>)"

text \<open>
  The operand of \<^verbatim>\<open>+=\<close> and \<^verbatim>\<open>-=\<close> is a \<^verbatim>\<open>long long\<close>. A negative one is handed to the other operator
  with its sign changed, which overflows for the least value.
\<close>

definition sc_add :: "'a::len sat_counter \<Rightarrow> 64 word \<Rightarrow> 'a sat_counter outcome" where
  "sc_add c value =
     (if sint value \<ge> 0 then Inr (sc_add_pos c (sint value))
      else check (sint value \<noteq> - (2 ^ 63)) Undefined (Inr (sc_sub_pos c (- sint value))))"

definition sc_sub :: "'a::len sat_counter \<Rightarrow> 64 word \<Rightarrow> 'a sat_counter outcome" where
  "sc_sub c value =
     (if sint value \<ge> 0 then Inr (sc_sub_pos c (sint value))
      else check (sint value \<noteq> - (2 ^ 63)) Undefined (Inr (sc_add_pos c (- sint value))))"

definition sc_reset :: "'a::len sat_counter \<Rightarrow> 'a sat_counter" where
  "sc_reset c = c\<lparr>counter := initialVal c\<rparr>"

definition calcSaturation :: "'a::len sat_counter \<Rightarrow> rat option" where
  "calcSaturation c =
     (if maxVal c = 0 then None
      else Some (rat_of_int (uint (counter c)) / rat_of_int (uint (maxVal c))))"

definition isSaturated :: "'a::len sat_counter \<Rightarrow> bool" where
  "isSaturated c \<longleftrightarrow> counter c = maxVal c"

definition saturate :: "'a::len sat_counter \<Rightarrow> 'a word \<times> 'a sat_counter" where
  "saturate c = (let diff = maxVal c - counter c in (diff, c\<lparr>counter := maxVal c\<rparr>))"

definition sc_swap :: "'a::len sat_counter \<Rightarrow> 'a sat_counter \<Rightarrow> 'a sat_counter \<times> 'a sat_counter" where
  "sc_swap c d =
     (\<lparr>initialVal = initialVal d, maxVal = maxVal d, counter = counter d\<rparr>,
      \<lparr>initialVal = initialVal c, maxVal = maxVal c, counter = counter c\<rparr>)"

definition sc_move :: "'a::len sat_counter \<Rightarrow> ('a sat_counter \<times> 'a sat_counter) outcome" where
  "sc_move other =
     obind (GenericSatCounter 0 0) (\<lambda>temp.
       let c = \<lparr>initialVal = initialVal other, maxVal = maxVal other, counter = counter other\<rparr>;
           (other', temp') = sc_swap other temp
       in Inr (c, other'))"

section \<open>The counter as a bounded natural number\<close>

datatype sat_op =
    Op_Inc | Op_Dec | Op_Shr nat | Op_Shl nat | Op_Add int | Op_Sub int | Op_Reset | Op_Saturate

fun sat_apply :: "sat_op \<Rightarrow> 'a::len sat_counter \<Rightarrow> 'a sat_counter outcome" where
  "sat_apply Op_Inc c = Inr (sc_inc c)"
| "sat_apply Op_Dec c = Inr (sc_dec c)"
| "sat_apply (Op_Shr n) c = sc_shr c (int n)"
| "sat_apply (Op_Shl n) c = sc_shl c (int n)"
| "sat_apply (Op_Add v) c = sc_add c (word_of_int v)"
| "sat_apply (Op_Sub v) c = sc_sub c (word_of_int v)"
| "sat_apply Op_Reset c = Inr (sc_reset c)"
| "sat_apply Op_Saturate c = Inr (snd (saturate c))"

fun sat_run :: "sat_op list \<Rightarrow> 'a::len sat_counter \<Rightarrow> 'a sat_counter outcome" where
  "sat_run [] c = Inr c"
| "sat_run (p # ps) c = obind (sat_apply p c) (sat_run ps)"

fun sat_spec :: "nat \<Rightarrow> nat \<Rightarrow> sat_op \<Rightarrow> nat \<Rightarrow> nat" where
  "sat_spec m i Op_Inc v = min m (v + 1)"
| "sat_spec m i Op_Dec v = v - 1"
| "sat_spec m i (Op_Shr n) v = v div 2 ^ n"
| "sat_spec m i (Op_Shl n) v = min m (v * 2 ^ n)"
| "sat_spec m i (Op_Add x) v = nat (min (int m) (int v + x))"
| "sat_spec m i (Op_Sub x) v = nat (min (int m) (int v - x))"
| "sat_spec m i Op_Reset v = i"
| "sat_spec m i Op_Saturate v = m"

text \<open>
  Shifts by less than the width of the container that lose no bit of the value, and amounts whose
  absolute value a \<^verbatim>\<open>long long\<close> holds; every other operation is always allowed.
\<close>

fun sat_op_ok :: "nat \<Rightarrow> sat_op \<Rightarrow> nat \<Rightarrow> bool" where
  "sat_op_ok w (Op_Shr n) v \<longleftrightarrow> n < w"
| "sat_op_ok w (Op_Shl n) v \<longleftrightarrow> n < w \<and> v * 2 ^ n < 2 ^ w"
| "sat_op_ok w (Op_Add x) v \<longleftrightarrow> \<bar>x\<bar> < 2 ^ 63"
| "sat_op_ok w (Op_Sub x) v \<longleftrightarrow> \<bar>x\<bar> < 2 ^ 63"
| "sat_op_ok w _ v \<longleftrightarrow> True"

fun sat_ops_ok :: "nat \<Rightarrow> nat \<Rightarrow> nat \<Rightarrow> sat_op list \<Rightarrow> nat \<Rightarrow> bool" where
  "sat_ops_ok w m i [] v \<longleftrightarrow> True"
| "sat_ops_ok w m i (p # ps) v \<longleftrightarrow> sat_op_ok w p v \<and> sat_ops_ok w m i ps (sat_spec m i p v)"

definition sat_rel :: "nat \<Rightarrow> nat \<Rightarrow> 'a::len sat_counter \<Rightarrow> nat \<Rightarrow> bool" where
  "sat_rel m i c v \<longleftrightarrow>
     unat (maxVal c) = m \<and> unat (initialVal c) = i \<and> unat (counter c) = v \<and> v \<le> m \<and> i \<le> m"

lemma sat_rel_wf: "sat_wf c \<longleftrightarrow> sat_rel (unat (maxVal c)) (unat (initialVal c)) c (unat (counter c))"
  by (simp add: sat_rel_def sat_wf_def word_le_nat_alt)

lemma unat_add_int:
  fixes w :: "'a::len word"
  assumes "0 \<le> x" "uint w + x < 2 ^ LENGTH('a)"
  shows "uint (w + word_of_int x) = uint w + x"
  using assms by (simp add: uint_word_ariths uint_word_of_int flip: uint_word_of_int_eq)
    (simp add: mod_simps)

lemma uint_sub_int:
  fixes w :: "'a::len word"
  assumes "0 \<le> x" "x \<le> uint w"
  shows "uint (w - word_of_int x) = uint w - x"
proof -
  have "uint w - x < 2 ^ LENGTH('a)" using assms uint_lt2p [of w] by linarith
  with assms show ?thesis
    by (simp add: uint_word_ariths uint_word_of_int mod_simps)
qed


lemma sat_bounds: "sat_rel m i (c :: 'a::len sat_counter) v \<Longrightarrow> m < 2 ^ LENGTH('a) \<and> v < 2 ^ LENGTH('a)"
  unfolding sat_rel_def by (metis le_less_trans unsigned_less)

lemma sc_add_pos_rel:
  assumes r: "sat_rel m i c v" and x: "0 \<le> x"
  shows "sat_rel m i (sc_add_pos c x) (nat (min (int m) (int v + x)))"
proof (cases "int v + x \<le> int m")
  case True
  have u: "uint (maxVal c) = int m" "uint (counter c) = int v"
    using r by (auto simp: sat_rel_def uint_nat)
  have "int m < 2 ^ LENGTH('a)" using sat_bounds [OF r] by simp
  then have "uint (counter c) + x < 2 ^ LENGTH('a)" using u True by linarith
  from unat_add_int [OF x this] u True x have "uint (counter c + word_of_int x) = int v + x" by simp
  then have "unat (counter c + word_of_int x) = nat (int v + x)"
    by (simp flip: nat_uint_eq)
  with True u x r show ?thesis by (simp add: sc_add_pos_def sat_rel_def)
next
  case False
  with r show ?thesis by (simp add: sc_add_pos_def sat_rel_def uint_nat)
qed

lemma sc_sub_pos_rel:
  assumes r: "sat_rel m i c v" and x: "0 \<le> x"
  shows "sat_rel m i (sc_sub_pos c x) (nat (min (int m) (int v - x)))"
proof (cases "x < int v")
  case True
  have u: "uint (counter c) = int v" using r by (auto simp: sat_rel_def uint_nat)
  from uint_sub_int [OF x, of "counter c"] u True x
  have "uint (counter c - word_of_int x) = int v - x" by simp
  then have "unat (counter c - word_of_int x) = nat (int v - x)"
    by (simp flip: nat_uint_eq)
  moreover have "nat (int v - x) \<le> m" using r x unfolding sat_rel_def by linarith
  ultimately show ?thesis using True u x r by (simp add: sc_sub_pos_def sat_rel_def)
next
  case False
  with r show ?thesis by (simp add: sc_sub_pos_def sat_rel_def uint_nat)
qed

lemma sc_inc_rel:
  assumes r: "sat_rel m i (c :: 'a::len sat_counter) v"
  shows "sat_rel m i (sc_inc c) (min m (v + 1))"
proof (cases "v < m")
  case True
  have "unat (counter c) + 1 < 2 ^ LENGTH('a)"
    using True sat_bounds [OF r] r unfolding sat_rel_def by linarith
  then have "unat (counter c + 1) = v + 1"
    using unat_add_lem [of "counter c" 1] r by (simp add: sat_rel_def)
  with True r show ?thesis by (simp add: sc_inc_def sat_rel_def word_less_nat_alt)
next
  case False
  with r show ?thesis by (simp add: sc_inc_def sat_rel_def word_less_nat_alt)
qed

lemma sc_dec_rel: "sat_rel m i c v \<Longrightarrow> sat_rel m i (sc_dec c) (v - 1)"
proof (cases "v = 0")
  case False
  assume r: "sat_rel m i c v"
  then have "counter c \<noteq> 0" using False by (auto simp: sat_rel_def)
  then have "unat (counter c - 1) = unat (counter c) - 1" by (rule unat_minus_one)
  with r False show ?thesis by (auto simp: sc_dec_def sat_rel_def word_less_nat_alt)
qed (auto simp: sc_dec_def sat_rel_def word_less_nat_alt)

lemma sc_shr_rel:
  "sat_rel m i (c :: 'a::len sat_counter) v \<Longrightarrow> n < LENGTH('a) \<Longrightarrow>
    \<exists>c'. sc_shr c (int n) = Inr c' \<and> sat_rel m i c' (v div 2 ^ n)"
  by (auto simp: sc_shr_def promoted_width_def sat_rel_def unat_char check_def
      intro: le_trans [OF div_le_dividend])

lemma unat_push_bit_small:
  fixes w :: "'a::len word"
  assumes n: "n < LENGTH('a)" and "unat w * 2 ^ n < 2 ^ LENGTH('a)"
  shows "unat (push_bit n w) = unat w * 2 ^ n"
  using assms unat_mult_lem [of w "2 ^ n"] by (simp add: push_bit_eq_mult unat_pow2 [OF n])

lemma sc_shl_rel:
  assumes r: "sat_rel m i (c :: 'a::len sat_counter) v" and n: "n < LENGTH('a)"
    and b: "v * 2 ^ n < 2 ^ LENGTH('a)"
  shows "\<exists>c'. sc_shl c (int n) = Inr c' \<and> sat_rel m i c' (min m (v * 2 ^ n))"
proof -
  have v: "unat (counter c) = v" using r by (simp add: sat_rel_def)
  have p: "unat (push_bit n (counter c)) = v * 2 ^ n"
    using unat_push_bit_small [OF n, of "counter c"] b v by simp
  have q: "LENGTH('a) < 32 \<longrightarrow> v * 2 ^ n < 2 ^ 32"
    using b by (meson less_imp_le_nat less_le_trans one_le_numeral power_increasing)
  show ?thesis
    using r n b p q
    by (auto simp: sc_shl_def promoted_width_def sat_rel_def check_def word_less_nat_alt Let_def v)
qed

lemma sint_amount: "\<bar>x\<bar> < 2 ^ 63 \<Longrightarrow> sint (word_of_int x :: 64 word) = x"
  using signed_take_bit_int_eq_self [of 63 x] by (auto simp: sint_sbintrunc')

lemma sat_apply_rel:
  fixes c :: "'a::len sat_counter"
  assumes r: "sat_rel m i c v" and ok: "sat_op_ok LENGTH('a) p v"
  shows "\<exists>c'. sat_apply p c = Inr c' \<and> sat_rel m i c' (sat_spec m i p v)"
proof (cases p)
  case Op_Inc
  with sc_inc_rel [OF r] show ?thesis by simp
next
  case Op_Dec
  with sc_dec_rel [OF r] show ?thesis by simp
next
  case (Op_Shr n)
  with sc_shr_rel [OF r, of n] ok show ?thesis by simp
next
  case (Op_Shl n)
  with sc_shl_rel [OF r, of n] ok show ?thesis by simp
next
  case (Op_Add x)
  then show ?thesis
    using ok sc_add_pos_rel [OF r, of x] sc_sub_pos_rel [OF r, of "- x"] by (auto simp: sc_add_def sint_amount)
next
  case (Op_Sub x)
  then show ?thesis
    using ok sc_add_pos_rel [OF r, of "- x"] sc_sub_pos_rel [OF r, of x] by (auto simp: sc_sub_def sint_amount)
qed (use r in \<open>simp_all add: sat_rel_def sc_reset_def saturate_def\<close>)

lemma sat_run_rel:
  fixes c :: "'a::len sat_counter"
  assumes "sat_rel m i c v" "sat_ops_ok LENGTH('a) m i ps v"
  shows "\<exists>c'. sat_run ps c = Inr c' \<and> sat_rel m i c' (fold (sat_spec m i) ps v)"
  using assms
proof (induction ps arbitrary: c v)
  case (Cons p ps)
  from sat_apply_rel [of m i c v p] Cons.prems obtain d
    where "sat_apply p c = Inr d" "sat_rel m i d (sat_spec m i p v)" by auto
  with Cons show ?case by fastforce
qed simp

lemma GenericSatCounter_rel:
  fixes x :: "'a::len word"
  assumes b: "bits < 64" "bits \<le> LENGTH('a)" and x: "unat x < 2 ^ bits"
  shows "\<exists>c. GenericSatCounter bits x = Inr c \<and> sat_rel (2 ^ bits - 1) (unat x) c (unat x)"
proof -
  let ?mx = "ucast ((push_bit bits 1 :: u64) - 1) :: 'a word"
  have m: "(push_bit bits 1 :: u64) - 1 = mask bits" by (simp add: mask_eq_exp_minus_1 push_bit_of_1)
  have "(ucast (mask bits :: u64) :: 'a word) = mask bits"
    using b by (intro bit_word_eqI) (auto simp: bit_unsigned_iff bit_mask_iff)
  with m have "?mx = mask bits" by simp
  then have u: "unat ?mx = 2 ^ bits - 1" using b by (simp add: unat_mask_word)
  then have "x \<le> ?mx" using x by (simp add: word_le_nat_alt)
  with b u x show ?thesis
    by (simp add: GenericSatCounter_def sat_rel_def check_def Let_def)
qed

section \<open>Shifting out of the container\<close>

text \<open>
  The left shift is carried out in the container, so bits that leave it are gone before the
  result is compared with the limit: an eight-bit counter at 128 shifted by one becomes 0 and not
  255. And a 64-bit counter of 64 bits cannot be made, since its limit is computed with a shift
  by 64, although the check admits 64 bits.
\<close>

lemma sc_shl_loses_bits:
  "sc_shl \<lparr>initialVal = 0, maxVal = 255, counter = 128 :: u8\<rparr> 1 =
     Inr \<lparr>initialVal = 0, maxVal = 255, counter = 0\<rparr>"
  by (simp add: sc_shl_def check_def promoted_width_def)

lemma GenericSatCounter_full_u64: "GenericSatCounter 64 (x :: u64) = Inl Undefined"
  by (simp add: GenericSatCounter_def)

section \<open>Property\<close>

text \<open>
  C36. A counter of fewer than 64 bits that its container holds, made with an initial value that
  fits, goes through any sequence of increments, decrements, additions and subtractions of signed
  amounts other than the least \<^verbatim>\<open>long long\<close>, shifts, resets and saturations, where each shift is by
  less than the width of the container and a left shift pushes no bit of the value out of the
  container. Then nothing aborts, and the value is that of the saturating arithmetic on the naturals
  between 0 and \<open>2 ^ bits - 1\<close>, for any container width. (A left shift that pushes bits out of the
  container does not saturate, see \<open>sc_shl_loses_bits\<close>.)
\<close>

theorem sat_counter_saturates:
  fixes x :: "'a::len word"
  assumes "bits < 64" "bits \<le> LENGTH('a)" "unat x < 2 ^ bits"
    and "sat_ops_ok LENGTH('a) (2 ^ bits - 1) (unat x) ps (unat x)"
  shows "\<exists>c c'. GenericSatCounter bits x = Inr c \<and> sat_run ps c = Inr c' \<and>
    unat (counter c') = fold (sat_spec (2 ^ bits - 1) (unat x)) ps (unat x) \<and>
    unat (counter c') < 2 ^ bits"
proof -
  obtain c where c: "GenericSatCounter bits x = Inr c" "sat_rel (2 ^ bits - 1) (unat x) c (unat x)"
    using GenericSatCounter_rel assms by blast
  obtain c' where c': "sat_run ps c = Inr c'"
    "sat_rel (2 ^ bits - 1) (unat x) c' (fold (sat_spec (2 ^ bits - 1) (unat x)) ps (unat x))"
    using sat_run_rel [OF c(2) assms(4)] by blast
  have "unat (counter c') \<le> 2 ^ bits - 1" "unat (counter c') = fold (sat_spec (2 ^ bits - 1) (unat x)) ps (unat x)"
    using c'(2) by (simp_all only: sat_rel_def)
  moreover from this(1) have "unat (counter c') < 2 ^ bits"
    using zero_less_power [of "2 :: nat" bits] by linarith
  ultimately show ?thesis using c(1) c'(1) by (intro exI conjI)
qed

theorem sat_counter_saturates_witness:
  "\<exists>c c'. GenericSatCounter 3 (1 :: u8) = Inr c \<and>
    sat_run [Op_Add 9, Op_Dec, Op_Shr 1, Op_Shl 4, Op_Sub 2] c = Inr c' \<and>
    unat (counter c') = 5"
proof -
  have "sat_ops_ok 8 7 1 [Op_Add 9, Op_Dec, Op_Shr 1, Op_Shl 4, Op_Sub 2] 1"
    and "fold (sat_spec 7 1) [Op_Add 9, Op_Dec, Op_Shr 1, Op_Shl 4, Op_Sub 2] 1 = 5"
    by code_simp+
  with sat_counter_saturates [of 3 "1 :: u8" "[Op_Add 9, Op_Dec, Op_Shr 1, Op_Shl 4, Op_Sub 2]"]
  show ?thesis by (simp del: fold_simps sat_run.simps sat_ops_ok.simps) blast
qed

end
