(* ===== verification/Replacement.thy ===== *)
theory Replacement
  imports SatCounter "HOL-Library.Multiset"
begin

text \<open>
  The interface of the replacement policies (\<^verbatim>\<open>mem/cache/replacement_policies/base.hh\<close>) and the
  victim searches they share. An entry is a number, its replacement data is what the state of the
  policy holds for it, and the virtual functions of the base class are the fields of a record, so
  that a cache takes a policy as an argument the way it takes the pointer in the source.

  The locale \<open>replacement_policy\<close> is what a cache relies on: on the entries of the policy no
  operation aborts, the state stays good, and the victim is one of the candidates. Its extension
  \<open>ranked_policy\<close> is for the policies that look for the first candidate of least rank; evicting all
  candidates one after the other then lists them sorted by rank, earlier candidates first among
  equals.
\<close>

type_synonym ent = nat

record 's repl_policy =
  rp_invalidate :: "'s \<Rightarrow> ent \<Rightarrow> 's outcome"
  rp_touch :: "'s \<Rightarrow> ent \<Rightarrow> 's outcome"
  rp_reset :: "'s \<Rightarrow> ent \<Rightarrow> 's outcome"
  rp_getVictim :: "'s \<Rightarrow> ent list \<Rightarrow> (ent \<times> 's) outcome"

datatype rp_op = Rp_Invalidate ent | Rp_Touch ent | Rp_Reset ent

fun rp_apply :: "'s repl_policy \<Rightarrow> rp_op \<Rightarrow> 's \<Rightarrow> 's outcome" where
  "rp_apply P (Rp_Invalidate e) s = rp_invalidate P s e"
| "rp_apply P (Rp_Touch e) s = rp_touch P s e"
| "rp_apply P (Rp_Reset e) s = rp_reset P s e"

fun rp_ent :: "rp_op \<Rightarrow> ent" where
  "rp_ent (Rp_Invalidate e) = e"
| "rp_ent (Rp_Touch e) = e"
| "rp_ent (Rp_Reset e) = e"

section \<open>The search for the first least candidate\<close>

text \<open>The loop \<^verbatim>\<open>for (candidate : candidates) if (better) victim = candidate\<close>.\<close>

fun victim_scan :: "('e \<Rightarrow> 'e \<Rightarrow> bool) \<Rightarrow> 'e list \<Rightarrow> 'e \<Rightarrow> 'e" where
  "victim_scan better [] victim = victim"
| "victim_scan better (c # cs) victim = victim_scan better cs (if better c victim then c else victim)"

fun first_min :: "('e \<Rightarrow> 'k::linorder) \<Rightarrow> 'e list \<Rightarrow> 'e \<Rightarrow> bool" where
  "first_min key [] v \<longleftrightarrow> False"
| "first_min key (c # cs) v \<longleftrightarrow>
     (v = c \<and> (\<forall>x \<in> set cs. key c \<le> key x)) \<or> (first_min key cs v \<and> key v < key c)"

lemma first_min_mem: "first_min key cs v \<Longrightarrow> v \<in> set cs"
  by (induction cs) auto

lemma first_min_le: "first_min key cs v \<Longrightarrow> c \<in> set cs \<Longrightarrow> key v \<le> key c"
  by (induction cs) (auto intro: less_imp_le)

lemma first_min_unique: "first_min key cs v \<Longrightarrow> first_min key cs w \<Longrightarrow> v = w"
proof (induction cs)
  case (Cons c cs)
  then show ?case by (fastforce dest: first_min_mem)
qed simp

lemma first_min_split:
  assumes "first_min key cs v"
  obtains as bs where "cs = as @ v # bs" "\<forall>a \<in> set as. key v < key a" "\<forall>b \<in> set bs. key v \<le> key b"
  using assms
proof (induction cs arbitrary: thesis)
  case (Cons c cs)
  show ?case
  proof (cases "v = c \<and> (\<forall>x \<in> set cs. key c \<le> key x)")
    case True
    then show ?thesis using Cons.prems(1) [of "[]" cs] by simp
  next
    case False
    then have "first_min key cs v" "key v < key c" using Cons.prems(2) by auto
    then obtain as bs where "cs = as @ v # bs" "\<forall>a \<in> set as. key v < key a" "\<forall>b \<in> set bs. key v \<le> key b"
      using Cons.IH by blast
    then show ?thesis using Cons.prems(1) [of "c # as" bs] \<open>key v < key c\<close> by simp
  qed
qed simp

lemma victim_scan_first_min_acc:
  "first_min key (v # cs) (victim_scan (\<lambda>c v. key c < key v) cs v)"
proof (induction cs arbitrary: v)
  case (Cons c cs)
  show ?case
  proof (cases "key c < key v")
    case True
    have "key (victim_scan (\<lambda>c v. key c < key v) cs c) \<le> key c"
      by (rule first_min_le [OF Cons]) simp
    with True have "key (victim_scan (\<lambda>c v. key c < key v) cs c) < key v" by simp
    with True Cons [of c] show ?thesis by simp
  next
    case False
    with Cons [of v] show ?thesis by (auto simp: not_less)
  qed
qed simp

lemma victim_scan_first_min:
  assumes "cs \<noteq> []"
  shows "first_min key cs (victim_scan (\<lambda>c v. key c < key v) cs (hd cs))"
proof -
  have "victim_scan (\<lambda>c v. key c < key v) cs (hd cs) = victim_scan (\<lambda>c v. key c < key v) (tl cs) (hd cs)"
    using assms by (cases cs) auto
  with victim_scan_first_min_acc [of key "hd cs" "tl cs"] assms show ?thesis by simp
qed

lemma victim_scan_cong:
  assumes "\<And>c v. c \<in> set cs \<Longrightarrow> v \<in> set (w # cs) \<Longrightarrow> p c v \<longleftrightarrow> q c v"
  shows "victim_scan p cs w = victim_scan q cs w"
  using assms by (induction cs arbitrary: w) auto

section \<open>The contract\<close>

locale replacement_policy =
  fixes P :: "'s repl_policy" and good :: "'s \<Rightarrow> bool"
    and ents :: "ent set" and eligible :: "ent list \<Rightarrow> bool"
  assumes apply_good: "good s \<Longrightarrow> rp_ent p \<in> ents \<Longrightarrow> \<exists>s'. rp_apply P p s = Inr s' \<and> good s'"
    and no_candidates: "\<exists>e. rp_getVictim P s [] = Inl e"
    and victim_candidate: "good s \<Longrightarrow> eligible cs \<Longrightarrow>
      \<exists>v s'. rp_getVictim P s cs = Inr (v, s') \<and> v \<in> set cs \<and> good s'"
begin

fun run_ops :: "rp_op list \<Rightarrow> 's \<Rightarrow> 's outcome" where
  "run_ops [] s = Inr s"
| "run_ops (p # ps) s = obind (rp_apply P p s) (run_ops ps)"

lemma run_ops_good:
  "good s \<Longrightarrow> rp_ent ` set ps \<subseteq> ents \<Longrightarrow> \<exists>s'. run_ops ps s = Inr s' \<and> good s'"
proof (induction ps arbitrary: s)
  case (Cons p ps)
  with apply_good [of s p] obtain t where "rp_apply P p s = Inr t" "good t" by auto
  with Cons show ?case by auto
qed simp

lemma eligible_nonempty: "good s \<Longrightarrow> eligible cs \<Longrightarrow> cs \<noteq> []"
  using no_candidates [of s] victim_candidate [of s cs] by auto

lemma victim_after_ops:
  assumes "good s" "rp_ent ` set ps \<subseteq> ents" "eligible cs"
  shows "\<exists>s' v t. run_ops ps s = Inr s' \<and> rp_getVictim P s' cs = Inr (v, t) \<and> v \<in> set cs \<and> good t"
  using run_ops_good [OF assms(1,2)] victim_candidate [OF _ assms(3)] by metis

end

locale ranked_policy =
  fixes P :: "'s repl_policy" and key :: "'s \<Rightarrow> ent \<Rightarrow> 'k::linorder"
  assumes apply_total: "\<exists>s'. rp_apply P p s = Inr s'"
    and none: "rp_getVictim P s [] = Inl Assert_Failed"
    and least: "cs \<noteq> [] \<Longrightarrow> \<exists>v. rp_getVictim P s cs = Inr (v, s) \<and> first_min (key s) cs v"
begin

lemma victim_eq: "cs \<noteq> [] \<Longrightarrow> first_min (key s) cs v \<Longrightarrow> rp_getVictim P s cs = Inr (v, s)"
  using least [of cs s] first_min_unique by metis

fun evict_all :: "nat \<Rightarrow> 's \<Rightarrow> ent list \<Rightarrow> ent list outcome" where
  "evict_all 0 s cs = Inr []"
| "evict_all (Suc n) s cs =
     obind (rp_getVictim P s cs) (\<lambda>(v, s'). obind (evict_all n s' (remove1 v cs)) (\<lambda>vs. Inr (v # vs)))"

lemma sort_key_first_min:
  assumes "first_min f cs v"
  shows "sort_key f cs = v # sort_key f (remove1 v cs)"
proof (rule properties_for_sort_key)
  obtain as bs where c: "cs = as @ v # bs" "\<forall>a \<in> set as. f v < f a" "\<forall>b \<in> set bs. f v \<le> f b"
    using assms by (rule first_min_split)
  then have r: "remove1 v cs = as @ bs" by (auto simp: remove1_append)
  show "mset (v # sort_key f (remove1 v cs)) = mset cs" using c(1) r by simp
  show "sorted (map f (v # sort_key f (remove1 v cs)))"
    using c r by (auto intro: less_imp_le)
  have "filter (\<lambda>x. f v = f x) as = []" using c(2) by (auto simp: filter_empty_conv)
  then show "filter (\<lambda>x. f k = f x) (v # sort_key f (remove1 v cs)) = filter (\<lambda>x. f k = f x) cs" for k
    using c(1) r sort_key_stable [of f "f k" "as @ bs"] by (auto simp: eq_commute [of "f k"])
qed

lemma evict_all_sorts: "evict_all (length cs) s cs = Inr (sort_key (key s) cs)"
proof (induction "length cs" arbitrary: cs)
  case (Suc n)
  then have "cs \<noteq> []" by auto
  then obtain v where v: "rp_getVictim P s cs = Inr (v, s)" "first_min (key s) cs v"
    using least by blast
  have n: "n = length (remove1 v cs)"
    using Suc.hyps(2) first_min_mem [OF v(2)] by (simp add: length_remove1)
  show ?case
    using v(1) Suc.hyps(1) [OF n] sort_key_first_min [OF v(2)] by (simp add: n [symmetric] flip: Suc.hyps(2))
qed simp

end

sublocale ranked_policy \<subseteq> replacement_policy P "\<lambda>_. True" UNIV "\<lambda>cs. cs \<noteq> []"
proof
  show "\<exists>v s'. rp_getVictim P s cs = Inr (v, s') \<and> v \<in> set cs \<and> True" if "cs \<noteq> []" for s cs
    using least [OF that, of s] first_min_mem by fastforce
qed (use apply_total none in auto)

end
