(* ===== verification/RecencyPolicies.thy ===== *)
theory RecencyPolicies
  imports Replacement "HOL-Library.Product_Lexorder"
begin

text \<open>
  The replacement policies that rank entries by a time stamp or a count
  (\<^verbatim>\<open>mem/cache/replacement_policies\<close>): \<^verbatim>\<open>lru_rp\<close>, \<^verbatim>\<open>bip_rp\<close>, \<^verbatim>\<open>weighted_lru_rp\<close>,
  \<^verbatim>\<open>mru_rp\<close>, \<^verbatim>\<open>lfu_rp\<close>, and \<^verbatim>\<open>random_rp\<close>. The state of a policy maps each entry to its
  replacement data; \<^verbatim>\<open>curTick()\<close> and the numbers drawn from the generator are arguments. Each
  policy is an instance of the contract of the base class; LRU is shown to maintain the recency
  order of its entries under every history of operations.
\<close>

section \<open>LRU\<close>

record lru_data =
  lastTouchTick :: tick

definition LRU_instantiateEntry :: lru_data where
  "LRU_instantiateEntry = \<lparr>lastTouchTick = 0\<rparr>"

definition LRU_invalidate ::
    "(ent \<Rightarrow> 'a lru_data_scheme) \<Rightarrow> ent \<Rightarrow> (ent \<Rightarrow> 'a lru_data_scheme)" where
  "LRU_invalidate s e = s(e := (s e)\<lparr>lastTouchTick := 0\<rparr>)"

definition LRU_touch ::
    "tick \<Rightarrow> (ent \<Rightarrow> 'a lru_data_scheme) \<Rightarrow> ent \<Rightarrow> (ent \<Rightarrow> 'a lru_data_scheme)" where
  "LRU_touch curTick s e = s(e := (s e)\<lparr>lastTouchTick := curTick\<rparr>)"

definition LRU_reset ::
    "tick \<Rightarrow> (ent \<Rightarrow> 'a lru_data_scheme) \<Rightarrow> ent \<Rightarrow> (ent \<Rightarrow> 'a lru_data_scheme)" where
  "LRU_reset curTick s e = s(e := (s e)\<lparr>lastTouchTick := curTick\<rparr>)"

definition LRU_getVictim ::
    "(ent \<Rightarrow> 'a lru_data_scheme) \<Rightarrow> ent list \<Rightarrow> (ent \<times> (ent \<Rightarrow> 'a lru_data_scheme)) outcome" where
  "LRU_getVictim s candidates =
     check (length candidates > 0) Assert_Failed
       (Inr (victim_scan (\<lambda>c v. lastTouchTick (s c) < lastTouchTick (s v))
               candidates (hd candidates), s))"

definition LRU_policy :: "tick \<Rightarrow> (ent \<Rightarrow> 'a lru_data_scheme) repl_policy" where
  "LRU_policy curTick =
     \<lparr>rp_invalidate = (\<lambda>s e. Inr (LRU_invalidate s e)),
      rp_touch = (\<lambda>s e. Inr (LRU_touch curTick s e)),
      rp_reset = (\<lambda>s e. Inr (LRU_reset curTick s e)),
      rp_getVictim = LRU_getVictim\<rparr>"

text \<open>The shape all the policies that scan for the least rank have.\<close>

lemma ranked_policyI:
  assumes "\<And>s e. \<exists>s'. rp_invalidate P s e = Inr s'" "\<And>s e. \<exists>s'. rp_touch P s e = Inr s'"
    "\<And>s e. \<exists>s'. rp_reset P s e = Inr s'"
    and v: "\<And>s cs. rp_getVictim P s cs =
      check (length cs > 0) Assert_Failed (Inr (victim_scan (better s) cs (hd cs), s))"
    and b: "\<And>s c v. better s c v \<longleftrightarrow> key s c < key s v"
  shows "ranked_policy P key"
proof
  show "\<exists>s'. rp_apply P p s = Inr s'" for p s using assms(1-3) by (cases p) auto
  show "rp_getVictim P s [] = Inl Assert_Failed" for s by (simp add: v)
  have "better s = (\<lambda>c v. key s c < key s v)" for s using b by blast
  then show "\<exists>v. rp_getVictim P s cs = Inr (v, s) \<and> first_min (key s) cs v" if "cs \<noteq> []" for s cs
    using that victim_scan_first_min [OF that, of "key s"] by (simp add: v)
qed

interpretation lru: ranked_policy "LRU_policy curTick" "\<lambda>s e. lastTouchTick (s e)" for curTick
  by (rule ranked_policyI [where better = "\<lambda>s c v. lastTouchTick (s c) < lastTouchTick (s v)"])
    (simp_all add: LRU_policy_def LRU_getVictim_def)

subsection \<open>LRU keeps the recency order\<close>

text \<open>
  The abstract state is the list of the touched entries, least recent first: a touch or a reset
  moves the entry to the end, an invalidation takes it out. The victim is the first candidate
  that is not in the list, and the least recent candidate when all are in it.
\<close>

fun recency :: "rp_op \<Rightarrow> ent list \<Rightarrow> ent list" where
  "recency (Rp_Invalidate e) q = remove1 e q"
| "recency (Rp_Touch e) q = remove1 e q @ [e]"
| "recency (Rp_Reset e) q = remove1 e q @ [e]"

definition recency_victim :: "ent list \<Rightarrow> ent list \<Rightarrow> ent" where
  "recency_victim q cs = hd (filter (\<lambda>e. e \<notin> set q) cs @ filter (\<lambda>e. e \<in> set cs) q)"

fun LRU_run :: "(tick \<times> rp_op) list \<Rightarrow> (ent \<Rightarrow> 'a lru_data_scheme) \<Rightarrow>
    (ent \<Rightarrow> 'a lru_data_scheme) outcome" where
  "LRU_run [] s = Inr s"
| "LRU_run ((t, p) # h) s = obind (rp_apply (LRU_policy t) p s) (LRU_run h)"

definition lru_rel :: "(ent \<Rightarrow> 'a lru_data_scheme) \<Rightarrow> tick \<Rightarrow> ent list \<Rightarrow> bool" where
  "lru_rel s now q \<longleftrightarrow> distinct q \<and>
     sorted_wrt (\<lambda>a b. lastTouchTick (s a) < lastTouchTick (s b)) q \<and>
     (\<forall>e. lastTouchTick (s e) = 0 \<longleftrightarrow> e \<notin> set q) \<and> (\<forall>e \<in> set q. lastTouchTick (s e) \<le> now)"

lemma sorted_wrt_remove1: "sorted_wrt R q \<Longrightarrow> sorted_wrt R (remove1 e q)"
  by (induction q) (auto dest: notin_set_remove1 [rotated])

lemma sorted_wrt_upd:
  "e \<notin> set q \<Longrightarrow> sorted_wrt (\<lambda>a b. f ((s(e := x)) a) < f ((s(e := x)) b)) q \<longleftrightarrow>
    sorted_wrt (\<lambda>a b. f (s a) < (f (s b) :: 'b::linorder)) q"
  by (induction q) auto

lemma lru_rel_touch:
  assumes r: "lru_rel s now q" and t: "now < t"
  shows "lru_rel (s(e := (s e)\<lparr>lastTouchTick := t\<rparr>)) t (remove1 e q @ [e])"
proof -
  let ?s = "s(e := (s e)\<lparr>lastTouchTick := t\<rparr>)"
  have d: "distinct q" and n: "e \<notin> set (remove1 e q)" using r by (auto simp: lru_rel_def)
  have "sorted_wrt (\<lambda>a b. lastTouchTick (s a) < lastTouchTick (s b)) (remove1 e q)"
    using r by (simp add: lru_rel_def sorted_wrt_remove1)
  then have "sorted_wrt (\<lambda>a b. lastTouchTick (?s a) < lastTouchTick (?s b)) (remove1 e q)"
    by (simp only: sorted_wrt_upd [OF n, of lastTouchTick s])
  moreover have "\<forall>a \<in> set (remove1 e q). lastTouchTick (?s a) < t"
    using r t n d by (auto simp: lru_rel_def dest: le_less_trans)
  moreover have "t \<noteq> 0" using t by auto
  ultimately show ?thesis using r t n d
    by (auto simp: lru_rel_def sorted_wrt_append intro: less_imp_le dest: le_less_trans)
qed

lemma lru_rel_invalidate:
  assumes r: "lru_rel s now q" and t: "now < t"
  shows "lru_rel (s(e := (s e)\<lparr>lastTouchTick := 0\<rparr>)) t (remove1 e q)"
proof -
  let ?s = "s(e := (s e)\<lparr>lastTouchTick := 0\<rparr>)"
  have d: "distinct q" and n: "e \<notin> set (remove1 e q)" using r by (auto simp: lru_rel_def)
  have "sorted_wrt (\<lambda>a b. lastTouchTick (s a) < lastTouchTick (s b)) (remove1 e q)"
    using r by (simp add: lru_rel_def sorted_wrt_remove1)
  then have "sorted_wrt (\<lambda>a b. lastTouchTick (?s a) < lastTouchTick (?s b)) (remove1 e q)"
    by (simp only: sorted_wrt_upd [OF n, of lastTouchTick s])
  then show ?thesis using r t n d
    by (auto simp: lru_rel_def intro: less_imp_le dest: le_less_trans)
qed

lemma LRU_run_rel:
  assumes "lru_rel s now q" "sorted_wrt (<) (now # map fst h)"
  shows "\<exists>s' now'. LRU_run h s = Inr s' \<and> lru_rel s' now' (fold recency (map snd h) q)"
  using assms
proof (induction h arbitrary: s now q)
  case (Cons x h)
  obtain t p where x: "x = (t, p)" by (cases x)
  have t: "now < t" "sorted_wrt (<) (t # map fst h)" using Cons.prems(2) x by auto
  obtain s1 where "rp_apply (LRU_policy t) p s = Inr s1" "lru_rel s1 t (recency p q)"
    using lru_rel_touch [OF Cons.prems(1) t(1)] lru_rel_invalidate [OF Cons.prems(1) t(1)]
    by (cases p) (auto simp: LRU_policy_def LRU_touch_def LRU_reset_def LRU_invalidate_def)
  with Cons.IH [of s1 t "recency p q"] t(2) x show ?case by simp
qed auto

lemma first_min_strict:
  "v \<in> set cs \<Longrightarrow> (\<And>c. c \<in> set cs \<Longrightarrow> c \<noteq> v \<Longrightarrow> key v < key c) \<Longrightarrow> first_min key cs v"
proof (induction cs)
  case (Cons c cs)
  show ?case
  proof (cases "c = v")
    case True
    have "key v \<le> key x" if "x \<in> set cs" for x
      using Cons.prems(2) [of x] that by (cases "x = v") (auto intro: less_imp_le)
    with True show ?thesis by simp
  qed (use Cons in auto)
qed simp

lemma first_min_hd_filter:
  assumes "filter Q cs \<noteq> []" "\<And>c. c \<in> set cs \<Longrightarrow> m \<le> key c" "\<And>c. c \<in> set cs \<Longrightarrow> Q c \<longleftrightarrow> key c = m"
  shows "first_min key cs (hd (filter Q cs))"
  using assms
proof (induction cs)
  case (Cons c cs)
  show ?case
  proof (cases "Q c")
    case False
    then have f: "filter Q cs \<noteq> []" using Cons.prems(1) by simp
    then have "hd (filter Q cs) \<in> set (filter Q cs)" by (rule hd_in_set)
    then have "key (hd (filter Q cs)) = m" using Cons.prems(3) by auto
    moreover have "m < key c" using False Cons.prems(2,3) [of c] by (simp add: less_le)
    ultimately show ?thesis using False Cons f by simp
  qed (use Cons.prems in auto)
qed simp

lemma sorted_wrt_hd_less:
  "sorted_wrt R q \<Longrightarrow> x \<in> set q \<Longrightarrow> x \<noteq> hd q \<Longrightarrow> R (hd q) x"
  by (cases q) auto

lemma lru_rel_victim:
  assumes r: "lru_rel s now q" and "cs \<noteq> []"
  shows "first_min (\<lambda>e. lastTouchTick (s e)) cs (recency_victim q cs)"
proof (cases "filter (\<lambda>e. e \<notin> set q) cs = []")
  case True
  let ?q = "filter (\<lambda>e. e \<in> set cs) q"
  have in_q: "e \<in> set ?q" if "e \<in> set cs" for e using True that by (auto simp: filter_empty_conv)
  have ne: "?q \<noteq> []" using in_q [of "hd cs"] assms(2) by (metis hd_in_set empty_iff list.set(1))
  have v: "recency_victim q cs = hd ?q" using True by (simp add: recency_victim_def)
  have so: "sorted_wrt (\<lambda>a b. lastTouchTick (s a) < lastTouchTick (s b)) ?q"
    using r by (simp add: lru_rel_def sorted_wrt_filter)
  show ?thesis unfolding v
  proof (rule first_min_strict)
    show "hd ?q \<in> set cs" using hd_in_set [OF ne] by simp
    show "lastTouchTick (s (hd ?q)) < lastTouchTick (s c)" if "c \<in> set cs" "c \<noteq> hd ?q" for c
      using sorted_wrt_hd_less [OF so in_q [OF that(1)] that(2)] .
  qed
next
  case False
  then have "recency_victim q cs = hd (filter (\<lambda>e. e \<notin> set q) cs)"
    by (simp add: recency_victim_def hd_append)
  with first_min_hd_filter [OF False, of 0 "\<lambda>e. lastTouchTick (s e)"] r show ?thesis
    by (simp add: lru_rel_def)
qed

section \<open>BIP and weighted LRU\<close>

text \<open>\<open>draw\<close> is the number \<^verbatim>\<open>rng->random<unsigned>(1, 100)\<close> returns.\<close>

definition BIP_reset ::
    "u32 \<Rightarrow> u32 \<Rightarrow> tick \<Rightarrow> (ent \<Rightarrow> 'a lru_data_scheme) \<Rightarrow> ent \<Rightarrow> (ent \<Rightarrow> 'a lru_data_scheme)" where
  "BIP_reset btp draw curTick s e =
     s(e := (s e)\<lparr>lastTouchTick := (if draw \<le> btp then curTick else 1)\<rparr>)"

definition BIP_policy :: "u32 \<Rightarrow> u32 \<Rightarrow> tick \<Rightarrow> (ent \<Rightarrow> 'a lru_data_scheme) repl_policy" where
  "BIP_policy btp draw curTick =
     (LRU_policy curTick)\<lparr>rp_reset := (\<lambda>s e. Inr (BIP_reset btp draw curTick s e))\<rparr>"

interpretation bip: ranked_policy "BIP_policy btp draw curTick" "\<lambda>s e. lastTouchTick (s e)"
  for btp draw curTick
  by (rule ranked_policyI [where better = "\<lambda>s c v. lastTouchTick (s c) < lastTouchTick (s v)"])
    (simp_all add: BIP_policy_def LRU_policy_def LRU_getVictim_def)

record weighted_lru_data = lru_data +
  last_occ_ptr :: int

definition WeightedLRU_instantiateEntry :: weighted_lru_data where
  "WeightedLRU_instantiateEntry = \<lparr>lastTouchTick = 0, last_occ_ptr = 0\<rparr>"

definition WeightedLRU_touch ::
    "tick \<Rightarrow> (ent \<Rightarrow> weighted_lru_data) \<Rightarrow> ent \<Rightarrow> int \<Rightarrow> (ent \<Rightarrow> weighted_lru_data)" where
  "WeightedLRU_touch curTick s e occupancy =
     (let s' = LRU_touch curTick s e in s'(e := (s' e)\<lparr>last_occ_ptr := occupancy\<rparr>))"

definition WeightedLRU_better :: "(ent \<Rightarrow> weighted_lru_data) \<Rightarrow> ent \<Rightarrow> ent \<Rightarrow> bool" where
  "WeightedLRU_better s candidate victim =
     (if last_occ_ptr (s candidate) < last_occ_ptr (s victim) then True
      else if last_occ_ptr (s candidate) = last_occ_ptr (s victim)
      then lastTouchTick (s candidate) < lastTouchTick (s victim)
      else False)"

definition WeightedLRU_getVictim ::
    "(ent \<Rightarrow> weighted_lru_data) \<Rightarrow> ent list \<Rightarrow> (ent \<times> (ent \<Rightarrow> weighted_lru_data)) outcome" where
  "WeightedLRU_getVictim s candidates =
     check (length candidates > 0) Assert_Failed
       (Inr (victim_scan (WeightedLRU_better s) candidates (hd candidates), s))"

definition WeightedLRU_policy :: "tick \<Rightarrow> (ent \<Rightarrow> weighted_lru_data) repl_policy" where
  "WeightedLRU_policy curTick = (LRU_policy curTick)\<lparr>rp_getVictim := WeightedLRU_getVictim\<rparr>"

interpretation wlru: ranked_policy "WeightedLRU_policy curTick"
  "\<lambda>s e. (last_occ_ptr (s e), lastTouchTick (s e))" for curTick
  by (rule ranked_policyI [where better = WeightedLRU_better])
    (auto simp: WeightedLRU_policy_def LRU_policy_def WeightedLRU_getVictim_def WeightedLRU_better_def)

section \<open>MRU\<close>

record mru_data =
  mruTouchTick :: tick

definition MRU_instantiateEntry :: mru_data where
  "MRU_instantiateEntry = \<lparr>mruTouchTick = 0\<rparr>"

definition MRU_invalidate :: "(ent \<Rightarrow> mru_data) \<Rightarrow> ent \<Rightarrow> (ent \<Rightarrow> mru_data)" where
  "MRU_invalidate s e = s(e := (s e)\<lparr>mruTouchTick := 0\<rparr>)"

definition MRU_touch :: "tick \<Rightarrow> (ent \<Rightarrow> mru_data) \<Rightarrow> ent \<Rightarrow> (ent \<Rightarrow> mru_data)" where
  "MRU_touch curTick s e = s(e := (s e)\<lparr>mruTouchTick := curTick\<rparr>)"

definition MRU_reset :: "tick \<Rightarrow> (ent \<Rightarrow> mru_data) \<Rightarrow> ent \<Rightarrow> (ent \<Rightarrow> mru_data)" where
  "MRU_reset curTick s e = s(e := (s e)\<lparr>mruTouchTick := curTick\<rparr>)"

fun MRU_scan :: "(ent \<Rightarrow> mru_data) \<Rightarrow> ent list \<Rightarrow> ent \<Rightarrow> ent" where
  "MRU_scan s [] victim = victim"
| "MRU_scan s (candidate # cs) victim =
     (if mruTouchTick (s candidate) = 0 then candidate
      else if mruTouchTick (s candidate) > mruTouchTick (s victim) then MRU_scan s cs candidate
      else MRU_scan s cs victim)"

definition MRU_getVictim ::
    "(ent \<Rightarrow> mru_data) \<Rightarrow> ent list \<Rightarrow> (ent \<times> (ent \<Rightarrow> mru_data)) outcome" where
  "MRU_getVictim s candidates =
     check (length candidates > 0) Assert_Failed (Inr (MRU_scan s candidates (hd candidates), s))"

definition MRU_policy :: "tick \<Rightarrow> (ent \<Rightarrow> mru_data) repl_policy" where
  "MRU_policy curTick =
     \<lparr>rp_invalidate = (\<lambda>s e. Inr (MRU_invalidate s e)),
      rp_touch = (\<lambda>s e. Inr (MRU_touch curTick s e)),
      rp_reset = (\<lambda>s e. Inr (MRU_reset curTick s e)),
      rp_getVictim = MRU_getVictim\<rparr>"

text \<open>
  Negation modulo \<^verbatim>\<open>2^64\<close> turns the search around: an entry that was never touched has the
  least rank, and then a later touch means a lower rank.
\<close>

lemma neg_word_less: "(v :: u64) \<noteq> 0 \<Longrightarrow> w \<noteq> 0 \<Longrightarrow> - v < - w \<longleftrightarrow> w < v"
proof -
  assume z: "v \<noteq> 0" "w \<noteq> 0"
  have "uint (- x) = 2 ^ 64 - uint x" if "x \<noteq> 0" for x :: u64
  proof -
    have "uint x mod 2 ^ 64 = uint x" using uint_lt2p [of x] by simp
    moreover have "uint x \<noteq> 0" using that by (simp add: uint_0_iff)
    ultimately show ?thesis by (simp add: uint_word_ariths zmod_zminus1_eq_if)
  qed
  with z show ?thesis by (simp add: word_less_def)
qed

lemma victim_scan_zero:
  fixes key :: "'e \<Rightarrow> u64"
  shows "key v = 0 \<Longrightarrow> victim_scan (\<lambda>c v. key c < key v) cs v = v"
  by (induction cs) auto

lemma MRU_scan_eq:
  "mruTouchTick (s v) \<noteq> 0 \<Longrightarrow>
    MRU_scan s cs v = victim_scan (\<lambda>c v. - mruTouchTick (s c) < - mruTouchTick (s v)) cs v"
proof (induction cs arbitrary: v)
  case (Cons c cs)
  show ?case
  proof (cases "mruTouchTick (s c) = 0")
    case True
    moreover have "0 < - mruTouchTick (s v)" using Cons.prems by (simp add: word_neq_0_conv [symmetric])
    ultimately show ?thesis using victim_scan_zero [of "\<lambda>e. - mruTouchTick (s e)" c cs] by simp
  next
    case False
    with Cons neg_word_less [OF False Cons.prems] show ?thesis by simp
  qed
qed simp

lemma MRU_scan_hd:
  "MRU_scan s (c # cs) c = victim_scan (\<lambda>c v. - mruTouchTick (s c) < - mruTouchTick (s v)) (c # cs) c"
  using MRU_scan_eq [of s c cs] victim_scan_zero [of "\<lambda>e. - mruTouchTick (s e)" c cs] by auto

interpretation mru: ranked_policy "MRU_policy curTick" "\<lambda>s e. - mruTouchTick (s e)" for curTick
proof (rule ranked_policyI [where better = "\<lambda>s c v. - mruTouchTick (s c) < - mruTouchTick (s v)"])
  show "rp_getVictim (MRU_policy curTick) s cs = check (length cs > 0) Assert_Failed
      (Inr (victim_scan (\<lambda>c v. - mruTouchTick (s c) < - mruTouchTick (s v)) cs (hd cs), s))" for s cs
    using MRU_scan_hd [of s "hd cs" "tl cs"]
    by (cases cs) (simp_all add: MRU_policy_def MRU_getVictim_def)
qed (simp_all add: MRU_policy_def)

section \<open>LFU\<close>

record lfu_data =
  refCount :: u32

definition LFU_instantiateEntry :: lfu_data where
  "LFU_instantiateEntry = \<lparr>refCount = 0\<rparr>"

definition LFU_invalidate :: "(ent \<Rightarrow> lfu_data) \<Rightarrow> ent \<Rightarrow> (ent \<Rightarrow> lfu_data)" where
  "LFU_invalidate s e = s(e := (s e)\<lparr>refCount := 0\<rparr>)"

definition LFU_touch :: "(ent \<Rightarrow> lfu_data) \<Rightarrow> ent \<Rightarrow> (ent \<Rightarrow> lfu_data)" where
  "LFU_touch s e = s(e := (s e)\<lparr>refCount := refCount (s e) + 1\<rparr>)"

definition LFU_reset :: "(ent \<Rightarrow> lfu_data) \<Rightarrow> ent \<Rightarrow> (ent \<Rightarrow> lfu_data)" where
  "LFU_reset s e = s(e := (s e)\<lparr>refCount := 1\<rparr>)"

definition LFU_getVictim ::
    "(ent \<Rightarrow> lfu_data) \<Rightarrow> ent list \<Rightarrow> (ent \<times> (ent \<Rightarrow> lfu_data)) outcome" where
  "LFU_getVictim s candidates =
     check (length candidates > 0) Assert_Failed
       (Inr (victim_scan (\<lambda>c v. refCount (s c) < refCount (s v)) candidates (hd candidates), s))"

definition LFU_policy :: "(ent \<Rightarrow> lfu_data) repl_policy" where
  "LFU_policy =
     \<lparr>rp_invalidate = (\<lambda>s e. Inr (LFU_invalidate s e)), rp_touch = (\<lambda>s e. Inr (LFU_touch s e)),
      rp_reset = (\<lambda>s e. Inr (LFU_reset s e)), rp_getVictim = LFU_getVictim\<rparr>"

interpretation lfu: ranked_policy LFU_policy "\<lambda>s e. refCount (s e)"
  by (rule ranked_policyI [where better = "\<lambda>s c v. refCount (s c) < refCount (s v)"])
    (simp_all add: LFU_policy_def LFU_getVictim_def)

text \<open>
  The reference count of an entry after a reset and \<open>n\<close> touches is \<open>n + 1\<close> modulo \<open>2 ^ 32\<close>: an
  entry touched \<open>2 ^ 32 - 1\<close> times is ranked like an invalid one.
\<close>

lemma LFU_touch_count: "refCount (((\<lambda>s. LFU_touch s e) ^^ n) (LFU_reset s e) e) = of_nat (n + 1)"
  by (induction n) (simp_all add: LFU_touch_def LFU_reset_def)

section \<open>Random\<close>

record random_data =
  rd_valid :: bool

definition Random_instantiateEntry :: random_data where
  "Random_instantiateEntry = \<lparr>rd_valid = False\<rparr>"

definition Random_invalidate :: "(ent \<Rightarrow> random_data) \<Rightarrow> ent \<Rightarrow> (ent \<Rightarrow> random_data)" where
  "Random_invalidate s e = s(e := (s e)\<lparr>rd_valid := False\<rparr>)"

definition Random_touch :: "(ent \<Rightarrow> random_data) \<Rightarrow> ent \<Rightarrow> (ent \<Rightarrow> random_data)" where
  "Random_touch s e = s"

definition Random_reset :: "(ent \<Rightarrow> random_data) \<Rightarrow> ent \<Rightarrow> (ent \<Rightarrow> random_data)" where
  "Random_reset s e = s(e := (s e)\<lparr>rd_valid := True\<rparr>)"

text \<open>\<open>draw\<close> is the index \<^verbatim>\<open>rng->random<unsigned>(0, candidates.size() - 1)\<close> returns.\<close>

definition Random_getVictim ::
    "nat \<Rightarrow> (ent \<Rightarrow> random_data) \<Rightarrow> ent list \<Rightarrow> (ent \<times> (ent \<Rightarrow> random_data)) outcome" where
  "Random_getVictim draw s candidates =
     check (length candidates > 0) Assert_Failed
       (check (draw < length candidates) Undefined
         (Inr (case List.find (\<lambda>c. \<not> rd_valid (s c)) candidates of
                 Some c \<Rightarrow> c | None \<Rightarrow> candidates ! draw, s)))"

definition Random_policy :: "nat \<Rightarrow> (ent \<Rightarrow> random_data) repl_policy" where
  "Random_policy draw =
     \<lparr>rp_invalidate = (\<lambda>s e. Inr (Random_invalidate s e)), rp_touch = (\<lambda>s e. Inr (Random_touch s e)),
      rp_reset = (\<lambda>s e. Inr (Random_reset s e)), rp_getVictim = Random_getVictim draw\<rparr>"

interpretation rnd: replacement_policy "Random_policy draw" "\<lambda>_. True" UNIV "\<lambda>cs. draw < length cs" for draw
proof
  show "\<exists>s'. rp_apply (Random_policy draw) p s = Inr s' \<and> True" for s p
    by (cases p) (simp_all add: Random_policy_def)
  show "\<exists>v s'. rp_getVictim (Random_policy draw) s cs = Inr (v, s') \<and> v \<in> set cs \<and> True"
    if "draw < length cs" for s cs
    using that by (auto simp: Random_policy_def Random_getVictim_def find_Some_iff check_def
        split: option.splits intro: nth_mem)
qed (simp add: Random_policy_def Random_getVictim_def)

section \<open>Properties\<close>

text \<open>
  C15. LRU is least recently used: after any history of touches, resets and invalidations at
  strictly increasing ticks, starting from data as instantiated, the victim among any candidates
  is the first one without a current touch, and otherwise the one whose last touch is the oldest,
  as kept by a list to whose end every touch moves the entry.
\<close>

theorem LRU_victim_least_recent:
  fixes s0 :: "ent \<Rightarrow> 'a lru_data_scheme"
  assumes "\<And>e. lastTouchTick (s0 e) = 0" and "sorted_wrt (<) (0 # map fst h)" and "cs \<noteq> []"
  shows "\<exists>s. LRU_run h s0 = Inr s \<and>
    LRU_getVictim s cs = Inr (recency_victim (fold recency (map snd h) []) cs, s)"
proof -
  have "lru_rel s0 0 []" using assms(1) by (simp add: lru_rel_def)
  from LRU_run_rel [OF this assms(2)] obtain s now where
    s: "LRU_run h s0 = Inr s" "lru_rel s now (fold recency (map snd h) [])" by blast
  have "rp_getVictim (LRU_policy 0) s cs = Inr (recency_victim (fold recency (map snd h) []) cs, s)"
    by (rule lru.victim_eq [OF assms(3) lru_rel_victim [OF s(2) assms(3)]])
  with s(1) show ?thesis by (auto simp: LRU_policy_def)
qed

theorem LRU_victim_least_recent_witness:
  "\<exists>s. LRU_run [(5, Rp_Reset 1), (6, Rp_Reset 2), (7, Rp_Reset 3), (8, Rp_Touch 1)]
      (\<lambda>_. LRU_instantiateEntry) = Inr s \<and> LRU_getVictim s [1, 2, 3] = Inr (2, s)"
proof -
  have "recency_victim (fold recency (map snd
      [(5 :: tick, Rp_Reset 1), (6, Rp_Reset 2), (7, Rp_Reset 3), (8, Rp_Touch 1)]) []) [1, 2, 3] = 2"
    by (simp add: recency_victim_def)
  with LRU_victim_least_recent [of "\<lambda>_. LRU_instantiateEntry"
      "[(5, Rp_Reset 1), (6, Rp_Reset 2), (7, Rp_Reset 3), (8, Rp_Touch 1)]" "[1, 2, 3]"]
  show ?thesis by (simp add: LRU_instantiateEntry_def)
qed

end
