(* ===== verification/FifoPolicies.thy ===== *)
theory FifoPolicies
  imports RecencyPolicies
begin

text \<open>
  The policies ordered by insertion (\<^verbatim>\<open>mem/cache/replacement_policies/fifo_rp.cc\<close> and
  \<^verbatim>\<open>second_chance_rp.cc\<close>). Insertions are stamped by the policy's own counter \<^verbatim>\<open>timeTicks\<close>, which
  is part of the state; the source does not initialise it, so every statement holds for any start
  value that leaves room for the stamps to come. FIFO is shown to refine a queue, and the second
  chance search the clock algorithm: the first entry of the queue without a second chance, or the
  head of the queue when every candidate has one.
\<close>

record fifo_data =
  tickInserted :: tick

record 'd fifo =
  timeTicks :: tick
  fdata :: "ent \<Rightarrow> 'd"

section \<open>FIFO\<close>

definition FIFO_instantiateEntry :: fifo_data where
  "FIFO_instantiateEntry = \<lparr>tickInserted = 0\<rparr>"

definition FIFO_invalidate :: "'a fifo_data_scheme fifo \<Rightarrow> ent \<Rightarrow> 'a fifo_data_scheme fifo" where
  "FIFO_invalidate s e =
     (let t = timeTicks s + 1
      in s\<lparr>timeTicks := t, fdata := (fdata s)(e := (fdata s e)\<lparr>tickInserted := t\<rparr>)\<rparr>)"

definition FIFO_touch :: "'a fifo_data_scheme fifo \<Rightarrow> ent \<Rightarrow> 'a fifo_data_scheme fifo" where
  "FIFO_touch s e = s"

definition FIFO_reset :: "'a fifo_data_scheme fifo \<Rightarrow> ent \<Rightarrow> 'a fifo_data_scheme fifo" where
  "FIFO_reset s e =
     (let t = timeTicks s + 1
      in s\<lparr>timeTicks := t, fdata := (fdata s)(e := (fdata s e)\<lparr>tickInserted := t\<rparr>)\<rparr>)"

definition FIFO_getVictim ::
    "'a fifo_data_scheme fifo \<Rightarrow> ent list \<Rightarrow> (ent \<times> 'a fifo_data_scheme fifo) outcome" where
  "FIFO_getVictim s candidates =
     check (length candidates > 0) Assert_Failed
       (Inr (victim_scan (\<lambda>c v. tickInserted (fdata s c) < tickInserted (fdata s v))
               candidates (hd candidates), s))"

definition FIFO_policy :: "'a fifo_data_scheme fifo repl_policy" where
  "FIFO_policy =
     \<lparr>rp_invalidate = (\<lambda>s e. Inr (FIFO_invalidate s e)), rp_touch = (\<lambda>s e. Inr (FIFO_touch s e)),
      rp_reset = (\<lambda>s e. Inr (FIFO_reset s e)), rp_getVictim = FIFO_getVictim\<rparr>"

interpretation fifo: ranked_policy FIFO_policy "\<lambda>s e. tickInserted (fdata s e)"
  by (rule ranked_policyI
        [where better = "\<lambda>s c v. tickInserted (fdata s c) < tickInserted (fdata s v)"])
    (simp_all add: FIFO_policy_def FIFO_getVictim_def)

subsection \<open>FIFO is a queue\<close>

definition fifo_queue :: "'a fifo_data_scheme fifo \<Rightarrow> ent list \<Rightarrow> bool" where
  "fifo_queue s q \<longleftrightarrow> distinct q \<and>
     sorted_wrt (\<lambda>a b. tickInserted (fdata s a) < tickInserted (fdata s b)) q \<and>
     (\<forall>e \<in> set q. tickInserted (fdata s e) \<le> timeTicks s)"

text \<open>A reset and an invalidation both move the entry to the end of the queue.\<close>

fun queue_op :: "rp_op \<Rightarrow> ent list \<Rightarrow> ent list" where
  "queue_op (Rp_Invalidate e) q = remove1 e q @ [e]"
| "queue_op (Rp_Touch e) q = q"
| "queue_op (Rp_Reset e) q = remove1 e q @ [e]"

text \<open>The queue of insertions alone.\<close>

fun insertion_op :: "rp_op \<Rightarrow> ent list \<Rightarrow> ent list" where
  "insertion_op (Rp_Reset e) q = remove1 e q @ [e]"
| "insertion_op _ q = q"

lemma insertion_queue: "\<forall>e. Rp_Invalidate e \<notin> set ps \<Longrightarrow> fold queue_op ps q = fold insertion_op ps q"
proof (induction ps arbitrary: q)
  case (Cons p ps)
  then have "queue_op p q = insertion_op p q" by (cases p) auto
  with Cons show ?case by simp
qed simp

lemma word_less_Suc: "unat (w :: 'a::len word) + 1 < 2 ^ LENGTH('a) \<Longrightarrow> unat (w + 1) = unat w + 1"
  using unat_add_lem [of w 1] by simp

lemma fifo_queue_stamp:
  fixes s :: "'a fifo_data_scheme fifo"
  assumes q: "fifo_queue s q" and n: "unat (timeTicks s) + 1 < 2 ^ 64"
  shows "fifo_queue (FIFO_reset s e) (remove1 e q @ [e])"
proof -
  let ?d = "(fdata s)(e := (fdata s e)\<lparr>tickInserted := timeTicks s + 1\<rparr>)"
  have d: "distinct q" and ne: "e \<notin> set (remove1 e q)" using q by (auto simp: fifo_queue_def)
  have t: "timeTicks s < timeTicks s + 1"
    using word_less_Suc [of "timeTicks s"] n by (simp add: word_less_nat_alt)
  have "sorted_wrt (\<lambda>a b. tickInserted (fdata s a) < tickInserted (fdata s b)) (remove1 e q)"
    using q by (simp add: fifo_queue_def sorted_wrt_remove1)
  then have "sorted_wrt (\<lambda>a b. tickInserted (?d a) < tickInserted (?d b)) (remove1 e q)"
    by (simp only: sorted_wrt_upd [OF ne, of tickInserted "fdata s"])
  then show ?thesis using q t d ne
    by (auto simp: fifo_queue_def FIFO_reset_def Let_def sorted_wrt_append
        intro: le_less_trans less_imp_le)
qed

lemma FIFO_invalidate_eq: "FIFO_invalidate s e = FIFO_reset s e"
  by (simp add: FIFO_invalidate_def FIFO_reset_def)

lemma FIFO_timeTicks [simp]: "timeTicks (FIFO_reset s e) = timeTicks s + 1"
  by (simp add: FIFO_reset_def Let_def)

fun FIFO_run :: "rp_op list \<Rightarrow> 'a fifo_data_scheme fifo \<Rightarrow> 'a fifo_data_scheme fifo outcome" where
  "FIFO_run [] s = Inr s"
| "FIFO_run (p # ps) s = obind (rp_apply FIFO_policy p s) (FIFO_run ps)"

lemma FIFO_apply_queue:
  assumes "fifo_queue s q" "unat (timeTicks s) + 1 < 2 ^ 64"
  shows "\<exists>s'. rp_apply FIFO_policy p s = Inr s' \<and> fifo_queue s' (queue_op p q) \<and>
    unat (timeTicks s') \<le> unat (timeTicks s) + 1"
  using assms fifo_queue_stamp [OF assms] word_less_Suc [of "timeTicks s"]
  by (cases p) (auto simp: FIFO_policy_def FIFO_invalidate_eq FIFO_touch_def)

lemma FIFO_run_queue:
  assumes "fifo_queue s q" "unat (timeTicks s) + length ps < 2 ^ 64"
  shows "\<exists>s'. FIFO_run ps s = Inr s' \<and> fifo_queue s' (fold queue_op ps q)"
  using assms
proof (induction ps arbitrary: s q)
  case (Cons p ps)
  obtain t where t: "rp_apply FIFO_policy p s = Inr t" "fifo_queue t (queue_op p q)"
      "unat (timeTicks t) \<le> unat (timeTicks s) + 1"
    using FIFO_apply_queue [OF Cons.prems(1), of p] Cons.prems(2) by auto
  with Cons.IH [OF t(2)] Cons.prems(2) show ?case by simp
qed simp

lemma fifo_queue_victim:
  assumes q: "fifo_queue s q" and "set cs \<subseteq> set q" "cs \<noteq> []"
  shows "first_min (\<lambda>e. tickInserted (fdata s e)) cs (hd (filter (\<lambda>e. e \<in> set cs) q))"
proof -
  let ?q = "filter (\<lambda>e. e \<in> set cs) q"
  have in_q: "e \<in> set ?q" if "e \<in> set cs" for e using assms(2) that by auto
  have ne: "?q \<noteq> []" using in_q [of "hd cs"] assms(3) by (metis hd_in_set empty_iff list.set(1))
  have so: "sorted_wrt (\<lambda>a b. tickInserted (fdata s a) < tickInserted (fdata s b)) ?q"
    using q by (simp add: fifo_queue_def sorted_wrt_filter)
  show ?thesis
  proof (rule first_min_strict)
    show "hd ?q \<in> set cs" using hd_in_set [OF ne] by simp
    show "tickInserted (fdata s (hd ?q)) < tickInserted (fdata s c)" if "c \<in> set cs" "c \<noteq> hd ?q" for c
      using sorted_wrt_hd_less [OF so in_q [OF that(1)] that(2)] .
  qed
qed

lemma FIFO_getVictim_queue:
  assumes "fifo_queue s q" "set cs \<subseteq> set q" "cs \<noteq> []"
  shows "FIFO_getVictim s cs = Inr (hd (filter (\<lambda>e. e \<in> set cs) q), s)"
  using fifo.victim_eq [OF assms(3) fifo_queue_victim [OF assms]] by (simp add: FIFO_policy_def)

text \<open>
  The header documents that an invalidation resets the insertion tick to 0 and makes the entry
  the next probable victim. The code stamps it like an insertion: an invalidated entry is the
  last one to be chosen.
\<close>

lemma FIFO_invalidated_is_last:
  assumes q: "fifo_queue s (e # q)" and n: "unat (timeTicks s) + 1 < 2 ^ 64" and "q \<noteq> []"
  shows "FIFO_getVictim s (e # q) = Inr (e, s)"
    and "FIFO_getVictim (FIFO_invalidate s e) (e # q) = Inr (hd q, FIFO_invalidate s e)"
proof -
  show "FIFO_getVictim s (e # q) = Inr (e, s)"
    using FIFO_getVictim_queue [OF q, of "e # q"] by simp
  have "fifo_queue (FIFO_invalidate s e) (q @ [e])"
    using fifo_queue_stamp [OF q n, of e] by (simp add: FIFO_invalidate_eq)
  moreover have "filter (\<lambda>x. x = e \<or> x \<in> set q) q = q" by (simp add: filter_id_conv)
  ultimately show "FIFO_getVictim (FIFO_invalidate s e) (e # q) = Inr (hd q, FIFO_invalidate s e)"
    using FIFO_getVictim_queue [of "FIFO_invalidate s e" "q @ [e]" "e # q"] \<open>q \<noteq> []\<close>
    by (simp add: hd_append)
qed

section \<open>Second chance\<close>

record second_chance_data = fifo_data +
  hasSecondChance :: bool

type_synonym second_chance = "second_chance_data fifo"

definition SecondChance_instantiateEntry :: second_chance_data where
  "SecondChance_instantiateEntry = \<lparr>tickInserted = 0, hasSecondChance = False\<rparr>"

definition set_chance :: "bool \<Rightarrow> second_chance \<Rightarrow> ent \<Rightarrow> second_chance" where
  "set_chance b s e = s\<lparr>fdata := (fdata s)(e := (fdata s e)\<lparr>hasSecondChance := b\<rparr>)\<rparr>"

definition useSecondChance :: "second_chance \<Rightarrow> ent \<Rightarrow> second_chance" where
  "useSecondChance s e = set_chance False (FIFO_reset s e) e"

definition SecondChance_invalidate :: "second_chance \<Rightarrow> ent \<Rightarrow> second_chance" where
  "SecondChance_invalidate s e = set_chance False (FIFO_invalidate s e) e"

definition SecondChance_touch :: "second_chance \<Rightarrow> ent \<Rightarrow> second_chance" where
  "SecondChance_touch s e = set_chance True (FIFO_touch s e) e"

definition SecondChance_reset :: "second_chance \<Rightarrow> ent \<Rightarrow> second_chance" where
  "SecondChance_reset s e = set_chance False (FIFO_reset s e) e"

abbreviation chance :: "second_chance \<Rightarrow> ent \<Rightarrow> bool" where
  "chance s e \<equiv> hasSecondChance (fdata s e)"

lemma useSecondChance_chance [simp]:
  "chance (useSecondChance s v) e \<longleftrightarrow> e \<noteq> v \<and> chance s e"
  by (simp add: useSecondChance_def set_chance_def FIFO_reset_def Let_def)

lemma FIFO_getVictim_mem: "FIFO_getVictim s cs = Inr (v, s') \<Longrightarrow> v \<in> set cs \<and> s' = s"
  using fifo.least [of cs s] fifo.none [of s] first_min_mem
  by (cases "cs = []") (fastforce simp: FIFO_policy_def)+

function second_chance_search :: "second_chance \<Rightarrow> ent list \<Rightarrow> (ent \<times> second_chance) outcome" where
  "second_chance_search s candidates =
     obind (FIFO_getVictim s candidates) (\<lambda>(victim, _).
       if chance s victim then second_chance_search (useSecondChance s victim) candidates
       else Inr (victim, s))"
  by auto
termination
proof (relation "measure (\<lambda>(s, cs). length (filter (chance s) cs))")
  fix s :: second_chance and cs v s' x
  assume "FIFO_getVictim s cs = Inr x" "(v, s') = x" and c: "chance s v"
  then have v: "v \<in> set cs" using FIFO_getVictim_mem by blast
  have "length (filter (chance (useSecondChance s v)) cs) < length (filter (chance s) cs)"
    unfolding length_filter_conv_card
    using v c by (intro psubset_card_mono) (auto simp: in_set_conv_nth)
  then show "((useSecondChance s v, cs), s, cs) \<in> measure (\<lambda>(s, cs). length (filter (chance s) cs))"
    by simp
qed simp

declare second_chance_search.simps [simp del]

definition SecondChance_getVictim ::
    "second_chance \<Rightarrow> ent list \<Rightarrow> (ent \<times> second_chance) outcome" where
  "SecondChance_getVictim s candidates =
     check (length candidates > 0) Assert_Failed
       (case List.find (\<lambda>c. tickInserted (fdata s c) = 0 \<and> \<not> chance s c) candidates of
          Some candidate \<Rightarrow> Inr (candidate, s)
        | None \<Rightarrow> second_chance_search s candidates)"

definition SecondChance_policy :: "second_chance repl_policy" where
  "SecondChance_policy =
     \<lparr>rp_invalidate = (\<lambda>s e. Inr (SecondChance_invalidate s e)),
      rp_touch = (\<lambda>s e. Inr (SecondChance_touch s e)),
      rp_reset = (\<lambda>s e. Inr (SecondChance_reset s e)),
      rp_getVictim = SecondChance_getVictim\<rparr>"

lemma second_chance_search_total:
  "cs \<noteq> [] \<Longrightarrow> \<exists>v s'. second_chance_search s cs = Inr (v, s') \<and> v \<in> set cs \<and> \<not> chance s' v"
proof (induction s cs rule: second_chance_search.induct)
  case (1 s cs)
  obtain v where v: "FIFO_getVictim s cs = Inr (v, s)" "v \<in> set cs"
    using fifo.least [OF "1.prems", of s] first_min_mem by (fastforce simp: FIFO_policy_def)
  show ?case
  proof (cases "chance s v")
    case True
    with 1 v show ?thesis by (subst second_chance_search.simps) simp
  next
    case False
    with v show ?thesis by (subst second_chance_search.simps) simp
  qed
qed

interpretation second_chance: replacement_policy SecondChance_policy "\<lambda>_. True" UNIV "\<lambda>cs. cs \<noteq> []"
proof
  show "\<exists>s'. rp_apply SecondChance_policy p s = Inr s' \<and> True" for s p
    by (cases p) (simp_all add: SecondChance_policy_def)
  show "\<exists>v s'. rp_getVictim SecondChance_policy s cs = Inr (v, s') \<and> v \<in> set cs \<and> True"
    if "cs \<noteq> []" for s cs
    using second_chance_search_total [OF that, of s] that
    by (auto simp: SecondChance_policy_def SecondChance_getVictim_def find_Some_iff
        split: option.splits)
qed (simp add: SecondChance_policy_def SecondChance_getVictim_def)

lemma second_chance_search_unfold:
  assumes "fifo_queue s q" "set cs = set q" "q \<noteq> []"
  shows "second_chance_search s cs =
    (if chance s (hd q) then second_chance_search (useSecondChance s (hd q)) cs else Inr (hd q, s))"
proof -
  have "cs \<noteq> []" using assms(2,3) by auto
  moreover have "filter (\<lambda>e. e \<in> set cs) q = q" using assms(2) by (simp add: filter_id_conv)
  ultimately have "FIFO_getVictim s cs = Inr (hd q, s)"
    using FIFO_getVictim_queue [OF assms(1), of cs] assms(2) by simp
  then show ?thesis by (subst second_chance_search.simps) simp
qed

lemma useSecondChance_queue:
  assumes "fifo_queue s (v # q)" "unat (timeTicks s) + 1 < 2 ^ 64"
  shows "fifo_queue (useSecondChance s v) (q @ [v])"
proof -
  have t: "tickInserted (fdata (set_chance b r e) x) = tickInserted (fdata r x)" for b r e x
    by (simp add: set_chance_def)
  have u: "timeTicks (set_chance b r e) = timeTicks r" for b r e by (simp add: set_chance_def)
  have "fifo_queue (FIFO_reset s v) (q @ [v])" using fifo_queue_stamp [OF assms, of v] by simp
  then show ?thesis by (simp add: useSecondChance_def fifo_queue_def t u)
qed

lemma useSecondChance_timeTicks [simp]: "timeTicks (useSecondChance s v) = timeTicks s + 1"
  by (simp add: useSecondChance_def set_chance_def)

text \<open>The clock: the entries that had a second chance before the victim lose it.\<close>

definition clock_victim :: "second_chance \<Rightarrow> ent list \<Rightarrow> ent" where
  "clock_victim s q = (case List.find (\<lambda>e. \<not> chance s e) q of Some v \<Rightarrow> v | None \<Rightarrow> hd q)"

lemma useSecondChance_clock:
  assumes "v \<notin> set q" "chance s v"
  shows "clock_victim (useSecondChance s v) (q @ [v]) = clock_victim s (v # q)"
    and "takeWhile (chance (useSecondChance s v)) (q @ [v]) = takeWhile (chance s) q"
    and "length (filter (chance s) (v # q)) = Suc (length (filter (chance (useSecondChance s v)) (q @ [v])))"
proof -
  have eq: "chance (useSecondChance s v) e = chance s e" if "e \<in> set q" for e using assms that by auto
  have "List.find (\<lambda>e. \<not> chance (useSecondChance s v) e) q = List.find (\<lambda>e. \<not> chance s e) q"
    using eq by (intro find_cong) auto
  moreover have "List.find P (q @ [v]) = (case List.find P q of None \<Rightarrow> (if P v then Some v else None) | Some x \<Rightarrow> Some x)"
    for P by (induction q) auto
  ultimately show "clock_victim (useSecondChance s v) (q @ [v]) = clock_victim s (v # q)"
    using assms(2) by (simp add: clock_victim_def split: option.splits)
  have "takeWhile (chance (useSecondChance s v)) q = takeWhile (chance s) q"
    using eq by (intro takeWhile_cong) auto
  moreover have "\<not> P v \<Longrightarrow> takeWhile P (q @ [v]) = takeWhile P q" for P by (induction q) auto
  ultimately show "takeWhile (chance (useSecondChance s v)) (q @ [v]) = takeWhile (chance s) q" by simp
  have "filter (chance (useSecondChance s v)) q = filter (chance s) q"
    using eq by (intro filter_cong) auto
  with assms(2) show "length (filter (chance s) (v # q)) =
      Suc (length (filter (chance (useSecondChance s v)) (q @ [v])))" by simp
qed

lemma second_chance_search_clock:
  assumes "fifo_queue s q" "set cs = set q" "q \<noteq> []"
    and "unat (timeTicks s) + length (filter (chance s) q) < 2 ^ 64"
  shows "\<exists>s'. second_chance_search s cs = Inr (clock_victim s q, s') \<and>
    (\<forall>e. chance s' e \<longleftrightarrow> chance s e \<and> e \<notin> set (takeWhile (chance s) q))"
  using assms
proof (induction "length (filter (chance s) q)" arbitrary: s q rule: less_induct)
  case less
  obtain v r where q: "q = v # r" using less.prems(3) by (cases q) auto
  have u: "second_chance_search s cs =
      (if chance s v then second_chance_search (useSecondChance s v) cs else Inr (v, s))"
    using second_chance_search_unfold [OF less.prems(1-3)] q by simp
  show ?case
  proof (cases "chance s v")
    case True
    have nv: "v \<notin> set r" using less.prems(1) q by (simp add: fifo_queue_def)
    note c = useSecondChance_clock [OF nv True]
    have n: "unat (timeTicks s) + 1 < 2 ^ 64" using less.prems(4) q True by simp
    have q': "fifo_queue (useSecondChance s v) (r @ [v])"
      using useSecondChance_queue [of s v r] less.prems(1) q n by simp
    have ih: "\<exists>s'. second_chance_search (useSecondChance s v) cs =
        Inr (clock_victim (useSecondChance s v) (r @ [v]), s') \<and>
      (\<forall>e. chance s' e \<longleftrightarrow> chance (useSecondChance s v) e \<and>
        e \<notin> set (takeWhile (chance (useSecondChance s v)) (r @ [v])))"
      using less.prems q c(3) word_less_Suc [of "timeTicks s"] n
      by (intro less.hyps [OF _ q']) auto
    show ?thesis using ih u True c(1,2) by (auto simp: q)
  next
    case False
    with u q show ?thesis by (auto simp: clock_victim_def)
  qed
qed

section \<open>Properties\<close>

text \<open>
  C37. FIFO is first in, first out: after any sequence of insertions (\<^verbatim>\<open>reset\<close>) and touches that
  does not exhaust the stamp counter, the victim among candidates that have all been inserted is the
  one inserted first, where an entry inserted again counts from its last insertion and a touch
  changes nothing. Invalidations are left out here: the code lets them count as insertions, against
  the documentation, see \<open>FIFO_invalidated_is_last\<close>.
\<close>

theorem FIFO_refines_queue:
  fixes s :: "'a fifo_data_scheme fifo"
  assumes "fifo_queue s q" "unat (timeTicks s) + length ps < 2 ^ 64" "\<forall>e. Rp_Invalidate e \<notin> set ps"
    and "set cs \<subseteq> set (fold insertion_op ps q)" "cs \<noteq> []"
  shows "\<exists>s'. FIFO_run ps s = Inr s' \<and> fifo_queue s' (fold insertion_op ps q) \<and>
    FIFO_getVictim s' cs = Inr (hd (filter (\<lambda>e. e \<in> set cs) (fold insertion_op ps q)), s')"
proof -
  note ins = insertion_queue [OF assms(3), of q]
  obtain s' where "FIFO_run ps s = Inr s'" "fifo_queue s' (fold insertion_op ps q)"
    using FIFO_run_queue [OF assms(1,2)] ins by auto
  with FIFO_getVictim_queue [OF this(2) assms(4,5)] show ?thesis by blast
qed

theorem FIFO_refines_queue_witness:
  "\<exists>s'. FIFO_run [Rp_Reset 1, Rp_Reset 2, Rp_Reset 3, Rp_Touch 2, Rp_Reset 1]
      \<lparr>timeTicks = 0, fdata = \<lambda>_. FIFO_instantiateEntry\<rparr> = Inr s' \<and>
    FIFO_getVictim s' [1, 2, 3] = Inr (2, s')"
  using FIFO_refines_queue [of "\<lparr>timeTicks = 0, fdata = \<lambda>_. FIFO_instantiateEntry\<rparr>" "[]"
      "[Rp_Reset 1, Rp_Reset 2, Rp_Reset 3, Rp_Touch 2, Rp_Reset 1]" "[1, 2, 3]"]
  by (auto simp: fifo_queue_def)

text \<open>
  The second chance search ends for every state and implements the clock algorithm: on
  candidates that are all inserted, it returns the first one in insertion order that has no second
  chance, or the first one when all have one, and exactly the candidates it passed over lose their
  second chance.
\<close>

theorem SecondChance_clock:
  assumes "fifo_queue s q" "set cs = set q" "q \<noteq> []"
    and "unat (timeTicks s) + length (filter (chance s) q) < 2 ^ 64"
    and "\<forall>e \<in> set q. tickInserted (fdata s e) \<noteq> 0"
  shows "\<exists>s'. SecondChance_getVictim s cs = Inr (clock_victim s q, s') \<and>
    (\<forall>e. chance s' e \<longleftrightarrow> chance s e \<and> e \<notin> set (takeWhile (chance s) q))"
proof -
  have "cs \<noteq> []" using assms(2,3) by auto
  moreover have "List.find (\<lambda>c. tickInserted (fdata s c) = 0 \<and> \<not> chance s c) cs = None"
    using assms(2,5) by (auto simp: find_None_iff)
  ultimately have "SecondChance_getVictim s cs = second_chance_search s cs"
    by (simp add: SecondChance_getVictim_def)
  with second_chance_search_clock [OF assms(1-4)] show ?thesis by simp
qed

definition demo_chance :: second_chance where
  "demo_chance = \<lparr>timeTicks = 3, fdata = (\<lambda>_. SecondChance_instantiateEntry)
     (1 := \<lparr>tickInserted = 1, hasSecondChance = True\<rparr>,
      2 := \<lparr>tickInserted = 3, hasSecondChance = False\<rparr>,
      3 := \<lparr>tickInserted = 2, hasSecondChance = True\<rparr>)\<rparr>"

theorem SecondChance_clock_witness:
  "\<exists>s'. SecondChance_getVictim demo_chance [1, 2, 3] = Inr (2, s') \<and> \<not> chance s' 1 \<and> \<not> chance s' 3"
proof -
  have "fifo_queue demo_chance [1, 3, 2]" "clock_victim demo_chance [1, 3, 2] = 2"
    "\<forall>e \<in> set [1, 3, 2]. tickInserted (fdata demo_chance e) \<noteq> 0"
    "unat (timeTicks demo_chance) + length (filter (chance demo_chance) [1, 3, 2]) < 2 ^ 64"
    by (simp_all add: fifo_queue_def demo_chance_def clock_victim_def)
  from SecondChance_clock [OF this(1) _ _ this(4,3), of "[1, 2, 3]"] this(2)
  show ?thesis by (auto simp: demo_chance_def)
qed

end
