(* ===== verification/RripPolicies.thy ===== *)
theory RripPolicies
  imports FifoPolicies
begin

text \<open>
  Re-reference interval prediction (\<^verbatim>\<open>mem/cache/replacement_policies/brrip_rp.cc\<close>) and the
  signature-based hit predictor on top of it (\<^verbatim>\<open>ship_rp.cc\<close>). The prediction values are
  saturating counters of eight bits, and the parameters of the policies a record. The victim
  search of BRRIP is shown to return the first invalid candidate, or else the first of greatest
  prediction value, and then to age all candidates by the same amount, so that their order stays.
\<close>

section \<open>BRRIP\<close>

record brrip_params =
  numRRPVBits :: u32
  hitPriority :: bool
  btp :: u32

record brrip_data =
  rrpv :: "8 sat_counter"
  br_valid :: bool

definition BRRIP :: "brrip_params \<Rightarrow> brrip_params outcome" where
  "BRRIP p = check (numRRPVBits p > 0) Fatal (Inr p)"

definition BRRIP_instantiateEntry :: "brrip_params \<Rightarrow> brrip_data outcome" where
  "BRRIP_instantiateEntry p =
     obind (GenericSatCounter (unat (numRRPVBits p)) 0) (\<lambda>c. Inr \<lparr>rrpv = c, br_valid = False\<rparr>)"

definition BRRIP_invalidate ::
    "(ent \<Rightarrow> 'a brrip_data_scheme) \<Rightarrow> ent \<Rightarrow> (ent \<Rightarrow> 'a brrip_data_scheme)" where
  "BRRIP_invalidate s e = s(e := (s e)\<lparr>br_valid := False\<rparr>)"

definition BRRIP_touch ::
    "brrip_params \<Rightarrow> (ent \<Rightarrow> 'a brrip_data_scheme) \<Rightarrow> ent \<Rightarrow> (ent \<Rightarrow> 'a brrip_data_scheme)" where
  "BRRIP_touch p s e =
     (if hitPriority p then s(e := (s e)\<lparr>rrpv := sc_reset (rrpv (s e))\<rparr>)
      else s(e := (s e)\<lparr>rrpv := snd (sc_post_dec (rrpv (s e)))\<rparr>))"

definition BRRIP_reset ::
    "brrip_params \<Rightarrow> u32 \<Rightarrow> (ent \<Rightarrow> 'a brrip_data_scheme) \<Rightarrow> ent \<Rightarrow> (ent \<Rightarrow> 'a brrip_data_scheme)" where
  "BRRIP_reset p draw s e =
     (let s1 = s(e := (s e)\<lparr>rrpv := snd (saturate (rrpv (s e)))\<rparr>);
          s2 = (if draw \<le> btp p then s1(e := (s1 e)\<lparr>rrpv := snd (sc_post_dec (rrpv (s1 e)))\<rparr>) else s1)
      in s2(e := (s2 e)\<lparr>br_valid := True\<rparr>))"

text \<open>The search loop; \<open>Inl\<close> is the early return of an invalid candidate.\<close>

fun BRRIP_scan :: "(ent \<Rightarrow> 'a brrip_data_scheme) \<Rightarrow> ent list \<Rightarrow> ent \<Rightarrow> int \<Rightarrow> ent + ent" where
  "BRRIP_scan s [] victim victim_RRPV = Inr victim"
| "BRRIP_scan s (candidate # cs) victim victim_RRPV =
     (if \<not> br_valid (s candidate) then Inl candidate
      else if uint (counter (rrpv (s candidate))) > victim_RRPV
      then BRRIP_scan s cs candidate (uint (counter (rrpv (s candidate))))
      else BRRIP_scan s cs victim victim_RRPV)"

text \<open>The difference is not negative, so that \<^verbatim>\<open>+=\<close> takes its first branch.\<close>

definition add_rrpv ::
    "int \<Rightarrow> ent \<Rightarrow> (ent \<Rightarrow> 'a brrip_data_scheme) \<Rightarrow> (ent \<Rightarrow> 'a brrip_data_scheme)" where
  "add_rrpv diff c s = s(c := (s c)\<lparr>rrpv := sc_add_pos (rrpv (s c)) diff\<rparr>)"

definition BRRIP_getVictim :: "(ent \<Rightarrow> 'a brrip_data_scheme) \<Rightarrow> ent list \<Rightarrow>
    (ent \<times> (ent \<Rightarrow> 'a brrip_data_scheme)) outcome" where
  "BRRIP_getVictim s candidates =
     check (length candidates > 0) Assert_Failed
       (let victim = hd candidates in
        case BRRIP_scan s candidates victim (uint (counter (rrpv (s victim)))) of
          Inl candidate \<Rightarrow> Inr (candidate, s)
        | Inr victim \<Rightarrow>
            (let (d, c) = saturate (rrpv (s victim));
                 diff = uint d;
                 s1 = s(victim := (s victim)\<lparr>rrpv := c\<rparr>)
             in Inr (victim, if diff > 0 then fold (add_rrpv diff) candidates s1 else s1)))"

definition BRRIP_policy :: "brrip_params \<Rightarrow> u32 \<Rightarrow> (ent \<Rightarrow> 'a brrip_data_scheme) repl_policy" where
  "BRRIP_policy p draw =
     \<lparr>rp_invalidate = (\<lambda>s e. Inr (BRRIP_invalidate s e)),
      rp_touch = (\<lambda>s e. Inr (BRRIP_touch p s e)),
      rp_reset = (\<lambda>s e. Inr (BRRIP_reset p draw s e)),
      rp_getVictim = BRRIP_getVictim\<rparr>"

text \<open>Every prediction value is within the bounds of the counters of the policy.\<close>

definition rrpv_ok :: "u8 \<Rightarrow> (ent \<Rightarrow> 'a brrip_data_scheme) \<Rightarrow> bool" where
  "rrpv_ok m s \<longleftrightarrow> (\<forall>e. sat_wf (rrpv (s e)) \<and> maxVal (rrpv (s e)) = m)"

lemma sat_wf_rel: "sat_rel m i c v \<Longrightarrow> sat_wf c \<and> unat (maxVal c) = m \<and> unat (counter c) = v"
  by (simp add: sat_rel_def sat_wf_def word_le_nat_alt)

lemma sat_wf_ops [simp]:
  assumes "sat_wf c"
  shows "sat_wf (sc_reset c)" "sat_wf (sc_dec c)" "sat_wf (sc_inc c)" "sat_wf (snd (saturate c))"
    and "0 \<le> x \<Longrightarrow> sat_wf (sc_add_pos c x)"
proof -
  note r = assms [unfolded sat_rel_wf]
  have "\<exists>c'. sat_apply p c = Inr c' \<and> sat_wf c'" if "sat_op_ok LENGTH('a) p (unat (counter c))" for p
    using sat_apply_rel [OF r that] sat_wf_rel by blast
  from this [of Op_Reset] this [of Op_Dec] this [of Op_Inc] this [of Op_Saturate]
  show "sat_wf (sc_reset c)" "sat_wf (sc_dec c)" "sat_wf (sc_inc c)" "sat_wf (snd (saturate c))"
    by simp_all
  show "sat_wf (sc_add_pos c x)" if "0 \<le> x" using sc_add_pos_rel [OF r that] sat_wf_rel by blast
qed

lemma maxVal_ops [simp]:
  "maxVal (sc_reset c) = maxVal c" "maxVal (sc_dec c) = maxVal c" "maxVal (sc_inc c) = maxVal c"
  "maxVal (snd (saturate c)) = maxVal c" "maxVal (sc_add_pos c x) = maxVal c"
  by (simp_all add: sc_reset_def sc_dec_def sc_inc_def saturate_def sc_add_pos_def)

lemma BRRIP_scan_Inl:
  "BRRIP_scan s cs v k = Inl c \<longleftrightarrow> List.find (\<lambda>e. \<not> br_valid (s e)) cs = Some c"
  by (induction cs arbitrary: v k) auto

lemma BRRIP_scan_valid:
  "List.find (\<lambda>e. \<not> br_valid (s e)) cs = None \<Longrightarrow> k = uint (counter (rrpv (s v))) \<Longrightarrow>
    BRRIP_scan s cs v k =
      Inr (victim_scan (\<lambda>c v. - uint (counter (rrpv (s c))) < - uint (counter (rrpv (s v)))) cs v)"
  by (induction cs arbitrary: v k) (auto split: if_splits)

lemma fold_upd_distinct:
  "distinct cs \<Longrightarrow> fold (\<lambda>c s. s(c := f (s c))) cs s = (\<lambda>e. if e \<in> set cs then f (s e) else s e)"
  by (induction cs arbitrary: s) auto

lemma fold_add_rrpv:
  "distinct cs \<Longrightarrow> fold (add_rrpv diff) cs s =
    (\<lambda>e. if e \<in> set cs then (s e)\<lparr>rrpv := sc_add_pos (rrpv (s e)) diff\<rparr> else s e)"
  unfolding add_rrpv_def [abs_def]
  by (rule fold_upd_distinct [where f = "\<lambda>d. d\<lparr>rrpv := sc_add_pos (rrpv d) diff\<rparr>"])

lemma fold_add_rrpv_ok: "rrpv_ok m s \<Longrightarrow> 0 \<le> diff \<Longrightarrow> rrpv_ok m (fold (add_rrpv diff) cs s)"
  by (induction cs arbitrary: s) (auto simp: add_rrpv_def rrpv_ok_def)

lemma BRRIP_getVictim_ok:
  assumes "rrpv_ok m s" "cs \<noteq> []"
  shows "\<exists>v s'. BRRIP_getVictim s cs = Inr (v, s') \<and> v \<in> set cs \<and> rrpv_ok m s'"
proof (cases "List.find (\<lambda>e. \<not> br_valid (s e)) cs")
  case None
  let ?v = "victim_scan (\<lambda>c v. - uint (counter (rrpv (s c))) < - uint (counter (rrpv (s v)))) cs (hd cs)"
  have v: "?v \<in> set cs"
    by (rule first_min_mem [OF victim_scan_first_min [OF assms(2), of "\<lambda>e. - uint (counter (rrpv (s e)))"]])
  have "rrpv_ok m (s(?v := (s ?v)\<lparr>rrpv := snd (saturate (rrpv (s ?v)))\<rparr>))"
    using assms(1) by (simp add: rrpv_ok_def)
  with fold_add_rrpv_ok [OF this] v show ?thesis
    using BRRIP_scan_valid [OF None refl, of "hd cs"] assms(2)
    by (simp add: BRRIP_getVictim_def Let_def split_beta)
next
  case (Some c)
  then have "BRRIP_scan s cs (hd cs) (uint (counter (rrpv (s (hd cs))))) = Inl c"
    by (simp add: BRRIP_scan_Inl)
  moreover have "c \<in> set cs" using Some by (auto simp: find_Some_iff)
  ultimately show ?thesis using assms by (simp add: BRRIP_getVictim_def)
qed

interpretation brrip: replacement_policy "BRRIP_policy p draw" "rrpv_ok m" UNIV "\<lambda>cs. cs \<noteq> []" for p draw m
proof
  show "\<exists>s'. rp_apply (BRRIP_policy p draw) q s = Inr s' \<and> rrpv_ok m s'" if "rrpv_ok m s" for s q
    using that by (cases q)
      (auto simp: BRRIP_policy_def rrpv_ok_def BRRIP_invalidate_def BRRIP_touch_def BRRIP_reset_def
        sc_post_dec_def Let_def)
qed (simp_all add: BRRIP_policy_def BRRIP_getVictim_ok, simp add: BRRIP_getVictim_def)

lemma sc_add_value:
  assumes "sat_wf c"
  shows "unat (counter (sc_add_pos c (int k))) = min (unat (maxVal c)) (unat (counter c) + k)"
proof -
  have n: "nat (min (int m) (int v + int k)) = min m (v + k)" for m v :: nat by linarith
  show ?thesis
    using sc_add_pos_rel [OF assms [unfolded sat_rel_wf], of "int k", unfolded n]
    by (simp only: sat_rel_def of_nat_0_le_iff)
qed

lemma BRRIP_aged_value:
  assumes ok: "rrpv_ok m s" and d: "distinct cs" and le: "\<And>c. c \<in> set cs \<Longrightarrow> counter (rrpv (s c)) \<le> counter (rrpv (s v))"
  defines "s1 \<equiv> s(v := (s v)\<lparr>rrpv := snd (saturate (rrpv (s v)))\<rparr>)"
  defines "diff \<equiv> uint (fst (saturate (rrpv (s v))))"
  assumes v: "v \<in> set cs"
  shows "unat (counter (rrpv ((if diff > 0 then fold (add_rrpv diff) cs s1 else s1) e))) =
    unat (counter (rrpv (s e))) + (if e \<in> set cs then unat m - unat (counter (rrpv (s v))) else 0)"
proof -
  let ?c = "\<lambda>e. unat (counter (rrpv (s e)))"
  have m: "maxVal (rrpv (s e)) = m" "sat_wf (rrpv (s e))" for e using ok by (auto simp: rrpv_ok_def)
  have b: "?c e \<le> unat m" for e using m [of e] by (simp add: sat_wf_def word_le_nat_alt)
  have dv: "diff = int (unat m - ?c v)"
    using unat_sub [of "counter (rrpv (s v))" m] b [of v]
    unfolding diff_def uint_nat by (simp only: saturate_def m(1) Let_def fst_conv word_le_nat_alt)
  have s1: "unat (counter (rrpv (s1 e))) = (if e = v then unat m else ?c e)"
      "sat_wf (rrpv (s1 e))" "maxVal (rrpv (s1 e)) = m" for e
    using m by (auto simp: s1_def saturate_def Let_def sat_wf_ops(4) [unfolded saturate_def])
      (simp add: sat_wf_def)
  show ?thesis
  proof (cases "diff > 0")
    case True
    have "unat (counter (sc_add_pos (rrpv (s1 e)) diff)) = ?c e + (unat m - ?c v)" if "e \<in> set cs"
    proof -
      have "?c e \<le> ?c v" using le [OF that] by (simp only: word_le_nat_alt)
      with b [of v] show ?thesis
        unfolding dv sc_add_value [OF s1(2)] s1(1,3) by (cases "e = v"; simp add: min_def; arith)
    qed
    with True v s1(1) [of e] show ?thesis by (auto simp: fold_add_rrpv [OF d])
  next
    case False
    then have "unat m \<le> ?c v" using dv by simp
    with False s1(1) [of e] b [of v] v show ?thesis by auto
  qed
qed

section \<open>SHiP\<close>

record ship_params = brrip_params +
  insertion_threshold :: u32
  shct_size :: u64

record ship_data = brrip_data +
  signature :: u64
  was_outcome :: bool

record ship =
  SHCT :: "8 sat_counter list"
  sdata :: "ent \<Rightarrow> ship_data"

definition SHiP :: "ship_params \<Rightarrow> (ent \<Rightarrow> ship_data) \<Rightarrow> ship outcome" where
  "SHiP p d =
     check (numRRPVBits p > 0) Fatal
       (obind (GenericSatCounter (unat (numRRPVBits p)) 0) (\<lambda>c.
         Inr \<lparr>SHCT = replicate (unat (shct_size p)) c, sdata = d\<rparr>))"

definition SHiP_instantiateEntry :: "ship_params \<Rightarrow> ship_data outcome" where
  "SHiP_instantiateEntry p =
     obind (GenericSatCounter (unat (numRRPVBits p)) 0) (\<lambda>c.
       Inr \<lparr>rrpv = c, br_valid = False, signature = 0, was_outcome = False\<rparr>)"

definition insertionThreshold :: "ship_params \<Rightarrow> rat" where
  "insertionThreshold p = rat_of_nat (unat (insertion_threshold p)) / 100"

definition setSignature :: "ship_data \<Rightarrow> u64 \<Rightarrow> ship_data" where
  "setSignature d new_signature = d\<lparr>signature := new_signature, was_outcome := False\<rparr>"

definition setReReferenced :: "ship_data \<Rightarrow> ship_data" where
  "setReReferenced d = d\<lparr>was_outcome := True\<rparr>"

definition wasReReferenced :: "ship_data \<Rightarrow> bool" where
  "wasReReferenced d = was_outcome d"

definition shct_update :: "(8 sat_counter \<Rightarrow> 8 sat_counter) \<Rightarrow> u64 \<Rightarrow> ship \<Rightarrow> ship outcome" where
  "shct_update f i s =
     check (unat i < length (SHCT s)) Undefined
       (Inr (s\<lparr>SHCT := (SHCT s)[unat i := f (SHCT s ! unat i)]\<rparr>))"

definition SHiPMem_getSignature :: "addr \<Rightarrow> ship \<Rightarrow> u64 outcome" where
  "SHiPMem_getSignature pkt_addr s =
     check (SHCT s \<noteq> []) Undefined (Inr (pkt_addr mod of_nat (length (SHCT s))))"

definition SHiPPC_getSignature :: "addr option \<Rightarrow> ship \<Rightarrow> u64 outcome" where
  "SHiPPC_getSignature pkt_pc s =
     (let sig = (case pkt_pc of Some pc \<Rightarrow> pc | None \<Rightarrow> 0)
      in check (SHCT s \<noteq> []) Undefined (Inr (sig mod of_nat (length (SHCT s)))))"

definition SHiP_invalidate :: "ship \<Rightarrow> ent \<Rightarrow> ship outcome" where
  "SHiP_invalidate s e =
     obind (if wasReReferenced (sdata s e)
            then shct_update (\<lambda>c. snd (sc_post_dec c)) (signature (sdata s e)) s else Inr s) (\<lambda>s1.
       Inr (s1\<lparr>sdata := BRRIP_invalidate (sdata s1) e\<rparr>))"

definition SHiP_touch ::
    "ship_params \<Rightarrow> (ship \<Rightarrow> u64 outcome) \<Rightarrow> ship \<Rightarrow> ent \<Rightarrow> ship outcome" where
  "SHiP_touch p getSignature s e =
     obind (getSignature s) (\<lambda>sig.
       obind (shct_update (\<lambda>c. snd (sc_post_inc c)) sig s) (\<lambda>s1.
         let s2 = s1\<lparr>sdata := (sdata s1)(e := setReReferenced (sdata s1 e))\<rparr>
         in Inr (s2\<lparr>sdata := BRRIP_touch (brrip_params.truncate p) (sdata s2) e\<rparr>)))"

definition SHiP_reset ::
    "ship_params \<Rightarrow> (ship \<Rightarrow> u64 outcome) \<Rightarrow> u32 \<Rightarrow> ship \<Rightarrow> ent \<Rightarrow> ship outcome" where
  "SHiP_reset p getSignature draw s e =
     obind (getSignature s) (\<lambda>sig.
       let s1 = s\<lparr>sdata := (sdata s)(e := setSignature (sdata s e) sig)\<rparr>;
           s2 = s1\<lparr>sdata := BRRIP_reset (brrip_params.truncate p) draw (sdata s1) e\<rparr>
       in check (unat sig < length (SHCT s2)) Undefined
            (case calcSaturation (SHCT s2 ! unat sig) of
               None \<Rightarrow> Inr s2
             | Some r \<Rightarrow>
                 if r \<ge> insertionThreshold p
                 then Inr (s2\<lparr>sdata := (sdata s2)(e := (sdata s2 e)\<lparr>rrpv :=
                             snd (sc_post_dec (rrpv (sdata s2 e)))\<rparr>)\<rparr>)
                 else Inr s2))"

text \<open>Without the packet there is no signature.\<close>

definition SHiP_touch_nopkt :: "ship \<Rightarrow> ent \<Rightarrow> ship outcome" where
  "SHiP_touch_nopkt s e = Inl Panic"

definition SHiP_reset_nopkt :: "ship \<Rightarrow> ent \<Rightarrow> ship outcome" where
  "SHiP_reset_nopkt s e = Inl Panic"

definition SHiP_getVictim :: "ship \<Rightarrow> ent list \<Rightarrow> (ent \<times> ship) outcome" where
  "SHiP_getVictim s cs =
     obind (BRRIP_getVictim (sdata s) cs) (\<lambda>(v, d). Inr (v, s\<lparr>sdata := d\<rparr>))"

definition SHiP_policy ::
    "ship_params \<Rightarrow> (ship \<Rightarrow> u64 outcome) \<Rightarrow> u32 \<Rightarrow> ship repl_policy" where
  "SHiP_policy p getSignature draw =
     \<lparr>rp_invalidate = SHiP_invalidate, rp_touch = SHiP_touch p getSignature,
      rp_reset = SHiP_reset p getSignature draw, rp_getVictim = SHiP_getVictim\<rparr>"

subsection \<open>The predictor stays within its table\<close>

definition ship_ok :: "u8 \<Rightarrow> nat \<Rightarrow> ship \<Rightarrow> bool" where
  "ship_ok m n s \<longleftrightarrow> length (SHCT s) = n \<and> 0 < n \<and> n < 2 ^ 64 \<and>
     (\<forall>c \<in> set (SHCT s). sat_wf c \<and> maxVal c = m) \<and> rrpv_ok m (sdata s) \<and>
     (\<forall>e. unat (signature (sdata s e)) < n)"

lemma unat_mod_length: "0 < n \<Longrightarrow> n < 2 ^ 64 \<Longrightarrow> unat ((x :: u64) mod of_nat n) < n"
  by (simp add: unat_mod unat_of_nat)

lemma SHiPMem_getSignature_ok:
  "ship_ok m n s \<Longrightarrow> \<exists>g. SHiPMem_getSignature a s = Inr g \<and> unat g < n"
  by (auto simp: SHiPMem_getSignature_def ship_ok_def unat_mod_length check_def)

lemma SHiPPC_getSignature_ok:
  "ship_ok m n s \<Longrightarrow> \<exists>g. SHiPPC_getSignature a s = Inr g \<and> unat g < n"
  by (auto simp: SHiPPC_getSignature_def ship_ok_def unat_mod_length check_def Let_def)

lemma shct_update_ok:
  assumes "ship_ok m n s" "unat i < n" "\<And>c. sat_wf c \<Longrightarrow> sat_wf (f c) \<and> maxVal (f c) = maxVal c"
  shows "\<exists>s'. shct_update f i s = Inr s' \<and> ship_ok m n s' \<and> sdata s' = sdata s"
  using assms set_update_subset_insert [of "SHCT s" "unat i"] nth_mem [of "unat i" "SHCT s"]
  by (fastforce simp: shct_update_def ship_ok_def check_def)

lemma BRRIP_ops_signature [simp]:
  "signature (BRRIP_invalidate d e x) = signature (d x)"
  "signature (BRRIP_touch p d e x) = signature (d x)"
  "signature (BRRIP_reset p draw d e x) = signature (d x)"
  by (simp_all add: BRRIP_invalidate_def BRRIP_touch_def BRRIP_reset_def Let_def)

lemma BRRIP_ops_ok [simp]:
  assumes "rrpv_ok m s"
  shows "rrpv_ok m (BRRIP_invalidate s e)" "rrpv_ok m (BRRIP_touch p s e)" "rrpv_ok m (BRRIP_reset p draw s e)"
  using assms by (simp_all add: rrpv_ok_def BRRIP_invalidate_def BRRIP_touch_def BRRIP_reset_def
      sc_post_dec_def Let_def)

lemma ship_ok_sdata:
  "ship_ok m n s \<Longrightarrow> rrpv_ok m d \<Longrightarrow> (\<forall>e. unat (signature (d e)) < n) \<Longrightarrow> ship_ok m n (s\<lparr>sdata := d\<rparr>)"
  by (simp add: ship_ok_def)

lemma ship_okD: "ship_ok m n s \<Longrightarrow> rrpv_ok m (sdata s)" "ship_ok m n s \<Longrightarrow> unat (signature (sdata s e)) < n"
  by (simp_all add: ship_ok_def)

lemma SHiP_invalidate_ok:
  assumes "ship_ok m n s"
  shows "\<exists>s'. SHiP_invalidate s e = Inr s' \<and> ship_ok m n s'"
proof -
  have "\<exists>s1. (if wasReReferenced (sdata s e)
      then shct_update (\<lambda>c. snd (sc_post_dec c)) (signature (sdata s e)) s else Inr s) = Inr s1 \<and>
    ship_ok m n s1"
    using shct_update_ok [OF assms ship_okD(2) [OF assms, of e], of "\<lambda>c. snd (sc_post_dec c)"] assms
    by (auto simp: sc_post_dec_def)
  then show ?thesis by (auto simp: SHiP_invalidate_def ship_okD intro!: ship_ok_sdata)
qed

lemma SHiP_touch_ok:
  assumes ok: "ship_ok m n s" and g: "\<exists>x. g s = Inr x \<and> unat x < n"
  shows "\<exists>s'. SHiP_touch p g s e = Inr s' \<and> ship_ok m n s'"
proof -
  obtain x where x: "g s = Inr x" "unat x < n" using g by blast
  obtain s1 where s1: "shct_update (\<lambda>c. snd (sc_post_inc c)) x s = Inr s1" "ship_ok m n s1"
    using shct_update_ok [OF ok x(2), of "\<lambda>c. snd (sc_post_inc c)"] by (auto simp: sc_post_inc_def)
  have "rrpv_ok m ((sdata s1)(e := setReReferenced (sdata s1 e)))"
    using ship_okD(1) [OF s1(2)] by (simp add: rrpv_ok_def setReReferenced_def)
  moreover have "unat (signature (((sdata s1)(e := setReReferenced (sdata s1 e))) a)) < n" for a
    using ship_okD(2) [OF s1(2)] by (simp add: setReReferenced_def)
  ultimately show ?thesis using x s1
    by (auto simp: SHiP_touch_def Let_def intro!: ship_ok_sdata)
qed

lemma SHiP_reset_ok:
  assumes ok: "ship_ok m n s" and g: "\<exists>x. g s = Inr x \<and> unat x < n"
  shows "\<exists>s'. SHiP_reset p g draw s e = Inr s' \<and> ship_ok m n s'"
proof -
  obtain x where x: "g s = Inr x" "unat x < n" using g by blast
  let ?d = "BRRIP_reset (brrip_params.truncate p) draw ((sdata s)(e := setSignature (sdata s e) x)) e"
  have "rrpv_ok m ((sdata s)(e := setSignature (sdata s e) x))"
    using ship_okD(1) [OF ok] by (simp add: rrpv_ok_def setSignature_def)
  then have d: "rrpv_ok m ?d" by simp
  then have d': "rrpv_ok m (?d(e := (?d e)\<lparr>rrpv := sc_dec (rrpv (?d e))\<rparr>))" by (simp add: rrpv_ok_def)
  have sig: "unat (signature (sdata s a)) < n" "unat (signature (setSignature (sdata s e) x)) < n" for a
    using ship_okD(2) [OF ok] x(2) by (simp_all add: setSignature_def)
  have "length (SHCT s) = n" using ok by (simp add: ship_ok_def)
  with x d d' sig ok show ?thesis
    by (auto simp: SHiP_reset_def Let_def sc_post_dec_def split: option.splits
        intro!: ship_ok_sdata)
qed

lemma fold_add_rrpv_signature: "signature (fold (add_rrpv diff) cs d e) = signature (d e)"
  by (induction cs arbitrary: d) (simp_all add: add_rrpv_def)

lemma BRRIP_getVictim_signature:
  "BRRIP_getVictim d cs = Inr (v, d') \<Longrightarrow> signature (d' e) = signature (d e)"
  by (auto simp: BRRIP_getVictim_def Let_def split_beta fold_add_rrpv_signature
      split: sum.splits if_splits)

lemma SHiP_policy_contract:
  assumes "\<And>s. ship_ok m n s \<Longrightarrow> \<exists>x. g s = Inr x \<and> unat x < n"
  shows "replacement_policy (SHiP_policy p g draw) (ship_ok m n) UNIV (\<lambda>cs. cs \<noteq> [])"
proof
  show "\<exists>s'. rp_apply (SHiP_policy p g draw) q s = Inr s' \<and> ship_ok m n s'" if "ship_ok m n s" for s q
    using SHiP_invalidate_ok [OF that] SHiP_touch_ok [where g = g, OF that assms [OF that]]
      SHiP_reset_ok [where g = g, OF that assms [OF that]] by (cases q) (simp_all add: SHiP_policy_def)
  show "\<exists>v s'. rp_getVictim (SHiP_policy p g draw) s cs = Inr (v, s') \<and> v \<in> set cs \<and> ship_ok m n s'"
    if ok: "ship_ok m n s" and cs: "cs \<noteq> []" for s cs
  proof -
    obtain v d where v: "BRRIP_getVictim (sdata s) cs = Inr (v, d)" "v \<in> set cs" "rrpv_ok m d"
      using BRRIP_getVictim_ok [OF ship_okD(1) [OF ok] cs] by blast
    have "signature (d e) = signature (sdata s e)" for e
      using BRRIP_getVictim_signature [OF v(1)] .
    with v ok show ?thesis
      by (auto simp: SHiP_policy_def SHiP_getVictim_def ship_okD intro!: ship_ok_sdata)
  qed
qed (simp add: SHiP_policy_def SHiP_getVictim_def BRRIP_getVictim_def)

interpretation ship_mem: replacement_policy "SHiP_policy p (SHiPMem_getSignature a) draw" "ship_ok m n"
  UNIV "\<lambda>cs. cs \<noteq> []" for p a draw m n
  by (rule SHiP_policy_contract) (rule SHiPMem_getSignature_ok)

interpretation ship_pc: replacement_policy "SHiP_policy p (SHiPPC_getSignature a) draw" "ship_ok m n"
  UNIV "\<lambda>cs. cs \<noteq> []" for p a draw m n
  by (rule SHiP_policy_contract) (rule SHiPPC_getSignature_ok)

text \<open>
  The comment in \<^verbatim>\<open>SHiP::invalidate\<close> says that the predictor is detrained when an entry that was
  not re-referenced is invalidated. The code does the opposite: such an entry leaves the table as
  it is, and an entry that was re-referenced lowers its counter.
\<close>

lemma SHiP_invalidate_dead_entry:
  assumes "\<not> wasReReferenced (sdata s e)"
  shows "SHiP_invalidate s e = Inr (s\<lparr>sdata := BRRIP_invalidate (sdata s) e\<rparr>)"
  using assms by (simp add: SHiP_invalidate_def)

lemma SHiP_invalidate_live_entry:
  assumes "wasReReferenced (sdata s e)" "unat (signature (sdata s e)) < length (SHCT s)"
  shows "\<exists>s'. SHiP_invalidate s e = Inr s' \<and>
    SHCT s' = (SHCT s)[unat (signature (sdata s e)) := sc_dec (SHCT s ! unat (signature (sdata s e)))]"
  using assms by (simp add: SHiP_invalidate_def shct_update_def sc_post_dec_def)

section \<open>Properties\<close>

text \<open>
  The victim search of BRRIP: when a candidate is invalid, the first such candidate is
  returned and nothing changes; otherwise the first candidate of greatest prediction value is, and
  the values of all candidates grow by the same amount, the one that takes the victim to the
  limit, so no counter saturates before its turn; other entries keep theirs.
\<close>

theorem BRRIP_getVictim_ages:
  fixes s :: "ent \<Rightarrow> 'a brrip_data_scheme"
  assumes "rrpv_ok m s" "distinct cs" "cs \<noteq> []"
  shows "\<exists>v s'. BRRIP_getVictim s cs = Inr (v, s') \<and> v \<in> set cs \<and>
    (if \<exists>c \<in> set cs. \<not> br_valid (s c)
     then List.find (\<lambda>c. \<not> br_valid (s c)) cs = Some v \<and> s' = s
     else first_min (\<lambda>e. - uint (counter (rrpv (s e)))) cs v \<and>
       (\<forall>e. unat (counter (rrpv (s' e))) = unat (counter (rrpv (s e))) +
          (if e \<in> set cs then unat m - unat (counter (rrpv (s v))) else 0)))"
proof (cases "List.find (\<lambda>e. \<not> br_valid (s e)) cs")
  case None
  let ?key = "\<lambda>e. - uint (counter (rrpv (s e)))"
  define v where "v = victim_scan (\<lambda>c v. ?key c < ?key v) cs (hd cs)"
  have scan: "BRRIP_scan s cs (hd cs) (uint (counter (rrpv (s (hd cs))))) = Inr v"
    unfolding v_def by (rule BRRIP_scan_valid [OF None refl])
  have fm: "first_min ?key cs v" unfolding v_def by (rule victim_scan_first_min [OF assms(3)])
  have le: "counter (rrpv (s c)) \<le> counter (rrpv (s v))" if "c \<in> set cs" for c
    using first_min_le [OF fm that] by (simp add: word_le_def)
  have eq: "\<exists>s'. BRRIP_getVictim s cs = Inr (v, s') \<and>
      (\<forall>e. unat (counter (rrpv (s' e))) = unat (counter (rrpv (s e))) +
          (if e \<in> set cs then unat m - unat (counter (rrpv (s v))) else 0))"
    using scan assms(3) BRRIP_aged_value [OF assms(1,2) le first_min_mem [OF fm]]
    by (simp only: BRRIP_getVictim_def Let_def split_beta sum.case length_greater_0_conv not_False_eq_True
        check_True) blast
  show ?thesis using eq None fm first_min_mem [OF fm] by (auto simp: find_None_iff)
next
  case (Some c)
  then have "BRRIP_scan s cs (hd cs) (uint (counter (rrpv (s (hd cs))))) = Inl c"
    by (simp add: BRRIP_scan_Inl)
  moreover have "c \<in> set cs" "\<not> br_valid (s c)" using Some by (auto simp: find_Some_iff)
  ultimately show ?thesis using assms Some by (auto simp: BRRIP_getVictim_def)
qed

definition demo_rrpv :: "u8 \<Rightarrow> brrip_data" where
  "demo_rrpv n = \<lparr>rrpv = \<lparr>initialVal = 0, maxVal = 3, counter = n\<rparr>, br_valid = True\<rparr>"

theorem BRRIP_getVictim_ages_witness:
  "\<exists>s'. BRRIP_getVictim ((\<lambda>_. demo_rrpv 0)(7 := demo_rrpv 1)) [5, 7] = Inr (7, s') \<and>
    unat (counter (rrpv (s' 5))) = 2 \<and> unat (counter (rrpv (s' 7))) = 3"
proof -
  let ?s = "(\<lambda>_. demo_rrpv 0)(7 := demo_rrpv 1) :: ent \<Rightarrow> brrip_data"
  have "rrpv_ok 3 ?s" by (simp add: rrpv_ok_def demo_rrpv_def sat_wf_def)
  from BRRIP_getVictim_ages [OF this, of "[5, 7]"] show ?thesis by (auto simp: demo_rrpv_def)
qed

end
