(* ===== verification/TreePLRU.thy ===== *)
theory TreePLRU
  imports Replacement
begin

text \<open>
  Tree pseudo-LRU (\<^verbatim>\<open>mem/cache/replacement_policies/tree_plru_rp.cc\<close>). A tree is the vector of the
  bits of its inner nodes in breadth-first order; the trees live in a store, since the entries of
  a set share one. \<^verbatim>\<open>parentIndex\<close> passes its result through a \<^verbatim>\<open>double\<close>, which is exact below
  \<open>2 ^ 53\<close>; the model computes it on 64 bits.

  The leaf the victim search reaches is shown to be the one leaf all of whose ancestors point to
  it. So an invalidated entry is the next victim, and a touched one is not.
\<close>

section \<open>Index arithmetic\<close>

definition parentIndex :: "u64 \<Rightarrow> u64" where
  "parentIndex index = (index - 1) div 2"

definition leftSubtreeIndex :: "u64 \<Rightarrow> u64" where
  "leftSubtreeIndex index = 2 * index + 1"

definition rightSubtreeIndex :: "u64 \<Rightarrow> u64" where
  "rightSubtreeIndex index = 2 * index + 2"

definition isRightSubtree :: "u64 \<Rightarrow> bool" where
  "isRightSubtree index \<longleftrightarrow> index mod 2 = 0"

section \<open>State and operations\<close>

record plru_data =
  p_index :: u64
  p_tree :: nat

record plru =
  numLeaves :: u64
  p_count :: u64
  treeInstance :: "nat option"
  trees :: "bool list list"
  p_data :: "ent \<Rightarrow> plru_data"

definition TreePLRU :: "u64 \<Rightarrow> (ent \<Rightarrow> plru_data) \<Rightarrow> plru outcome" where
  "TreePLRU num_leaves d =
     check (num_leaves \<ge> 1) Fatal
       (Inr \<lparr>numLeaves = num_leaves, p_count = 0, treeInstance = None, trees = [], p_data = d\<rparr>)"

text \<open>
  The \<^verbatim>\<open>do\<close> loop of \<^verbatim>\<open>invalidate\<close> and \<^verbatim>\<open>touch\<close>: \<open>f\<close> is what is stored in the parent, given whether
  the loop comes from its right subtree.
\<close>

lemma unat_parentIndex: "index \<noteq> 0 \<Longrightarrow> unat (parentIndex index) = (unat index - 1) div 2"
  by (simp add: parentIndex_def unat_div unat_minus_one)

function plru_update :: "(bool \<Rightarrow> bool) \<Rightarrow> bool list \<Rightarrow> u64 \<Rightarrow> bool list outcome" where
  "plru_update f tree tree_index =
     (let right = isRightSubtree tree_index;
          tree_index' = parentIndex tree_index
      in check (unat tree_index' < length tree) Exception
           (let tree' = tree[unat tree_index' := f right]
            in if tree_index' \<noteq> 0 then plru_update f tree' tree_index' else Inr tree'))"
  by auto
termination
proof (relation "measure (\<lambda>(f, tree, i). if i = 0 then 2 ^ 64 else unat i)")
  fix i p :: u64
  assume p: "p = parentIndex i" "p \<noteq> 0"
  have "unat p < (if i = 0 then 2 ^ 64 else unat i)"
  proof (cases "i = 0")
    case False
    then have "0 < unat i" by (simp add: unat_gt_0)
    with False p(1) show ?thesis by (simp add: unat_parentIndex)
  qed (use unat_u64_lt in simp)
  with p(2) show "((f, t', p), f, t, i) \<in> measure (\<lambda>(f, tree, i). if i = 0 then 2 ^ 64 else unat i)"
    for f :: "bool \<Rightarrow> bool" and t t' by simp
qed simp

declare plru_update.simps [simp del]

definition plru_update_entry :: "(bool \<Rightarrow> bool) \<Rightarrow> plru \<Rightarrow> ent \<Rightarrow> plru outcome" where
  "plru_update_entry f s e =
     (let d = p_data s e
      in check (p_tree d < length (trees s)) Undefined
           (obind (plru_update f (trees s ! p_tree d) (p_index d)) (\<lambda>tree.
             Inr (s\<lparr>trees := (trees s)[p_tree d := tree]\<rparr>))))"

definition TreePLRU_invalidate :: "plru \<Rightarrow> ent \<Rightarrow> plru outcome" where
  "TreePLRU_invalidate = plru_update_entry (\<lambda>right. right)"

definition TreePLRU_touch :: "plru \<Rightarrow> ent \<Rightarrow> plru outcome" where
  "TreePLRU_touch = plru_update_entry (\<lambda>right. \<not> right)"

definition TreePLRU_reset :: "plru \<Rightarrow> ent \<Rightarrow> plru outcome" where
  "TreePLRU_reset s e = TreePLRU_touch s e"

partial_function (option) plru_walk :: "bool list \<Rightarrow> u64 \<Rightarrow> u64 option" where
  "plru_walk tree tree_index =
     (if unat tree_index < length tree
      then plru_walk tree (if tree ! unat tree_index then rightSubtreeIndex tree_index
                           else leftSubtreeIndex tree_index)
      else Some tree_index)"

definition TreePLRU_getVictim :: "plru \<Rightarrow> ent list \<Rightarrow> (ent \<times> plru) outcome" where
  "TreePLRU_getVictim s candidates =
     check (length candidates > 0) Assert_Failed
       (let t = p_tree (p_data s (hd candidates))
        in check (t < length (trees s)) Undefined
             (after_loop (plru_walk (trees s ! t) 0) (\<lambda>tree_index.
               let i = unat (tree_index - (numLeaves s - 1))
               in check (i < length candidates) Exception (Inr (candidates ! i, s)))))"

definition TreePLRU_instantiateEntry :: "plru \<Rightarrow> ent \<Rightarrow> plru outcome" where
  "TreePLRU_instantiateEntry s e =
     check (numLeaves s \<noteq> 0) Undefined
       (let s1 = (if p_count s mod numLeaves s = 0
                  then s\<lparr>treeInstance := Some (length (trees s)),
                         trees := trees s @ [replicate (unat (numLeaves s - 1)) False]\<rparr>
                  else s)
        in case treeInstance s1 of
             None \<Rightarrow> Inl Undefined
           | Some t \<Rightarrow>
               Inr (s1\<lparr>p_data := (p_data s1)(e :=
                         \<lparr>p_index = p_count s1 mod numLeaves s1 + numLeaves s1 - 1, p_tree = t\<rparr>),
                       p_count := p_count s1 + 1\<rparr>))"

definition TreePLRU_policy :: "plru repl_policy" where
  "TreePLRU_policy =
     \<lparr>rp_invalidate = TreePLRU_invalidate, rp_touch = TreePLRU_touch, rp_reset = TreePLRU_reset,
      rp_getVictim = TreePLRU_getVictim\<rparr>"

section \<open>Trees over the naturals\<close>

text \<open>\<open>parent\<close> of a node, and whether all ancestors of a node point towards it.\<close>

definition parent :: "nat \<Rightarrow> nat" where
  "parent i = (i - 1) div 2"

lemma parent_less [simp]: "0 < i \<Longrightarrow> parent i < i"
  by (simp add: parent_def)

function points_to :: "bool list \<Rightarrow> nat \<Rightarrow> bool" where
  "points_to t i \<longleftrightarrow> (if i = 0 then True else t ! parent i = even i \<and> points_to t (parent i))"
  by auto
termination by (relation "measure snd") auto

declare points_to.simps [simp del]

function walk :: "bool list \<Rightarrow> nat \<Rightarrow> nat" where
  "walk t i = (if i < length t then walk t (if t ! i then 2 * i + 2 else 2 * i + 1) else i)"
  by auto
termination by (relation "measure (\<lambda>(t, i). length t - i)") auto

declare walk.simps [simp del]

lemma points_to_child: "points_to t (if t ! i then 2 * i + 2 else 2 * i + 1) = points_to t i"
  by (subst points_to.simps) (simp add: parent_def)

lemma points_to_walk: "points_to t i \<Longrightarrow> points_to t (walk t i)"
proof (induction t i rule: walk.induct)
  case (1 t i)
  then show ?case
    by (subst walk.simps) (use points_to_child [of t i] in \<open>auto split: if_splits\<close>)
qed

lemma walk_ge: "length t \<le> walk t i"
proof (induction t i rule: walk.induct)
  case (1 t i)
  then show ?case by (subst walk.simps) simp
qed

lemma walk_less: "i \<le> 2 * length t \<Longrightarrow> walk t i \<le> 2 * length t"
proof (induction t i rule: walk.induct)
  case (1 t i)
  then show ?case by (subst walk.simps) (auto split: if_splits)
qed

lemma walk_pointed: "points_to t i \<Longrightarrow> parent i < length t \<Longrightarrow> walk t 0 = walk t i"
proof (induction t i rule: points_to.induct)
  case (1 t i)
  show ?case
  proof (cases "i = 0")
    case False
    then have p: "t ! parent i = even i" "points_to t (parent i)"
      using "1.prems"(1) by (subst (asm) points_to.simps, simp)+
    have "(if even i then 2 * parent i + 2 else 2 * parent i + 1) = i"
      using False unfolding parent_def by presburger
    then have "(if t ! parent i then 2 * parent i + 2 else 2 * parent i + 1) = i"
      using p(1) by simp
    then have "walk t (parent i) = walk t i" using "1.prems"(2) by (subst walk.simps) simp
    moreover have "parent (parent i) < length t"
      using "1.prems"(2) by (simp add: parent_def)
    ultimately show ?thesis using "1.IH" [OF False] p by simp
  qed simp
qed

lemma leaf_parent: "l \<le> 2 * length t \<Longrightarrow> t \<noteq> [] \<Longrightarrow> parent l < length t"
  using less_mult_imp_div_less [of "l - 1" "length t" 2] by (cases "l = 0") (auto simp: parent_def)

lemma walk_iff_points_to:
  assumes "length t \<le> l" "l \<le> 2 * length t" "t \<noteq> []"
  shows "walk t 0 = l \<longleftrightarrow> points_to t l"
proof
  assume "walk t 0 = l"
  moreover have "points_to t 0" by (simp add: points_to.simps)
  ultimately show "points_to t l" using points_to_walk [of t 0] by simp
next
  assume "points_to t l"
  moreover have "parent l < length t" using assms by (simp add: leaf_parent)
  ultimately have "walk t 0 = walk t l" by (rule walk_pointed)
  also have "walk t l = l" using assms(1) by (simp add: walk.simps)
  finally show "walk t 0 = l" .
qed

section \<open>The machine operations on trees\<close>

lemma unat_subtree:
  fixes i :: u64
  assumes "unat i < 2 ^ 62"
  shows "unat (leftSubtreeIndex i) = 2 * unat i + 1" "unat (rightSubtreeIndex i) = 2 * unat i + 2"
proof -
  have b: "2 * unat i + 2 < 2 ^ 64" using assms by simp
  have m: "unat (2 * i) = 2 * unat i" using unat_mult_lem [of 2 i] b by simp
  show "unat (leftSubtreeIndex i) = 2 * unat i + 1"
    using unat_add_lem [of "2 * i" 1] m b by (simp add: leftSubtreeIndex_def)
  show "unat (rightSubtreeIndex i) = 2 * unat i + 2"
    using unat_add_lem [of "2 * i" 2] m b by (simp add: rightSubtreeIndex_def)
qed

lemma isRightSubtree_iff: "isRightSubtree i \<longleftrightarrow> even (unat i)"
proof -
  have "unat (i mod 2) = unat i mod 2" by (simp add: unat_mod)
  then show ?thesis
    by (metis isRightSubtree_def unat_eq_zero even_iff_mod_2_eq_zero)
qed

lemma plru_walk_eq:
  assumes "length t < 2 ^ 62"
  shows "\<exists>l. plru_walk t i = Some l \<and> unat l = walk t (unat i)"
proof (induction "length t - unat i" arbitrary: i rule: less_induct)
  case less
  show ?case
  proof (cases "unat i < length t")
    case True
    let ?j = "if t ! unat i then rightSubtreeIndex i else leftSubtreeIndex i"
    have "unat i < 2 ^ 62" using True assms by simp
    note u = unat_subtree [OF this]
    have "\<exists>l. plru_walk t ?j = Some l \<and> unat l = walk t (unat ?j)"
      using True u by (intro less) auto
    moreover have "walk t (unat i) = walk t (unat ?j)" using True u by (subst walk.simps) simp
    ultimately show ?thesis using True by (subst plru_walk.simps) simp
  next
    case False
    then show ?thesis by (subst plru_walk.simps, subst walk.simps) simp
  qed
qed

lemma plru_update_path:
  assumes "i \<noteq> 0" "parent (unat i) < length t"
  shows "\<exists>t'. plru_update f t i = Inr t' \<and> length t' = length t \<and>
    t' ! parent (unat i) = f (even (unat i)) \<and> (\<forall>k > parent (unat i). t' ! k = t ! k) \<and>
    (f = (\<lambda>r. r) \<longrightarrow> points_to t' (unat i))"
  using assms
proof (induction "unat i" arbitrary: i t rule: less_induct)
  case less
  let ?p = "parent (unat i)"
  let ?t = "t[?p := f (even (unat i))]"
  have up: "unat (parentIndex i) = ?p" using less.prems(1) by (simp add: unat_parentIndex parent_def)
  have pos: "0 < unat i" using less.prems(1) by (simp add: unat_gt_0)
  have "parentIndex i = 0 \<Longrightarrow> ?p = 0" using up by simp
  then have eq: "plru_update f t i = (if parentIndex i \<noteq> 0 then plru_update f ?t (parentIndex i) else Inr ?t)"
    using less.prems(2) by (subst plru_update.simps) (simp add: up isRightSubtree_iff Let_def)
  show ?case
  proof (cases "parentIndex i = 0")
    case True
    then have p: "?p = 0" using up by simp
    have "points_to ?t (unat i)" if "f = (\<lambda>r. r)"
      using pos p less.prems(2) that by (simp add: points_to.simps)
    with eq True p less.prems(2) show ?thesis by simp
  next
    case False
    have "parent ?p < length ?t" using less.prems(2) by (simp add: parent_def)
    with less.hyps [of "parentIndex i" ?t] False up pos obtain t' where t': "plru_update f ?t (parentIndex i) = Inr t'"
        "length t' = length ?t" "\<forall>k > parent ?p. t' ! k = ?t ! k" "f = (\<lambda>r. r) \<longrightarrow> points_to t' ?p"
      by (auto simp: up)
    have "0 < ?p" using False up by (metis gr0I unat_eq_zero)
    then have "parent ?p < ?p" by simp
    with t'(3) less.prems(2) have at: "t' ! ?p = f (even (unat i))" by simp
    have "points_to t' (unat i)" if "f = (\<lambda>r. r)"
      using t'(4) at that by (subst points_to.simps) simp
    with t' at eq False \<open>parent ?p < ?p\<close> show ?thesis by auto
  qed
qed

section \<open>Sets of entries\<close>

text \<open>The entries of a set, in the order of their instantiation, are the leaves of one tree.\<close>

definition plru_set :: "plru \<Rightarrow> ent list \<Rightarrow> bool" where
  "plru_set s cs \<longleftrightarrow>
     2 \<le> unat (numLeaves s) \<and> unat (numLeaves s) < 2 ^ 61 \<and> length cs = unat (numLeaves s) \<and>
     (\<exists>t < length (trees s). length (trees s ! t) = unat (numLeaves s) - 1 \<and>
       (\<forall>i < length cs. unat (p_index (p_data s (cs ! i))) = i + (unat (numLeaves s) - 1) \<and>
          p_tree (p_data s (cs ! i)) = t))"

definition set_tree :: "plru \<Rightarrow> ent list \<Rightarrow> bool list" where
  "set_tree s cs = trees s ! p_tree (p_data s (hd cs))"

lemma plru_setD:
  assumes "plru_set s cs"
  shows "cs \<noteq> []" "set_tree s cs \<noteq> []" "length (set_tree s cs) = unat (numLeaves s) - 1"
    and "length cs = unat (numLeaves s)" "2 \<le> unat (numLeaves s)" "unat (numLeaves s) < 2 ^ 61"
    and "i < length cs \<Longrightarrow> unat (p_index (p_data s (cs ! i))) = i + length (set_tree s cs)"
    and "i < length cs \<Longrightarrow> p_tree (p_data s (cs ! i)) = p_tree (p_data s (hd cs))"
    and "p_tree (p_data s (hd cs)) < length (trees s)"
proof -
  obtain t where t: "t < length (trees s)" "length (trees s ! t) = unat (numLeaves s) - 1"
    "\<forall>i < length cs. unat (p_index (p_data s (cs ! i))) = i + (unat (numLeaves s) - 1) \<and>
          p_tree (p_data s (cs ! i)) = t" using assms by (auto simp: plru_set_def)
  have n: "length cs = unat (numLeaves s)" "2 \<le> unat (numLeaves s)" "unat (numLeaves s) < 2 ^ 61"
    using assms by (auto simp: plru_set_def)
  then show "cs \<noteq> []" by auto
  then have h: "p_tree (p_data s (hd cs)) = t" using t(3) by (auto simp: hd_conv_nth)
  show "length cs = unat (numLeaves s)" "2 \<le> unat (numLeaves s)" "unat (numLeaves s) < 2 ^ 61" by fact+
  show l: "length (set_tree s cs) = unat (numLeaves s) - 1" using t h by (simp add: set_tree_def)
  with n show "set_tree s cs \<noteq> []" by auto
  show "p_tree (p_data s (hd cs)) < length (trees s)" using h t by simp
  assume i: "i < length cs"
  show "unat (p_index (p_data s (cs ! i))) = i + length (set_tree s cs)" using t(3) i l by simp
  show "p_tree (p_data s (cs ! i)) = p_tree (p_data s (hd cs))" using t(3) i h by simp
qed

lemma TreePLRU_getVictim_set:
  assumes ok: "plru_set s cs"
  shows "TreePLRU_getVictim s cs = Inr (cs ! (walk (set_tree s cs) 0 - length (set_tree s cs)), s)"
    and "walk (set_tree s cs) 0 - length (set_tree s cs) < length cs"
proof -
  note d = plru_setD [OF ok]
  let ?t = "set_tree s cs"
  have b: "length ?t \<le> walk ?t 0" "walk ?t 0 \<le> 2 * length ?t" using walk_ge walk_less by auto
  show l: "walk ?t 0 - length ?t < length cs" using b d(3-5) by linarith
  have "length ?t < 2 ^ 62" using d(3,6) by simp
  then obtain w where w: "plru_walk ?t 0 = Some w" "unat w = walk ?t 0"
    using plru_walk_eq [of ?t 0] by auto
  have "numLeaves s \<noteq> 0" using d(5) by auto
  then have n: "unat (numLeaves s - 1) = length ?t" using d(3) by (simp add: unat_minus_one)
  then have "unat (w - (numLeaves s - 1)) = walk ?t 0 - length ?t"
    using w(2) b(1) by (simp add: unat_sub word_le_nat_alt)
  with w(1) l d(1,9) show "TreePLRU_getVictim s cs = Inr (cs ! (walk ?t 0 - length ?t), s)"
    by (simp add: TreePLRU_getVictim_def set_tree_def Let_def)
qed

lemma plru_set_trees:
  assumes ok: "plru_set s cs" and "length t = length (set_tree s cs)"
  shows "plru_set (s\<lparr>trees := (trees s)[p_tree (p_data s (hd cs)) := t]\<rparr>) cs"
    and "set_tree (s\<lparr>trees := (trees s)[p_tree (p_data s (hd cs)) := t]\<rparr>) cs = t"
  using plru_setD [OF ok] assms(2) by (auto simp: plru_set_def set_tree_def)

lemma plru_update_entry_set:
  assumes ok: "plru_set s cs" and k: "k < length cs"
  shows "\<exists>s'. plru_update_entry f s (cs ! k) = Inr s' \<and> plru_set s' cs \<and>
    length (set_tree s' cs) = length (set_tree s cs) \<and>
    set_tree s' cs ! parent (k + length (set_tree s cs)) = f (even (k + length (set_tree s cs))) \<and>
    (f = (\<lambda>r. r) \<longrightarrow> points_to (set_tree s' cs) (k + length (set_tree s cs)))"
proof -
  note d = plru_setD [OF ok]
  let ?t = "set_tree s cs"
  let ?i = "p_index (p_data s (cs ! k))"
  have u: "unat ?i = k + length ?t" by (rule d(7) [OF k])
  have le: "k + length ?t \<le> 2 * length ?t" using k d(3-5) by linarith
  have "?i \<noteq> 0" using u d(2) by auto
  moreover have "parent (unat ?i) < length ?t" unfolding u by (rule leaf_parent [OF le d(2)])
  ultimately obtain t' where t': "plru_update f ?t ?i = Inr t'" "length t' = length ?t"
      "t' ! parent (k + length ?t) = f (even (k + length ?t))"
      "f = (\<lambda>r. r) \<longrightarrow> points_to t' (k + length ?t)"
    using plru_update_path [of ?i ?t f] unfolding u by blast
  have "plru_update_entry f s (cs ! k) =
      Inr (s\<lparr>trees := (trees s)[p_tree (p_data s (hd cs)) := t']\<rparr>)"
    using t'(1) d(8) [OF k] d(9) by (simp add: plru_update_entry_def set_tree_def Let_def)
  then show ?thesis using plru_set_trees [OF ok t'(2)] t'(2-4) by simp
qed

interpretation tree_plru: replacement_policy TreePLRU_policy "\<lambda>s. plru_set s cs" "set cs" "\<lambda>xs. xs = cs" for cs
proof
  show "\<exists>s'. rp_apply TreePLRU_policy p s = Inr s' \<and> plru_set s' cs"
    if "plru_set s cs" "rp_ent p \<in> set cs" for s p
  proof -
    from that(2) obtain k where k: "k < length cs" "rp_ent p = cs ! k" by (auto simp: in_set_conv_nth)
    have "\<exists>s'. plru_update_entry f s (rp_ent p) = Inr s' \<and> plru_set s' cs" for f
      using plru_update_entry_set [OF that(1) k(1), of f] k(2) by auto
    then show ?thesis
      by (cases p) (simp_all add: TreePLRU_policy_def TreePLRU_invalidate_def TreePLRU_touch_def
          TreePLRU_reset_def)
  qed
  show "\<exists>v s'. rp_getVictim TreePLRU_policy s xs = Inr (v, s') \<and> v \<in> set xs \<and> plru_set s' cs"
    if "plru_set s cs" "xs = cs" for s xs
    using TreePLRU_getVictim_set [OF that(1)] that by (auto simp: TreePLRU_policy_def)
qed (simp add: TreePLRU_policy_def TreePLRU_getVictim_def)

text \<open>
  A tree of one leaf has no inner node, but the loop that updates the tree writes to a parent
  before it looks at the index: on a policy with one leaf the first touch leaves the vector,
  although the constructor accepts that number.
\<close>

lemma TreePLRU_single_leaf:
  "\<exists>s s'. TreePLRU 1 d = Inr s \<and> TreePLRU_instantiateEntry s e = Inr s' \<and>
    TreePLRU_touch s' e = Inl Exception"
proof -
  have "plru_update f [] 0 = Inl Exception" for f
    by (subst plru_update.simps) (simp add: Let_def)
  then show ?thesis
    by (simp add: TreePLRU_def TreePLRU_instantiateEntry_def TreePLRU_touch_def plru_update_entry_def
        Let_def)
qed

section \<open>Instantiation\<close>

fun instantiate_all :: "ent list \<Rightarrow> plru \<Rightarrow> plru outcome" where
  "instantiate_all [] s = Inr s"
| "instantiate_all (e # es) s = obind (TreePLRU_instantiateEntry s e) (instantiate_all es)"

lemma instantiate_all_append:
  "instantiate_all (es @ fs) s = obind (instantiate_all es s) (instantiate_all fs)"
proof (induction es arbitrary: s)
  case (Cons e es)
  then show ?case by (cases "TreePLRU_instantiateEntry s e") auto
qed simp

lemma instantiate_all_leaves:
  assumes n: "2 \<le> unat n" "unat n < 2 ^ 61" and s: "TreePLRU n d = Inr s"
    and es: "es \<noteq> []" "distinct es" "length es \<le> unat n"
  shows "\<exists>s'. instantiate_all es s = Inr s' \<and> numLeaves s' = n \<and> unat (p_count s') = length es \<and>
    treeInstance s' = Some 0 \<and> trees s' = [replicate (unat n - 1) False] \<and>
    (\<forall>i < length es. unat (p_index (p_data s' (es ! i))) = i + (unat n - 1) \<and> p_tree (p_data s' (es ! i)) = 0)"
  using es
proof (induction es rule: rev_induct)
  case (snoc e es)
  have n0: "n \<noteq> 0" using n by auto
  then have n1: "unat (n - 1) = unat n - 1" by (simp add: unat_minus_one)
  show ?case
  proof (cases "es = []")
    case True
    have s0: "s = \<lparr>numLeaves = n, p_count = 0, treeInstance = None, trees = [], p_data = d\<rparr>"
      using s by (auto simp: TreePLRU_def)
    show ?thesis using True n0 n1 by (simp add: s0 TreePLRU_instantiateEntry_def Let_def)
  next
    case False
    then obtain r where r: "instantiate_all es s = Inr r" "numLeaves r = n" "unat (p_count r) = length es"
        "treeInstance r = Some 0" "trees r = [replicate (unat n - 1) False]"
        "\<forall>i < length es. unat (p_index (p_data r (es ! i))) = i + (unat n - 1) \<and> p_tree (p_data r (es ! i)) = 0"
      using snoc by auto
    have l: "length es < unat n" using snoc.prems(3) by simp
    have m: "p_count r mod n = p_count r" using l r(3) by (simp add: word_unat_eq_iff unat_mod)
    have nz: "p_count r \<noteq> 0" using r(3) False by auto
    have "unat (p_count r) + unat (n - 1) < 2 ^ 64" "unat (p_count r) + unat (1 :: u64) < 2 ^ 64"
      using l n(2) r(3) n1 by simp_all
    then have "unat (p_count r + (n - 1)) = unat (p_count r) + unat (n - 1)"
      and c: "unat (p_count r + 1) = length es + 1"
      using unat_add_lem [of "p_count r" "n - 1"] unat_add_lem [of "p_count r" 1] r(3) by simp_all
    then have idx: "unat (p_count r + n - 1) = length es + (unat n - 1)" using r(3) n1 by (simp add: add_diff_eq)
    show ?thesis
      using r m nz n0 idx c snoc.prems(2)
      by (auto simp: instantiate_all_append TreePLRU_instantiateEntry_def Let_def nth_append less_Suc_eq)
  qed
qed simp

section \<open>Properties\<close>

text \<open>
  C14. On a set of at least two entries that share a tree, invalidating an entry makes it the next
  victim, whatever the tree held; touching it (or resetting it) makes some other entry of the set
  the next victim. No operation aborts and the search ends.
\<close>

theorem TreePLRU_next_victim:
  assumes "plru_set s cs" "k < length cs"
  shows "(\<exists>s'. TreePLRU_invalidate s (cs ! k) = Inr s' \<and> plru_set s' cs \<and>
      TreePLRU_getVictim s' cs = Inr (cs ! k, s')) \<and>
    (\<exists>s' j. TreePLRU_touch s (cs ! k) = Inr s' \<and> plru_set s' cs \<and>
      TreePLRU_getVictim s' cs = Inr (cs ! j, s') \<and> j < length cs \<and> j \<noteq> k)"
proof
  note d = plru_setD [OF assms(1)]
  let ?n = "length (set_tree s cs)"
  have le: "k + ?n \<le> 2 * ?n" using assms(2) d(3-5) by linarith
  obtain s' where s': "plru_update_entry (\<lambda>r. r) s (cs ! k) = Inr s'" "plru_set s' cs"
      "length (set_tree s' cs) = ?n" "points_to (set_tree s' cs) (k + ?n)"
    using plru_update_entry_set [OF assms, of "\<lambda>r. r"] by auto
  then have "walk (set_tree s' cs) 0 = k + ?n"
    using walk_iff_points_to [of "set_tree s' cs" "k + ?n"] le plru_setD(2) [OF s'(2)] by simp
  with s' TreePLRU_getVictim_set(1) [OF s'(2)]
  show "\<exists>s'. TreePLRU_invalidate s (cs ! k) = Inr s' \<and> plru_set s' cs \<and>
      TreePLRU_getVictim s' cs = Inr (cs ! k, s')" by (simp add: TreePLRU_invalidate_def)
  obtain r where r: "plru_update_entry (\<lambda>r. \<not> r) s (cs ! k) = Inr r" "plru_set r cs"
      "length (set_tree r cs) = ?n" "set_tree r cs ! parent (k + ?n) = odd (k + ?n)"
    using plru_update_entry_set [OF assms, of "\<lambda>r. \<not> r"] by auto
  have "0 < k + ?n" using d(2) by simp
  then have "\<not> points_to (set_tree r cs) (k + ?n)"
    using r(4) by (subst points_to.simps) simp
  then have "walk (set_tree r cs) 0 \<noteq> k + ?n"
    using walk_iff_points_to [of "set_tree r cs" "k + ?n"] le r(3) plru_setD(2) [OF r(2)] by simp
  then have "walk (set_tree r cs) 0 - length (set_tree r cs) \<noteq> k"
    using walk_ge [of "set_tree r cs" 0] r(3) by linarith
  with r TreePLRU_getVictim_set [OF r(2)]
  show "\<exists>s' j. TreePLRU_touch s (cs ! k) = Inr s' \<and> plru_set s' cs \<and>
      TreePLRU_getVictim s' cs = Inr (cs ! j, s') \<and> j < length cs \<and> j \<noteq> k"
    by (auto simp: TreePLRU_touch_def)
qed

definition demo_plru :: plru where
  "demo_plru = \<lparr>numLeaves = 4, p_count = 4, treeInstance = Some 0, trees = [[False, True, False]],
     p_data = (\<lambda>e. \<lparr>p_index = of_nat e + 3, p_tree = 0\<rparr>)\<rparr>"

theorem TreePLRU_next_victim_witness:
  "(\<exists>s'. TreePLRU_invalidate demo_plru 2 = Inr s' \<and> TreePLRU_getVictim s' [0, 1, 2, 3] = Inr (2, s')) \<and>
   (\<exists>s' j. TreePLRU_touch demo_plru 2 = Inr s' \<and>
      TreePLRU_getVictim s' [0, 1, 2, 3] = Inr ([0, 1, 2, 3] ! j, s') \<and> j < 4 \<and> j \<noteq> 2)"
proof -
  have "unat (p_index (p_data demo_plru ([0, 1, 2, 3] ! i))) = i + 3" if "i < 4" for i
  proof -
    from that have "i = 0 \<or> i = 1 \<or> i = 2 \<or> i = 3" by arith
    then show ?thesis by (auto simp: demo_plru_def)
  qed
  then have "plru_set demo_plru [0, 1, 2, 3]" by (simp add: plru_set_def demo_plru_def)
  from TreePLRU_next_victim [OF this, of 2]
  have "(\<exists>s'. TreePLRU_invalidate demo_plru 2 = Inr s' \<and> plru_set s' [0, 1, 2, 3] \<and>
      TreePLRU_getVictim s' [0, 1, 2, 3] = Inr (2, s')) \<and>
    (\<exists>s' j. TreePLRU_touch demo_plru 2 = Inr s' \<and> plru_set s' [0, 1, 2, 3] \<and>
      TreePLRU_getVictim s' [0, 1, 2, 3] = Inr ([0, 1, 2, 3] ! j, s') \<and> j < 4 \<and> j \<noteq> 2)"
    by (simp add: eval_nat_numeral)
  then show ?thesis by blast
qed

end
