(* ===== verification/Dueling.thy ===== *)
theory Dueling
  imports Bitfield RripPolicies
begin

text \<open>
  Set dueling (\<^verbatim>\<open>mem/cache/tags/dueling.cc\<close>) and the replacement policy that chooses between two
  others by it (\<^verbatim>\<open>mem/cache/replacement_policies/dueling_rp.cc\<close>). The static instance counter of
  the monitor is an argument of its constructor. The thresholds are rationals and the comparisons
  exact. Both policies of a duel keep their data per entry, so pointing a candidate at the data of
  one of them, as the source does before it calls that policy, is calling the policy on its own
  state.

  The duel is shown to satisfy the contract of a replacement policy whenever both of its policies
  do, and the entries of a constituency to be assigned to the teams as documented.
\<close>

section \<open>Duelers\<close>

record dueler =
  d_isSample :: u64
  d_team :: u64

definition Dueler :: dueler where
  "Dueler = \<lparr>d_isSample = 0, d_team = 0\<rparr>"

definition setSample :: "dueler \<Rightarrow> u64 \<Rightarrow> bool \<Rightarrow> dueler outcome" where
  "setSample d i team =
     check (popCount i = 1) Panic
       (check (d_isSample d AND i = 0) Panic
         (let d1 = d\<lparr>d_isSample := d_isSample d OR i\<rparr>
          in Inr (if team then d1\<lparr>d_team := d_team d1 OR i\<rparr> else d1)))"

text \<open>Whether the entry is a sample, and its team, the output argument.\<close>

definition Dueler_isSample :: "dueler \<Rightarrow> u64 \<Rightarrow> bool \<times> bool" where
  "Dueler_isSample d i = (d_isSample d AND i \<noteq> 0, d_team d AND i \<noteq> 0)"

section \<open>The monitor\<close>

record monitor =
  m_id :: u64
  constituencySize :: u64
  teamSize :: u64
  lowThreshold :: rat
  highThreshold :: rat
  selector :: "32 sat_counter"
  regionCounter :: int
  winner :: bool

text \<open>
  The identifier \<^verbatim>\<open>1 << numInstances\<close> is computed in an \<^verbatim>\<open>int\<close>: bit 31 is its sign, which the
  conversion to 64 bits extends, and further shifts are undefined.
\<close>

definition monitor_id :: "u32 \<Rightarrow> u64 outcome" where
  "monitor_id numInstances =
     check (unat numInstances < 32) Undefined
       (Inr (scast (push_bit (unat numInstances) 1 :: 32 word)))"

definition saturation_below :: "32 sat_counter \<Rightarrow> rat \<Rightarrow> bool" where
  "saturation_below c r = (case calcSaturation c of None \<Rightarrow> False | Some q \<Rightarrow> q < r)"

definition saturation_reaches :: "32 sat_counter \<Rightarrow> rat \<Rightarrow> bool" where
  "saturation_reaches c r = (case calcSaturation c of None \<Rightarrow> False | Some q \<Rightarrow> q \<ge> r)"

definition DuelingMonitor ::
    "u32 \<Rightarrow> u64 \<Rightarrow> u64 \<Rightarrow> nat \<Rightarrow> rat \<Rightarrow> rat \<Rightarrow> (monitor \<times> u32) outcome" where
  "DuelingMonitor numInstances constituency_size team_size num_bits low_threshold high_threshold =
     obind (monitor_id numInstances) (\<lambda>i.
       obind (GenericSatCounter num_bits 0) (\<lambda>sel.
         check (\<not> constituency_size < 2 * team_size) Fatal
           (check (\<not> numInstances > 63) Fatal
             (check (\<not> (low_threshold \<le> 0 \<or> high_threshold \<ge> 1)) Fatal
               (check (\<not> (high_threshold \<le> 0 \<or> high_threshold \<ge> 1)) Fatal
                 (check (\<not> low_threshold > high_threshold) Fatal
                   (obind (sc_shr (snd (saturate sel)) 1) (\<lambda>sel1.
                     Inr (\<lparr>m_id = i, constituencySize = constituency_size, teamSize = team_size,
                           lowThreshold = low_threshold, highThreshold = high_threshold,
                           selector = sel1, regionCounter = 0,
                           winner = \<not> saturation_below sel1 low_threshold\<rparr>,
                          numInstances + 1)))))))))"

definition sample :: "monitor \<Rightarrow> dueler \<Rightarrow> monitor" where
  "sample m d =
     (let (is_sample, team) = Dueler_isSample d (m_id m)
      in if is_sample
         then if team
              then let m1 = m\<lparr>selector := snd (sc_post_inc (selector m))\<rparr>
                   in if saturation_reaches (selector m1) (highThreshold m1)
                      then m1\<lparr>winner := True\<rparr> else m1
              else let m1 = m\<lparr>selector := snd (sc_post_dec (selector m))\<rparr>
                   in if saturation_below (selector m1) (lowThreshold m1)
                      then m1\<lparr>winner := False\<rparr> else m1
         else m)"

definition monitor_isSample :: "monitor \<Rightarrow> dueler \<Rightarrow> bool \<times> bool" where
  "monitor_isSample m d = Dueler_isSample d (m_id m)"

definition getWinner :: "monitor \<Rightarrow> bool" where
  "getWinner m = winner m"

definition initEntry :: "monitor \<Rightarrow> dueler \<Rightarrow> (monitor \<times> dueler) outcome" where
  "initEntry m d =
     obind (if word_of_int (regionCounter m) < teamSize m then setSample d (m_id m) False
            else if word_of_int (regionCounter m) \<ge> constituencySize m - teamSize m
            then setSample d (m_id m) True
            else Inr d) (\<lambda>d'.
       check (regionCounter m < 2 ^ 31 - 1) Undefined
         (let r = regionCounter m + 1
          in Inr (m\<lparr>regionCounter := (if word_of_int r \<ge> constituencySize m then 0 else r)\<rparr>, d')))"

subsection \<open>The teams of a constituency\<close>

text \<open>
  The entries with numbers from \<open>k\<close> on, as a function of the position in the constituency of size
  \<open>c\<close> with teams of size \<open>t\<close>.
\<close>

definition team_of :: "nat \<Rightarrow> nat \<Rightarrow> nat \<Rightarrow> bool option" where
  "team_of c t k = (if k < t then Some False else if k \<ge> c - t then Some True else None)"

definition dueler_in :: "u64 \<Rightarrow> bool option \<Rightarrow> dueler \<Rightarrow> bool" where
  "dueler_in i tm d = (case tm of
     None \<Rightarrow> fst (Dueler_isSample d i) = False
   | Some b \<Rightarrow> Dueler_isSample d i = (True, b))"

fun init_all :: "dueler list \<Rightarrow> monitor \<Rightarrow> (monitor \<times> dueler list) outcome" where
  "init_all [] m = Inr (m, [])"
| "init_all (d # ds) m =
     obind (initEntry m d) (\<lambda>(m1, d1). obind (init_all ds m1) (\<lambda>(m2, ds1). Inr (m2, d1 # ds1)))"

text \<open>A dueler that no monitor with this identifier has initialised.\<close>

definition fresh_dueler :: "u64 \<Rightarrow> dueler \<Rightarrow> bool" where
  "fresh_dueler i d \<longleftrightarrow> d_isSample d AND i = 0 \<and> d_team d AND i = 0"

lemma setSample_team:
  assumes "popCount i = 1" "fresh_dueler i d"
  shows "\<exists>d'. setSample d i b = Inr d' \<and> Dueler_isSample d' i = (True, b)"
proof -
  have i: "i \<noteq> 0" using assms(1) by (auto simp: popCount_def)
  have a: "(w OR i) AND i \<noteq> 0" for w :: u64
    using i by (simp add: bit.conj_disj_distrib2)
  show ?thesis
    using assms a by (auto simp: setSample_def Dueler_isSample_def fresh_dueler_def Let_def)
qed

lemma initEntry_team:
  assumes "popCount (m_id m) = 1" "fresh_dueler (m_id m) d"
    and k: "regionCounter m = int k" "k < unat (constituencySize m)"
    and c: "unat (constituencySize m) < 2 ^ 31" "2 * unat (teamSize m) \<le> unat (constituencySize m)"
  shows "\<exists>d'. initEntry m d =
      Inr (m\<lparr>regionCounter := int ((k + 1) mod unat (constituencySize m))\<rparr>, d') \<and>
    dueler_in (m_id m) (team_of (unat (constituencySize m)) (unat (teamSize m)) k) d'"
proof -
  let ?c = "unat (constituencySize m)" and ?t = "unat (teamSize m)"
  have nw: "unat (word_of_int (int n) :: u64) = n" if "n < 2 ^ 64" for n
    using that by (simp add: unat_of_nat)
  have kw: "unat (word_of_int (int k) :: u64) = k" "unat (word_of_int (int (k + 1)) :: u64) = k + 1"
    using nw [of k] nw [of "k + 1"] k(2) c(1) by simp_all
  have s: "unat (constituencySize m - teamSize m) = ?c - ?t"
    using c(2) by (simp add: unat_sub word_le_nat_alt)
  have l: "word_of_int (regionCounter m) < teamSize m \<longleftrightarrow> k < ?t"
    "word_of_int (regionCounter m) \<ge> constituencySize m - teamSize m \<longleftrightarrow> k \<ge> ?c - ?t"
    using kw s by (simp_all only: k(1) word_less_nat_alt word_le_nat_alt)
  have r: "word_of_int (regionCounter m + 1) \<ge> constituencySize m \<longleftrightarrow> k + 1 = ?c"
    using kw(2) k by (simp only: k(1) word_le_nat_alt) (auto simp: add.commute)
  have mo: "(k + 1) mod ?c = (if k + 1 = ?c then 0 else k + 1)" using k(2) by auto
  obtain d1 d2 where d: "setSample d (m_id m) False = Inr d1" "Dueler_isSample d1 (m_id m) = (True, False)"
      "setSample d (m_id m) True = Inr d2" "Dueler_isSample d2 (m_id m) = (True, True)"
    using setSample_team [OF assms(1,2)] by metis
  have ns: "fst (Dueler_isSample d (m_id m)) = False"
    using assms(2) by (simp add: Dueler_isSample_def fresh_dueler_def)
  have b: "regionCounter m < 2 ^ 31 - 1" using k c(1) by simp
  show ?thesis
    using d ns b unfolding initEntry_def Let_def l r mo
    by (simp add: k(1) team_of_def dueler_in_def)
qed

lemma init_all_teams:
  assumes "popCount (m_id m) = 1" "\<forall>d \<in> set ds. fresh_dueler (m_id m) d"
    and "regionCounter m = int k" "k < unat (constituencySize m)"
    and "unat (constituencySize m) < 2 ^ 31" "2 * unat (teamSize m) \<le> unat (constituencySize m)"
  shows "\<exists>ds'. init_all ds m =
      Inr (m\<lparr>regionCounter := int ((k + length ds) mod unat (constituencySize m))\<rparr>, ds') \<and>
    length ds' = length ds \<and>
    (\<forall>j < length ds. dueler_in (m_id m)
       (team_of (unat (constituencySize m)) (unat (teamSize m)) ((k + j) mod unat (constituencySize m)))
       (ds' ! j))"
  using assms
proof (induction ds arbitrary: m k)
  case Nil
  then show ?case by simp
next
  case (Cons d ds)
  let ?c = "unat (constituencySize m)"
  obtain d' where d': "initEntry m d = Inr (m\<lparr>regionCounter := int ((k + 1) mod ?c)\<rparr>, d')"
    "dueler_in (m_id m) (team_of ?c (unat (teamSize m)) k) d'"
    using initEntry_team [of m d k] Cons.prems by auto
  have "0 < ?c" using Cons.prems(4) by simp
  then obtain ds' where ds': "init_all ds (m\<lparr>regionCounter := int ((k + 1) mod ?c)\<rparr>) =
      Inr (m\<lparr>regionCounter := int (((k + 1) mod ?c + length ds) mod ?c)\<rparr>, ds')" "length ds' = length ds"
    "\<forall>j < length ds. dueler_in (m_id m) (team_of ?c (unat (teamSize m)) (((k + 1) mod ?c + j) mod ?c)) (ds' ! j)"
    using Cons.IH [of "m\<lparr>regionCounter := int ((k + 1) mod ?c)\<rparr>" "(k + 1) mod ?c"] Cons.prems by auto
  have "dueler_in (m_id m) (team_of ?c (unat (teamSize m)) ((k + j) mod ?c)) ((d' # ds') ! j)"
    if "j < length (d # ds)" for j
    using that d'(2) ds'(3) Cons.prems(4) by (cases j) (simp_all add: mod_add_left_eq)
  then show ?case
    using d'(1) ds'(1,2) by (simp add: mod_add_left_eq)
qed

text \<open>
  With 31 earlier instances the identifier has 33 bits set, and initialising the first entry
  panics, although the constructor admits up to 64 instances.
\<close>

lemma monitor_id_bit31:
  "monitor_id 31 = Inr 0xFFFFFFFF80000000"
  by (simp add: monitor_id_def)

lemma setSample_wide_id: "setSample d 0xFFFFFFFF80000000 b = Inl Panic"
proof -
  have "popCount 0xFFFFFFFF80000000 \<noteq> 1" by code_simp
  then show ?thesis by (simp add: setSample_def)
qed

section \<open>The policy\<close>

record ('a, 'b) dueling =
  repl_A :: 'a
  repl_B :: 'b
  duelers :: "ent \<Rightarrow> dueler"
  duelingMonitor :: monitor
  team_size :: u64
  selectedA :: nat
  selectedB :: nat

definition Dueling_invalidate ::
    "'a repl_policy \<Rightarrow> 'b repl_policy \<Rightarrow> ('a, 'b) dueling \<Rightarrow> ent \<Rightarrow> ('a, 'b) dueling outcome" where
  "Dueling_invalidate A B s e =
     obind (rp_invalidate A (repl_A s) e) (\<lambda>a.
       obind (rp_invalidate B (repl_B s) e) (\<lambda>b. Inr (s\<lparr>repl_A := a, repl_B := b\<rparr>)))"

definition Dueling_touch ::
    "'a repl_policy \<Rightarrow> 'b repl_policy \<Rightarrow> ('a, 'b) dueling \<Rightarrow> ent \<Rightarrow> ('a, 'b) dueling outcome" where
  "Dueling_touch A B s e =
     obind (rp_touch A (repl_A s) e) (\<lambda>a.
       obind (rp_touch B (repl_B s) e) (\<lambda>b. Inr (s\<lparr>repl_A := a, repl_B := b\<rparr>)))"

definition Dueling_reset ::
    "'a repl_policy \<Rightarrow> 'b repl_policy \<Rightarrow> ('a, 'b) dueling \<Rightarrow> ent \<Rightarrow> ('a, 'b) dueling outcome" where
  "Dueling_reset A B s e =
     obind (rp_reset A (repl_A s) e) (\<lambda>a.
       obind (rp_reset B (repl_B s) e) (\<lambda>b.
         Inr (s\<lparr>repl_A := a, repl_B := b, duelingMonitor := sample (duelingMonitor s) (duelers s e)\<rparr>)))"

text \<open>The check of the loop over the candidates.\<close>

definition same_team :: "('a, 'b) dueling \<Rightarrow> bool \<Rightarrow> ent list \<Rightarrow> bool" where
  "same_team s team cs =
     list_all (\<lambda>c. let (is_sample, candidate_team) = monitor_isSample (duelingMonitor s) (duelers s c)
                   in \<not> (is_sample \<and> team \<noteq> candidate_team)) cs"

definition Dueling_getVictim ::
    "'a repl_policy \<Rightarrow> 'b repl_policy \<Rightarrow> ('a, 'b) dueling \<Rightarrow> ent list \<Rightarrow> (ent \<times> ('a, 'b) dueling) outcome" where
  "Dueling_getVictim A B s candidates =
     check (length candidates = unat (team_size s)) Panic
       (check (candidates \<noteq> []) Undefined
         (let win = \<not> getWinner (duelingMonitor s);
              (is_sample, team) = monitor_isSample (duelingMonitor s) (duelers s (hd candidates));
              team_a = ((is_sample \<and> \<not> team) \<or> (\<not> is_sample \<and> \<not> win));
              s1 = (if team_a then s\<lparr>selectedA := selectedA s + 1\<rparr> else s\<lparr>selectedB := selectedB s + 1\<rparr>)
          in check (same_team s1 team candidates) Panic
               (if team_a
                then obind (rp_getVictim A (repl_A s1) candidates) (\<lambda>(v, a). Inr (v, s1\<lparr>repl_A := a\<rparr>))
                else obind (rp_getVictim B (repl_B s1) candidates) (\<lambda>(v, b). Inr (v, s1\<lparr>repl_B := b\<rparr>)))))"

text \<open>The two instantiated data are those the policies hold for the entry.\<close>

definition Dueling_instantiateEntry ::
    "('a \<Rightarrow> ent \<Rightarrow> 'a outcome) \<Rightarrow> ('b \<Rightarrow> ent \<Rightarrow> 'b outcome) \<Rightarrow> ('a, 'b) dueling \<Rightarrow> ent \<Rightarrow> ('a, 'b) dueling outcome" where
  "Dueling_instantiateEntry instA instB s e =
     obind (instA (repl_A s) e) (\<lambda>a. obind (instB (repl_B s) e) (\<lambda>b.
       obind (initEntry (duelingMonitor s) Dueler) (\<lambda>(m, d).
         Inr (s\<lparr>repl_A := a, repl_B := b, duelingMonitor := m, duelers := (duelers s)(e := d)\<rparr>))))"

definition Dueling_policy :: "'a repl_policy \<Rightarrow> 'b repl_policy \<Rightarrow> ('a, 'b) dueling repl_policy" where
  "Dueling_policy A B =
     \<lparr>rp_invalidate = Dueling_invalidate A B, rp_touch = Dueling_touch A B,
      rp_reset = Dueling_reset A B, rp_getVictim = Dueling_getVictim A B\<rparr>"

text \<open>
  The sets the duel works on: as many candidates as the team size, all followers or all samples of
  one team.
\<close>

definition duel_set :: "('a, 'b) dueling \<Rightarrow> ent list \<Rightarrow> bool" where
  "duel_set s cs \<longleftrightarrow> cs \<noteq> [] \<and> length cs = unat (team_size s) \<and>
     (\<forall>c \<in> set cs. fst (monitor_isSample (duelingMonitor s) (duelers s c)) \<longrightarrow>
        snd (monitor_isSample (duelingMonitor s) (duelers s c)) =
        snd (monitor_isSample (duelingMonitor s) (duelers s (hd cs))))"

lemma sample_id [simp]: "m_id (sample m d) = m_id m"
  by (simp add: sample_def Let_def split_beta)

lemma duel_set_cong:
  "m_id (duelingMonitor s') = m_id (duelingMonitor s) \<Longrightarrow> duelers s' = duelers s \<Longrightarrow>
    team_size s' = team_size s \<Longrightarrow> duel_set s' cs = duel_set s cs"
  by (simp add: duel_set_def monitor_isSample_def)

lemma same_team_duel_set:
  "duel_set s cs \<Longrightarrow> same_team s (snd (monitor_isSample (duelingMonitor s) (duelers s (hd cs)))) cs"
  by (auto simp: same_team_def duel_set_def list_all_iff Let_def split_beta)

text \<open>A duel of two policies that keep the contract.\<close>

locale duel =
  A: replacement_policy A goodA ents eligibleA + B: replacement_policy B goodB ents eligibleB
  for A :: "'a repl_policy" and goodA and B :: "'b repl_policy" and goodB and ents
    and eligibleA and eligibleB
begin

definition duel_good :: "ent list set \<Rightarrow> ('a, 'b) dueling \<Rightarrow> bool" where
  "duel_good sets s \<longleftrightarrow> goodA (repl_A s) \<and> goodB (repl_B s) \<and> (\<forall>cs \<in> sets. duel_set s cs)"

lemma duel_apply:
  assumes "duel_good sets s" "rp_ent p \<in> ents"
  shows "\<exists>s'. rp_apply (Dueling_policy A B) p s = Inr s' \<and> duel_good sets s'"
proof -
  obtain a where a: "rp_apply A p (repl_A s) = Inr a" "goodA a"
    using A.apply_good [of "repl_A s" p] assms by (auto simp: duel_good_def)
  obtain b where b: "rp_apply B p (repl_B s) = Inr b" "goodB b"
    using B.apply_good [of "repl_B s" p] assms by (auto simp: duel_good_def)
  have c: "duel_good sets (s\<lparr>repl_A := a, repl_B := b\<rparr>)"
    "duel_good sets (s\<lparr>repl_A := a, repl_B := b, duelingMonitor := sample (duelingMonitor s) d\<rparr>)" for d
    using a b assms(1) by (auto simp: duel_good_def duel_set_def monitor_isSample_def)
  show ?thesis
    using a b c by (cases p)
      (simp_all add: Dueling_policy_def Dueling_invalidate_def Dueling_touch_def Dueling_reset_def)
qed

lemma duel_victim:
  assumes g: "duel_good sets s" and cs: "cs \<in> sets" "eligibleA cs" "eligibleB cs"
  shows "\<exists>v s'. Dueling_getVictim A B s cs = Inr (v, s') \<and> v \<in> set cs \<and> duel_good sets s'"
proof -
  have d: "duel_set s cs" using g cs(1) by (simp add: duel_good_def)
  obtain is_sample team where t: "monitor_isSample (duelingMonitor s) (duelers s (hd cs)) = (is_sample, team)"
    by fastforce
  define ta where "ta = ((is_sample \<and> \<not> team) \<or> (\<not> is_sample \<and> getWinner (duelingMonitor s)))"
  define s1 where "s1 = (if ta then s\<lparr>selectedA := selectedA s + 1\<rparr> else s\<lparr>selectedB := selectedB s + 1\<rparr>)"
  have s1: "repl_A s1 = repl_A s" "repl_B s1 = repl_B s" "team_size s1 = team_size s"
    "duelingMonitor s1 = duelingMonitor s" "duelers s1 = duelers s"
    by (simp_all add: s1_def)
  have "duel_set s1 cs" using d duel_set_cong [of s1 s] s1 by simp
  with same_team_duel_set [of s1 cs] s1 t have st: "same_team s1 team cs" by simp
  have eq: "Dueling_getVictim A B s cs =
      (if ta then obind (rp_getVictim A (repl_A s1) cs) (\<lambda>(v, a). Inr (v, s1\<lparr>repl_A := a\<rparr>))
       else obind (rp_getVictim B (repl_B s1) cs) (\<lambda>(v, b). Inr (v, s1\<lparr>repl_B := b\<rparr>)))"
    using d st unfolding ta_def s1_def by (simp add: Dueling_getVictim_def duel_set_def t Let_def)
  obtain v a where a: "rp_getVictim A (repl_A s1) cs = Inr (v, a)" "v \<in> set cs" "goodA a"
    using A.victim_candidate [OF _ cs(2)] g s1 by (metis duel_good_def)
  obtain w b where b: "rp_getVictim B (repl_B s1) cs = Inr (w, b)" "w \<in> set cs" "goodB b"
    using B.victim_candidate [OF _ cs(3)] g s1 by (metis duel_good_def)
  have "duel_good sets (s1\<lparr>repl_A := a\<rparr>)" "duel_good sets (s1\<lparr>repl_B := b\<rparr>)"
    using a b g s1 by (auto simp: duel_good_def duel_set_def)
  then show ?thesis using eq a b by (cases ta) auto
qed

end

sublocale duel \<subseteq> duel: replacement_policy "Dueling_policy A B" "duel_good sets" ents
  "\<lambda>cs. cs \<in> sets \<and> eligibleA cs \<and> eligibleB cs" for sets
proof
  show "\<exists>e. rp_getVictim (Dueling_policy A B) s [] = Inl e" for s
    by (simp add: Dueling_policy_def Dueling_getVictim_def check_def)
qed (use duel_apply duel_victim in \<open>auto simp: Dueling_policy_def\<close>)

text \<open>
  DRRIP, the duel the repository configures: BRRIP against BRRIP with another throttle parameter,
  each with its own number drawn.
\<close>

interpretation drrip: duel "BRRIP_policy pA drawA" "rrpv_ok mA" "BRRIP_policy pB drawB" "rrpv_ok mB" UNIV
  "\<lambda>cs. cs \<noteq> []" "\<lambda>cs. cs \<noteq> []" for pA drawA mA pB drawB mB
  by unfold_locales

section \<open>Properties\<close>

lemma filter_upt_single: "a < n \<Longrightarrow> filter (\<lambda>k. k = a) [0..<n] = [a]"
  by (induction n) (auto simp: less_Suc_eq filter_empty_conv)

lemma monitor_id_single_bit:
  assumes "unat n < 31"
  shows "\<exists>i. monitor_id n = Inr i \<and> popCount i = 1"
proof -
  let ?i = "scast (push_bit (unat n) 1 :: 32 word) :: u64"
  have "bit ?i k \<longleftrightarrow> k = unat n" if "k < 64" for k
    using assms that by (auto simp: bit_signed_iff bit_exp_iff min_def)
  then have "filter (bit ?i) [0..<64] = filter (\<lambda>k. k = unat n) [0..<64]"
    by (intro filter_cong) auto
  also have "\<dots> = [unat n]" by (rule filter_upt_single) (use assms in simp)
  finally have "popCount ?i = 1" by (simp add: popCount_def)
  with assms show ?thesis by (simp add: monitor_id_def)
qed

text \<open>
  A monitor constructed while fewer than 31 others exist assigns the entries it initialises to
  teams by their position in the constituency: the first \<open>team_size\<close> of each constituency sample
  for team false, the last \<open>team_size\<close> for team true, the others follow; no call aborts.
\<close>

theorem dueling_teams:
  assumes "DuelingMonitor n c t nb lo hi = Inr (m, n')"
    and "unat n < 31" "unat c < 2 ^ 31" "0 < unat c" "2 * unat t \<le> unat c"
  shows "\<exists>m' ds. init_all (replicate k Dueler) m = Inr (m', ds) \<and> length ds = k \<and>
    (\<forall>j < k. dueler_in (m_id m) (team_of (unat c) (unat t) (j mod unat c)) (ds ! j))"
proof -
  have m: "popCount (m_id m) = 1" "constituencySize m = c" "teamSize m = t" "regionCounter m = int 0"
    using assms(1) monitor_id_single_bit [OF assms(2)] by (auto simp: DuelingMonitor_def)
  have "\<forall>d \<in> set (replicate k Dueler). fresh_dueler (m_id m) d"
    by (auto simp: fresh_dueler_def Dueler_def)
  from init_all_teams [OF m(1) this m(4), unfolded m(2,3), OF assms(4,3,5)]
  show ?thesis by auto
qed

theorem dueling_teams_witness:
  "\<exists>m m' ds. DuelingMonitor 3 8 2 10 (1/2) (1/2) = Inr (m, 4) \<and>
    init_all (replicate 9 Dueler) m = Inr (m', ds) \<and> length ds = 9 \<and>
    Dueler_isSample (ds ! 1) (m_id m) = (True, False) \<and> fst (Dueler_isSample (ds ! 2) (m_id m)) = False \<and>
    Dueler_isSample (ds ! 7) (m_id m) = (True, True) \<and> Dueler_isSample (ds ! 8) (m_id m) = (True, False)"
proof -
  obtain m where m: "DuelingMonitor 3 8 2 10 (1/2) (1/2) = Inr (m, 4)"
    by (simp add: DuelingMonitor_def monitor_id_def GenericSatCounter_def sc_shr_def saturate_def
        promoted_width_def)
  from dueling_teams [OF m, of 9] obtain m' ds where
    d: "init_all (replicate 9 Dueler) m = Inr (m', ds)" "length ds = 9"
      "\<forall>j < 9. dueler_in (m_id m) (team_of 8 2 (j mod 8)) (ds ! j)" by auto
  have "dueler_in (m_id m) (Some False) (ds ! 1)" "dueler_in (m_id m) None (ds ! 2)"
    "dueler_in (m_id m) (Some True) (ds ! 7)" "dueler_in (m_id m) (Some False) (ds ! 8)"
    using d(3) [rule_format, of 1] d(3) [rule_format, of 2] d(3) [rule_format, of 7] d(3) [rule_format, of 8]
    by (simp_all add: team_of_def)
  with m d(1,2) show ?thesis unfolding dueler_in_def by auto
qed

end
