(* ===== verification/Indexing.thy ===== *)
theory Indexing
  imports Intmath Replacement "HOL-Library.Signed_Division"
begin

text \<open>
  The indexing policies of associative structures (\<^verbatim>\<open>mem/cache/tags/indexing_policies\<close>): the
  base class template (\<^verbatim>\<open>base.hh\<close>), set associative indexing (\<^verbatim>\<open>set_associative.cc\<close>, with the
  same functions for tagged keys in \<^verbatim>\<open>mem/cache/tags/tagged_entry.hh\<close>) and skewed associative
  indexing (\<^verbatim>\<open>skewed_associative.cc\<close>), and the position members of
  \<^verbatim>\<open>replacement_policies/replaceable_entry.hh\<close>, which the record keeps per entry.

  The skewing functions are linear maps over the bits of the set number. Their inverses are
  shown correct for every way, which gives that an address is regenerated from the tag and the
  position of its entry. For set associative indexing the same holds as long as the tag starts
  within the low 32 bits, where the source shifts the set number.
\<close>

section \<open>The base class\<close>

record indexing =
  assoc :: u32
  numSets :: u32
  setShift :: nat
  setMask :: u32
  tagShift :: nat
  sets :: "ent option list list"
  position :: "ent \<Rightarrow> u32 \<times> u32"

definition IndexingPolicy :: "u32 \<Rightarrow> u32 \<Rightarrow> nat \<Rightarrow> indexing outcome" where
  "IndexingPolicy p_assoc num_entries set_shift =
     check (p_assoc \<noteq> 0) Undefined
       (let num_sets = num_entries div p_assoc
        in obind (floorLog2 4 (uint num_sets)) (\<lambda>l.
             check (isPowerOf2 num_sets) Fatal
               (check (\<not> p_assoc \<le> 0) Fatal
                 (Inr \<lparr>assoc = p_assoc, numSets = num_sets, setShift = set_shift,
                       setMask = num_sets - 1, tagShift = set_shift + l,
                       sets = replicate (unat num_sets) (replicate (unat p_assoc) None),
                       position = (\<lambda>_. (0, 0))\<rparr>))))"

definition setPosition :: "'a indexing_scheme \<Rightarrow> ent \<Rightarrow> u32 \<Rightarrow> u32 \<Rightarrow> 'a indexing_scheme" where
  "setPosition ix e st way = ix\<lparr>position := (position ix)(e := (st, way))\<rparr>"

definition getSet :: "'a indexing_scheme \<Rightarrow> ent \<Rightarrow> u32" where
  "getSet ix e = fst (position ix e)"

definition getWay :: "'a indexing_scheme \<Rightarrow> ent \<Rightarrow> u32" where
  "getWay ix e = snd (position ix e)"

definition setEntry :: "'a indexing_scheme \<Rightarrow> ent \<Rightarrow> u64 \<Rightarrow> 'a indexing_scheme outcome" where
  "setEntry ix e index =
     (let st = word_of_int (sint index sdiv uint (assoc ix)) :: u32;
          way = word_of_int (sint index smod uint (assoc ix)) :: u32
      in check (st < numSets ix) Assert_Failed
           (check (unat st < length (sets ix) \<and> unat way < length (sets ix ! unat st)) Undefined
             (Inr (setPosition
               (ix\<lparr>sets := (sets ix)[unat st := (sets ix ! unat st)[unat way := Some e]]\<rparr>) e st way))))"

definition getEntry :: "'a indexing_scheme \<Rightarrow> u32 \<Rightarrow> u32 \<Rightarrow> ent option outcome" where
  "getEntry ix st way =
     check (unat st < length (sets ix) \<and> unat way < length (sets ix ! unat st)) Undefined
       (Inr (sets ix ! unat st ! unat way))"

definition extractTag :: "'a indexing_scheme \<Rightarrow> addr \<Rightarrow> addr" where
  "extractTag ix a = drop_bit (tagShift ix) a"

section \<open>Set associative indexing\<close>

definition SetAssociative :: "u64 \<Rightarrow> int \<Rightarrow> u32 \<Rightarrow> indexing outcome" where
  "SetAssociative p_size entry_size p_assoc =
     check (entry_size \<noteq> 0) Undefined
       (obind (floorLog2 4 entry_size) (\<lambda>l.
         IndexingPolicy p_assoc (ucast (p_size div word_of_int entry_size)) l))"

definition SetAssociative_extractSet :: "'a indexing_scheme \<Rightarrow> addr \<Rightarrow> u32" where
  "SetAssociative_extractSet ix a = ucast (drop_bit (setShift ix) a AND ucast (setMask ix))"

text \<open>The set number is shifted as a 32-bit integer and then widened.\<close>

definition SetAssociative_regenerateAddr :: "'a indexing_scheme \<Rightarrow> addr \<Rightarrow> ent \<Rightarrow> addr" where
  "SetAssociative_regenerateAddr ix tag e =
     push_bit (tagShift ix) tag OR ucast (push_bit (setShift ix) (getSet ix e))"

definition SetAssociative_getPossibleEntries :: "'a indexing_scheme \<Rightarrow> addr \<Rightarrow> ent option list outcome" where
  "SetAssociative_getPossibleEntries ix a =
     check (unat (SetAssociative_extractSet ix a) < length (sets ix)) Undefined
       (Inr (sets ix ! unat (SetAssociative_extractSet ix a)))"

section \<open>Skewed associative indexing\<close>

record skewed = indexing +
  msbShift :: nat

definition SkewedAssociative :: "u64 \<Rightarrow> int \<Rightarrow> u32 \<Rightarrow> skewed outcome" where
  "SkewedAssociative p_size entry_size p_assoc =
     obind (SetAssociative p_size entry_size p_assoc) (\<lambda>ix.
       obind (floorLog2 4 (uint (numSets ix))) (\<lambda>l.
         let msb_shift = int l - 1
         in check (\<not> int (setShift ix) + 2 * (msb_shift + 1) > 64) Panic
              (check (\<not> numSets ix \<le> 2) Fatal
                (Inr (indexing.extend ix \<lparr>msbShift = nat msb_shift\<rparr>)))))"

definition hash :: "nat \<Rightarrow> addr \<Rightarrow> addr" where
  "hash msb_shift a =
     (let lsb = bits1 a 0;
          msb = bits1 a msb_shift;
          xor_bit = msb XOR lsb
      in insertBits1 (drop_bit 1 a) msb_shift xor_bit)"

definition dehash :: "nat \<Rightarrow> addr \<Rightarrow> addr" where
  "dehash msb_shift a =
     (let msb = bits1 a (msb_shift - 1);
          xor_bit = bits1 a msb_shift;
          lsb = msb XOR xor_bit;
          addr_no_msb = mbits a (msb_shift - 1) 0
      in insertBits1 (push_bit 1 addr_no_msb) 0 lsb)"

text \<open>The \<^verbatim>\<open>switch\<close> of \<^verbatim>\<open>skew\<close> and of \<^verbatim>\<open>deskew\<close>, by the number of the skewing function.\<close>

definition skew_switch :: "nat \<Rightarrow> addr \<Rightarrow> addr \<Rightarrow> nat \<Rightarrow> addr outcome" where
  "skew_switch ms addr1 addr2 f =
     (let h = hash ms; d = dehash ms
      in if f = 0 then Inr (h addr1 XOR h addr2 XOR addr2)
         else if f = 1 then Inr (h addr1 XOR h addr2 XOR addr1)
         else if f = 2 then Inr (h addr1 XOR d addr2 XOR addr2)
         else if f = 3 then Inr (h addr1 XOR d addr2 XOR addr1)
         else if f = 4 then Inr (d addr1 XOR h addr2 XOR addr2)
         else if f = 5 then Inr (d addr1 XOR h addr2 XOR addr1)
         else if f = 6 then Inr (d addr1 XOR d addr2 XOR addr2)
         else if f = 7 then Inr (d addr1 XOR d addr2 XOR addr1)
         else Inl Panic)"

definition skew :: "nat \<Rightarrow> addr \<Rightarrow> u32 \<Rightarrow> addr outcome" where
  "skew ms a way =
     (let addr1 = bits a ms 0;
          addr2 = bits a (2 * (ms + 1) - 1) (ms + 1)
      in obind (skew_switch ms addr1 addr2 (unat (way mod 8))) (\<lambda>addr1.
           Inr ((hash ms ^^ unat (way div 8)) addr1)))"

definition deskew_switch :: "nat \<Rightarrow> addr \<Rightarrow> addr \<Rightarrow> nat \<Rightarrow> addr outcome" where
  "deskew_switch ms addr1 addr2 f =
     (let h = hash ms; d = dehash ms
      in if f = 0 then Inr (d (addr1 XOR h addr2 XOR addr2))
         else if f = 1 then Inr ((h ^^ ms) (addr1 XOR h addr2))
         else if f = 2 then Inr (d (addr1 XOR d addr2 XOR addr2))
         else if f = 3 then Inr ((h ^^ ms) (addr1 XOR d addr2))
         else if f = 4 then Inr (h (addr1 XOR h addr2 XOR addr2))
         else if f = 5 then Inr ((h ^^ (ms + 1)) (addr1 XOR h addr2))
         else if f = 6 then Inr (h (addr1 XOR d addr2 XOR addr2))
         else if f = 7 then Inr ((h ^^ (ms + 1)) (addr1 XOR d addr2))
         else Inl Panic)"

definition deskew :: "nat \<Rightarrow> addr \<Rightarrow> u32 \<Rightarrow> addr outcome" where
  "deskew ms a way =
     (let addr1 = bits a ms 0;
          addr2 = bits a (2 * (ms + 1) - 1) (ms + 1);
          addr1 = (if way \<ge> 8 then (dehash ms ^^ unat (way div 8)) addr1 else addr1)
      in deskew_switch ms addr1 addr2 (unat (way mod 8)))"

definition SkewedAssociative_extractSet :: "'a skewed_scheme \<Rightarrow> addr \<Rightarrow> u32 \<Rightarrow> u32 outcome" where
  "SkewedAssociative_extractSet ix a way =
     obind (skew (msbShift ix) (drop_bit (setShift ix) a) way) (\<lambda>s. Inr (ucast (s AND ucast (setMask ix))))"

definition SkewedAssociative_regenerateAddr :: "'a skewed_scheme \<Rightarrow> addr \<Rightarrow> ent \<Rightarrow> addr outcome" where
  "SkewedAssociative_regenerateAddr ix tag e =
     (let addr_set = push_bit (msbShift ix + 1) tag OR ucast (getSet ix e)
      in obind (deskew (msbShift ix) addr_set (getWay ix e)) (\<lambda>s.
           Inr (push_bit (tagShift ix) tag OR push_bit (setShift ix) (s AND ucast (setMask ix)))))"

fun skewed_ways :: "'a skewed_scheme \<Rightarrow> addr \<Rightarrow> nat list \<Rightarrow> ent option list outcome" where
  "skewed_ways ix a [] = Inr []"
| "skewed_ways ix a (w # ws) =
     obind (SkewedAssociative_extractSet ix a (of_nat w)) (\<lambda>st.
       obind (getEntry ix st (of_nat w)) (\<lambda>e. obind (skewed_ways ix a ws) (\<lambda>es. Inr (e # es))))"

definition SkewedAssociative_getPossibleEntries :: "'a skewed_scheme \<Rightarrow> addr \<Rightarrow> ent option list outcome" where
  "SkewedAssociative_getPossibleEntries ix a = skewed_ways ix a [0..<unat (assoc ix)]"

section \<open>The skewing functions\<close>

text \<open>\<open>low n a\<close>: the value has at most \<open>n\<close> bits.\<close>

definition low :: "nat \<Rightarrow> u64 \<Rightarrow> bool" where
  "low n a \<longleftrightarrow> (\<forall>i \<ge> n. \<not> bit a i)"

lemma low_eqI: "low n a \<Longrightarrow> low n b \<Longrightarrow> (\<And>i. i < n \<Longrightarrow> bit a i = bit b i) \<Longrightarrow> a = b"
  by (metis bit_eqI low_def linorder_not_le)

lemma low_xor [simp]: "low n a \<Longrightarrow> low n b \<Longrightarrow> low n (a XOR b)"
  by (simp add: low_def bit_xor_iff)

lemma low_bits [simp]: "f - l < n \<Longrightarrow> low n (bits a f l)"
  by (auto simp: low_def bit_bits)

lemma bit_hash:
  assumes "m \<le> 62" "low (Suc m) a"
  shows "bit (hash m a) i \<longleftrightarrow> (if i = m then bit a 0 \<noteq> bit a m else bit a (Suc i))"
  using assms by (auto simp: hash_def Let_def insertBits1_def bit_insertBits bit_xor_iff bit_bits1 bit_drop_bit_eq)

lemma bit_mbits [bit_char]: "f < 64 \<Longrightarrow> bit (mbits v f l) i \<longleftrightarrow> bit v i \<and> l \<le> i \<and> i \<le> f"
  by (auto simp: mbits_def bit_simps dest: bit_u64_lt)

lemma bit_push_bit_u64: "bit (push_bit k (v :: u64)) i \<longleftrightarrow> k \<le> i \<and> i < 64 \<and> bit v (i - k)"
  by (auto simp: bit_push_bit_iff dest: bit_u64_lt)

lemma bit_dehash:
  assumes "0 < m" "m \<le> 62" "low (Suc m) a"
  shows "bit (dehash m a) i \<longleftrightarrow> (if i = 0 then bit a (m - 1) \<noteq> bit a m else i \<le> m \<and> bit a (i - 1))"
proof -
  have "bit (dehash m a) i \<longleftrightarrow>
      (if i = 0 then bit a (m - 1) \<noteq> bit a m else bit (push_bit 1 (mbits a (m - 1) 0)) i)"
    by (simp only: dehash_def Let_def insertBits1_def bit_insertBits bit_xor_iff bit_bits1) simp
  with assms show ?thesis
    by (simp only: bit_push_bit_u64 bit_mbits) auto
qed

lemma hash_low [simp]: "m \<le> 62 \<Longrightarrow> low (Suc m) a \<Longrightarrow> low (Suc m) (hash m a)"
  unfolding low_def [of _ "hash m a"] by (auto simp: bit_hash) (auto simp: low_def)

lemma dehash_low [simp]: "0 < m \<Longrightarrow> m \<le> 62 \<Longrightarrow> low (Suc m) a \<Longrightarrow> low (Suc m) (dehash m a)"
  unfolding low_def [of _ "dehash m a"] by (auto simp: bit_dehash)

lemma hash_dehash:
  assumes "0 < m" "m \<le> 62" "low (Suc m) a"
  shows "hash m (dehash m a) = a"
proof (rule low_eqI [where n = "Suc m"])
  show "bit (hash m (dehash m a)) i = bit a i" if "i < Suc m" for i
    using assms that by (simp add: bit_hash) (auto simp: bit_dehash)
qed (use assms in auto)

lemma dehash_hash:
  assumes "0 < m" "m \<le> 62" "low (Suc m) a"
  shows "dehash m (hash m a) = a"
proof (rule low_eqI [where n = "Suc m"])
  show "bit (dehash m (hash m a)) i = bit a i" if "i < Suc m" for i
    using assms that by (simp add: bit_dehash) (auto simp: bit_hash)
qed (use assms in auto)

lemma hash_xor:
  assumes "m \<le> 62" "low (Suc m) a" "low (Suc m) b"
  shows "hash m (a XOR b) = hash m a XOR hash m b"
  by (rule bit_eqI) (use assms in \<open>simp add: bit_hash bit_xor_iff; blast\<close>)

text \<open>
  The bits of the iterated hash are the windows of the sequence that starts with the bits of the
  value and continues with the sum of the previous element and the one \<open>m + 1\<close> places before.
\<close>

function hash_seq :: "nat \<Rightarrow> u64 \<Rightarrow> nat \<Rightarrow> bool" where
  "hash_seq m a j = (if j \<le> m then bit a j else hash_seq m a (j - 1) \<noteq> hash_seq m a (j - Suc m))"
  by auto
termination by (relation "measure (\<lambda>(m, a, j). j)") auto

declare hash_seq.simps [simp del]

lemma hash_pow_low [simp]: "m \<le> 62 \<Longrightarrow> low (Suc m) a \<Longrightarrow> low (Suc m) ((hash m ^^ k) a)"
  by (induction k) auto

lemma bit_hash_pow:
  assumes "m \<le> 62" "low (Suc m) a" "i \<le> m"
  shows "bit ((hash m ^^ k) a) i = hash_seq m a (i + k)"
  using assms(3)
proof (induction k arbitrary: i)
  case 0
  then show ?case by (simp add: hash_seq.simps)
next
  case (Suc k)
  have l: "low (Suc m) ((hash m ^^ k) a)" using assms by simp
  show ?case
  proof (cases "i = m")
    case True
    have "hash_seq m a (Suc (m + k)) \<longleftrightarrow> hash_seq m a (m + k) \<noteq> hash_seq m a k"
      by (subst hash_seq.simps) simp
    with True Suc.IH [of 0] Suc.IH [of m] show ?thesis
      by (auto simp: bit_hash [OF assms(1) l])
  next
    case False
    with Suc show ?thesis by (simp add: bit_hash [OF assms(1) l])
  qed
qed

lemma hash_pow_sum:
  assumes "m \<le> 62" "low (Suc m) a"
  shows "(hash m ^^ Suc m) a XOR (hash m ^^ m) a = a"
proof (rule low_eqI [where n = "Suc m"])
  show "bit ((hash m ^^ Suc m) a XOR (hash m ^^ m) a) i = bit a i" if i: "i < Suc m" for i
  proof -
    have "hash_seq m a (i + Suc m) \<longleftrightarrow> hash_seq m a (i + m) \<noteq> hash_seq m a i"
      by (subst hash_seq.simps) simp
    moreover have "hash_seq m a i = bit a i" using i by (simp add: hash_seq.simps)
    moreover have "i \<le> m" using i by simp
    ultimately show ?thesis
      using bit_hash_pow [OF assms, of i "Suc m"] bit_hash_pow [OF assms, of i m]
      by (simp only: bit_xor_iff) blast
  qed
qed (use assms in \<open>simp_all del: funpow.simps\<close>)

lemma hash_pow_xor:
  assumes "m \<le> 62" "low (Suc m) a" "low (Suc m) b"
  shows "(hash m ^^ k) (a XOR b) = (hash m ^^ k) a XOR (hash m ^^ k) b"
  by (induction k) (use assms in \<open>auto simp: hash_xor\<close>)

lemma hash_pow_undo:
  assumes "m \<le> 62" "low (Suc m) a"
  shows "(hash m ^^ m) (hash m a XOR a) = a"
  using hash_pow_sum [OF assms] assms by (simp add: hash_pow_xor funpow_swap1)

lemma hash_pow_undo_dehash:
  assumes "0 < m" "m \<le> 62" "low (Suc m) a"
  shows "(hash m ^^ Suc m) (dehash m a XOR a) = a"
proof -
  have "hash m (dehash m a XOR a) = hash m a XOR a"
    using assms by (simp add: hash_xor hash_dehash xor.commute)
  with hash_pow_undo [OF assms(2,3)] show ?thesis by (simp add: funpow_swap1)
qed

lemma dehash_pow_hash_pow:
  assumes "0 < m" "m \<le> 62" "low (Suc m) a"
  shows "(dehash m ^^ k) ((hash m ^^ k) a) = a"
proof (induction k)
  case (Suc k)
  have "dehash m ((hash m ^^ Suc k) a) = (hash m ^^ k) a"
    using assms dehash_hash [of m "(hash m ^^ k) a"] by simp
  then show ?case using Suc by (simp add: funpow_swap1)
qed simp

lemma way_mod_8: "unat ((way :: u32) mod 8) < 8"
  by (simp add: unat_mod)

lemma skew_switch_total:
  assumes "0 < m" "m \<le> 62" "f < 8" "low (Suc m) a" "low (Suc m) b"
  shows "\<exists>s. skew_switch m a b f = Inr s \<and> low (Suc m) s"
  using assms by (auto simp: skew_switch_def Let_def)

lemma deskew_switch_skew:
  assumes m: "0 < m" "m \<le> 62" and l: "low (Suc m) a" "low (Suc m) b"
    and s: "skew_switch m a b f = Inr s"
  shows "deskew_switch m s b f = Inr a"
proof -
  note inv = hash_dehash [OF m l(1)] dehash_hash [OF m l(1)] hash_pow_undo [OF m(2) l(1)]
    hash_pow_undo_dehash [OF m l(1)]
  have x: "(p XOR q XOR r) XOR q XOR r = p" "(p XOR q XOR r) XOR q = p XOR r" for p q r :: u64
    by (rule bit_eqI, auto simp: bit_xor_iff)+
  show ?thesis
    using s inv by (auto simp: skew_switch_def deskew_switch_def Let_def x split: if_splits
        simp del: funpow.simps)
qed

lemma skew_total:
  assumes "0 < m" "m \<le> 30"
  shows "\<exists>s. skew m a way = Inr s \<and> low (Suc m) s"
proof -
  obtain s where "skew_switch m (bits a m 0) (bits a (2 * (m + 1) - 1) (m + 1)) (unat (way mod 8)) = Inr s"
    "low (Suc m) s"
    using skew_switch_total [OF assms(1) _ way_mod_8 [of way], of "bits a m 0"
        "bits a (2 * (m + 1) - 1) (m + 1)"] assms(2) by auto
  then show ?thesis using assms by (simp add: skew_def Let_def)
qed

lemma undo_piled:
  assumes "0 < m" "m \<le> 62" "low (Suc m) a"
  shows "(if (way :: u32) \<ge> 8 then (dehash m ^^ unat (way div 8)) ((hash m ^^ unat (way div 8)) a)
      else (hash m ^^ unat (way div 8)) a) = a"
proof (cases "way \<ge> 8")
  case False
  then have "unat (way div 8) = 0" by (simp add: unat_div word_le_nat_alt)
  with False show ?thesis by simp
qed (use dehash_pow_hash_pow [OF assms] in simp)

lemma deskew_skew:
  assumes m: "0 < m" "m \<le> 30" and s: "skew m a way = Inr s"
    and b: "bits b m 0 = s" "bits b (2 * (m + 1) - 1) (m + 1) = bits a (2 * (m + 1) - 1) (m + 1)"
  shows "deskew m b way = Inr (bits a m 0)"
proof -
  let ?a1 = "bits a m 0" and ?a2 = "bits a (2 * (m + 1) - 1) (m + 1)"
  have l: "low (Suc m) ?a1" "low (Suc m) ?a2" by simp_all
  have m': "m \<le> 62" using m(2) by simp
  obtain s0 where s0: "skew_switch m ?a1 ?a2 (unat (way mod 8)) = Inr s0"
    and p: "(hash m ^^ unat (way div 8)) s0 = s"
    using s by (auto simp: skew_def Let_def)
  have "low (Suc m) s0" using skew_switch_total [OF m(1) m' way_mod_8 [of way] l] s0 by auto
  note u = undo_piled [OF m(1) m' this, of way, unfolded p]
  show ?thesis
    unfolding deskew_def Let_def b u by (rule deskew_switch_skew [OF m(1) m' l s0])
qed

section \<open>Regenerating addresses\<close>

definition index_wf :: "'a indexing_scheme \<Rightarrow> nat \<Rightarrow> bool" where
  "index_wf ix k \<longleftrightarrow> k < 32 \<and> numSets ix = 2 ^ k \<and> setMask ix = 2 ^ k - 1 \<and>
     tagShift ix = setShift ix + k \<and> 0 < unat (assoc ix)"

lemma floorLog2_pow2:
  assumes "k < 32"
  shows "floorLog2 4 (2 ^ k) = Inr k"
proof -
  have "(2 :: int) ^ k < 2 ^ (8 * 4)" by (rule power_strict_increasing) (use assms in simp_all)
  then obtain y where y: "floorLog2 4 (2 ^ k) = Inr y" "2 ^ y \<le> (2 :: int) ^ k" "(2 :: int) ^ k < 2 ^ (y + 1)"
    using floorLog2_bounds [of 4 "2 ^ k"] by auto
  have "y \<le> k" using y(2) by (rule power_le_imp_le_exp [rotated]) simp
  moreover have "k < y + 1" using y(3) by (rule power_less_imp_less_exp [rotated]) simp
  ultimately show ?thesis using y(1) by simp
qed

lemma IndexingPolicy_wf:
  assumes "IndexingPolicy p_assoc n sh = Inr ix"
  shows "\<exists>k. index_wf ix k \<and> setShift ix = sh \<and> assoc ix = p_assoc"
proof -
  let ?n = "n div p_assoc"
  obtain l where l: "floorLog2 4 (uint ?n) = Inr l" and p: "isPowerOf2 ?n" "p_assoc \<noteq> 0"
    and ix: "ix = \<lparr>assoc = p_assoc, numSets = ?n, setShift = sh, setMask = ?n - 1, tagShift = sh + l,
       sets = replicate (unat ?n) (replicate (unat p_assoc) None), position = (\<lambda>_. (0, 0))\<rparr>"
    using assms by (auto simp: IndexingPolicy_def Let_def)
  obtain k where k: "k < 32" "?n = 2 ^ k" using p(1) by (auto simp: isPowerOf2_iff)
  have u: "uint ?n = 2 ^ k" using unat_pow2 [of k, where 'a = 32] k by (simp add: uint_nat)
  then have "l = k" using l floorLog2_pow2 [OF k(1)] by simp
  with ix k p(2) show ?thesis by (auto simp: index_wf_def unat_gt_0)
qed

lemma SetAssociative_wf:
  assumes "SetAssociative p_size es p_assoc = Inr ix"
  shows "\<exists>k. index_wf ix k \<and> assoc ix = p_assoc"
  using assms IndexingPolicy_wf by (auto simp: SetAssociative_def)

lemma bit_setMask:
  "index_wf ix k \<Longrightarrow> bit (setMask ix) i \<longleftrightarrow> i < k"
  "index_wf ix k \<Longrightarrow> bit (ucast (setMask ix) :: u64) i \<longleftrightarrow> i < k"
  by (auto simp: index_wf_def bit_unsigned_iff bit_mask_iff simp flip: mask_eq_exp_minus_1)

lemma bit_extractTag: "bit (extractTag ix a) i = bit a (tagShift ix + i)"
  by (simp add: extractTag_def bit_drop_bit_eq)

lemma bit_extractSet:
  assumes "index_wf ix k"
  shows "bit (SetAssociative_extractSet ix a) i \<longleftrightarrow> i < k \<and> bit a (setShift ix + i)"
proof -
  have "k < 32" using assms by (simp add: index_wf_def)
  then show ?thesis
    by (auto simp: SetAssociative_extractSet_def bit_unsigned_iff bit_and_iff bit_setMask [OF assms]
        bit_drop_bit_eq)
qed

lemma bit_clear_low: "bit (a AND NOT (mask n)) i \<longleftrightarrow> n \<le> i \<and> bit (a :: u64) i"
  by (auto simp: bit_simps dest: bit_u64_lt)

lemma SetAssociative_regenerate:
  assumes wf: "index_wf ix k" and t: "tagShift ix \<le> 32"
    and e: "getSet ix e = SetAssociative_extractSet ix a"
  shows "SetAssociative_regenerateAddr ix (extractTag ix a) e = a AND NOT (mask (setShift ix))"
proof (rule word64_eqI)
  fix i :: nat assume "i < 64"
  have sh: "tagShift ix = setShift ix + k" using wf by (simp add: index_wf_def)
  have "bit (ucast (push_bit (setShift ix) (getSet ix e)) :: u64) i \<longleftrightarrow>
      setShift ix \<le> i \<and> i < setShift ix + k \<and> bit a i"
    using t sh \<open>i < 64\<close>
    by (auto simp: e bit_unsigned_iff bit_push_bit_iff bit_extractSet [OF wf])
  moreover have "bit (push_bit (tagShift ix) (extractTag ix a)) i \<longleftrightarrow> tagShift ix \<le> i \<and> bit a i"
    using \<open>i < 64\<close> by (auto simp: bit_push_bit_u64 bit_extractTag)
  ultimately show "bit (SetAssociative_regenerateAddr ix (extractTag ix a) e) i =
      bit (a AND NOT (mask (setShift ix))) i"
    unfolding SetAssociative_regenerateAddr_def bit_or_iff bit_clear_low using sh by auto
qed

text \<open>
  Beyond 32 bits the shift of the set number loses bits: with 64-byte blocks and \<open>2 ^ 27\<close> sets the
  block at \<open>2 ^ 32\<close> is regenerated as address 0.
\<close>

lemma SetAssociative_regenerate_loses_bits:
  assumes "index_wf ix 27" "setShift ix = 6" "getSet ix e = SetAssociative_extractSet ix (2 ^ 32)"
  shows "SetAssociative_regenerateAddr ix (extractTag ix (2 ^ 32)) e = 0"
proof -
  have "setMask ix = 2 ^ 27 - 1" "tagShift ix = 33" using assms(1,2) by (simp_all add: index_wf_def)
  then show ?thesis
    using assms(2,3) by (simp add: SetAssociative_regenerateAddr_def SetAssociative_extractSet_def
        extractTag_def)
qed

lemma SkewedAssociative_wf:
  assumes "SkewedAssociative p_size es p_assoc = Inr ix"
  shows "\<exists>k. index_wf ix k \<and> msbShift ix + 1 = k \<and> 2 \<le> k \<and> setShift ix + 2 * k \<le> 64"
proof -
  obtain b l where b: "SetAssociative p_size es p_assoc = Inr b"
    and l: "floorLog2 4 (uint (numSets b)) = Inr l" and c: "int (setShift b) + 2 * (int l - 1 + 1) \<le> 64"
    and n: "\<not> numSets b \<le> 2" and ix: "ix = indexing.extend b \<lparr>msbShift = nat (int l - 1)\<rparr>"
    using assms by (auto simp: SkewedAssociative_def Let_def not_less)
  obtain k where k: "index_wf b k" using SetAssociative_wf [OF b] by blast
  have u: "uint (numSets b) = 2 ^ k" using unat_pow2 [of k, where 'a = 32] k by (simp add: uint_nat index_wf_def)
  have "k < 32" using k by (simp add: index_wf_def)
  then have lk: "l = k" using l u floorLog2_pow2 by simp
  have "2 < uint (numSets b)" using n by (simp add: word_le_def not_le)
  then have "(2 :: int) ^ 1 < 2 ^ k" using u by simp
  then have "1 < k" by (rule power_less_imp_less_exp [rotated]) simp
  with k c lk show ?thesis
    unfolding ix by (auto simp: index_wf_def indexing.defs)
qed

lemma setPosition_simps [simp]:
  "assoc (setPosition ix e st way) = assoc ix" "numSets (setPosition ix e st way) = numSets ix"
  "setShift (setPosition ix e st way) = setShift ix" "setMask (setPosition ix e st way) = setMask ix"
  "tagShift (setPosition ix e st way) = tagShift ix" "sets (setPosition ix e st way) = sets ix"
  "getSet (setPosition ix e st way) e = st" "getWay (setPosition ix e st way) e = way"
  "extractTag (setPosition ix e st way) a = extractTag ix a"
  "SetAssociative_extractSet (setPosition ix e st way) a = SetAssociative_extractSet ix a"
  "index_wf (setPosition ix e st way) k = index_wf ix k"
  by (simp_all add: setPosition_def getSet_def getWay_def extractTag_def SetAssociative_extractSet_def
      index_wf_def)

lemma msbShift_setPosition [simp]: "msbShift (setPosition ix e st way) = msbShift ix"
  by (simp add: setPosition_def)

lemma masked_less:
  fixes w :: "'a::len word"
  assumes "w AND mask k = w" "k < LENGTH('a)"
  shows "w < 2 ^ k"
proof -
  have "unat w = unat w mod 2 ^ k" using unat_and_mask_word [of w k] assms(1) by simp
  moreover have "unat w mod 2 ^ k < 2 ^ k" by simp
  ultimately have "unat w < 2 ^ k" by simp
  then show ?thesis by (simp add: word_less_nat_alt unat_pow2 [OF assms(2)])
qed

lemma SkewedAssociative_extractSet_total:
  assumes wf: "index_wf ix k" and m: "msbShift ix + 1 = k" "2 \<le> k"
  shows "\<exists>s st. skew (msbShift ix) (drop_bit (setShift ix) a) way = Inr s \<and> low k s \<and>
    SkewedAssociative_extractSet ix a way = Inr st \<and> (ucast st :: u64) = s \<and> st < numSets ix"
proof -
  have k: "k < 32" "numSets ix = 2 ^ k" using wf by (simp_all add: index_wf_def)
  have ms: "0 < msbShift ix" "msbShift ix \<le> 30" using k m by simp_all
  obtain s where s: "skew (msbShift ix) (drop_bit (setShift ix) a) way = Inr s" "low k s"
    using skew_total [OF ms, of "drop_bit (setShift ix) a" way] m(1) by auto
  let ?st = "ucast (s AND ucast (setMask ix)) :: u32"
  have u: "(ucast ?st :: u64) = s"
  proof (rule word64_eqI)
    fix i :: nat assume "i < 64"
    show "bit (ucast ?st :: u64) i = bit s i"
      using s(2) k(1) \<open>i < 64\<close>
      by (cases "i < k") (auto simp: bit_unsigned_iff bit_and_iff bit_setMask [OF wf] low_def)
  qed
  have "?st AND mask k = ?st"
    by (rule bit_word_eqI) (auto simp: bit_unsigned_iff bit_and_iff bit_setMask [OF wf] bit_mask_iff)
  then have "?st < numSets ix" unfolding k(2) by (rule masked_less) (use k(1) in simp)
  with s u show ?thesis by (simp add: SkewedAssociative_extractSet_def)
qed

lemma bits_regenerated:
  assumes s: "low k s" and k: "0 < k" "2 * k \<le> 64"
    and t: "\<And>j. bit tag j = bit a' (k + j)"
  defines "b \<equiv> push_bit k tag OR s"
  shows "bits b (k - 1) 0 = s" "bits b (2 * k - 1) k = bits a' (2 * k - 1) k"
proof -
  have "bit s n \<Longrightarrow> n < k" for n using s unfolding low_def by (meson not_less)
  then show "bits b (k - 1) 0 = s"
    using k(1) by (intro bit_eqI) (auto simp: b_def bit_bits bit_or_iff bit_push_bit_u64)
  show "bits b (2 * k - 1) k = bits a' (2 * k - 1) k"
    using s k t by (intro bit_eqI) (auto simp: b_def bit_bits bit_or_iff bit_push_bit_u64 low_def dest: bit_u64_lt)
qed

lemma SkewedAssociative_regenerate:
  assumes wf: "index_wf ix k" and m: "msbShift ix + 1 = k" "2 \<le> k" "setShift ix + 2 * k \<le> 64"
    and e: "SkewedAssociative_extractSet ix a (getWay ix e) = Inr (getSet ix e)"
  shows "SkewedAssociative_regenerateAddr ix (extractTag ix a) e = Inr (a AND NOT (mask (setShift ix)))"
proof -
  let ?m = "msbShift ix" and ?a = "drop_bit (setShift ix) a" and ?t = "extractTag ix a"
  have k: "k < 32" and sh: "tagShift ix = setShift ix + k" using wf by (simp_all add: index_wf_def)
  have ms: "0 < ?m" "?m \<le> 30" using k m by simp_all
  obtain s where s: "skew ?m ?a (getWay ix e) = Inr s" "low k s" "ucast (getSet ix e) = s"
    using SkewedAssociative_extractSet_total [OF wf m(1,2), of a "getWay ix e"] e by auto
  have "bit ?t j = bit ?a (k + j)" for j
    by (simp add: bit_extractTag bit_drop_bit_eq sh add.assoc)
  from bits_regenerated [OF s(2) _ _ this] k m
  have "bits (push_bit (?m + 1) ?t OR s) ?m 0 = s"
    "bits (push_bit (?m + 1) ?t OR s) (2 * (?m + 1) - 1) (?m + 1) = bits ?a (2 * (?m + 1) - 1) (?m + 1)"
    by (auto simp flip: m(1))
  from deskew_skew [OF ms s(1) this]
  have "SkewedAssociative_regenerateAddr ix ?t e = Inr (push_bit (tagShift ix) ?t OR
      push_bit (setShift ix) (bits ?a ?m 0 AND ucast (setMask ix)))"
    by (simp add: SkewedAssociative_regenerateAddr_def Let_def s(3))
  moreover have "push_bit (tagShift ix) ?t OR push_bit (setShift ix) (bits ?a ?m 0 AND ucast (setMask ix)) =
      a AND NOT (mask (setShift ix))"
  proof (rule word64_eqI)
    fix i :: nat assume i: "i < 64"
    have "bit (push_bit (tagShift ix) ?t) i \<longleftrightarrow> tagShift ix \<le> i \<and> bit a i"
      using i by (auto simp: bit_push_bit_u64 bit_extractTag)
    moreover have "bit (push_bit (setShift ix) (bits ?a ?m 0 AND ucast (setMask ix))) i \<longleftrightarrow>
        setShift ix \<le> i \<and> i < tagShift ix \<and> bit a i"
      using i m(1) sh
      by (auto simp: bit_push_bit_u64 bit_and_iff bit_bits bit_setMask(2) [OF wf] bit_drop_bit_eq)
    ultimately show "bit (push_bit (tagShift ix) ?t OR
        push_bit (setShift ix) (bits ?a ?m 0 AND ucast (setMask ix))) i = bit (a AND NOT (mask (setShift ix))) i"
      unfolding bit_or_iff bit_clear_low using sh by auto
  qed
  ultimately show ?thesis by simp
qed

section \<open>Properties\<close>

text \<open>
  C13. Skewed associative indexing loses no address: for every constructed policy, every address
  and every way, the set number computed for the way is a set of the policy, and an entry placed
  there regenerates the block address from its tag: the skewing function of the way is undone by
  its inverse, for all eight functions and for any number of further hashes.
\<close>

theorem skewed_regenerates:
  assumes "SkewedAssociative p_size es p_assoc = Inr ix"
  shows "\<exists>st. SkewedAssociative_extractSet ix a way = Inr st \<and> st < numSets ix \<and>
    SkewedAssociative_regenerateAddr (setPosition ix e st way) (extractTag ix a) e =
      Inr (a AND NOT (mask (setShift ix)))"
proof -
  obtain k where k: "index_wf ix k" "msbShift ix + 1 = k" "2 \<le> k" "setShift ix + 2 * k \<le> 64"
    using SkewedAssociative_wf [OF assms] by blast
  obtain st where st: "SkewedAssociative_extractSet ix a way = Inr st" "st < numSets ix"
    using SkewedAssociative_extractSet_total [OF k(1-3), of a way] by blast
  let ?ix = "setPosition ix e st way"
  have "SkewedAssociative_extractSet ?ix a (getWay ?ix e) = Inr (getSet ?ix e)"
    using st(1) by (simp add: SkewedAssociative_extractSet_def)
  from SkewedAssociative_regenerate [of ?ix k a e, OF _ _ _ _ this] k st show ?thesis by simp
qed

theorem skewed_regenerates_witness:
  "\<exists>ix st. SkewedAssociative 65536 64 16 = Inr ix \<and> SkewedAssociative_extractSet ix 0x123456789ABC 13 = Inr st \<and>
    SkewedAssociative_regenerateAddr (setPosition ix 7 st 13) (extractTag ix 0x123456789ABC) 7 =
      Inr 0x123456789A80"
proof -
  have "case SkewedAssociative 65536 64 16 of Inl _ \<Rightarrow> False | Inr ix \<Rightarrow> setShift ix = 6" by code_simp
  then obtain ix where ix: "SkewedAssociative 65536 64 16 = Inr ix" "setShift ix = 6"
    by (auto split: sum.splits)
  have "(0x123456789ABC :: u64) AND NOT (mask 6) = 0x123456789A80" by code_simp
  with skewed_regenerates [OF ix(1), of "0x123456789ABC" 13 7] ix show ?thesis by auto
qed

text \<open>
  Set associative indexing loses no address as long as the tag starts within the low 32 bits:
  the set number is a set of the policy, and an entry placed there regenerates the block address.
\<close>

theorem set_associative_regenerates:
  assumes "SetAssociative p_size es p_assoc = Inr ix" "tagShift ix \<le> 32"
  shows "SetAssociative_extractSet ix a < numSets ix \<and>
    SetAssociative_regenerateAddr (setPosition ix e (SetAssociative_extractSet ix a) way) (extractTag ix a) e =
      a AND NOT (mask (setShift ix))"
proof -
  obtain k where k: "index_wf ix k" using SetAssociative_wf [OF assms(1)] by blast
  then have n: "numSets ix = 2 ^ k" "k < 32" by (simp_all add: index_wf_def)
  let ?st = "SetAssociative_extractSet ix a"
  have "?st AND mask k = ?st"
    by (rule bit_word_eqI) (auto simp: bit_and_iff bit_extractSet [OF k] bit_mask_iff)
  then have "?st < numSets ix" unfolding n(1) by (rule masked_less) (use n(2) in simp)
  with SetAssociative_regenerate [of "setPosition ix e ?st way" k e a] k assms(2) show ?thesis by simp
qed

theorem set_associative_regenerates_witness:
  "\<exists>ix. SetAssociative 32768 64 8 = Inr ix \<and> SetAssociative_extractSet ix 0x12345678 < numSets ix \<and>
    SetAssociative_regenerateAddr (setPosition ix 7 (SetAssociative_extractSet ix 0x12345678) 3)
      (extractTag ix 0x12345678) 7 = 0x12345640"
proof -
  have "case SetAssociative 32768 64 8 of Inl _ \<Rightarrow> False | Inr ix \<Rightarrow> setShift ix = 6 \<and> tagShift ix \<le> 32"
    by code_simp
  then obtain ix where ix: "SetAssociative 32768 64 8 = Inr ix" "setShift ix = 6" "tagShift ix \<le> 32"
    by (auto split: sum.splits)
  have "(0x12345678 :: u64) AND NOT (mask 6) = 0x12345640" by code_simp
  with set_associative_regenerates [OF ix(1,3), of "0x12345678" 7 3] ix show ?thesis by auto
qed

end
