(* ===== verification/AssocCache.thy ===== *)
theory AssocCache
  imports Indexing RripPolicies
begin

text \<open>
  Tagged entries (\<^verbatim>\<open>base/cache/cache_entry.hh\<close>, \<^verbatim>\<open>mem/cache/tags/tagged_entry.hh\<close>) and the
  associative cache template over them (\<^verbatim>\<open>base/cache/associative_cache.hh\<close>), the client of the
  replacement and indexing policies. The template parameter is a record of the entry's member
  functions, the two policies are arguments, and a pointer to an entry is its number in the vector
  of entries.

  The locale \<open>assoc_cache\<close> states what the template relies on: a replacement policy, entries whose
  match after an insertion compares tags, and an indexing policy whose possible entries depend on
  the block and determine it together with the tag. Under it the cache is shown to be a partial
  map from blocks to entries: looking up, filling and invalidating are lookup, update and removal
  in that map, except that a fill also drops the block of the victim. The contract is discharged
  for set associative indexing as the constructor and the initialisation loop build it.
\<close>

section \<open>Entries\<close>

definition MaxAddr :: addr where
  "MaxAddr = - 1"

record ('k, 'e) entry_class =
  ec_isValid :: "'e \<Rightarrow> bool"
  ec_match :: "'e \<Rightarrow> 'k \<Rightarrow> bool"
  ec_insert :: "'e \<Rightarrow> 'k \<Rightarrow> 'e outcome"
  ec_invalidate :: "'e \<Rightarrow> 'e"

record cache_entry =
  ce_valid :: bool
  ce_tag :: addr

definition CacheEntry :: cache_entry where
  "CacheEntry = \<lparr>ce_valid = False, ce_tag = MaxAddr\<rparr>"

definition CacheEntry_match :: "(addr \<Rightarrow> addr) \<Rightarrow> cache_entry \<Rightarrow> addr \<Rightarrow> bool" where
  "CacheEntry_match ext e a \<longleftrightarrow> ce_valid e \<and> ce_tag e = ext a"

definition CacheEntry_setValid :: "cache_entry \<Rightarrow> cache_entry outcome" where
  "CacheEntry_setValid e = check (\<not> ce_valid e) Assert_Failed (Inr (e\<lparr>ce_valid := True\<rparr>))"

definition CacheEntry_insert :: "(addr \<Rightarrow> addr) \<Rightarrow> cache_entry \<Rightarrow> addr \<Rightarrow> cache_entry outcome" where
  "CacheEntry_insert ext e a =
     obind (CacheEntry_setValid e) (\<lambda>e1. Inr (e1\<lparr>ce_tag := ext a\<rparr>))"

definition CacheEntry_invalidate :: "cache_entry \<Rightarrow> cache_entry" where
  "CacheEntry_invalidate e = e\<lparr>ce_valid := False, ce_tag := MaxAddr\<rparr>"

definition CacheEntry_class :: "(addr \<Rightarrow> addr) \<Rightarrow> (addr, cache_entry) entry_class" where
  "CacheEntry_class ext =
     \<lparr>ec_isValid = ce_valid, ec_match = CacheEntry_match ext, ec_insert = CacheEntry_insert ext,
      ec_invalidate = CacheEntry_invalidate\<rparr>"

record tagged_key =
  address :: addr
  secure :: bool

record tagged_entry =
  te_valid :: bool
  te_secure :: bool
  te_tag :: addr

definition TaggedEntry :: tagged_entry where
  "TaggedEntry = \<lparr>te_valid = False, te_secure = False, te_tag = MaxAddr\<rparr>"

definition TaggedEntry_match :: "(addr \<Rightarrow> addr) \<Rightarrow> tagged_entry \<Rightarrow> tagged_key \<Rightarrow> bool" where
  "TaggedEntry_match ext e k \<longleftrightarrow>
     te_valid e \<and> te_tag e = ext (address k) \<and> te_secure e = secure k"

definition TaggedEntry_setValid :: "tagged_entry \<Rightarrow> tagged_entry outcome" where
  "TaggedEntry_setValid e = check (\<not> te_valid e) Assert_Failed (Inr (e\<lparr>te_valid := True\<rparr>))"

definition TaggedEntry_insert :: "(addr \<Rightarrow> addr) \<Rightarrow> tagged_entry \<Rightarrow> tagged_key \<Rightarrow> tagged_entry outcome" where
  "TaggedEntry_insert ext e k =
     obind (TaggedEntry_setValid e) (\<lambda>e1.
       let e2 = e1\<lparr>te_tag := ext (address k)\<rparr>
       in Inr (if secure k then e2\<lparr>te_secure := True\<rparr> else e2))"

definition TaggedEntry_invalidate :: "tagged_entry \<Rightarrow> tagged_entry" where
  "TaggedEntry_invalidate e = e\<lparr>te_valid := False, te_tag := MaxAddr, te_secure := False\<rparr>"

definition TaggedEntry_class :: "(addr \<Rightarrow> addr) \<Rightarrow> (tagged_key, tagged_entry) entry_class" where
  "TaggedEntry_class ext =
     \<lparr>ec_isValid = te_valid, ec_match = TaggedEntry_match ext, ec_insert = TaggedEntry_insert ext,
      ec_invalidate = TaggedEntry_invalidate\<rparr>"

definition TaggedSetAssociative_extractSet :: "'a indexing_scheme \<Rightarrow> tagged_key \<Rightarrow> u32" where
  "TaggedSetAssociative_extractSet ix k =
     ucast (drop_bit (setShift ix) (address k) AND ucast (setMask ix))"

definition TaggedSetAssociative_getPossibleEntries ::
    "'a indexing_scheme \<Rightarrow> tagged_key \<Rightarrow> ent option list outcome" where
  "TaggedSetAssociative_getPossibleEntries ix k =
     check (unat (TaggedSetAssociative_extractSet ix k) < length (sets ix)) Undefined
       (Inr (sets ix ! unat (TaggedSetAssociative_extractSet ix k)))"

definition TaggedSetAssociative_regenerateAddr :: "'a indexing_scheme \<Rightarrow> tagged_key \<Rightarrow> ent \<Rightarrow> addr" where
  "TaggedSetAssociative_regenerateAddr ix k e =
     push_bit (tagShift ix) (address k) OR ucast (push_bit (setShift ix) (getSet ix e))"

section \<open>The cache\<close>

record ('e, 's) acache =
  entries :: "'e list"
  replPolicy :: 's

text \<open>
  The loop of \<^verbatim>\<open>initParams\<close>: entry \<open>i\<close> of the vector gets index \<open>i\<close>; \<open>inst\<close> is what
  \<^verbatim>\<open>instantiateEntry\<close> of the policy does for the entry.
\<close>

fun initParams_loop :: "('s \<Rightarrow> ent \<Rightarrow> 's outcome) \<Rightarrow> nat list \<Rightarrow> indexing \<Rightarrow> 's \<Rightarrow> (indexing \<times> 's) outcome" where
  "initParams_loop inst [] ix s = Inr (ix, s)"
| "initParams_loop inst (i # is) ix s =
     obind (setEntry ix i (of_nat i)) (\<lambda>ix1. obind (inst s i) (\<lambda>s1. initParams_loop inst is ix1 s1))"

definition initParams :: "('s \<Rightarrow> ent \<Rightarrow> 's outcome) \<Rightarrow> nat \<Rightarrow> nat \<Rightarrow> indexing \<Rightarrow> 's \<Rightarrow> (indexing \<times> 's) outcome" where
  "initParams inst num_entries assoc_n ix s =
     check (assoc_n \<noteq> 0) Undefined
       (check (num_entries mod assoc_n = 0) Fatal (initParams_loop inst [0..<num_entries] ix s))"

definition AssociativeCache :: "('s \<Rightarrow> ent \<Rightarrow> 's outcome) \<Rightarrow> nat \<Rightarrow> nat \<Rightarrow> 'e \<Rightarrow> indexing \<Rightarrow> 's \<Rightarrow>
    (indexing \<times> ('e, 's) acache) outcome" where
  "AssociativeCache inst num_entries assoc_n init_val ix s =
     obind (initParams inst num_entries assoc_n ix s) (\<lambda>(ix1, s1).
       Inr (ix1, \<lparr>entries = replicate num_entries init_val, replPolicy = s1\<rparr>))"

fun find_match :: "('k, 'e) entry_class \<Rightarrow> 'e list \<Rightarrow> 'k \<Rightarrow> ent option list \<Rightarrow> ent option outcome" where
  "find_match ec es key [] = Inr None"
| "find_match ec es key (c # cs) =
     (case c of
        None \<Rightarrow> Inl Undefined
      | Some e \<Rightarrow> check (e < length es) Undefined
          (if ec_match ec (es ! e) key then Inr (Some e) else find_match ec es key cs))"

definition findEntry :: "('k, 'e) entry_class \<Rightarrow> ('k \<Rightarrow> ent option list outcome) \<Rightarrow>
    ('e, 's) acache \<Rightarrow> 'k \<Rightarrow> ent option outcome" where
  "findEntry ec possible c key = obind (possible key) (find_match ec (entries c) key)"

definition accessEntry_ptr :: "'s repl_policy \<Rightarrow> ('e, 's) acache \<Rightarrow> ent \<Rightarrow> ('e, 's) acache outcome" where
  "accessEntry_ptr P c e = obind (rp_touch P (replPolicy c) e) (\<lambda>s. Inr (c\<lparr>replPolicy := s\<rparr>))"

definition accessEntry :: "'s repl_policy \<Rightarrow> ('k, 'e) entry_class \<Rightarrow> ('k \<Rightarrow> ent option list outcome) \<Rightarrow>
    ('e, 's) acache \<Rightarrow> 'k \<Rightarrow> (ent option \<times> ('e, 's) acache) outcome" where
  "accessEntry P ec possible c key =
     obind (findEntry ec possible c key) (\<lambda>r.
       case r of
         None \<Rightarrow> Inr (None, c)
       | Some e \<Rightarrow> obind (accessEntry_ptr P c e) (\<lambda>c1. Inr (Some e, c1)))"

definition ac_invalidate :: "'s repl_policy \<Rightarrow> ('k, 'e) entry_class \<Rightarrow> ('e, 's) acache \<Rightarrow> ent \<Rightarrow>
    ('e, 's) acache outcome" where
  "ac_invalidate P ec c e =
     check (e < length (entries c)) Undefined
       (let c1 = c\<lparr>entries := (entries c)[e := ec_invalidate ec (entries c ! e)]\<rparr>
        in obind (rp_invalidate P (replPolicy c1) e) (\<lambda>s. Inr (c1\<lparr>replPolicy := s\<rparr>)))"

definition findVictim :: "'s repl_policy \<Rightarrow> ('k, 'e) entry_class \<Rightarrow> ('k \<Rightarrow> ent option list outcome) \<Rightarrow>
    ('e, 's) acache \<Rightarrow> 'k \<Rightarrow> (ent \<times> ('e, 's) acache) outcome" where
  "findVictim P ec possible c key =
     obind (possible key) (\<lambda>candidates.
       check (None \<notin> set candidates) Undefined
         (obind (rp_getVictim P (replPolicy c) (map the candidates)) (\<lambda>(victim, s).
           obind (ac_invalidate P ec (c\<lparr>replPolicy := s\<rparr>) victim) (\<lambda>c1. Inr (victim, c1)))))"

definition insertEntry :: "'s repl_policy \<Rightarrow> ('k, 'e) entry_class \<Rightarrow> ('e, 's) acache \<Rightarrow> 'k \<Rightarrow> ent \<Rightarrow>
    ('e, 's) acache outcome" where
  "insertEntry P ec c key e =
     check (e < length (entries c)) Undefined
       (obind (ec_insert ec (entries c ! e) key) (\<lambda>e1.
         let c1 = c\<lparr>entries := (entries c)[e := e1]\<rparr>
         in obind (rp_reset P (replPolicy c1) e) (\<lambda>s. Inr (c1\<lparr>replPolicy := s\<rparr>))))"

fun clear_loop :: "'s repl_policy \<Rightarrow> ('k, 'e) entry_class \<Rightarrow> ent list \<Rightarrow> ('e, 's) acache \<Rightarrow> ('e, 's) acache outcome" where
  "clear_loop P ec [] c = Inr c"
| "clear_loop P ec (e # es) c = obind (ac_invalidate P ec c e) (clear_loop P ec es)"

definition clear :: "'s repl_policy \<Rightarrow> ('k, 'e) entry_class \<Rightarrow> ('e, 's) acache \<Rightarrow> ('e, 's) acache outcome" where
  "clear P ec c = clear_loop P ec [0..<length (entries c)] c"

section \<open>The contract of the template\<close>

locale assoc_cache = rp: replacement_policy P good ents eligible
  for P :: "'s repl_policy" and good and ents and eligible +
  fixes ec :: "('k, 'e) entry_class" and possible :: "'k \<Rightarrow> ent option list outcome"
    and ways :: "'k \<Rightarrow> ent list" and tg :: "'k \<Rightarrow> 't" and blk :: "'k \<Rightarrow> 'b" and n :: nat
  assumes possible_ways: "possible k = Inr (map Some (ways k))"
    and ways_entries: "e \<in> set (ways k) \<Longrightarrow> e < n"
    and entries_ents: "e < n \<Longrightarrow> e \<in> ents"
    and ways_eligible: "eligible (ways k)"
    and blk_ways: "blk k = blk k' \<Longrightarrow> ways k = ways k' \<and> tg k = tg k'"
    and tag_blk: "e \<in> set (ways k) \<Longrightarrow> e \<in> set (ways k') \<Longrightarrow> tg k = tg k' \<Longrightarrow> blk k = blk k'"
    and invalidate_match: "\<not> ec_match ec (ec_invalidate ec x) k"
    and insert_match: "\<exists>x'. ec_insert ec (ec_invalidate ec x) k = Inr x' \<and>
      (\<forall>k'. ec_match ec x' k' \<longleftrightarrow> tg k = tg k')"
begin

text \<open>
  The invariant: a matching entry was inserted for some key whose ways hold it, and no two entries
  among the ways of a key match it.
\<close>

definition coh :: "('e, 's) acache \<Rightarrow> bool" where
  "coh c \<longleftrightarrow> length (entries c) = n \<and> good (replPolicy c) \<and>
     (\<forall>e < n. \<forall>k. ec_match ec (entries c ! e) k \<longrightarrow>
        (\<exists>k0. e \<in> set (ways k0) \<and> (\<forall>k'. ec_match ec (entries c ! e) k' \<longleftrightarrow> tg k0 = tg k'))) \<and>
     (\<forall>k. \<forall>e \<in> set (ways k). \<forall>e' \<in> set (ways k).
        ec_match ec (entries c ! e) k \<longrightarrow> ec_match ec (entries c ! e') k \<longrightarrow> e = e')"

definition lookup :: "('e, 's) acache \<Rightarrow> 'k \<Rightarrow> ent option" where
  "lookup c k = List.find (\<lambda>e. ec_match ec (entries c ! e) k) (ways k)"

lemma cohD:
  assumes "coh c"
  shows "length (entries c) = n" "good (replPolicy c)"
    and "e < n \<Longrightarrow> ec_match ec (entries c ! e) k \<Longrightarrow>
      \<exists>k0. e \<in> set (ways k0) \<and> (\<forall>k'. ec_match ec (entries c ! e) k' \<longleftrightarrow> tg k0 = tg k')"
    and "e \<in> set (ways k) \<Longrightarrow> e' \<in> set (ways k) \<Longrightarrow> ec_match ec (entries c ! e) k \<Longrightarrow>
      ec_match ec (entries c ! e') k \<Longrightarrow> e = e'"
  using assms unfolding coh_def by blast+

lemma find_match_find:
  "(\<And>e. e \<in> set es \<Longrightarrow> e < length xs) \<Longrightarrow>
    find_match ec xs k (map Some es) = Inr (List.find (\<lambda>e. ec_match ec (xs ! e) k) es)"
  by (induction es) auto

lemma findEntry_lookup: "coh c \<Longrightarrow> findEntry ec possible c k = Inr (lookup c k)"
  by (simp add: findEntry_def possible_ways lookup_def find_match_find cohD ways_entries)

lemma lookup_Some:
  assumes "coh c"
  shows "lookup c k = Some e \<longleftrightarrow> e \<in> set (ways k) \<and> ec_match ec (entries c ! e) k"
proof
  assume "lookup c k = Some e"
  then show "e \<in> set (ways k) \<and> ec_match ec (entries c ! e) k"
    by (auto simp: lookup_def find_Some_iff)
next
  assume e: "e \<in> set (ways k) \<and> ec_match ec (entries c ! e) k"
  then obtain e' where e': "lookup c k = Some e'"
    unfolding lookup_def by (metis find_None_iff option.exhaust)
  then have "e' \<in> set (ways k)" "ec_match ec (entries c ! e') k"
    by (auto simp: lookup_def find_Some_iff)
  with cohD(4) [OF assms] e e' show "lookup c k = Some e" by metis
qed

lemma lookup_None:
  assumes "coh c"
  shows "lookup c k = None \<longleftrightarrow> (\<forall>e \<in> set (ways k). \<not> ec_match ec (entries c ! e) k)"
  by (auto simp: lookup_def find_None_iff)

lemma match_blk:
  assumes c: "coh c" and e: "e < n" and b: "blk k = blk k'"
  shows "ec_match ec (entries c ! e) k = ec_match ec (entries c ! e) k'"
  using cohD(3) [OF c e] blk_ways [OF b] by metis

lemma lookup_eqI:
  assumes "coh c" "\<And>e. r = Some e \<longleftrightarrow> e \<in> set (ways k) \<and> ec_match ec (entries c ! e) k"
  shows "lookup c k = r"
proof -
  have "lookup c k = Some e \<longleftrightarrow> r = Some e" for e using assms lookup_Some [OF assms(1)] by simp
  then show ?thesis by (metis option.exhaust)
qed

subsection \<open>Removing an entry\<close>

lemma coh_drop:
  assumes c: "coh c" and "good s" "e < n"
  shows "coh (c\<lparr>entries := (entries c)[e := ec_invalidate ec (entries c ! e)], replPolicy := s\<rparr>)"
  using c assms(2,3) invalidate_match unfolding coh_def by (auto simp: nth_list_update)

lemma lookup_drop:
  assumes c: "coh c" and "good s" "e < n"
  shows "lookup (c\<lparr>entries := (entries c)[e := ec_invalidate ec (entries c ! e)], replPolicy := s\<rparr>) k =
    (if lookup c k = Some e then None else lookup c k)"
proof (rule lookup_eqI [OF coh_drop [OF assms]])
  fix e'
  show "(if lookup c k = Some e then None else lookup c k) = Some e' \<longleftrightarrow> e' \<in> set (ways k) \<and>
      ec_match ec (entries (c\<lparr>entries := (entries c)[e := ec_invalidate ec (entries c ! e)],
        replPolicy := s\<rparr>) ! e') k"
    using lookup_Some [OF c, of k] invalidate_match cohD(1) [OF c] cohD(4) [OF c, of e k e'] assms(3)
    by (auto simp: nth_list_update)
qed

lemma invalidate_law:
  assumes "coh c" "e < n"
  shows "\<exists>c'. ac_invalidate P ec c e = Inr c' \<and> coh c' \<and>
    entries c' = (entries c)[e := ec_invalidate ec (entries c ! e)] \<and>
    (\<forall>k. lookup c' k = (if lookup c k = Some e then None else lookup c k))"
proof -
  obtain s where s: "rp_invalidate P (replPolicy c) e = Inr s" "good s"
    using rp.apply_good [of "replPolicy c" "Rp_Invalidate e"] cohD(2) [OF assms(1)] entries_ents [OF assms(2)]
    by auto
  let ?c = "c\<lparr>entries := (entries c)[e := ec_invalidate ec (entries c ! e)], replPolicy := s\<rparr>"
  have "ac_invalidate P ec c e = Inr ?c"
    using s assms(2) cohD(1) [OF assms(1)] by (simp add: ac_invalidate_def)
  moreover note coh_drop [OF assms(1) s(2) assms(2)] lookup_drop [OF assms(1) s(2) assms(2)]
  ultimately show ?thesis by simp
qed

subsection \<open>Filling\<close>

lemma fill_entry:
  assumes c: "coh c" and k: "lookup c k = None" "v \<in> set (ways k)" and s: "good s"
    and x: "\<forall>k'. ec_match ec x k' \<longleftrightarrow> tg k = tg k'" and v: "\<And>k'. \<not> ec_match ec (entries c ! v) k'"
  defines "c' \<equiv> c\<lparr>entries := (entries c)[v := x], replPolicy := s\<rparr>"
  shows "coh c' \<and> (\<forall>k'. lookup c' k' = (if blk k' = blk k then Some v else lookup c k'))"
proof -
  have n: "v < n" "length (entries c) = n" using ways_entries [OF k(2)] cohD(1) [OF c] by auto
  have at: "ec_match ec (entries c' ! e) k' \<longleftrightarrow>
      (if e = v then tg k = tg k' else ec_match ec (entries c ! e) k')" for e k'
    using n x by (simp add: c'_def nth_list_update)
  have no: "\<not> ec_match ec (entries c ! e) k'" if "e \<in> set (ways k')" "blk k' = blk k" for e k'
    using that k(1) lookup_None [OF c] match_blk [OF c ways_entries [OF that(1)] that(2)] blk_ways [OF that(2)]
    by metis
  have tb: "blk k' = blk k" if "v \<in> set (ways k')" "tg k = tg k'" for k'
    using tag_blk [OF k(2) that] by simp
  have u: "e = e'" if "e \<in> set (ways k')" "e' \<in> set (ways k')" "ec_match ec (entries c' ! e) k'"
      "ec_match ec (entries c' ! e') k'" for e e' k'
    using that no tb cohD(4) [OF c] unfolding at by (metis (full_types))
  have o: "\<exists>k0. e \<in> set (ways k0) \<and> (\<forall>k''. ec_match ec (entries c' ! e) k'' \<longleftrightarrow> tg k0 = tg k'')"
    if "e < n" "ec_match ec (entries c' ! e) k'" for e k'
    using that cohD(3) [OF c that(1)] k(2) unfolding at by (cases "e = v") auto
  have co: "coh c'"
    unfolding coh_def using n s o u by (auto simp: c'_def)
  have "lookup c' k' = (if blk k' = blk k then Some v else lookup c k')" for k'
  proof (rule lookup_eqI [OF co])
    fix e
    show "(if blk k' = blk k then Some v else lookup c k') = Some e \<longleftrightarrow>
        e \<in> set (ways k') \<and> ec_match ec (entries c' ! e) k'"
    proof (cases "blk k' = blk k")
      case True
      then show ?thesis using no [OF _ True] k(2) blk_ways [OF True] unfolding at by auto
    next
      case False
      then show ?thesis using lookup_Some [OF c, of k'] tb [of k'] v unfolding at by auto
    qed
  qed
  with co show ?thesis by blast
qed

lemma fill_law:
  assumes c: "coh c" and k: "lookup c k = None"
  shows "\<exists>v c1 c2. findVictim P ec possible c k = Inr (v, c1) \<and> insertEntry P ec c1 k v = Inr c2 \<and>
    v \<in> set (ways k) \<and> coh c2 \<and>
    (\<forall>k'. lookup c2 k' = (if blk k' = blk k then Some v
       else if lookup c k' = Some v then None else lookup c k'))"
proof -
  obtain v s where v: "rp_getVictim P (replPolicy c) (ways k) = Inr (v, s)" "v \<in> set (ways k)" "good s"
    using rp.victim_candidate [OF cohD(2) [OF c] ways_eligible] by blast
  have cs: "coh (c\<lparr>replPolicy := s\<rparr>)" "\<And>k'. lookup (c\<lparr>replPolicy := s\<rparr>) k' = lookup c k'"
    using c v(3) by (simp_all add: coh_def lookup_def)
  obtain c1 where c1: "ac_invalidate P ec (c\<lparr>replPolicy := s\<rparr>) v = Inr c1" "coh c1"
      "entries c1 = (entries c)[v := ec_invalidate ec (entries c ! v)]"
      "\<forall>k'. lookup c1 k' = (if lookup c k' = Some v then None else lookup c k')"
    using invalidate_law [OF cs(1) ways_entries [OF v(2)]] cs(2) by auto
  have l: "v < length (entries c1)" "length (entries c) = n"
    using cohD(1) [OF c1(2)] cohD(1) [OF c] ways_entries [OF v(2)] by auto
  then have at: "entries c1 ! v = ec_invalidate ec (entries c ! v)" using c1(3) by simp
  obtain x where x: "ec_insert ec (entries c1 ! v) k = Inr x" "\<forall>k'. ec_match ec x k' \<longleftrightarrow> tg k = tg k'"
    using insert_match at by metis
  obtain t where t: "rp_reset P (replPolicy c1) v = Inr t" "good t"
    using rp.apply_good [of "replPolicy c1" "Rp_Reset v"] cohD(2) [OF c1(2)]
      entries_ents [OF ways_entries [OF v(2)]] by auto
  have nm: "\<not> ec_match ec (entries c1 ! v) k'" for k' using invalidate_match at by simp
  have "findVictim P ec possible c k = Inr (v, c1)"
    using v c1(1) by (simp add: findVictim_def possible_ways comp_def)
  moreover have "insertEntry P ec c1 k v = Inr (c1\<lparr>entries := (entries c1)[v := x], replPolicy := t\<rparr>)"
    using l(1) x(1) t(1) by (simp add: insertEntry_def)
  moreover have "lookup c1 k = None" using c1(4) k by simp
  ultimately show ?thesis
    using fill_entry [OF c1(2) _ v(2) t(2) x(2) nm] c1(4) v(2) by auto
qed

lemma access_law:
  assumes "coh c"
  shows "\<exists>c'. accessEntry P ec possible c k = Inr (lookup c k, c') \<and> coh c' \<and> lookup c' = lookup c"
proof (cases "lookup c k")
  case None
  with assms show ?thesis by (simp add: accessEntry_def findEntry_lookup)
next
  case (Some e)
  then have "e < n" using lookup_Some [OF assms] ways_entries by blast
  then obtain s where s: "rp_touch P (replPolicy c) e = Inr s" "good s"
    using rp.apply_good [of "replPolicy c" "Rp_Touch e"] cohD(2) [OF assms] entries_ents by auto
  have "coh (c\<lparr>replPolicy := s\<rparr>)" "lookup (c\<lparr>replPolicy := s\<rparr>) = lookup c"
    using assms s(2) by (auto simp: coh_def lookup_def fun_eq_iff)
  with s Some assms show ?thesis by (simp add: accessEntry_def findEntry_lookup accessEntry_ptr_def)
qed

lemma clear_loop_law:
  assumes "coh c" "set es \<subseteq> {..<n}"
  shows "\<exists>c'. clear_loop P ec es c = Inr c' \<and> coh c' \<and>
    (\<forall>k. lookup c' k = (case lookup c k of None \<Rightarrow> None | Some e \<Rightarrow> if e \<in> set es then None else Some e))"
  using assms
proof (induction es arbitrary: c)
  case Nil
  then show ?case by (auto split: option.splits)
next
  case (Cons e es)
  obtain c1 where c1: "ac_invalidate P ec c e = Inr c1" "coh c1"
      "\<forall>k. lookup c1 k = (if lookup c k = Some e then None else lookup c k)"
    using invalidate_law [OF Cons.prems(1), of e] Cons.prems(2) by auto
  from Cons.IH [OF c1(2)] Cons.prems(2) obtain c' where c': "clear_loop P ec es c1 = Inr c'" "coh c'"
      "\<forall>k. lookup c' k = (case lookup c1 k of None \<Rightarrow> None | Some e \<Rightarrow> if e \<in> set es then None else Some e)"
    by auto
  with c1 show ?case by (auto split: option.splits)
qed

lemma clear_law: "coh c \<Longrightarrow> \<exists>c'. clear P ec c = Inr c' \<and> coh c' \<and> (\<forall>k. lookup c' k = None)"
proof -
  assume c: "coh c"
  have "lookup c k = Some e \<Longrightarrow> e < n" for k e using lookup_Some [OF c] ways_entries by blast
  with clear_loop_law [OF c, of "[0..<n]"] cohD(1) [OF c] show ?thesis
    unfolding clear_def by (fastforce split: option.splits)
qed

end

section \<open>Entries keep the contract\<close>

lemma CacheEntry_laws:
  "\<not> ec_match (CacheEntry_class ext) (ec_invalidate (CacheEntry_class ext) x) k"
  "\<exists>x'. ec_insert (CacheEntry_class ext) (ec_invalidate (CacheEntry_class ext) x) k = Inr x' \<and>
    (\<forall>k'. ec_match (CacheEntry_class ext) x' k' \<longleftrightarrow> ext k = ext k')"
  by (simp_all add: CacheEntry_class_def CacheEntry_match_def CacheEntry_insert_def CacheEntry_setValid_def
      CacheEntry_invalidate_def)

lemma TaggedEntry_laws:
  "\<not> ec_match (TaggedEntry_class ext) (ec_invalidate (TaggedEntry_class ext) x) k"
  "\<exists>x'. ec_insert (TaggedEntry_class ext) (ec_invalidate (TaggedEntry_class ext) x) k = Inr x' \<and>
    (\<forall>k'. ec_match (TaggedEntry_class ext) x' k' \<longleftrightarrow>
      (ext (address k), secure k) = (ext (address k'), secure k'))"
  by (auto simp: TaggedEntry_class_def TaggedEntry_match_def TaggedEntry_insert_def TaggedEntry_setValid_def
      TaggedEntry_invalidate_def Let_def)

section \<open>Set associative indexing keeps the contract\<close>

definition way_list :: "'a indexing_scheme \<Rightarrow> nat \<Rightarrow> ent list" where
  "way_list ix st = map (\<lambda>w. st * unat (assoc ix) + w) [0..<unat (assoc ix)]"

definition index_filled :: "'a indexing_scheme \<Rightarrow> bool" where
  "index_filled ix \<longleftrightarrow> length (sets ix) = unat (numSets ix) \<and>
     (\<forall>st < unat (numSets ix). sets ix ! st = map Some (way_list ix st))"

definition set_ways :: "'a indexing_scheme \<Rightarrow> addr \<Rightarrow> ent list" where
  "set_ways ix a = way_list ix (unat (SetAssociative_extractSet ix a))"

definition block_of :: "'a indexing_scheme \<Rightarrow> addr \<Rightarrow> addr" where
  "block_of ix a = a AND NOT (mask (setShift ix))"

definition num_entries :: "'a indexing_scheme \<Rightarrow> nat" where
  "num_entries ix = unat (numSets ix) * unat (assoc ix)"

lemma block_of_eq: "block_of ix a = block_of ix b \<longleftrightarrow> (\<forall>i \<ge> setShift ix. bit a i = bit b i)"
proof
  assume "block_of ix a = block_of ix b"
  then have "bit (block_of ix a) i = bit (block_of ix b) i" for i by simp
  then show "\<forall>i \<ge> setShift ix. bit a i = bit b i" unfolding block_of_def bit_clear_low by blast
next
  assume "\<forall>i \<ge> setShift ix. bit a i = bit b i"
  then show "block_of ix a = block_of ix b"
    unfolding block_of_def by (intro bit_word_eqI) (simp only: bit_clear_low, blast)
qed

lemma block_of_tag_set:
  assumes wf: "index_wf ix k"
  shows "block_of ix a = block_of ix b \<longleftrightarrow>
    SetAssociative_extractSet ix a = SetAssociative_extractSet ix b \<and> extractTag ix a = extractTag ix b"
proof
  assume b: "block_of ix a = block_of ix b"
  have sh: "tagShift ix = setShift ix + k" using wf by (simp add: index_wf_def)
  have "SetAssociative_extractSet ix a = SetAssociative_extractSet ix b"
    using b by (intro bit_word_eqI) (auto simp: bit_extractSet [OF wf] block_of_eq)
  moreover have "extractTag ix a = extractTag ix b"
    using b by (intro bit_word_eqI) (auto simp: bit_extractTag block_of_eq sh)
  ultimately show "SetAssociative_extractSet ix a = SetAssociative_extractSet ix b \<and>
      extractTag ix a = extractTag ix b" by simp
next
  assume e: "SetAssociative_extractSet ix a = SetAssociative_extractSet ix b \<and> extractTag ix a = extractTag ix b"
  have sh: "tagShift ix = setShift ix + k" using wf by (simp add: index_wf_def)
  have "bit a i = bit b i" if "setShift ix \<le> i" for i
  proof (cases "i < tagShift ix")
    case True
    have "bit (SetAssociative_extractSet ix a) (i - setShift ix) = bit (SetAssociative_extractSet ix b) (i - setShift ix)"
      using e by simp
    moreover have "i - setShift ix < k" using True that sh by simp
    ultimately show ?thesis using that by (simp add: bit_extractSet [OF wf])
  next
    case False
    have "bit (extractTag ix a) (i - tagShift ix) = bit (extractTag ix b) (i - tagShift ix)" using e by simp
    with False show ?thesis by (simp add: bit_extractTag)
  qed
  then show "block_of ix a = block_of ix b" by (simp add: block_of_eq)
qed

lemma extractSet_less: "index_wf ix k \<Longrightarrow> SetAssociative_extractSet ix a < numSets ix"
proof -
  assume wf: "index_wf ix k"
  then have n: "numSets ix = 2 ^ k" "k < 32" by (simp_all add: index_wf_def)
  have "SetAssociative_extractSet ix a AND mask k = SetAssociative_extractSet ix a"
    by (rule bit_word_eqI) (auto simp: bit_and_iff bit_extractSet [OF wf] bit_mask_iff)
  then show ?thesis unfolding n(1) by (rule masked_less) (use n(2) in simp)
qed

lemma way_list_mem: "e \<in> set (way_list ix st) \<longleftrightarrow> (\<exists>w < unat (assoc ix). e = st * unat (assoc ix) + w)"
  unfolding way_list_def set_map set_upt by (auto simp only: image_iff atLeastLessThan_iff)

lemma way_list_div: "e \<in> set (way_list ix st) \<Longrightarrow> e div unat (assoc ix) = st"
  by (auto simp: way_list_mem)

lemma set_ways_less:
  assumes wf: "index_wf ix k" and e: "e \<in> set (set_ways ix a)"
  shows "e < num_entries ix"
proof -
  let ?st = "unat (SetAssociative_extractSet ix a)" and ?a = "unat (assoc ix)"
  obtain w where w: "e = ?st * ?a + w" "w < ?a" using e by (auto simp: set_ways_def way_list_mem)
  have "Suc ?st \<le> unat (numSets ix)" using extractSet_less [OF wf, of a] by (simp add: word_less_nat_alt)
  then have "Suc ?st * ?a \<le> num_entries ix" unfolding num_entries_def by (rule mult_le_mono1)
  with w show ?thesis by simp
qed

lemma set_associative_contract:
  assumes rp: "replacement_policy P good UNIV (\<lambda>cs. cs \<noteq> [])" and wf: "index_wf ix k" and f: "index_filled ix"
  shows "assoc_cache P good UNIV (\<lambda>cs. cs \<noteq> []) (CacheEntry_class (extractTag ix))
    (SetAssociative_getPossibleEntries ix) (set_ways ix) (extractTag ix) (block_of ix) (num_entries ix)"
proof (intro assoc_cache.intro [OF rp] assoc_cache_axioms.intro)
  have st: "unat (SetAssociative_extractSet ix a) < unat (numSets ix)" for a
    using extractSet_less [OF wf, of a] by (simp add: word_less_nat_alt)
  show "SetAssociative_getPossibleEntries ix a = Inr (map Some (set_ways ix a))" for a
    using st [of a] f by (simp add: SetAssociative_getPossibleEntries_def index_filled_def set_ways_def)
  show "set_ways ix a \<noteq> []" for a
    using wf by (auto simp: set_ways_def way_list_def index_wf_def)
  show "set_ways ix a = set_ways ix b \<and> extractTag ix a = extractTag ix b"
    if "block_of ix a = block_of ix b" for a b
    using that by (simp add: block_of_tag_set [OF wf] set_ways_def)
  show "block_of ix a = block_of ix b"
    if "e \<in> set (set_ways ix a)" "e \<in> set (set_ways ix b)" "extractTag ix a = extractTag ix b" for e a b
  proof -
    have "unat (SetAssociative_extractSet ix a) = unat (SetAssociative_extractSet ix b)"
      using that(1,2) way_list_div unfolding set_ways_def by metis
    then have "SetAssociative_extractSet ix a = SetAssociative_extractSet ix b"
      by (rule word_unat_eq_iff [THEN iffD2])
    with that(3) show ?thesis by (simp add: block_of_tag_set [OF wf])
  qed
qed (use set_ways_less [OF wf] CacheEntry_laws in auto)

lemma tagged_set_associative_contract:
  assumes rp: "replacement_policy P good UNIV (\<lambda>cs. cs \<noteq> [])" and wf: "index_wf ix k" and f: "index_filled ix"
  shows "assoc_cache P good UNIV (\<lambda>cs. cs \<noteq> []) (TaggedEntry_class (extractTag ix))
    (TaggedSetAssociative_getPossibleEntries ix) (\<lambda>key. set_ways ix (address key))
    (\<lambda>key. (extractTag ix (address key), secure key)) (\<lambda>key. (block_of ix (address key), secure key))
    (num_entries ix)"
proof -
  have eq: "TaggedSetAssociative_getPossibleEntries ix key = SetAssociative_getPossibleEntries ix (address key)" for key
    by (simp add: TaggedSetAssociative_getPossibleEntries_def SetAssociative_getPossibleEntries_def
        TaggedSetAssociative_extractSet_def SetAssociative_extractSet_def)
  note c = set_associative_contract [OF assms]
  show ?thesis
  proof (intro assoc_cache.intro [OF rp] assoc_cache_axioms.intro)
    show "set_ways ix (address key) = set_ways ix (address key') \<and>
        (extractTag ix (address key), secure key) = (extractTag ix (address key'), secure key')"
      if "(block_of ix (address key), secure key) = (block_of ix (address key'), secure key')" for key key'
      using assoc_cache.blk_ways [OF c] that by blast
    show "(block_of ix (address key), secure key) = (block_of ix (address key'), secure key')"
      if "e \<in> set (set_ways ix (address key))" "e \<in> set (set_ways ix (address key'))"
        "(extractTag ix (address key), secure key) = (extractTag ix (address key'), secure key')" for e key key'
      using assoc_cache.tag_blk [OF c that(1,2)] that(3) by simp
    show "TaggedSetAssociative_getPossibleEntries ix key = Inr (map Some (set_ways ix (address key)))" for key
      unfolding eq by (rule assoc_cache.possible_ways [OF c])
    show "e < num_entries ix" if "e \<in> set (set_ways ix (address key))" for e key
      by (rule assoc_cache.ways_entries [OF c that])
    show "set_ways ix (address key) \<noteq> []" for key by (rule assoc_cache.ways_eligible [OF c])
  qed (simp_all only: UNIV_I TaggedEntry_laws not_False_eq_True)
qed

section \<open>The initialisation fills the index\<close>

definition filled_upto :: "'a indexing_scheme \<Rightarrow> nat \<Rightarrow> bool" where
  "filled_upto ix m \<longleftrightarrow> length (sets ix) = unat (numSets ix) \<and>
     (\<forall>st < unat (numSets ix). sets ix ! st =
        map (\<lambda>w. let e = st * unat (assoc ix) + w in if e < m then Some e else None) [0..<unat (assoc ix)])"

lemma filled_upto_all: "filled_upto ix (num_entries ix) \<Longrightarrow> index_filled ix"
proof -
  assume f: "filled_upto ix (num_entries ix)"
  have "st * unat (assoc ix) + w < num_entries ix" if "st < unat (numSets ix)" "w < unat (assoc ix)" for st w
  proof -
    have "Suc st * unat (assoc ix) \<le> num_entries ix"
      unfolding num_entries_def using that(1) by (intro mult_le_mono1) simp
    with that(2) show ?thesis by simp
  qed
  with f show ?thesis
    unfolding filled_upto_def index_filled_def way_list_def by (auto simp: Let_def)
qed

lemma of_nat_sdiv_smod:
  fixes as :: u32
  assumes "i < 2 ^ 63"
  shows "word_of_int (sint (of_nat i :: u64) sdiv uint as) = (of_nat (i div unat as) :: u32)"
    "word_of_int (sint (of_nat i :: u64) smod uint as) = (of_nat (i mod unat as) :: u32)"
proof -
  have s: "sint (of_nat i :: u64) = int i"
    using assms signed_take_bit_int_eq_self [of 63 "int i"] by (simp add: signed_of_nat)
  have u: "uint as = int (unat as)" by (rule uint_nat)
  have q: "int i sdiv int m = int (i div m)" for m
    by (cases "i = 0"; cases "m = 0") (simp_all add: signed_divide_int_def zdiv_int)
  have r: "int i smod int m = int (i mod m)" for m
    by (cases "i = 0") (simp_all add: signed_modulo_int_def zmod_int)
  show "word_of_int (sint (of_nat i :: u64) sdiv uint as) = (of_nat (i div unat as) :: u32)"
    unfolding s u q by (rule of_int_of_nat_eq)
  show "word_of_int (sint (of_nat i :: u64) smod uint as) = (of_nat (i mod unat as) :: u32)"
    unfolding s u r by (rule of_int_of_nat_eq)
qed

lemma num_entries_small: "index_wf ix k \<Longrightarrow> num_entries ix < 2 ^ 63"
proof -
  assume wf: "index_wf ix k"
  then have k: "k \<le> 31" "unat (numSets ix) = 2 ^ k" using unat_pow2 [of k, where 'a = 32] by (simp_all add: index_wf_def)
  have "(2 :: nat) ^ k \<le> 2 ^ 31" using k(1) by (rule power_increasing) simp
  moreover have "unat (assoc ix) < 2 ^ 32" using unsigned_less [of "assoc ix"] by simp
  ultimately have "2 ^ k * unat (assoc ix) < 2 ^ 31 * 2 ^ 32"
    by (meson le_less_trans mult_le_mono1 mult_less_mono2 zero_less_numeral zero_less_power)
  then show ?thesis by (simp add: num_entries_def k(2))
qed

lemma unat_u32_lt: "unat (w :: u32) < 2 ^ 32"
  using unsigned_less [of w] by simp

lemma setEntry_step:
  assumes wf: "index_wf ix k" and f: "filled_upto ix i" and i: "i < num_entries ix"
  shows "\<exists>ix'. setEntry ix i (of_nat i) = Inr ix' \<and> index_wf ix' k \<and> filled_upto ix' (Suc i) \<and>
    num_entries ix' = num_entries ix \<and> extractTag ix' = extractTag ix \<and> block_of ix' = block_of ix"
proof -
  let ?a = "unat (assoc ix)"
  have a: "0 < ?a" using wf by (simp add: index_wf_def)
  have st: "i div ?a < unat (numSets ix)" using i by (simp add: num_entries_def less_mult_imp_div_less)
  have w: "i mod ?a < ?a" using a by simp
  have b: "i div ?a < 2 ^ 32" "i mod ?a < 2 ^ 32"
    using st w unat_u32_lt [of "numSets ix"] unat_u32_lt [of "assoc ix"] by linarith+
  note d = of_nat_sdiv_smod [OF less_trans [OF i num_entries_small [OF wf]], of "assoc ix"]
  have u: "unat (of_nat (i div ?a) :: u32) = i div ?a" "unat (of_nat (i mod ?a) :: u32) = i mod ?a"
    using b by (simp_all add: unat_of_nat)
  have row: "sets ix ! (i div ?a) =
      map (\<lambda>w. let e = (i div ?a) * ?a + w in if e < i then Some e else None) [0..<?a]"
    and len: "length (sets ix) = unat (numSets ix)"
    using f st by (simp_all add: filled_upto_def)
  let ?row = "(sets ix ! (i div ?a))[i mod ?a := Some i]"
  let ?ix = "setPosition (ix\<lparr>sets := (sets ix)[i div ?a := ?row]\<rparr>) i (of_nat (i div ?a)) (of_nat (i mod ?a))"
  have ok: "setEntry ix i (of_nat i) = Inr ?ix"
    using st w u len row by (simp add: setEntry_def d Let_def word_less_nat_alt)
  have dm: "i div ?a * ?a + i mod ?a = i" by simp
  have "sets ?ix ! s ! v = (let e = s * ?a + v in if e < Suc i then Some e else None)"
    if s: "s < unat (numSets ix)" and v: "v < ?a" for s v
  proof (cases "s * ?a + v = i")
    case True
    then have "s = i div ?a" "v = i mod ?a" using v by auto
    with True st w len row show ?thesis by simp
  next
    case False
    then have "\<not> (s = i div ?a \<and> v = i mod ?a)" using dm by auto
    moreover have "sets ix ! s ! v = (let e = s * ?a + v in if e < i then Some e else None)"
      using f s v by (simp add: filled_upto_def)
    ultimately have "sets ?ix ! s ! v = sets ix ! s ! v"
      using st len by (cases "s = i div ?a") auto
    with False \<open>sets ix ! s ! v = _\<close> show ?thesis by (auto simp: Let_def)
  qed
  moreover have "length (sets ?ix ! s) = ?a" if "s < unat (numSets ix)" for s
    using that f len by (cases "s = i div ?a") (simp_all add: filled_upto_def)
  ultimately have "filled_upto ?ix (Suc i)"
    unfolding filled_upto_def using len by (auto intro!: nth_equalityI)
  then show ?thesis
    using ok wf by (auto simp: index_wf_def num_entries_def extractTag_def block_of_def setPosition_def fun_eq_iff)
qed

lemma initParams_loop_fills:
  assumes "index_wf ix k" "filled_upto ix m" "m \<le> num_entries ix" "good s"
    and inst: "\<And>s i. good s \<Longrightarrow> \<exists>s'. inst s i = Inr s' \<and> good s'"
  shows "\<exists>ix' s'. initParams_loop inst [m..<num_entries ix] ix s = Inr (ix', s') \<and> good s' \<and>
    index_wf ix' k \<and> filled_upto ix' (num_entries ix) \<and> num_entries ix' = num_entries ix \<and>
    extractTag ix' = extractTag ix \<and> block_of ix' = block_of ix"
  using assms(1-4)
proof (induction "num_entries ix - m" arbitrary: ix m s)
  case 0
  then show ?case by auto
next
  case (Suc x)
  then have m: "m < num_entries ix" by simp
  obtain ix1 where ix1: "setEntry ix m (of_nat m) = Inr ix1" "index_wf ix1 k" "filled_upto ix1 (Suc m)"
      "num_entries ix1 = num_entries ix" "extractTag ix1 = extractTag ix" "block_of ix1 = block_of ix"
    using setEntry_step [OF Suc.prems(1,2) m] by blast
  obtain s1 where s1: "inst s m = Inr s1" "good s1" using inst [OF Suc.prems(4)] by blast
  have x: "x = num_entries ix1 - Suc m" using Suc.hyps(2) ix1(4) by simp
  from Suc.hyps(1) [OF x ix1(2,3) _ s1(2)] m ix1(4)
  obtain ix' s' where "initParams_loop inst [Suc m..<num_entries ix] ix1 s1 = Inr (ix', s')" "good s'"
      "index_wf ix' k" "filled_upto ix' (num_entries ix)" "num_entries ix' = num_entries ix"
      "extractTag ix' = extractTag ix1" "block_of ix' = block_of ix1" by auto
  with ix1 s1 show ?case by (subst upt_conv_Cons [OF m]) simp
qed

lemma SetAssociative_filled_0:
  assumes "SetAssociative p_size es p_assoc = Inr ix"
  shows "filled_upto ix 0"
proof -
  have "sets ix = replicate (unat (numSets ix)) (replicate (unat (assoc ix)) None)"
    using assms by (auto simp: SetAssociative_def IndexingPolicy_def Let_def)
  then show ?thesis by (simp add: filled_upto_def map_replicate_const)
qed

lemma AssociativeCache_init:
  assumes s: "SetAssociative p_size es p_assoc = Inr ix" and "good s"
    and inst: "\<And>s i. good s \<Longrightarrow> \<exists>s'. inst s i = Inr s' \<and> good s'"
  shows "\<exists>ix' k s'. AssociativeCache inst (num_entries ix) (unat p_assoc) x ix s =
      Inr (ix', \<lparr>entries = replicate (num_entries ix) x, replPolicy = s'\<rparr>) \<and> good s' \<and>
    index_wf ix' k \<and> index_filled ix' \<and> num_entries ix' = num_entries ix \<and>
    extractTag ix' = extractTag ix \<and> block_of ix' = block_of ix"
proof -
  obtain k where k: "index_wf ix k" "assoc ix = p_assoc" using SetAssociative_wf [OF s] by blast
  then have "unat p_assoc \<noteq> 0" "num_entries ix mod unat p_assoc = 0"
    by (auto simp: index_wf_def num_entries_def)
  moreover obtain ix' s' where i: "initParams_loop inst [0..<num_entries ix] ix s = Inr (ix', s')" "good s'"
      "index_wf ix' k" "filled_upto ix' (num_entries ix)" "num_entries ix' = num_entries ix"
      "extractTag ix' = extractTag ix" "block_of ix' = block_of ix"
    using initParams_loop_fills [where inst = inst, OF k(1) SetAssociative_filled_0 [OF s] _ assms(2) inst] by auto
  moreover have "index_filled ix'" using filled_upto_all [of ix'] i(4,5) by simp
  ultimately show ?thesis by (auto simp: AssociativeCache_def initParams_def)
qed

section \<open>LRU caches\<close>

definition LRU_inst :: "(ent \<Rightarrow> lru_data) \<Rightarrow> ent \<Rightarrow> (ent \<Rightarrow> lru_data) outcome" where
  "LRU_inst s e = Inr (s(e := LRU_instantiateEntry))"

lemma lru_contract: "replacement_policy (LRU_policy t) (\<lambda>_. True) UNIV (\<lambda>cs. cs \<noteq> [])"
  by (rule lru.replacement_policy_axioms)

text \<open>A level one cache of 32 KiB, eight ways and 64-byte blocks, as its constructors build it.\<close>

definition l1_index :: indexing where
  "l1_index = (case obind (SetAssociative 32768 64 8) (\<lambda>ix.
       AssociativeCache LRU_inst (num_entries ix) 8 CacheEntry ix (\<lambda>_. LRU_instantiateEntry)) of
     Inr (ix, _) \<Rightarrow> ix)"

lemma l1_index_ok: "\<exists>k. index_wf l1_index k \<and> index_filled l1_index"
proof -
  have "case SetAssociative 32768 64 8 of Inl _ \<Rightarrow> False | Inr ix \<Rightarrow> setShift ix = 6" by code_simp
  then obtain ix where ix: "SetAssociative 32768 64 8 = Inr ix" by (auto split: sum.splits)
  from AssociativeCache_init [OF ix, where good = "\<lambda>_. True" and inst = LRU_inst and x = CacheEntry
      and s = "\<lambda>_. LRU_instantiateEntry"]
  show ?thesis by (auto simp: l1_index_def ix LRU_inst_def)
qed

interpretation l1: assoc_cache "LRU_policy t" "\<lambda>_. True" UNIV "\<lambda>cs. cs \<noteq> []" "CacheEntry_class (extractTag l1_index)"
  "SetAssociative_getPossibleEntries l1_index" "set_ways l1_index" "extractTag l1_index" "block_of l1_index"
  "num_entries l1_index" for t
proof -
  obtain k where "index_wf l1_index k" "index_filled l1_index" using l1_index_ok by blast
  then show "assoc_cache (LRU_policy t) (\<lambda>_. True) UNIV (\<lambda>cs. cs \<noteq> []) (CacheEntry_class (extractTag l1_index))
      (SetAssociative_getPossibleEntries l1_index) (set_ways l1_index) (extractTag l1_index)
      (block_of l1_index) (num_entries l1_index)"
    by (rule set_associative_contract [OF lru_contract])
qed

text \<open>The operations of a client: accesses, fills of absent blocks, invalidations, clearing.\<close>

datatype ac_op = Ac_Access addr | Ac_Fill addr | Ac_Invalidate ent | Ac_Clear

definition lru_step :: "indexing \<Rightarrow> tick \<Rightarrow> ac_op \<Rightarrow> (cache_entry, ent \<Rightarrow> lru_data) acache \<Rightarrow>
    (cache_entry, ent \<Rightarrow> lru_data) acache outcome" where
  "lru_step ix t p c =
     (let P = LRU_policy t; ec = CacheEntry_class (extractTag ix); poss = SetAssociative_getPossibleEntries ix
      in case p of
           Ac_Access a \<Rightarrow> obind (accessEntry P ec poss c a) (\<lambda>(_, c1). Inr c1)
         | Ac_Fill a \<Rightarrow>
             obind (findEntry ec poss c a) (\<lambda>r.
               case r of
                 Some _ \<Rightarrow> Inr c
               | None \<Rightarrow> obind (findVictim P ec poss c a) (\<lambda>(v, c1). insertEntry P ec c1 a v))
         | Ac_Invalidate e \<Rightarrow> ac_invalidate P ec c e
         | Ac_Clear \<Rightarrow> clear P ec c)"

fun lru_steps :: "indexing \<Rightarrow> (tick \<times> ac_op) list \<Rightarrow> (cache_entry, ent \<Rightarrow> lru_data) acache \<Rightarrow>
    (cache_entry, ent \<Rightarrow> lru_data) acache outcome" where
  "lru_steps ix [] c = Inr c"
| "lru_steps ix ((t, p) # h) c = obind (lru_step ix t p c) (lru_steps ix h)"

definition op_in_range :: "nat \<Rightarrow> ac_op \<Rightarrow> bool" where
  "op_in_range n p = (case p of Ac_Invalidate e \<Rightarrow> e < n | _ \<Rightarrow> True)"

abbreviation lru_coh :: "indexing \<Rightarrow> (cache_entry, ent \<Rightarrow> lru_data) acache \<Rightarrow> bool" where
  "lru_coh ix \<equiv> assoc_cache.coh (\<lambda>_. True) (CacheEntry_class (extractTag ix)) (set_ways ix) (extractTag ix)
     (num_entries ix)"

lemma lru_step_coh:
  assumes wf: "index_wf ix k" "index_filled ix" and c: "lru_coh ix c" and p: "op_in_range (num_entries ix) p"
  shows "\<exists>c'. lru_step ix t p c = Inr c' \<and> lru_coh ix c'"
proof -
  note ac = set_associative_contract [OF lru_contract wf, of t]
  show ?thesis
  proof (cases p)
    case (Ac_Access a)
    with assoc_cache.access_law [OF ac c, of a] show ?thesis by (auto simp: lru_step_def)
  next
    case (Ac_Fill a)
    show ?thesis
    proof (cases "assoc_cache.lookup (CacheEntry_class (extractTag ix)) (set_ways ix) c a")
      case None
      with assoc_cache.fill_law [OF ac c None] assoc_cache.findEntry_lookup [OF ac c, of a] Ac_Fill
      show ?thesis by (auto simp: lru_step_def)
    next
      case (Some e)
      with assoc_cache.findEntry_lookup [OF ac c, of a] Ac_Fill c show ?thesis
        by (auto simp: lru_step_def)
    qed
  next
    case (Ac_Invalidate e)
    with assoc_cache.invalidate_law [OF ac c, of e] p show ?thesis
      by (auto simp: lru_step_def op_in_range_def)
  next
    case Ac_Clear
    with assoc_cache.clear_law [OF ac c] show ?thesis by (auto simp: lru_step_def)
  qed
qed

lemma lru_steps_coh:
  assumes wf: "index_wf ix k" "index_filled ix"
  shows "lru_coh ix c \<Longrightarrow> \<forall>p \<in> set (map snd h). op_in_range (num_entries ix) p \<Longrightarrow>
    \<exists>c'. lru_steps ix h c = Inr c' \<and> lru_coh ix c'"
proof (induction h arbitrary: c)
  case (Cons x h)
  obtain t p where x: "x = (t, p)" by (cases x)
  obtain c1 where "lru_step ix t p c = Inr c1" "lru_coh ix c1"
    using lru_step_coh [OF wf Cons.prems(1), of p t] Cons.prems(2) x by auto
  with Cons x show ?case by simp
qed simp

lemma fresh_coh:
  assumes wf: "index_wf ix k" "index_filled ix"
  shows "lru_coh ix \<lparr>entries = replicate (num_entries ix) CacheEntry, replPolicy = s\<rparr>"
  unfolding assoc_cache.coh_def [OF set_associative_contract [OF lru_contract wf]]
  using set_ways_less [OF wf(1)]
  by (auto simp: CacheEntry_class_def CacheEntry_match_def CacheEntry_def)

section \<open>Properties\<close>

text \<open>
  C9. A set associative LRU cache, built by its constructors and driven by any history of
  accesses, fills, invalidations and clears, never aborts and is a map from blocks to entries: a
  lookup always answers, and filling an absent address evicts one entry of its set, after which
  the lookup of an address finds that entry exactly for the filled block, nothing for the block
  it held before, and what it found before for every other block.
\<close>

theorem cache_fill_updates_map:
  assumes "SetAssociative p_size es p_assoc = Inr ix0"
    and "\<forall>p \<in> set (map snd h). op_in_range (num_entries ix0) p"
  shows "\<exists>ix c0 c. AssociativeCache LRU_inst (num_entries ix0) (unat p_assoc) CacheEntry ix0
      (\<lambda>_. LRU_instantiateEntry) = Inr (ix, c0) \<and> lru_steps ix h c0 = Inr c \<and>
    (let find = findEntry (CacheEntry_class (extractTag ix)) (SetAssociative_getPossibleEntries ix)
     in (\<forall>a. \<exists>r. find c a = Inr r) \<and>
        (\<forall>a t. find c a = Inr None \<longrightarrow> (\<exists>v c1 c2.
           findVictim (LRU_policy t) (CacheEntry_class (extractTag ix))
             (SetAssociative_getPossibleEntries ix) c a = Inr (v, c1) \<and>
           insertEntry (LRU_policy t) (CacheEntry_class (extractTag ix)) c1 a v = Inr c2 \<and>
           (\<forall>b. find c2 b = (if block_of ix0 b = block_of ix0 a then Inr (Some v)
              else if find c b = Inr (Some v) then Inr None else find c b)))))"
proof -
  obtain ix k s where ix: "AssociativeCache LRU_inst (num_entries ix0) (unat p_assoc) CacheEntry ix0
      (\<lambda>_. LRU_instantiateEntry) = Inr (ix, \<lparr>entries = replicate (num_entries ix0) CacheEntry, replPolicy = s\<rparr>)"
      and wf: "index_wf ix k" "index_filled ix" and n: "num_entries ix = num_entries ix0"
      and b: "block_of ix = block_of ix0"
    using AssociativeCache_init [OF assms(1), where good = "\<lambda>_. True" and inst = LRU_inst and x = CacheEntry
      and s = "\<lambda>_. LRU_instantiateEntry"] by (auto simp: LRU_inst_def)
  obtain c where c: "lru_steps ix h \<lparr>entries = replicate (num_entries ix0) CacheEntry, replPolicy = s\<rparr> = Inr c"
      "lru_coh ix c"
    using lru_steps_coh [OF wf fresh_coh [OF wf, of s], of h] assms(2) n by auto
  note ac = set_associative_contract [OF lru_contract wf]
  note find = assoc_cache.findEntry_lookup [OF ac]
  have "\<exists>v c1 c2. findVictim (LRU_policy t) (CacheEntry_class (extractTag ix))
        (SetAssociative_getPossibleEntries ix) c a = Inr (v, c1) \<and>
      insertEntry (LRU_policy t) (CacheEntry_class (extractTag ix)) c1 a v = Inr c2 \<and>
      (\<forall>b. findEntry (CacheEntry_class (extractTag ix)) (SetAssociative_getPossibleEntries ix) c2 b =
        (if block_of ix0 b = block_of ix0 a then Inr (Some v)
         else if findEntry (CacheEntry_class (extractTag ix)) (SetAssociative_getPossibleEntries ix) c b =
           Inr (Some v) then Inr None
         else findEntry (CacheEntry_class (extractTag ix)) (SetAssociative_getPossibleEntries ix) c b))"
    if "findEntry (CacheEntry_class (extractTag ix)) (SetAssociative_getPossibleEntries ix) c a = Inr None" for a t
  proof -
    let ?l = "assoc_cache.lookup (CacheEntry_class (extractTag ix)) (set_ways ix)"
    have "?l c a = None" using that find [OF c(2)] by simp
    from assoc_cache.fill_law [OF ac c(2) this, of t] obtain v c1 c2 where
      v: "findVictim (LRU_policy t) (CacheEntry_class (extractTag ix))
        (SetAssociative_getPossibleEntries ix) c a = Inr (v, c1)"
        "insertEntry (LRU_policy t) (CacheEntry_class (extractTag ix)) c1 a v = Inr c2" "lru_coh ix c2"
      and l: "\<And>k'. ?l c2 k' = (if block_of ix0 k' = block_of ix0 a then Some v
        else if ?l c k' = Some v then None else ?l c k')" unfolding b by blast
    show ?thesis
      by (rule exI [of _ v], rule exI [of _ c1], rule exI [of _ c2])
        (use v(1,2) in \<open>simp add: find [OF c(2)] find [OF v(3)] l\<close>)
  qed
  with ix c find [OF c(2)] show ?thesis by (simp add: Let_def)
qed

theorem cache_fill_updates_map_witness:
  "\<exists>ix0 ix c0 c r. SetAssociative 1024 64 2 = Inr ix0 \<and>
    AssociativeCache LRU_inst (num_entries ix0) 2 CacheEntry ix0 (\<lambda>_. LRU_instantiateEntry) = Inr (ix, c0) \<and>
    lru_steps ix [(5, Ac_Fill 0x1000), (9, Ac_Access 0x1008), (12, Ac_Clear)] c0 = Inr c \<and>
    findEntry (CacheEntry_class (extractTag ix)) (SetAssociative_getPossibleEntries ix) c 0x1000 = Inr r"
proof -
  have "case SetAssociative 1024 64 2 of Inl _ \<Rightarrow> False | Inr ix \<Rightarrow> setShift ix = 6" by code_simp
  then obtain ix where ix: "SetAssociative 1024 64 2 = Inr ix" by (auto split: sum.splits)
  with cache_fill_updates_map [OF ix, of "[(5, Ac_Fill 0x1000), (9, Ac_Access 0x1008), (12, Ac_Clear)]"]
  show ?thesis by (auto simp: op_in_range_def Let_def simp del: lru_steps.simps)
qed

end
