(* ===== verification/RiscvPMP.thy ===== *)
theory RiscvPMP
  imports AddrRange
begin

text \<open>
  The RISC-V physical memory protection unit (\<^verbatim>\<open>arch/riscv/pmp.hh\<close>, \<^verbatim>\<open>pmp.cc\<close>) and the two
  register writes of \<^verbatim>\<open>ISA::setMiscReg\<close> that program it (\<^verbatim>\<open>arch/riscv/isa.cc\<close>). The unit is
  the record \<open>pmp\<close>; the writes are the steps of the relation \<open>pmp_step\<close>. The theory shows that
  in every reachable state the check decides an access as the lowest-numbered matching entry
  says, over the byte regions the privileged specification gives to the registers, and that no
  sequence of writes changes a locked entry.

  A request is reduced to what the check reads: its physical address, its size and, when it has
  one, its virtual address.
\<close>

section \<open>Data\<close>

datatype PrivilegeMode = PRV_U | PRV_S | PRV_M

datatype mmu_mode = Mode_Read | Mode_Write | Mode_Execute

datatype ExceptionCode = INST_ACCESS | LOAD_ACCESS | STORE_ACCESS

datatype fault = NoFault | AddressFault addr ExceptionCode

record pmp_request =
  req_vaddr :: "addr option"
  req_paddr :: addr
  req_size :: u32

record pmp_entry =
  pmpAddr :: addr_range
  rawAddr :: addr
  pmpCfg :: u8

record pmp =
  pmpEntries :: nat
  numRules :: nat
  hasLockEntry :: bool
  pmpTable :: "pmp_entry list"

definition PMP_OFF :: u8 where "PMP_OFF = 0"
definition PMP_TOR :: u8 where "PMP_TOR = 1"
definition PMP_NA4 :: u8 where "PMP_NA4 = 2"
definition PMP_NAPOT :: u8 where "PMP_NAPOT = 3"

definition PMP_READ :: u8 where "PMP_READ = push_bit 0 1"
definition PMP_WRITE :: u8 where "PMP_WRITE = push_bit 1 1"
definition PMP_EXEC :: u8 where "PMP_EXEC = push_bit 2 1"
definition PMP_A_MASK :: u8 where "PMP_A_MASK = push_bit 3 3"
definition PMP_LOCK :: u8 where "PMP_LOCK = push_bit 7 1"

lemmas pmp_consts = PMP_OFF_def PMP_TOR_def PMP_NA4_def PMP_NAPOT_def PMP_READ_def PMP_WRITE_def
  PMP_EXEC_def PMP_A_MASK_def PMP_LOCK_def

section \<open>Operations\<close>

definition PmpEntry_init :: pmp_entry where
  "PmpEntry_init = \<lparr>pmpAddr = AddrRange_plain 0 0, rawAddr = 0, pmpCfg = 0\<rparr>"

definition PMP :: "nat \<Rightarrow> pmp" where
  "PMP pmp_entries =
     \<lparr>pmpEntries = pmp_entries, numRules = 0, hasLockEntry = False,
      pmpTable = replicate pmp_entries PmpEntry_init\<rparr>"

definition pmpGetAField :: "u8 \<Rightarrow> u8" where
  "pmpGetAField cfg = drop_bit 3 cfg AND 0x03"

definition shouldCheckPMP :: "pmp \<Rightarrow> PrivilegeMode \<Rightarrow> bool" where
  "shouldCheckPMP p pmode \<longleftrightarrow> numRules p \<noteq> 0 \<and> (pmode \<noteq> PRV_M \<or> hasLockEntry p)"

definition createAddrfault :: "addr \<Rightarrow> mmu_mode \<Rightarrow> fault" where
  "createAddrfault vaddr mode =
     (let code = (if mode = Mode_Read then LOAD_ACCESS
                  else if mode = Mode_Write then STORE_ACCESS
                  else INST_ACCESS)
      in AddressFault vaddr code)"

definition pmp_fault :: "pmp_request \<Rightarrow> mmu_mode \<Rightarrow> addr \<Rightarrow> fault" where
  "pmp_fault req mode vaddr =
     (case req_vaddr req of
        Some va \<Rightarrow> createAddrfault va mode
      | None \<Rightarrow> createAddrfault vaddr mode)"

definition pmp_verdict :: "u8 \<Rightarrow> pmp_request \<Rightarrow> mmu_mode \<Rightarrow> PrivilegeMode \<Rightarrow> addr \<Rightarrow> fault" where
  "pmp_verdict this_cfg req mode pmode vaddr =
     (if pmode = PRV_M \<and> PMP_LOCK AND this_cfg = 0 then NoFault
      else if mode = Mode_Read \<and> PMP_READ AND this_cfg \<noteq> 0 then NoFault
      else if mode = Mode_Write \<and> PMP_WRITE AND this_cfg \<noteq> 0 then NoFault
      else if mode = Mode_Execute \<and> PMP_EXEC AND this_cfg \<noteq> 0 then NoFault
      else pmp_fault req mode vaddr)"

text \<open>
  The loop of \<^verbatim>\<open>pmpCheck\<close> keeps \<^verbatim>\<open>match_index\<close> across iterations: an entry that matched but is
  off does not end the search and stays the match of the next iterations.
\<close>

fun pmpCheck_loop ::
  "pmp_entry list \<Rightarrow> pmp_request \<Rightarrow> mmu_mode \<Rightarrow> PrivilegeMode \<Rightarrow> addr \<Rightarrow> nat list \<Rightarrow> nat option
     \<Rightarrow> fault option" where
  "pmpCheck_loop table req mode pmode vaddr [] match_index = None"
| "pmpCheck_loop table req mode pmode vaddr (i # is) match_index =
     (let pmp_range = pmpAddr (table ! i);
          match_index =
            (if contains pmp_range (req_paddr req)
                \<and> contains pmp_range (req_paddr req + ucast (req_size req) - 1)
             then Some i else match_index)
      in case match_index of
           None \<Rightarrow> pmpCheck_loop table req mode pmode vaddr is match_index
         | Some m \<Rightarrow>
             if PMP_OFF \<noteq> pmpGetAField (pmpCfg (table ! m))
             then Some (pmp_verdict (pmpCfg (table ! m)) req mode pmode vaddr)
             else pmpCheck_loop table req mode pmode vaddr is match_index)"

definition pmpCheck :: "pmp \<Rightarrow> pmp_request \<Rightarrow> mmu_mode \<Rightarrow> PrivilegeMode \<Rightarrow> addr \<Rightarrow> fault" where
  "pmpCheck p req mode pmode vaddr =
     (if \<not> shouldCheckPMP p pmode then NoFault
      else case pmpCheck_loop (pmpTable p) req mode pmode vaddr [0..<length (pmpTable p)] None of
             Some f \<Rightarrow> f
           | None \<Rightarrow> if pmode = PRV_M then NoFault else pmp_fault req mode vaddr)"

definition pmpDecodeNapot :: "addr \<Rightarrow> addr_range outcome" where
  "pmpDecodeNapot pmpaddr =
     (if pmpaddr = - 1 then Inr (AddrRange_plain 0 (- 1))
      else let t1 = ctz64 (NOT pmpaddr)
           in check (t1 + 3 < 64) Undefined
                (let range = push_bit (t1 + 3) 1;
                     base = push_bit 2 (mbits pmpaddr 63 t1)
                 in Inr (AddrRange_plain base (base + range))))"

definition pmp_rule_range :: "pmp_entry list \<Rightarrow> nat \<Rightarrow> addr_range outcome" where
  "pmp_rule_range table pmp_index =
     (let prevAddr = (if pmp_index \<ge> 1 then rawAddr (table ! (pmp_index - 1)) else 0);
          this_addr = rawAddr (table ! pmp_index);
          a = pmpGetAField (pmpCfg (table ! pmp_index))
      in if a = PMP_OFF then Inr (AddrRange_plain 0 0)
         else if a = PMP_TOR then Inr (AddrRange_plain (push_bit 2 prevAddr) (push_bit 2 this_addr))
         else if a = PMP_NA4 then Inr (AddrRange_plain (push_bit 2 this_addr) (push_bit 2 this_addr + 4))
         else if a = PMP_NAPOT then pmpDecodeNapot this_addr
         else Inr (AddrRange_plain 0 0))"

definition count_rules :: "pmp_entry list \<Rightarrow> nat" where
  "count_rules table = length (filter (\<lambda>e. PMP_OFF \<noteq> pmpGetAField (pmpCfg e)) table)"

definition any_lock :: "pmp_entry list \<Rightarrow> bool" where
  "any_lock table \<longleftrightarrow> list_ex (\<lambda>e. pmpCfg e AND PMP_LOCK \<noteq> 0) table"

definition pmpUpdateRule :: "nat \<Rightarrow> pmp \<Rightarrow> pmp outcome" where
  "pmpUpdateRule pmp_index p =
     obind (pmp_rule_range (pmpTable p) pmp_index) (\<lambda>this_range.
       let table = (pmpTable p)[pmp_index := (pmpTable p ! pmp_index)\<lparr>pmpAddr := this_range\<rparr>]
       in Inr (p\<lparr>pmpTable := table, numRules := count_rules (take (pmpEntries p) table),
                 hasLockEntry := any_lock (take (pmpEntries p) table)\<rparr>))"

fun pmpUpdateRules :: "nat list \<Rightarrow> pmp \<Rightarrow> pmp outcome" where
  "pmpUpdateRules [] p = Inr p"
| "pmpUpdateRules (i # is) p = obind (pmpUpdateRule i p) (pmpUpdateRules is)"

definition pmpUpdateCfg :: "u32 \<Rightarrow> u8 \<Rightarrow> pmp \<Rightarrow> (bool \<times> pmp) outcome" where
  "pmpUpdateCfg pmp_index this_cfg p =
     (let k = unat pmp_index in
      if k \<ge> pmpEntries p then Inr (False, p)
      else if pmpCfg (pmpTable p ! k) AND PMP_LOCK \<noteq> 0 then Inr (False, p)
      else obind (pmpUpdateRule k
                    (p\<lparr>pmpTable := (pmpTable p)[k := (pmpTable p ! k)\<lparr>pmpCfg := this_cfg\<rparr>]\<rparr>))
             (\<lambda>p. Inr (True, p)))"

definition pmpUpdateAddr :: "u32 \<Rightarrow> addr \<Rightarrow> pmp \<Rightarrow> (bool \<times> pmp) outcome" where
  "pmpUpdateAddr pmp_index this_addr p =
     (let k = unat pmp_index in
      if k \<ge> pmpEntries p then Inr (False, p)
      else if pmpCfg (pmpTable p ! k) AND PMP_LOCK \<noteq> 0 then Inr (False, p)
      else if k < length (pmpTable p) - 1 \<and> pmpCfg (pmpTable p ! (k + 1)) AND PMP_LOCK \<noteq> 0
              \<and> pmpGetAField (pmpCfg (pmpTable p ! (k + 1))) = PMP_TOR
      then Inr (False, p)
      else obind (pmpUpdateRules [0..<pmpEntries p]
                    (p\<lparr>pmpTable := (pmpTable p)[k := (pmpTable p ! k)\<lparr>rawAddr := this_addr\<rparr>]\<rparr>))
             (\<lambda>p. Inr (True, p)))"

fun pmpReset_loop :: "nat list \<Rightarrow> pmp \<Rightarrow> pmp outcome" where
  "pmpReset_loop [] p = Inr p"
| "pmpReset_loop (i # is) p =
     obind (pmpUpdateRule i
              (p\<lparr>pmpTable := (pmpTable p)[i := (pmpTable p ! i)
                   \<lparr>pmpCfg := pmpCfg (pmpTable p ! i) AND NOT (PMP_A_MASK OR PMP_LOCK)\<rparr>]\<rparr>))
       (pmpReset_loop is)"

definition pmpReset :: "pmp \<Rightarrow> pmp outcome" where
  "pmpReset p = pmpReset_loop [0..<length (pmpTable p)] p"

text \<open>
  The writes of the configuration and address registers in \<^verbatim>\<open>ISA::setMiscReg\<close>, for a hart at
  privilege \<^verbatim>\<open>prv\<close>. \<^verbatim>\<open>n\<close> is the register's number, \<^verbatim>\<open>old_val\<close> the value the register file holds;
  the result is the unit and the value stored in the register file. The mask that keeps the
  old byte of an entry that did not change is \<^verbatim>\<open>0xFF << (8*i)\<close> on \<^verbatim>\<open>int\<close>: it is undefined
  from \<open>i = 4\<close> on and sign-extended at \<open>i = 3\<close>.
\<close>

datatype RiscvType = RV32 | RV64

fun reg_size :: "RiscvType \<Rightarrow> nat" where
  "reg_size RV32 = 4"
| "reg_size RV64 = 8"

fun pmpcfg_loop :: "nat \<Rightarrow> u64 \<Rightarrow> u64 \<Rightarrow> nat list \<Rightarrow> u64 \<Rightarrow> pmp \<Rightarrow> (u64 \<times> pmp) outcome" where
  "pmpcfg_loop n val old_val [] res p = Inr (res, p)"
| "pmpcfg_loop n val old_val (i # is) res p =
     (let cfg_val = ucast (drop_bit (8 * i) val AND 0xff) in
      obind (pmpUpdateCfg (of_nat (i + 4 * n)) cfg_val p) (\<lambda>(result, p).
        if result
        then pmpcfg_loop n val old_val is (res OR push_bit (8 * i) (ucast cfg_val)) p
        else check (8 * i < 32) Undefined
               (pmpcfg_loop n val old_val is
                  (res OR (old_val AND scast (push_bit (8 * i) 0xFF :: u32))) p)))"

definition setMiscReg_PMPCFG ::
  "PrivilegeMode \<Rightarrow> RiscvType \<Rightarrow> nat \<Rightarrow> u64 \<Rightarrow> u64 \<Rightarrow> pmp \<Rightarrow> (u64 \<times> pmp) outcome" where
  "setMiscReg_PMPCFG prv rv n val old_val p =
     check (prv = PRV_M) Assert_Failed (pmpcfg_loop n val old_val [0..<reg_size rv] 0 p)"

definition setMiscReg_PMPADDR :: "PrivilegeMode \<Rightarrow> nat \<Rightarrow> u64 \<Rightarrow> u64 \<Rightarrow> pmp \<Rightarrow> (u64 \<times> pmp) outcome" where
  "setMiscReg_PMPADDR prv n val old_val p =
     check (prv = PRV_M) Assert_Failed
       (obind (pmpUpdateAddr (of_nat n) val p) (\<lambda>(result, p).
          Inr (if result then val else old_val, p)))"

text \<open>What software in machine mode can do to the unit without a reset.\<close>

inductive pmp_step :: "pmp \<Rightarrow> pmp \<Rightarrow> bool" where
  step_cfg: "pmpUpdateCfg k c p = Inr (b, p') \<Longrightarrow> pmp_step p p'"
| step_addr: "pmpUpdateAddr k a p = Inr (b, p') \<Longrightarrow> pmp_step p p'"

inductive_cases pmp_stepE: "pmp_step p p'"

inductive pmp_reach :: "nat \<Rightarrow> pmp \<Rightarrow> bool" for n where
  reach_init: "pmp_reach n (PMP n)"
| reach_step: "pmp_reach n p \<Longrightarrow> pmp_step p p' \<Longrightarrow> pmp_reach n p'"
| reach_reset: "pmp_reach n p \<Longrightarrow> pmpReset p = Inr p' \<Longrightarrow> pmp_reach n p'"

section \<open>Specification\<close>

text \<open>The bytes an entry covers, as the privileged specification decodes its registers.\<close>

function trailing_ones :: "nat \<Rightarrow> nat" where
  "trailing_ones a = (if odd a then Suc (trailing_ones (a div 2)) else 0)"
  by pat_completeness auto

termination
  by (relation "measure id") (auto elim: oddE)

declare trailing_ones.simps [simp del]

definition priv_region :: "pmp_entry list \<Rightarrow> nat \<Rightarrow> nat set" where
  "priv_region table i =
     (let a = unat (rawAddr (table ! i));
          prev = (if i = 0 then 0 else unat (rawAddr (table ! (i - 1))));
          m = pmpGetAField (pmpCfg (table ! i));
          base = 4 * (a - (2 ^ trailing_ones a - 1))
      in if m = PMP_TOR then {4 * prev..<4 * a}
         else if m = PMP_NA4 then {4 * a..<4 * a + 4}
         else if m = PMP_NAPOT then {base..<base + 2 ^ (trailing_ones a + 3)}
         else {})"

text \<open>
  The specification knows address registers of 54 bits. The unit keeps all 64 bits that are
  written: addresses are then reduced to 64 bits, a region that would end at the end of the address
  space is empty because its end wraps to 0, and the register of 64 ones in the power-of-two mode
  stands for every byte but the last.
\<close>

definition pmp_region :: "pmp_entry list \<Rightarrow> nat \<Rightarrow> nat set" where
  "pmp_region table i =
     (let a = unat (rawAddr (table ! i));
          prev = (if i = 0 then 0 else unat (rawAddr (table ! (i - 1))));
          m = pmpGetAField (pmpCfg (table ! i));
          base = 4 * (a - (2 ^ trailing_ones a - 1))
      in if m = PMP_TOR then {4 * prev mod 2 ^ 64..<4 * a mod 2 ^ 64}
         else if m = PMP_NA4 then {4 * a mod 2 ^ 64..<(4 * a + 4) mod 2 ^ 64}
         else if m = PMP_NAPOT
         then if a = 2 ^ 64 - 1 then {0..<2 ^ 64 - 1}
              else {base mod 2 ^ 64..<(base + 2 ^ (trailing_ones a + 3)) mod 2 ^ 64}
         else {})"

definition req_bytes :: "pmp_request \<Rightarrow> nat set" where
  "req_bytes req = {unat (req_paddr req)..<unat (req_paddr req) + unat (req_size req)}"

definition entry_locked :: "pmp_entry \<Rightarrow> bool" where
  "entry_locked e \<longleftrightarrow> bit (pmpCfg e) 7"

definition entry_permits :: "pmp_entry \<Rightarrow> mmu_mode \<Rightarrow> bool" where
  "entry_permits e mode =
     bit (pmpCfg e) (case mode of Mode_Read \<Rightarrow> 0 | Mode_Write \<Rightarrow> 1 | Mode_Execute \<Rightarrow> 2)"

definition pmp_allows :: "pmp \<Rightarrow> pmp_request \<Rightarrow> mmu_mode \<Rightarrow> PrivilegeMode \<Rightarrow> bool" where
  "pmp_allows p req mode pmode \<longleftrightarrow>
     (\<forall>e \<in> set (pmpTable p). pmpGetAField (pmpCfg e) = PMP_OFF) \<or>
     (case find (\<lambda>i. req_bytes req \<subseteq> pmp_region (pmpTable p) i) [0..<length (pmpTable p)] of
        None \<Rightarrow> pmode = PRV_M
      | Some i \<Rightarrow> (pmode = PRV_M \<and> \<not> entry_locked (pmpTable p ! i))
                 \<or> entry_permits (pmpTable p ! i) mode)"

section \<open>The table's invariant\<close>

definition ranges_ok :: "pmp_entry list \<Rightarrow> nat set \<Rightarrow> bool" where
  "ranges_ok table S \<longleftrightarrow> (\<forall>i \<in> S. pmp_rule_range table i = Inr (pmpAddr (table ! i)))"

definition pmp_inv :: "pmp \<Rightarrow> bool" where
  "pmp_inv p \<longleftrightarrow> length (pmpTable p) = pmpEntries p \<and> ranges_ok (pmpTable p) {..<pmpEntries p}
     \<and> numRules p = count_rules (pmpTable p) \<and> hasLockEntry p = any_lock (pmpTable p)"

definition same_regs :: "pmp_entry list \<Rightarrow> pmp_entry list \<Rightarrow> bool" where
  "same_regs t t' \<longleftrightarrow> length t' = length t
     \<and> (\<forall>i < length t. rawAddr (t' ! i) = rawAddr (t ! i) \<and> pmpCfg (t' ! i) = pmpCfg (t ! i))"

lemma lock_bit [simp]: "(c AND PMP_LOCK = 0) \<longleftrightarrow> \<not> bit c 7" "(PMP_LOCK AND c = 0) \<longleftrightarrow> \<not> bit c 7"
  using and_exp_eq_0_iff_not_bit [of c 7] by (simp_all add: PMP_LOCK_def and.commute)

lemma permission_bits [simp]:
  "(PMP_READ AND c = 0) \<longleftrightarrow> \<not> bit c 0" "(PMP_WRITE AND c = 0) \<longleftrightarrow> \<not> bit c 1"
  "(PMP_EXEC AND c = 0) \<longleftrightarrow> \<not> bit c 2"
  using and_exp_eq_0_iff_not_bit [of c 0] and_exp_eq_0_iff_not_bit [of c 1]
    and_exp_eq_0_iff_not_bit [of c 2]
  by (simp_all add: PMP_READ_def PMP_WRITE_def PMP_EXEC_def push_bit_eq_mult and.commute)

lemma any_lock_iff: "any_lock t \<longleftrightarrow> (\<exists>e \<in> set t. entry_locked e)"
  by (simp add: any_lock_def entry_locked_def list_ex_iff)

lemma nth_field_update [simp]:
  "rawAddr (t[k := (t ! k)\<lparr>pmpAddr := r\<rparr>] ! i) = rawAddr (t ! i)"
  "pmpCfg (t[k := (t ! k)\<lparr>pmpAddr := r\<rparr>] ! i) = pmpCfg (t ! i)"
  "rawAddr (t[k := (t ! k)\<lparr>pmpCfg := c\<rparr>] ! i) = rawAddr (t ! i)"
  "pmpCfg (t[k := (t ! k)\<lparr>rawAddr := a\<rparr>] ! i) = pmpCfg (t ! i)"
  unfolding atomize_conj by (cases "k < length t") (simp_all add: nth_list_update list_update_beyond not_less)

lemma pmp_rule_range_cong:
  assumes "pmpCfg (t' ! i) = pmpCfg (t ! i)" "rawAddr (t' ! i) = rawAddr (t ! i)"
    "pmpGetAField (pmpCfg (t ! i)) = PMP_TOR \<Longrightarrow> i \<ge> 1 \<Longrightarrow> rawAddr (t' ! (i - 1)) = rawAddr (t ! (i - 1))"
  shows "pmp_rule_range t' i = pmp_rule_range t i"
  using assms by (auto simp: pmp_rule_range_def Let_def)

lemma pmpUpdateRule_spec:
  assumes "pmpUpdateRule k p = Inr p'" "k < length (pmpTable p)" "length (pmpTable p) = pmpEntries p"
  shows "same_regs (pmpTable p) (pmpTable p')" "pmpEntries p' = pmpEntries p"
    "ranges_ok (pmpTable p) (S - {k}) \<Longrightarrow> S \<subseteq> {..<pmpEntries p} \<Longrightarrow> ranges_ok (pmpTable p') S"
    "numRules p' = count_rules (pmpTable p')" "hasLockEntry p' = any_lock (pmpTable p')"
proof -
  from assms obtain r where r: "pmp_rule_range (pmpTable p) k = Inr r"
    and p': "pmpTable p' = (pmpTable p)[k := (pmpTable p ! k)\<lparr>pmpAddr := r\<rparr>]"
      "pmpEntries p' = pmpEntries p" "numRules p' = count_rules (pmpTable p')"
      "hasLockEntry p' = any_lock (pmpTable p')"
    by (auto simp: pmpUpdateRule_def Let_def)
  show "same_regs (pmpTable p) (pmpTable p')" "pmpEntries p' = pmpEntries p"
    "numRules p' = count_rules (pmpTable p')" "hasLockEntry p' = any_lock (pmpTable p')"
    using p' by (auto simp: same_regs_def nth_list_update)
  assume ok: "ranges_ok (pmpTable p) (S - {k})" and S: "S \<subseteq> {..<pmpEntries p}"
  have rule: "pmp_rule_range (pmpTable p') i = pmp_rule_range (pmpTable p) i"
    if "i < pmpEntries p" for i
    using that assms(2,3) by (intro pmp_rule_range_cong) (auto simp: p' nth_list_update)
  show "ranges_ok (pmpTable p') S"
    unfolding ranges_ok_def
  proof
    fix i assume i: "i \<in> S"
    with S have "i < pmpEntries p" by auto
    with rule ok r i assms(2) show "pmp_rule_range (pmpTable p') i = Inr (pmpAddr (pmpTable p' ! i))"
      by (cases "i = k") (auto simp: p' ranges_ok_def)
  qed
qed

lemma same_regs_trans: "same_regs t u \<Longrightarrow> same_regs u v \<Longrightarrow> same_regs t v"
  by (simp add: same_regs_def)

lemma same_regs_refl [simp]: "same_regs t t"
  by (simp add: same_regs_def)

lemma pmpUpdateRules_spec:
  assumes "pmpUpdateRules is p = Inr p'" "set is \<subseteq> {..<pmpEntries p}" "length (pmpTable p) = pmpEntries p"
    "ranges_ok (pmpTable p) S" "S \<subseteq> {..<pmpEntries p}"
  shows "same_regs (pmpTable p) (pmpTable p') \<and> pmpEntries p' = pmpEntries p
    \<and> ranges_ok (pmpTable p') (S \<union> set is)
    \<and> (is \<noteq> [] \<longrightarrow> numRules p' = count_rules (pmpTable p') \<and> hasLockEntry p' = any_lock (pmpTable p'))"
  using assms
proof (induction "is" arbitrary: p S)
  case (Cons i "is")
  then obtain q where q: "pmpUpdateRule i p = Inr q" "pmpUpdateRules is q = Inr p'" by auto
  have i: "i < length (pmpTable p)" using Cons.prems by simp
  note u = pmpUpdateRule_spec [OF q(1) i Cons.prems(3)]
  have "ranges_ok (pmpTable q) (insert i S)"
    using Cons.prems by (intro u(3)) (auto simp: ranges_ok_def)
  moreover have "length (pmpTable q) = pmpEntries q" using u(1,2) Cons.prems(3) by (simp add: same_regs_def)
  ultimately have "same_regs (pmpTable q) (pmpTable p') \<and> pmpEntries p' = pmpEntries q
    \<and> ranges_ok (pmpTable p') (insert i S \<union> set is)
    \<and> (is \<noteq> [] \<longrightarrow> numRules p' = count_rules (pmpTable p') \<and> hasLockEntry p' = any_lock (pmpTable p'))"
    using Cons.prems u(2) q(2) by (intro Cons.IH) auto
  with u q(2) show ?case by (cases "is") (auto intro: same_regs_trans simp: insert_commute)
qed simp

lemma pmp_inv_PMP: "pmp_inv (PMP n)"
  by (auto simp: pmp_inv_def PMP_def ranges_ok_def pmp_rule_range_def PmpEntry_init_def pmpGetAField_def
      PMP_OFF_def count_rules_def any_lock_def list_ex_iff)

lemma pmp_inv_cfg_change:
  assumes "pmp_inv p" "k < pmpEntries p"
    "pmpUpdateRule k (p\<lparr>pmpTable := (pmpTable p)[k := (pmpTable p ! k)\<lparr>pmpCfg := c\<rparr>]\<rparr>) = Inr p'"
  shows "pmp_inv p'" "pmpEntries p' = pmpEntries p"
    "same_regs ((pmpTable p)[k := (pmpTable p ! k)\<lparr>pmpCfg := c\<rparr>]) (pmpTable p')"
proof -
  define q where "q = p\<lparr>pmpTable := (pmpTable p)[k := (pmpTable p ! k)\<lparr>pmpCfg := c\<rparr>]\<rparr>"
  have q: "k < length (pmpTable q)" "length (pmpTable q) = pmpEntries q" "pmpEntries q = pmpEntries p"
    using assms by (auto simp: q_def pmp_inv_def)
  note u = pmpUpdateRule_spec [OF assms(3) [folded q_def] q(1,2)]
  have "pmp_rule_range (pmpTable q) i = Inr (pmpAddr (pmpTable q ! i))" if "i < pmpEntries p" "i \<noteq> k" for i
  proof -
    have "pmp_rule_range (pmpTable q) i = pmp_rule_range (pmpTable p) i"
      using that assms(1) by (intro pmp_rule_range_cong) (auto simp: q_def nth_list_update pmp_inv_def)
    with that assms(1) show ?thesis by (auto simp: q_def pmp_inv_def ranges_ok_def)
  qed
  then have "ranges_ok (pmpTable q) ({..<pmpEntries q} - {k})" by (auto simp: ranges_ok_def q(3))
  from u(3) [OF this] u(1,2,4,5) q(2) show "pmp_inv p'" by (auto simp: pmp_inv_def same_regs_def)
  show "pmpEntries p' = pmpEntries p" using u(2) q(3) by simp
  show "same_regs ((pmpTable p)[k := (pmpTable p ! k)\<lparr>pmpCfg := c\<rparr>]) (pmpTable p')"
    using u(1) by (simp add: q_def)
qed

lemma pmp_inv_addr_change:
  assumes "pmp_inv p" "k < pmpEntries p"
    "pmpUpdateRules [0..<pmpEntries p] (p\<lparr>pmpTable := (pmpTable p)[k := (pmpTable p ! k)\<lparr>rawAddr := a\<rparr>]\<rparr>) = Inr p'"
  shows "pmp_inv p'" "pmpEntries p' = pmpEntries p"
    "same_regs ((pmpTable p)[k := (pmpTable p ! k)\<lparr>rawAddr := a\<rparr>]) (pmpTable p')"
  using pmpUpdateRules_spec [OF assms(3), of "{}"] assms(1,2)
  by (auto simp: pmp_inv_def same_regs_def ranges_ok_def atLeast0LessThan)

lemma pmp_inv_step: "pmp_step p p' \<Longrightarrow> pmp_inv p \<Longrightarrow> pmp_inv p' \<and> pmpEntries p' = pmpEntries p"
  by (erule pmp_stepE)
    (auto simp: pmpUpdateCfg_def pmpUpdateAddr_def Let_def not_le split: if_splits
      dest: pmp_inv_cfg_change pmp_inv_addr_change)

lemma pmp_inv_reset_loop:
  "pmpReset_loop is p = Inr p' \<Longrightarrow> set is \<subseteq> {..<pmpEntries p} \<Longrightarrow> pmp_inv p
     \<Longrightarrow> pmp_inv p' \<and> pmpEntries p' = pmpEntries p"
proof (induction "is" arbitrary: p)
  case (Cons i "is")
  then obtain q where q: "pmpReset_loop is q = Inr p'" and
    u: "pmpUpdateRule i (p\<lparr>pmpTable := (pmpTable p)[i := (pmpTable p ! i)
      \<lparr>pmpCfg := pmpCfg (pmpTable p ! i) AND NOT (PMP_A_MASK OR PMP_LOCK)\<rparr>]\<rparr>) = Inr q" by auto
  have "pmp_inv q" "pmpEntries q = pmpEntries p"
    using pmp_inv_cfg_change [OF Cons.prems(3) _ u] Cons.prems(2) by auto
  with Cons.IH [OF q] Cons.prems(2) show ?case by simp
qed simp

lemma pmp_reach_inv: "pmp_reach n p \<Longrightarrow> pmp_inv p \<and> pmpEntries p = n"
proof (induction rule: pmp_reach.induct)
  case reach_init
  then show ?case by (simp add: pmp_inv_PMP) (simp add: PMP_def)
next
  case (reach_step p p')
  then show ?case by (auto dest: pmp_inv_step)
next
  case (reach_reset p p')
  then have "length (pmpTable p) = pmpEntries p" by (simp add: pmp_inv_def)
  with reach_reset pmp_inv_reset_loop [of "[0..<length (pmpTable p)]" p p'] show ?case
    by (simp add: pmpReset_def atLeast0LessThan)
qed

section \<open>Locked entries\<close>

lemma pmp_step_effect:
  assumes "pmp_step p p'" "pmp_inv p"
  obtains "p' = p"
  | k c where "k < pmpEntries p" "\<not> entry_locked (pmpTable p ! k)"
      "same_regs ((pmpTable p)[k := (pmpTable p ! k)\<lparr>pmpCfg := c\<rparr>]) (pmpTable p')"
  | k a where "k < pmpEntries p" "\<not> entry_locked (pmpTable p ! k)"
      "\<not> (k + 1 < pmpEntries p \<and> entry_locked (pmpTable p ! (k + 1))
          \<and> pmpGetAField (pmpCfg (pmpTable p ! (k + 1))) = PMP_TOR)"
      "same_regs ((pmpTable p)[k := (pmpTable p ! k)\<lparr>rawAddr := a\<rparr>]) (pmpTable p')"
  using assms(1)
proof cases
  case (step_cfg k c b)
  then show ?thesis
    using pmp_inv_cfg_change(3) [OF assms(2), of "unat k" c p'] that(1) that(2) [of "unat k" c]
    by (auto simp: pmpUpdateCfg_def Let_def entry_locked_def not_le split: if_splits)
next
  case (step_addr k a b)
  have "length (pmpTable p) = pmpEntries p" using assms(2) by (simp add: pmp_inv_def)
  with step_addr show ?thesis
    using pmp_inv_addr_change(3) [OF assms(2), of "unat k" a p'] that(1) that(3) [of "unat k" a]
    by (simp add: pmpUpdateAddr_def Let_def entry_locked_def not_le less_diff_conv split: if_splits)
qed

lemma step_keeps_locked_regs:
  assumes "pmp_step p p'" "pmp_inv p" "i < pmpEntries p" "entry_locked (pmpTable p ! i)"
  shows "pmpCfg (pmpTable p' ! i) = pmpCfg (pmpTable p ! i)
    \<and> rawAddr (pmpTable p' ! i) = rawAddr (pmpTable p ! i)
    \<and> (pmpGetAField (pmpCfg (pmpTable p ! i)) = PMP_TOR \<longrightarrow> i \<ge> 1
        \<longrightarrow> rawAddr (pmpTable p' ! (i - 1)) = rawAddr (pmpTable p ! (i - 1)))"
proof -
  have l: "length (pmpTable p) = pmpEntries p" using assms(2) by (simp add: pmp_inv_def)
  from assms(1,2) show ?thesis
  proof (cases rule: pmp_step_effect)
    case (2 k c)
    with l assms(3,4) show ?thesis by (auto simp: same_regs_def nth_list_update)
  next
    case (3 k a)
    with l assms(3,4) show ?thesis by (cases "k + 1 = i") (auto simp: same_regs_def nth_list_update)
  qed simp
qed

lemma step_keeps_locked:
  assumes "pmp_step p p'" "pmp_inv p" "i < pmpEntries p" "entry_locked (pmpTable p ! i)"
  shows "pmpTable p' ! i = pmpTable p ! i"
proof -
  note k = step_keeps_locked_regs [OF assms]
  have "pmp_rule_range (pmpTable p') i = pmp_rule_range (pmpTable p) i"
    using k by (intro pmp_rule_range_cong) simp_all
  with pmp_inv_step [OF assms(1,2)] assms(2,3)
  have "pmpAddr (pmpTable p' ! i) = pmpAddr (pmpTable p ! i)" by (simp add: pmp_inv_def ranges_ok_def)
  with k show ?thesis by simp
qed

lemma steps_keep_locked:
  "pmp_step\<^sup>*\<^sup>* p p' \<Longrightarrow> pmp_inv p \<Longrightarrow> pmp_inv p' \<and> pmpEntries p' = pmpEntries p
     \<and> (\<forall>i < pmpEntries p. entry_locked (pmpTable p ! i) \<longrightarrow> pmpTable p' ! i = pmpTable p ! i)"
proof (induction rule: rtranclp_induct)
  case (step q r)
  then show ?case using pmp_inv_step [of q r] step_keeps_locked [of q r] by auto
qed simp

section \<open>The check\<close>

definition entry_matches :: "pmp_entry list \<Rightarrow> pmp_request \<Rightarrow> nat \<Rightarrow> bool" where
  "entry_matches table req i \<longleftrightarrow> contains (pmpAddr (table ! i)) (req_paddr req)
     \<and> contains (pmpAddr (table ! i)) (req_paddr req + ucast (req_size req) - 1)"

lemma pmpCheck_loop_find:
  assumes "\<forall>i \<in> set is. entry_matches table req i \<longrightarrow> pmpGetAField (pmpCfg (table ! i)) \<noteq> PMP_OFF"
  shows "pmpCheck_loop table req mode pmode v is None
    = map_option (\<lambda>i. pmp_verdict (pmpCfg (table ! i)) req mode pmode v) (find (entry_matches table req) is)"
  using assms by (induction "is") (auto simp: Let_def entry_matches_def)

lemma off_matches_nothing:
  assumes "pmp_inv p" "i < pmpEntries p" "pmpGetAField (pmpCfg (pmpTable p ! i)) = PMP_OFF"
  shows "\<not> entry_matches (pmpTable p) req i"
proof -
  have "pmp_rule_range (pmpTable p) i = Inr (pmpAddr (pmpTable p ! i))"
    using assms(1,2) by (simp add: pmp_inv_def ranges_ok_def)
  then have "pmpAddr (pmpTable p ! i) = AddrRange_plain 0 0"
    using assms(3) by (simp add: pmp_rule_range_def)
  then show ?thesis by (simp add: entry_matches_def)
qed

lemma find_matches:
  assumes "pmp_inv p"
  shows "pmpCheck_loop (pmpTable p) req mode pmode v [0..<length (pmpTable p)] None
    = map_option (\<lambda>i. pmp_verdict (pmpCfg (pmpTable p ! i)) req mode pmode v)
        (find (entry_matches (pmpTable p) req) [0..<length (pmpTable p)])"
  using assms off_matches_nothing [OF assms]
  by (intro pmpCheck_loop_find) (auto simp: pmp_inv_def)

lemma count_rules_0: "count_rules t = 0 \<longleftrightarrow> (\<forall>e \<in> set t. pmpGetAField (pmpCfg e) = PMP_OFF)"
  by (auto simp: count_rules_def filter_empty_conv)

lemma pmp_verdict_eq:
  "pmp_verdict (pmpCfg e) req mode pmode v
    = (if pmode = PRV_M \<and> \<not> entry_locked e \<or> entry_permits e mode then NoFault else pmp_fault req mode v)"
  by (cases mode) (auto simp: pmp_verdict_def entry_locked_def entry_permits_def)

lemma find_Some_nth:
  "find P [0..<n] = Some k \<Longrightarrow> k < n \<and> P k \<and> (\<forall>j < k. \<not> P j)"
  by (auto simp: find_Some_iff)

lemma pmpCheck_decision:
  assumes "pmp_inv p"
  shows "pmpCheck p req mode pmode v =
    (if (\<forall>e \<in> set (pmpTable p). pmpGetAField (pmpCfg e) = PMP_OFF) \<or>
        (case find (entry_matches (pmpTable p) req) [0..<length (pmpTable p)] of
           None \<Rightarrow> pmode = PRV_M
         | Some i \<Rightarrow> pmode = PRV_M \<and> \<not> entry_locked (pmpTable p ! i) \<or> entry_permits (pmpTable p ! i) mode)
     then NoFault else pmp_fault req mode v)"
proof (cases "shouldCheckPMP p pmode")
  case True
  then have "(\<forall>e \<in> set (pmpTable p). pmpGetAField (pmpCfg e) = PMP_OFF) = False"
    using assms count_rules_0 [of "pmpTable p"] by (simp add: shouldCheckPMP_def pmp_inv_def)
  with True show ?thesis
    by (simp only: pmpCheck_def find_matches [OF assms] pmp_verdict_eq) (simp split: option.split)
next
  case False
  then consider "count_rules (pmpTable p) = 0" | "pmode = PRV_M" "\<forall>e \<in> set (pmpTable p). \<not> entry_locked e"
    using assms by (auto simp: shouldCheckPMP_def pmp_inv_def any_lock_iff)
  then show ?thesis
  proof cases
    case 2
    then show ?thesis using False
      by (auto simp: pmpCheck_def split: option.splits dest!: find_Some_nth)
  qed (use False in \<open>auto simp: pmpCheck_def count_rules_0\<close>)
qed

section \<open>Ranges and regions\<close>

lemma bit_trailing_ones: "i < trailing_ones a \<Longrightarrow> bit a i"
proof (induction a arbitrary: i rule: trailing_ones.induct)
  case (1 a)
  then show ?case
    by (cases i) (auto simp: trailing_ones.simps [of a] bit_0 bit_Suc split: if_splits)
qed

lemma not_bit_trailing_ones: "\<not> bit a (trailing_ones a)"
proof (induction a rule: trailing_ones.induct)
  case (1 a)
  then show ?case by (auto simp: trailing_ones.simps [of a] bit_0 bit_Suc)
qed

lemma ctz64_NOT: "w \<noteq> - 1 \<Longrightarrow> ctz64 (NOT w) = trailing_ones (unat w)"
proof (rule ctz64_eqI)
  let ?t = "trailing_ones (unat w)"
  have b: "bit w i \<longleftrightarrow> bit (unat w) i" for i by (simp add: bit_unsigned_iff)
  show "\<not> bit (NOT w) i" if "i < ?t" for i
    using bit_trailing_ones [OF that] by (simp add: b bit_not_iff)
  assume "w \<noteq> - 1"
  then obtain i where i: "i < 64" "\<not> bit w i"
    by (auto simp: bit_eq_iff [of w "- 1"])
  have "?t \<le> i"
    using i bit_trailing_ones [of i "unat w"] by (auto simp: b not_less [symmetric])
  with i(1) show "bit (NOT w) ?t"
    using not_bit_trailing_ones [of "unat w"] by (simp add: b bit_not_iff)
qed

lemma trailing_ones_mod: "a mod 2 ^ trailing_ones a = 2 ^ trailing_ones a - 1"
proof -
  have "take_bit (trailing_ones a) a = mask (trailing_ones a)"
    by (rule bit_eqI) (auto simp: bit_take_bit_iff bit_mask_iff bit_trailing_ones)
  then show ?thesis by (simp add: take_bit_eq_mod mask_eq_exp_minus_1)
qed

lemma unat_push2: "unat (push_bit 2 (a :: addr)) = 4 * unat a mod 2 ^ 64"
  by (simp add: push_bit_eq_mult unat_word_ariths mult.commute)

lemma unat_mbits_top: "k < 64 \<Longrightarrow> unat (mbits w 63 k) = unat w - unat w mod 2 ^ k"
proof -
  have "(mask 64 :: u64) = - 1" by (rule bit_word_eqI) (simp add: bit_mask_iff)
  moreover assume "k < 64"
  ultimately show ?thesis by (simp add: mbits_def unat_and_not_mask minus_mod_eq_div_mult)
qed

lemma pmpDecodeNapot_region:
  assumes "pmpDecodeNapot w = Inr r"
  defines "t \<equiv> trailing_ones (unat w)"
  defines "base \<equiv> 4 * (unat w - (2 ^ t - 1))"
  shows "contains r x \<longleftrightarrow> unat x \<in> (if unat w = 2 ^ 64 - 1 then {0..<2 ^ 64 - 1}
    else {base mod 2 ^ 64..<(base + 2 ^ (t + 3)) mod 2 ^ 64})"
proof (cases "w = - 1")
  case True
  then have "unat w = 2 ^ 64 - 1" by (simp add: unsigned_minus_1_eq_mask mask_eq_exp_minus_1)
  with assms(1) True show ?thesis
    by (auto simp: pmpDecodeNapot_def word_less_nat_alt unsigned_minus_1_eq_mask mask_eq_exp_minus_1
        dest!: sym [of "AddrRange_plain _ _"])
next
  case False
  then have "unat w \<noteq> unat (- 1 :: addr)" by (simp only: word_unat_eq_iff not_False_eq_True)
  then have nw: "unat w \<noteq> 2 ^ 64 - 1" by (simp add: unsigned_minus_1_eq_mask mask_eq_exp_minus_1)
  let ?b = "push_bit 2 (mbits w 63 t)"
  have t: "t + 3 < 64" and r: "r = AddrRange_plain ?b (?b + push_bit (t + 3) 1)"
    using assms(1) False by (simp_all add: pmpDecodeNapot_def ctz64_NOT t_def [symmetric] Let_def check_def split: if_splits)
  have "unat (mbits w 63 t) = unat w - (2 ^ t - 1)"
    using t trailing_ones_mod [of "unat w"] by (simp add: unat_mbits_top t_def)
  then have b: "unat ?b = base mod 2 ^ 64" by (simp only: unat_push2 base_def)
  have "unat (2 ^ (t + 3) :: addr) = 2 ^ (t + 3)" using t by (intro unat_pow2) simp
  then have "unat (?b + push_bit (t + 3) 1) = (base + 2 ^ (t + 3)) mod 2 ^ 64"
    by (simp add: unat_word_ariths b mod_add_left_eq)
  then show ?thesis using nw by (simp add: r word_le_nat_alt word_less_nat_alt b)
qed

lemma pmpGetAField_cases:
  "pmpGetAField c = PMP_OFF \<or> pmpGetAField c = PMP_TOR \<or> pmpGetAField c = PMP_NA4 \<or> pmpGetAField c = PMP_NAPOT"
proof -
  have "unat (pmpGetAField c) = unat (drop_bit 3 c) mod 4"
    using unat_and_mask_word [of "drop_bit 3 c" 2] by (simp add: pmpGetAField_def mask_eq_exp_minus_1)
  then have "unat (pmpGetAField c) < 4" by simp
  then have "unat (pmpGetAField c) \<in> {0, 1, 2, 3}" by auto
  then show ?thesis by (auto simp: pmp_consts word_unat_eq_iff)
qed

lemma contains_region:
  assumes "pmp_inv p" "i < pmpEntries p"
  shows "contains (pmpAddr (pmpTable p ! i)) x \<longleftrightarrow> unat x \<in> pmp_region (pmpTable p) i"
proof -
  let ?e = "pmpTable p ! i"
  have rule: "pmp_rule_range (pmpTable p) i = Inr (pmpAddr ?e)"
    using assms by (simp add: pmp_inv_def ranges_ok_def)
  from pmpGetAField_cases [of "pmpCfg ?e"] show ?thesis
  proof (elim disjE)
    assume "pmpGetAField (pmpCfg ?e) = PMP_TOR"
    with rule show ?thesis
      by (cases "i = 0") (auto simp: pmp_rule_range_def pmp_region_def Let_def pmp_consts unat_push2
          word_le_nat_alt word_less_nat_alt dest!: sym [of "AddrRange_plain _ _"])
  next
    assume "pmpGetAField (pmpCfg ?e) = PMP_NA4"
    moreover have "unat (push_bit 2 (rawAddr ?e) + 4) = (4 * unat (rawAddr ?e) + 4) mod 2 ^ 64"
      by (simp add: unat_word_ariths unat_push2 mod_add_left_eq)
    ultimately show ?thesis using rule
      by (auto simp: pmp_rule_range_def pmp_region_def Let_def pmp_consts unat_push2
          word_le_nat_alt word_less_nat_alt dest!: sym [of "AddrRange_plain _ _"])
  next
    assume n: "pmpGetAField (pmpCfg ?e) = PMP_NAPOT"
    then have "pmpDecodeNapot (rawAddr ?e) = Inr (pmpAddr ?e)"
      using rule by (simp add: pmp_rule_range_def pmp_consts)
    from pmpDecodeNapot_region [OF this] n show ?thesis by (simp add: pmp_region_def Let_def pmp_consts)
  qed (use rule in \<open>auto simp: pmp_rule_range_def pmp_region_def Let_def pmp_consts
        dest!: sym [of "AddrRange_plain _ _"]\<close>)
qed

text \<open>For registers of 54 bits nothing wraps.\<close>

lemma pmp_region_priv:
  assumes a: "unat (rawAddr (t ! i)) < 2 ^ 54" and prev: "i \<noteq> 0 \<Longrightarrow> unat (rawAddr (t ! (i - 1))) < 2 ^ 54"
  shows "pmp_region t i = priv_region t i"
proof -
  let ?a = "unat (rawAddr (t ! i))"
  let ?t = "trailing_ones ?a"
  have "2 ^ ?t - 1 \<le> ?a" using mod_less_eq_dividend [of ?a "2 ^ ?t"] trailing_ones_mod [of ?a] by simp
  then have "(2 :: nat) ^ ?t < 2 ^ 55" using a by simp
  then have "?t < 55" by (rule power_less_imp_less_exp [rotated]) simp
  then have "(2 :: nat) ^ (?t + 3) \<le> 2 ^ 57" by (intro power_increasing) auto
  moreover have "4 * (?a - (2 ^ ?t - 1)) \<le> 4 * ?a" by (intro mult_le_mono2 diff_le_self)
  ultimately have "4 * (?a - (2 ^ ?t - 1)) + 2 ^ (?t + 3) < 2 ^ 64" using a by simp
  then show ?thesis using a prev by (cases "i = 0") (simp_all add: pmp_region_def priv_region_def Let_def)
qed

definition req_ok :: "pmp_request \<Rightarrow> bool" where
  "req_ok req \<longleftrightarrow> 0 < unat (req_size req) \<and> unat (req_paddr req) + unat (req_size req) \<le> 2 ^ 64"

lemma unat_last_byte:
  assumes "req_ok req"
  shows "unat (req_paddr req + ucast (req_size req) - 1) = unat (req_paddr req) + unat (req_size req) - 1"
proof -
  define s where "s = unat (req_size req)"
  have s: "0 < s" "unat (req_paddr req) + s \<le> 2 ^ 64" "s < 2 ^ 32"
    using assms unsigned_less [of "req_size req"] by (auto simp: req_ok_def s_def)
  have "req_paddr req + ucast (req_size req) - 1 = of_nat (unat (req_paddr req) + s - 1)"
    using s(1) by (simp add: s_def of_nat_diff)
  then have "unat (req_paddr req + ucast (req_size req) - 1)
    = unat (of_nat (unat (req_paddr req) + s - 1) :: addr)" by (rule arg_cong)
  also have "\<dots> = unat (req_paddr req) + s - 1" using s by (simp only: unat_of_nat take_bit_eq_mod) simp
  finally show ?thesis by (simp add: s_def)
qed

lemma region_interval: "\<exists>l u. pmp_region t i = {l..<u}"
proof -
  have "\<exists>l u. {} = {l..<u :: nat}" by (rule exI [of _ 0]) (rule exI [of _ 0], simp)
  then show ?thesis by (auto simp: pmp_region_def Let_def)
qed

lemma entry_matches_region:
  assumes "pmp_inv p" "i < pmpEntries p" "req_ok req"
  shows "entry_matches (pmpTable p) req i \<longleftrightarrow> req_bytes req \<subseteq> pmp_region (pmpTable p) i"
proof -
  from region_interval obtain l u where lu: "pmp_region (pmpTable p) i = {l..<u}" by blast
  from assms(3) have "0 < unat (req_size req)" by (simp add: req_ok_def)
  then show ?thesis
    by (auto simp: entry_matches_def contains_region [OF assms(1,2)] unat_last_byte [OF assms(3)] lu
        req_bytes_def)
qed

section \<open>Writes of the configuration registers\<close>

definition cfg_refused :: "pmp \<Rightarrow> nat \<Rightarrow> bool" where
  "cfg_refused p k \<longleftrightarrow> k \<ge> pmpEntries p \<or> entry_locked (pmpTable p ! k)"

lemma pmpUpdateRule_aborts: "pmpUpdateRule k p = Inl e \<Longrightarrow> e = Undefined"
  by (auto simp: pmpUpdateRule_def pmp_rule_range_def pmpDecodeNapot_def Let_def check_def split: if_splits)

lemma pmpUpdateCfg_result:
  "pmpUpdateCfg k c p = Inl e \<Longrightarrow> e = Undefined"
  "pmpUpdateCfg k c p = Inr (b, p') \<Longrightarrow> b \<longleftrightarrow> \<not> cfg_refused p (unat k)"
  by (auto simp: pmpUpdateCfg_def cfg_refused_def entry_locked_def Let_def split: if_splits
      elim!: obind.elims dest: pmpUpdateRule_aborts)

lemma cfg_refused_step: "pmp_step p p' \<Longrightarrow> pmp_inv p \<Longrightarrow> cfg_refused p k \<Longrightarrow> cfg_refused p' k"
  using pmp_inv_step [of p p'] step_keeps_locked [of p p' k]
  by (cases "k < pmpEntries p") (auto simp: cfg_refused_def)

lemma pmpcfg_loop_undefined:
  "pmp_inv p \<Longrightarrow> i \<in> set is \<Longrightarrow> 4 \<le> i \<Longrightarrow> \<forall>j \<in> set is. j + 4 * n < 2 ^ 32 \<Longrightarrow> cfg_refused p (i + 4 * n)
     \<Longrightarrow> pmpcfg_loop n val old_val is res p = Inl Undefined"
proof (induction "is" arbitrary: p res)
  case (Cons j "is")
  define c :: u8 where "c = ucast (drop_bit (8 * j) val AND 0xff)"
  define k :: u32 where "k = of_nat (j + 4 * n)"
  have k: "unat k = j + 4 * n"
    using Cons.prems(4) unfolding k_def by (simp only: unat_of_nat take_bit_eq_mod) simp
  have loop: "pmpcfg_loop n val old_val (j # is) res p = obind (pmpUpdateCfg k c p) (\<lambda>(result, p).
    if result then pmpcfg_loop n val old_val is (res OR push_bit (8 * j) (ucast c)) p
    else check (8 * j < 32) Undefined
      (pmpcfg_loop n val old_val is (res OR (old_val AND scast (push_bit (8 * j) 0xFF :: u32))) p))"
    by (simp only: pmpcfg_loop.simps Let_def c_def k_def)
  show ?case
  proof (cases "pmpUpdateCfg k c p")
    case (Inl e)
    with pmpUpdateCfg_result(1) [OF Inl] show ?thesis by (simp only: loop) simp
  next
    case (Inr r)
    obtain b p' where r: "r = (b, p')" by (cases r)
    have st: "pmp_step p p'" using Inr r step_cfg by simp
    have b: "b \<longleftrightarrow> \<not> cfg_refused p (j + 4 * n)"
      using pmpUpdateCfg_result(2) [of k c p b p'] Inr r k by simp
    have "pmpcfg_loop n val old_val is res' p' = Inl Undefined" if "j \<noteq> i" for res'
      using Cons.prems that pmp_inv_step [OF st] cfg_refused_step [OF st]
      by (intro Cons.IH) auto
    with Inr r b Cons.prems(3,5) show ?thesis
      unfolding loop by (cases "j = i") (auto simp: check_def)
  qed
qed simp

text \<open>
  The mask for byte 3 is sign-extended: with entry 3 locked, clearing a register whose upper
  bytes are set leaves them set in the register file, while the unit has switched the entries off.
\<close>

lemma pmpcfg_stale_upper_bytes:
  "let e = PmpEntry_init\<lparr>pmpCfg := 0x80\<rparr>;
       p = (PMP 16)\<lparr>pmpTable := (pmpTable (PMP 16))[3 := e], hasLockEntry := True\<rparr>
   in map_sum id fst (setMiscReg_PMPCFG PRV_M RV64 0 0 0x0707070780000000 p) = Inr 0x0707070780000000"
  by code_simp

section \<open>Properties\<close>

text \<open>C7. In every state the unit can reach from power-up by register writes, of any values, and
  resets, the check of a request that is not empty and does not wrap lets the access pass exactly
  when: no entry is active; or the lowest-numbered entry whose region holds every byte of the
  access permits its kind, or is not locked and the hart is in machine mode; or there is no such
  entry and the hart is in machine mode. Otherwise it raises the access fault of the request's
  kind. The regions are those of the 64 bits written to the address registers (\<open>pmp_region\<close>); they
  are the regions of the privileged specification where the address registers of the entry and of
  the entry below have the 54 bits the specification gives them.\<close>

theorem pmpCheck_decides:
  assumes "pmp_reach n p" "req_ok req"
  shows "pmpCheck p req mode pmode v
      = (if pmp_allows p req mode pmode then NoFault else pmp_fault req mode v) \<and>
    (\<forall>i < n. unat (rawAddr (pmpTable p ! i)) < 2 ^ 54 \<and> (i = 0 \<or> unat (rawAddr (pmpTable p ! (i - 1))) < 2 ^ 54) \<longrightarrow>
      pmp_region (pmpTable p) i = priv_region (pmpTable p) i)"
proof -
  have inv: "pmp_inv p" and l: "length (pmpTable p) = pmpEntries p"
    using pmp_reach_inv [OF assms(1)] by (auto simp: pmp_inv_def)
  have "find (entry_matches (pmpTable p) req) [0..<length (pmpTable p)]
    = find (\<lambda>i. req_bytes req \<subseteq> pmp_region (pmpTable p) i) [0..<length (pmpTable p)]"
    using entry_matches_region [OF inv _ assms(2)] l by (intro find_cong) auto
  then have "pmpCheck p req mode pmode v = (if pmp_allows p req mode pmode then NoFault else pmp_fault req mode v)"
    unfolding pmpCheck_decision [OF inv] pmp_allows_def by simp
  then show ?thesis using pmp_region_priv by blast
qed

definition pmp_demo :: pmp where
  "pmp_demo =
     \<lparr>pmpEntries = 2, numRules = 1, hasLockEntry = True,
      pmpTable = [\<lparr>pmpAddr = AddrRange_plain 0x1000 0x1004, rawAddr = 0x400, pmpCfg = 0x91\<rparr>, PmpEntry_init]\<rparr>"

lemma pmp_demo_reach: "pmp_reach 2 pmp_demo"
proof -
  define q where "q = (PMP 2)\<lparr>pmpTable := [PmpEntry_init\<lparr>rawAddr := 0x400\<rparr>, PmpEntry_init]\<rparr>"
  have "pmpUpdateAddr 0 0x400 (PMP 2) = Inr (True, q)" unfolding q_def by code_simp
  then have "pmp_reach 2 q" by (rule reach_step [OF reach_init step_addr])
  moreover have "pmpUpdateCfg 0 0x91 q = Inr (True, pmp_demo)" unfolding q_def by code_simp
  ultimately show ?thesis by (rule reach_step [OF _ step_cfg])
qed

theorem pmpCheck_decides_witness:
  "\<exists>req. pmpCheck pmp_demo req Mode_Write PRV_M 0 = AddressFault 0x1000 STORE_ACCESS
    \<and> \<not> pmp_allows pmp_demo req Mode_Write PRV_M \<and> priv_region (pmpTable pmp_demo) 0 = pmp_region (pmpTable pmp_demo) 0"
proof -
  let ?r = "\<lparr>req_vaddr = Some 0x1000, req_paddr = 0x1000, req_size = 4\<rparr>"
  have "req_ok ?r" by (simp add: req_ok_def)
  note d = pmpCheck_decides [OF pmp_demo_reach this, of Mode_Write PRV_M 0]
  have "unat (rawAddr (pmpTable pmp_demo ! 0)) < 2 ^ 54" by (simp add: pmp_demo_def)
  with d have "priv_region (pmpTable pmp_demo) 0 = pmp_region (pmpTable pmp_demo) 0" by auto
  moreover have "pmpCheck pmp_demo ?r Mode_Write PRV_M 0 = AddressFault 0x1000 STORE_ACCESS" by code_simp
  ultimately show ?thesis using conjunct1 [OF d] by (intro exI [of _ ?r]) (auto split: if_splits)
qed

text \<open>C6. No sequence of configuration and address register writes changes a locked entry:
  its configuration, its address register and the range it decodes to stay as they are, even for
  an entry whose range starts at the address register of the entry below it. When the entry that
  decides a request and all entries below it are locked, the outcome of the check for this request
  is the same, for every kind of access and every privilege mode, after any such sequence.\<close>

theorem pmp_locked_forever:
  assumes "pmp_reach n p" "pmp_step\<^sup>*\<^sup>* p p'"
  shows "(\<forall>i < n. entry_locked (pmpTable p ! i) \<longrightarrow> pmpTable p' ! i = pmpTable p ! i) \<and>
    (find (entry_matches (pmpTable p) req) [0..<n] = Some k \<longrightarrow> (\<forall>j \<le> k. entry_locked (pmpTable p ! j))
      \<longrightarrow> pmpCheck p' req mode pmode v = pmpCheck p req mode pmode v)"
proof (intro conjI impI)
  have inv: "pmp_inv p" and n: "pmpEntries p = n" using pmp_reach_inv [OF assms(1)] by auto
  note s = steps_keep_locked [OF assms(2) inv]
  from s n show keep: "\<forall>i < n. entry_locked (pmpTable p ! i) \<longrightarrow> pmpTable p' ! i = pmpTable p ! i"
    by simp
  assume f: "find (entry_matches (pmpTable p) req) [0..<n] = Some k"
    and lock: "\<forall>j \<le> k. entry_locked (pmpTable p ! j)"
  have k: "k < n" "entry_matches (pmpTable p) req k" "\<forall>j < k. \<not> entry_matches (pmpTable p) req j"
    using find_Some_nth [OF f] by auto
  have same: "pmpTable p' ! j = pmpTable p ! j" if "j \<le> k" for j
    using that keep lock k(1) by auto
  have "find (entry_matches (pmpTable p') req) [0..<n] = Some k"
    unfolding find_Some_iff using k same
    by (intro exI [of _ k]) (auto simp: entry_matches_def)
  moreover have "length (pmpTable p) = n" "length (pmpTable p') = n" using inv s n by (auto simp: pmp_inv_def)
  moreover have "pmpGetAField (pmpCfg (pmpTable p ! k)) \<noteq> PMP_OFF"
    using off_matches_nothing [OF inv] k(1,2) n by auto
  ultimately show "pmpCheck p' req mode pmode v = pmpCheck p req mode pmode v"
    unfolding pmpCheck_decision [OF inv] pmpCheck_decision [OF s [THEN conjunct1]]
    using f k(1) same [of k] nth_mem [of k "pmpTable p"] nth_mem [of k "pmpTable p'"] by auto
qed

theorem pmp_locked_forever_witness:
  "\<exists>p'. pmp_step pmp_demo p' \<and> rawAddr (pmpTable p' ! 1) = 7 \<and> pmpTable p' ! 0 = pmpTable pmp_demo ! 0
    \<and> pmpCheck p' \<lparr>req_vaddr = None, req_paddr = 0x1000, req_size = 2\<rparr> Mode_Write PRV_M 5
        = AddressFault 5 STORE_ACCESS"
proof -
  let ?r = "\<lparr>req_vaddr = None, req_paddr = 0x1000, req_size = 2\<rparr>"
  define p' where "p' = pmp_demo\<lparr>pmpTable := (pmpTable pmp_demo)[1 := PmpEntry_init\<lparr>rawAddr := 7\<rparr>]\<rparr>"
  have "pmpUpdateAddr 1 7 pmp_demo = Inr (True, p')" unfolding p'_def by code_simp
  then have st: "pmp_step pmp_demo p'" by (rule step_addr)
  have f: "find (entry_matches (pmpTable pmp_demo) ?r) [0..<2] = Some 0" by code_simp
  have l: "entry_locked (pmpTable pmp_demo ! 0)" by code_simp
  note w = pmp_locked_forever [OF pmp_demo_reach r_into_rtranclp [where r = pmp_step, OF st], of ?r 0 Mode_Write PRV_M 5]
  have "pmpCheck pmp_demo ?r Mode_Write PRV_M 5 = AddressFault 5 STORE_ACCESS" by code_simp
  with w f l st have "pmpCheck p' ?r Mode_Write PRV_M 5 = AddressFault 5 STORE_ACCESS"
    "pmpTable p' ! 0 = pmpTable pmp_demo ! 0" by auto
  moreover have "rawAddr (pmpTable p' ! 1) = 7" by (simp add: p'_def pmp_demo_def)
  ultimately show ?thesis using st by blast
qed

text \<open>On RV64, a write of a \<^verbatim>\<open>pmpcfg\<close> register whose entry 4, 5, 6 or 7 is locked (or
  does not exist) shifts the \<^verbatim>\<open>int\<close> constant \<^verbatim>\<open>0xFF\<close> by 32 bits or more to build the mask of
  the byte to keep: whatever the value written, the write runs into undefined behaviour.\<close>

theorem pmpcfg_locked_upper_undefined:
  assumes "pmp_reach m p" "4 \<le> i" "i < 8" "n \<le> 3" "cfg_refused p (i + 4 * n)"
  shows "setMiscReg_PMPCFG PRV_M RV64 n val old_val p = Inl Undefined"
  using pmp_reach_inv [OF assms(1)] assms
  by (auto simp: setMiscReg_PMPCFG_def intro!: pmpcfg_loop_undefined [of p i])

theorem pmpcfg_locked_upper_undefined_witness:
  "pmp_reach 2 pmp_demo \<and> setMiscReg_PMPCFG PRV_M RV64 0 0 0 pmp_demo = Inl Undefined"
  using pmpcfg_locked_upper_undefined [OF pmp_demo_reach, of 4 0] pmp_demo_reach
  by (simp add: cfg_refused_def pmp_demo_def)

end
