(* ===== verification/Trie.thy ===== *)
theory Trie
  imports Prelude "HOL-Library.Multiset"
begin

text \<open>
  The prefix trie the TLBs look translations up in (\<^verbatim>\<open>base/trie.hh\<close>), for 64-bit keys. A node
  is a value of \<open>trie\<close>, \<open>Null\<close> is the null pointer; a node owns its kids, so its place in the tree
  determines its parent, and a \<^verbatim>\<open>Handle\<close> is the path to a node (\<open>False\<close> for \<^verbatim>\<open>kids[0]\<close>,
  \<open>True\<close> for \<^verbatim>\<open>kids[1]\<close>). The multiset of stored (key, mask, value) triples is the abstract
  state: insertion adds one triple, removal takes one away, lookup returns the value of the
  shortest stored prefix of the key.
\<close>

section \<open>Data\<close>

datatype 'v trie =
    Null
  | Node (n_key: u64) (n_mask: u64) (n_value: "'v option") (kid0: "'v trie") (kid1: "'v trie")

type_synonym handle = "bool list"

definition new_node :: "u64 \<Rightarrow> u64 \<Rightarrow> 'v option \<Rightarrow> 'v trie" where
  "new_node k m val = Node (k AND m) m val Null Null"

definition matches :: "'v trie \<Rightarrow> u64 \<Rightarrow> bool" where
  "matches n test \<longleftrightarrow> test AND n_mask n = n_key n"

definition Trie :: "'v trie" where
  "Trie = new_node 0 0 None"

definition trie_clear :: "'v trie \<Rightarrow> 'v trie" where
  "trie_clear root = Node (n_key root) (n_mask root) (n_value root) Null Null"

section \<open>Lookup\<close>

fun lookupHandle :: "'v trie \<Rightarrow> u64 \<Rightarrow> handle option" where
  "lookupHandle Null k = None"
| "lookupHandle (Node nk nm v k0 k1) k =
     (if v \<noteq> None then Some []
      else if k0 \<noteq> Null \<and> matches k0 k then map_option (Cons False) (lookupHandle k0 k)
      else if k1 \<noteq> Null \<and> matches k1 k then map_option (Cons True) (lookupHandle k1 k)
      else None)"

fun deref :: "'v trie \<Rightarrow> handle \<Rightarrow> 'v trie" where
  "deref t [] = t"
| "deref Null (b # bs) = Null"
| "deref (Node nk nm v k0 k1) (b # bs) = deref (if b then k1 else k0) bs"

definition trie_lookup :: "'v trie \<Rightarrow> u64 \<Rightarrow> 'v option" where
  "trie_lookup t k =
     (case lookupHandle t k of
        Some h \<Rightarrow> n_value (deref t h)
      | None \<Rightarrow> None)"

section \<open>Insertion\<close>

definition goesAfter :: "'v trie \<Rightarrow> u64 \<Rightarrow> u64 \<Rightarrow> bool" where
  "goesAfter kid k new_mask \<longleftrightarrow> kid \<noteq> Null \<and> matches kid k \<and> n_mask kid AND new_mask = n_mask kid"

definition extendMask :: "u64 \<Rightarrow> u64" where
  "extendMask orig = orig OR drop_bit 1 orig OR push_bit 63 1"

text \<open>
  The \<^verbatim>\<open>do\<close> loop that walks down a leg: its result is \<^verbatim>\<open>last_mask\<close>. For a mask that is not a
  prefix mask it need not end.
\<close>

partial_function (option) walk_leg :: "u64 \<Rightarrow> u64 \<Rightarrow> u64 \<Rightarrow> u64 \<Rightarrow> u64 option" where
  "walk_leg k kid_key new_mask cur_mask =
     (let last_mask = cur_mask;
          cur_mask = extendMask cur_mask
      in if k AND cur_mask \<noteq> kid_key AND cur_mask \<or> last_mask = new_mask
         then Some last_mask
         else walk_leg k kid_key new_mask cur_mask)"

text \<open>
  One iteration of the loop over the two kids: the kid that takes its place and the path below
  it to the new value, or \<open>None\<close> when the iteration is skipped.
\<close>

definition insert_kid ::
  "u64 \<Rightarrow> 'v trie \<Rightarrow> u64 \<Rightarrow> u64 \<Rightarrow> 'v \<Rightarrow> ('v trie \<times> handle) option outcome" where
  "insert_kid node_mask kid k new_mask val =
     (if kid = Null then Inr (Some (new_node k new_mask (Some val), []))
      else after_loop (walk_leg k (n_key kid) new_mask node_mask) (\<lambda>cur_mask.
        if cur_mask = node_mask then Inr None
        else if cur_mask = new_mask
        then Inr (Some (Node (k AND cur_mask) cur_mask (Some val) kid Null, []))
        else Inr (Some (Node (k AND cur_mask) cur_mask None kid (new_node k new_mask (Some val)), [True]))))"

fun insert_here :: "'v trie \<Rightarrow> u64 \<Rightarrow> u64 \<Rightarrow> 'v \<Rightarrow> ('v trie \<times> handle) outcome" where
  "insert_here Null k new_mask val = Inl Assert_Failed"
| "insert_here (Node nk nm v k0 k1) k new_mask val =
     (if nm = new_mask then check (v = None) Assert_Failed (Inr (Node nk nm (Some val) k0 k1, []))
      else obind (insert_kid nm k0 k new_mask val) (\<lambda>r0.
        case r0 of
          Some (k0', h) \<Rightarrow> Inr (Node nk nm v k0' k1, False # h)
        | None \<Rightarrow> obind (insert_kid nm k1 k new_mask val) (\<lambda>r1.
            case r1 of
              Some (k1', h) \<Rightarrow> Inr (Node nk nm v k0 k1', True # h)
            | None \<Rightarrow> Inl Panic)))"

fun insert_from :: "'v trie \<Rightarrow> u64 \<Rightarrow> u64 \<Rightarrow> 'v \<Rightarrow> ('v trie \<times> handle) outcome" where
  "insert_from Null k new_mask val = Inl Assert_Failed"
| "insert_from (Node nk nm v k0 k1) k new_mask val =
     (if goesAfter k0 k new_mask
      then obind (insert_from k0 k new_mask val) (\<lambda>(t, h). Inr (Node nk nm v t k1, False # h))
      else if goesAfter k1 k new_mask
      then obind (insert_from k1 k new_mask val) (\<lambda>(t, h). Inr (Node nk nm v k0 t, True # h))
      else insert_here (Node nk nm v k0 k1) k new_mask val)"

definition width_mask :: "u32 \<Rightarrow> u64 outcome" where
  "width_mask width =
     (if width < 64
      then check (64 - unat width < 64) Undefined (Inr (push_bit (64 - unat width) (NOT 0)))
      else Inr (NOT 0))"

definition trie_insert :: "'v trie \<Rightarrow> u64 \<Rightarrow> u32 \<Rightarrow> 'v option \<Rightarrow> ('v trie \<times> handle) outcome" where
  "trie_insert t k width val =
     (case val of
        None \<Rightarrow> Inl Assert_Failed
      | Some v \<Rightarrow> obind (width_mask width) (\<lambda>new_mask.
          insert_from t (k AND new_mask) new_mask v))"

section \<open>Removal\<close>

fun trie_update :: "'v trie \<Rightarrow> handle \<Rightarrow> 'v trie \<Rightarrow> 'v trie" where
  "trie_update t [] s = s"
| "trie_update Null (b # bs) s = Null"
| "trie_update (Node nk nm v k0 k1) (b # bs) s =
     (if b then Node nk nm v k0 (trie_update k1 bs s) else Node nk nm v (trie_update k0 bs s) k1)"

definition set_value :: "'v option \<Rightarrow> 'v trie \<Rightarrow> 'v trie" where
  "set_value v n = Node (n_key n) (n_mask n) v (kid0 n) (kid1 n)"

text \<open>The parent after its kid at side \<open>b\<close> gave way to \<open>s\<close> and a lone kid moved to side 0.\<close>

definition splice_kid :: "'v trie \<Rightarrow> bool \<Rightarrow> 'v trie \<Rightarrow> 'v trie" where
  "splice_kid par b s =
     (let k0 = (if b then kid0 par else s);
          k1 = (if b then s else kid1 par)
      in if k1 \<noteq> Null \<and> k0 = Null then Node (n_key par) (n_mask par) (n_value par) k1 Null
         else Node (n_key par) (n_mask par) (n_value par) k0 k1)"

function remove_handle :: "'v trie \<Rightarrow> handle \<Rightarrow> ('v option \<times> 'v trie) outcome" where
  "remove_handle t h =
     (let node = deref t h; val = n_value node in
      if node = Null then Inl Undefined
      else if kid1 node \<noteq> Null
      then check (n_value node \<noteq> None) Assert_Failed (Inr (val, trie_update t h (set_value None node)))
      else if h = [] then Inl Panic
      else let par = splice_kid (deref t (butlast h)) (last h) (kid0 node);
               t' = trie_update t (butlast h) par
           in if kid1 par = Null \<and> n_value par = None \<and> butlast h \<noteq> []
              then obind (remove_handle t' (butlast h)) (\<lambda>(_, t''). Inr (val, t''))
              else Inr (val, t'))"
  by pat_completeness auto

termination
  by (relation "measure (\<lambda>(t, h). length h)") auto

declare remove_handle.simps [simp del]

definition trie_remove :: "'v trie \<Rightarrow> u64 \<Rightarrow> ('v option \<times> 'v trie) outcome" where
  "trie_remove t k =
     (case lookupHandle t k of
        None \<Rightarrow> Inr (None, t)
      | Some h \<Rightarrow> remove_handle t h)"

section \<open>Prefix masks\<close>

definition pm :: "nat \<Rightarrow> u64" where
  "pm n = push_bit (64 - n) (NOT 0)"

definition agree :: "nat \<Rightarrow> u64 \<Rightarrow> u64 \<Rightarrow> bool" where
  "agree n a b \<longleftrightarrow> a AND pm n = b AND pm n"

lemma bit_pm [bit_char]: "bit (pm n) i \<longleftrightarrow> 64 - n \<le> i \<and> i < 64"
  by (auto simp: pm_def bit_push_bit_iff bit_not_iff bit_mask_iff)

lemma agree_iff: "agree n a b \<longleftrightarrow> (\<forall>i < 64. 64 - n \<le> i \<longrightarrow> bit a i = bit b i)"
  by (auto simp: agree_def bit_eq_iff [of "a AND pm n"] bit_and_iff bit_pm dest: bit_u64_lt)

lemma agree_equiv [simp]: "agree n a a"
  by (simp add: agree_def)

lemma agree_sym: "agree n a b \<Longrightarrow> agree n b a"
  by (simp add: agree_def)

lemma agree_trans: "agree n a b \<Longrightarrow> agree n b c \<Longrightarrow> agree n a c"
  by (simp add: agree_def)

lemma agree_mono: "agree m a b \<Longrightarrow> n \<le> m \<Longrightarrow> agree n a b"
  by (auto simp: agree_iff)

lemma agree_0 [simp]: "agree 0 a b"
  by (simp add: agree_iff)

lemma agree_Suc: "n < 64 \<Longrightarrow> agree (Suc n) a b \<longleftrightarrow> agree n a b \<and> bit a (63 - n) = bit b (63 - n)"
proof -
  assume n: "n < 64"
  have eq: "64 - Suc n \<le> i \<longleftrightarrow> i = 63 - n \<or> 64 - n \<le> i" for i using n by auto
  have "63 - n < 64" by simp
  then show ?thesis unfolding agree_iff eq by blast
qed

lemma agree_masked [simp]: "agree n (a AND pm n) b \<longleftrightarrow> agree n a b" "agree n a (b AND pm n) \<longleftrightarrow> agree n a b"
  by (auto simp: agree_iff bit_and_iff bit_pm)

lemma agree_masked_below [simp]:
  "m \<le> n \<Longrightarrow> agree m (a AND pm n) b \<longleftrightarrow> agree m a b" "m \<le> n \<Longrightarrow> agree m a (b AND pm n) \<longleftrightarrow> agree m a b"
  by (auto simp: agree_iff bit_and_iff bit_pm)

lemma pm_inj [simp]: "n \<le> 64 \<Longrightarrow> m \<le> 64 \<Longrightarrow> pm n = pm m \<longleftrightarrow> n = m"
proof -
  assume b: "n \<le> 64" "m \<le> 64"
  have "n \<le> m" if "pm n = pm m" "n \<le> 64" "m \<le> 64" for n m
  proof (rule ccontr)
    assume "\<not> n \<le> m"
    then have "bit (pm n) (64 - n)" "\<not> bit (pm m) (64 - n)" using that(2,3) by (auto simp: bit_pm)
    with that(1) show False by simp
  qed
  from this [of n m] this [of m n] b show ?thesis by auto
qed

lemma ex_pm [simp]:
  "c \<le> 64 \<Longrightarrow> (\<exists>n \<le> 64. pm c = pm n \<and> P n) \<longleftrightarrow> P c"
  "c \<le> 64 \<Longrightarrow> (\<exists>n. m < n \<and> n \<le> 64 \<and> pm c = pm n \<and> P n) \<longleftrightarrow> m < c \<and> P c"
  "c \<le> 64 \<Longrightarrow> (\<exists>n. m < n \<and> n \<le> 64 \<and> pm c = pm n) \<longleftrightarrow> m < c"
  by auto

lemma pm_and: "pm n AND pm m = pm (min n m)"
  by (rule word64_eqI) (auto simp: bit_and_iff bit_pm)

lemma and_pm_pm [simp]: "n \<le> m \<Longrightarrow> (a AND pm m) AND pm n = a AND pm n"
  by (simp add: and.assoc pm_and min_absorb2)

lemma pm_0 [simp]: "pm 0 = 0"
  by (rule word64_eqI) (auto simp: bit_pm)

lemma extendMask_pm: "n < 64 \<Longrightarrow> extendMask (pm n) = pm (Suc n)"
proof (rule word64_eqI)
  fix i :: nat assume i: "i < 64" and n: "n < 64"
  have "bit (extendMask (pm n)) i \<longleftrightarrow> 64 - n \<le> i \<or> 64 - n \<le> Suc i \<and> Suc i < 64 \<or> i = 63"
    using i unfolding extendMask_def bit_or_iff bit_drop_bit_eq bit_push_bit_iff
    by (auto simp: bit_pm bit_1_iff)
  also have "\<dots> \<longleftrightarrow> 64 - Suc n \<le> i" using i n by auto
  finally show "bit (extendMask (pm n)) i \<longleftrightarrow> bit (pm (Suc n)) i" using i by (simp add: bit_pm)
qed

lemma width_mask_pm:
  "width_mask width = (if width = 0 then Inl Undefined else Inr (pm (min 64 (unat width))))"
proof -
  have "(NOT 0 :: u64) = pm 64" by (rule word64_eqI) (auto simp: bit_pm bit_not_iff)
  moreover have "width < 64 \<longleftrightarrow> unat width < 64" by (simp add: word_less_nat_alt)
  moreover have "width = 0 \<longleftrightarrow> unat width = 0" by (simp add: unat_eq_0)
  ultimately show ?thesis by (auto simp: width_mask_def check_def pm_def min_def)
qed

section \<open>Well-formed tries\<close>

definition below :: "nat \<Rightarrow> u64 \<Rightarrow> 'v trie \<Rightarrow> bool" where
  "below n k t \<longleftrightarrow> t \<noteq> Null \<longrightarrow> (\<exists>n'. n < n' \<and> n' \<le> 64 \<and> n_mask t = pm n' \<and> agree n (n_key t) k)"

definition apart :: "nat \<Rightarrow> 'v trie \<Rightarrow> 'v trie \<Rightarrow> bool" where
  "apart n t u \<longleftrightarrow> t \<noteq> Null \<longrightarrow> u \<noteq> Null \<longrightarrow> \<not> agree (Suc n) (n_key t) (n_key u)"

fun tree_ok :: "'v trie \<Rightarrow> bool" where
  "tree_ok Null \<longleftrightarrow> True"
| "tree_ok (Node k m v k0 k1) \<longleftrightarrow>
     (\<exists>n \<le> 64. m = pm n \<and> k AND m = k \<and> below n k k0 \<and> below n k k1 \<and> apart n k0 k1)
     \<and> tree_ok k0 \<and> tree_ok k1"

text \<open>A lone kid is at side 0, and a node with no value has two kids.\<close>

fun arity :: "'v trie \<Rightarrow> bool" where
  "arity Null \<longleftrightarrow> True"
| "arity (Node k m v k0 k1) \<longleftrightarrow>
     (k1 \<noteq> Null \<longrightarrow> k0 \<noteq> Null) \<and> (v = None \<longrightarrow> k1 \<noteq> Null) \<and> arity k0 \<and> arity k1"

definition trie_wf :: "'v trie \<Rightarrow> bool" where
  "trie_wf t \<longleftrightarrow> (\<exists>k0 k1. t = Node 0 0 None k0 k1 \<and> (k1 \<noteq> Null \<longrightarrow> k0 \<noteq> Null) \<and> arity k0 \<and> arity k1)
     \<and> tree_ok t"

fun entries :: "'v trie \<Rightarrow> (u64 \<times> u64 \<times> 'v) multiset" where
  "entries Null = {#}"
| "entries (Node k m v k0 k1) =
     (case v of None \<Rightarrow> {#} | Some x \<Rightarrow> {#(k, m, x)#}) + entries k0 + entries k1"

text \<open>Everything stored below a node lies within the node's prefix.\<close>

lemma entries_within:
  "tree_ok t \<Longrightarrow> t \<noteq> Null \<Longrightarrow> n_mask t = pm n \<Longrightarrow> n \<le> 64 \<Longrightarrow> (k', m', x) \<in># entries t
    \<Longrightarrow> \<exists>n'. n \<le> n' \<and> n' \<le> 64 \<and> m' = pm n' \<and> k' AND pm n' = k' \<and> agree n k' (n_key t)"
proof (induction t arbitrary: n)
  case (Node k m v k0 k1)
  from Node.prems have ok: "m = pm n" "k AND pm n = k" "below n k k0" "below n k k1" "tree_ok k0" "tree_ok k1"
    by auto
  have kid: "\<exists>n'. n \<le> n' \<and> n' \<le> 64 \<and> m' = pm n' \<and> k' AND pm n' = k' \<and> agree n k' k"
    if "below n k t" "(k', m', x) \<in># entries t"
      and IH: "\<And>n2. t \<noteq> Null \<Longrightarrow> n_mask t = pm n2 \<Longrightarrow> n2 \<le> 64 \<Longrightarrow>
        \<exists>n'. n2 \<le> n' \<and> n' \<le> 64 \<and> m' = pm n' \<and> k' AND pm n' = k' \<and> agree n2 k' (n_key t)" for t
  proof -
    from that(2) have "t \<noteq> Null" by auto
    with that(1) obtain n2 where n2: "n < n2" "n2 \<le> 64" "n_mask t = pm n2" "agree n (n_key t) k"
      by (auto simp: below_def)
    from IH [OF \<open>t \<noteq> Null\<close> n2(3,2)] obtain n' where
      "n2 \<le> n'" "n' \<le> 64" "m' = pm n'" "k' AND pm n' = k'" "agree n2 k' (n_key t)" by auto
    moreover from this(5) n2(1) have "agree n k' (n_key t)" by (rule agree_mono [OF _ less_imp_le])
    ultimately show ?thesis using n2 by (auto intro!: exI [of _ n'] intro: agree_trans)
  qed
  from Node.prems(5) consider "v = Some x" "k' = k" "m' = m" | "(k', m', x) \<in># entries k0" | "(k', m', x) \<in># entries k1"
    by (auto split: option.splits)
  then show ?case
  proof cases
    case 1
    with ok Node.prems(4) show ?thesis by auto
  next
    case 2
    show ?thesis unfolding trie.sel by (rule kid [OF ok(3) 2]) (rule Node.IH(1) [OF ok(5) _ _ _ 2])
  next
    case 3
    show ?thesis unfolding trie.sel by (rule kid [OF ok(4) 3]) (rule Node.IH(2) [OF ok(6) _ _ _ 3])
  qed
qed simp

lemma tree_ok_key: "tree_ok t \<Longrightarrow> t \<noteq> Null \<Longrightarrow> n_key t AND n_mask t = n_key t"
  by (cases t) auto

lemma matches_agree:
  assumes "tree_ok t" "t \<noteq> Null" "n_mask t = pm n"
  shows "matches t k \<longleftrightarrow> agree n k (n_key t)"
proof -
  have "n_key t = n_key t AND pm n" using tree_ok_key [OF assms(1,2)] assms(3) by simp
  then show ?thesis by (metis agree_def assms(3) matches_def)
qed

lemma goesAfter_iff:
  assumes "tree_ok t" "below n nk t" "w \<le> 64"
  shows "goesAfter t k (pm w) \<longleftrightarrow>
    t \<noteq> Null \<and> (\<exists>n'. n < n' \<and> n' \<le> w \<and> n_mask t = pm n' \<and> agree n' k (n_key t))"
proof (cases "t = Null")
  case False
  with assms(2) obtain n' where n': "n < n'" "n' \<le> 64" "n_mask t = pm n'" by (auto simp: below_def)
  have "min n' w \<le> 64" "min n' w = n' \<longleftrightarrow> n' \<le> w" using n'(2) by auto
  then have "pm n' AND pm w = pm n' \<longleftrightarrow> n' \<le> w" using n'(2) by (simp only: pm_and pm_inj)
  then have "goesAfter t k (pm w) \<longleftrightarrow> agree n' k (n_key t) \<and> n' \<le> w"
    using matches_agree [OF assms(1) False n'(3)] False n'(3) by (simp add: goesAfter_def)
  also have "\<dots> \<longleftrightarrow> (\<exists>m. n < m \<and> m \<le> w \<and> n_mask t = pm m \<and> agree m k (n_key t))"
    using n' assms(3) by (metis order_trans pm_inj)
  finally show ?thesis using False by simp
qed (simp add: goesAfter_def)

definition present :: "'v trie \<Rightarrow> u64 \<Rightarrow> u64 \<Rightarrow> bool" where
  "present t k m \<longleftrightarrow> (\<exists>x. (k, m, x) \<in># entries t)"

lemma present_goesAfter:
  assumes "tree_ok t" "below n nk t" "w \<le> 64" "present t k (pm w)"
  shows "goesAfter t k (pm w)"
proof -
  from assms(4) obtain x where x: "(k, pm w, x) \<in># entries t" by (auto simp: present_def)
  then have t: "t \<noteq> Null" by auto
  with assms(2) obtain n' where n': "n < n'" "n' \<le> 64" "n_mask t = pm n'" by (auto simp: below_def)
  from entries_within [OF assms(1) t n'(3,2) x] assms(3) have "n' \<le> w" "agree n' k (n_key t)" by auto
  with t n' show ?thesis by (auto simp: goesAfter_iff [OF assms(1-3)])
qed

lemma goesAfter_apart:
  assumes "tree_ok t" "below n nk t" "tree_ok u" "below n nk u" "apart n t u" "w \<le> 64"
    "goesAfter t k (pm w)" "goesAfter u k (pm w)"
  shows False
proof -
  have "agree (Suc n) k (n_key t)" "agree (Suc n) k (n_key u)" "t \<noteq> Null" "u \<noteq> Null"
    using assms goesAfter_iff [OF assms(1,2,6)] goesAfter_iff [OF assms(3,4,6)]
    by (auto intro: agree_mono)
  with assms(5) show False unfolding apart_def by (meson agree_sym agree_trans)
qed

section \<open>Insertion\<close>

lemma walk_leg_pm:
  "n \<le> w \<Longrightarrow> w \<le> 64 \<Longrightarrow> agree n k kk \<Longrightarrow>
    \<exists>c. walk_leg k kk (pm w) (pm n) = Some (pm c) \<and> n \<le> c \<and> c \<le> w \<and> agree c k kk
      \<and> (c = w \<or> \<not> agree (Suc c) k kk)"
proof (induction "w - n" arbitrary: n)
  case 0
  then show ?case by (subst walk_leg.simps) (auto simp: Let_def)
next
  case (Suc d)
  then have "n < 64" "n \<noteq> w" by auto
  show ?case
  proof (cases "agree (Suc n) k kk")
    case True
    then have "\<exists>c. walk_leg k kk (pm w) (pm (Suc n)) = Some (pm c) \<and> Suc n \<le> c \<and> c \<le> w \<and> agree c k kk
      \<and> (c = w \<or> \<not> agree (Suc c) k kk)" using Suc.hyps(2) Suc.prems by (intro Suc.hyps(1)) auto
    moreover have "walk_leg k kk (pm w) (pm n) = walk_leg k kk (pm w) (pm (Suc n))"
      using True Suc.prems \<open>n < 64\<close> \<open>n \<noteq> w\<close>
      by (subst walk_leg.simps) (simp add: Let_def extendMask_pm agree_def)
    ultimately show ?thesis by (auto intro: Suc_leD)
  next
    case False
    then have "walk_leg k kk (pm w) (pm n) = Some (pm n)" using \<open>n < 64\<close>
      by (subst walk_leg.simps) (simp add: Let_def extendMask_pm agree_def)
    with False Suc.prems show ?thesis by auto
  qed
qed

definition stored_at :: "'v trie \<Rightarrow> handle \<Rightarrow> u64 \<Rightarrow> u64 \<Rightarrow> 'v \<Rightarrow> bool" where
  "stored_at t h k m v \<longleftrightarrow> (\<exists>k0 k1. deref t h = Node k m (Some v) k0 k1)"

definition kid_inserted :: "nat \<Rightarrow> u64 \<Rightarrow> 'v trie \<Rightarrow> 'v trie \<Rightarrow> handle \<Rightarrow> u64 \<Rightarrow> nat \<Rightarrow> 'v \<Rightarrow> bool" where
  "kid_inserted n nk kid kid' h k w v \<longleftrightarrow>
     kid' \<noteq> Null \<and> tree_ok kid' \<and> arity kid' \<and> below n nk kid' \<and> agree (Suc n) (n_key kid') k
     \<and> entries kid' = add_mset (k, pm w, v) (entries kid) \<and> stored_at kid' h k (pm w) v"

lemma leaf_inserted:
  assumes "n < w" "w \<le> 64" "k AND pm w = k" "agree n k nk"
  shows "kid_inserted n nk Null (new_node k (pm w) (Some v)) [] k w v"
  using assms by (auto simp: kid_inserted_def new_node_def below_def apart_def stored_at_def intro: agree_mono)

definition split_node :: "nat \<Rightarrow> u64 \<Rightarrow> nat \<Rightarrow> 'v \<Rightarrow> 'v trie \<Rightarrow> 'v trie" where
  "split_node c k w v kid =
     (if c = w then Node (k AND pm c) (pm c) (Some v) kid Null
      else Node (k AND pm c) (pm c) None kid (new_node k (pm w) (Some v)))"

lemma split_inserted:
  assumes "tree_ok kid" "arity kid" "kid \<noteq> Null" "n_mask kid = pm n'" "n' \<le> 64" "agree n k nk" "w \<le> 64"
    "n < c" "c < n'" "c \<le> w" "agree c k (n_key kid)" "k AND pm w = k" "c = w \<or> \<not> agree (Suc c) k (n_key kid)"
  shows "kid_inserted n nk kid (split_node c k w v kid) (if c = w then [] else [True]) k w v"
proof -
  have sym: "agree c (n_key kid) k" "agree n k nk" "agree (Suc n) (k AND pm c) k"
    using assms(6,8,11) agree_sym by (auto simp: agree_sym)
  have c: "c \<le> 64" using assms(7,10) by simp
  have "\<not> agree (Suc c) (n_key kid) k" "c < w" if "c \<noteq> w"
    using that assms(10,13) agree_sym by auto
  with sym c assms show ?thesis
    by (cases "c = w")
      (auto simp: kid_inserted_def split_node_def below_def apart_def stored_at_def new_node_def)
qed

lemma insert_kid_spec:
  assumes "tree_ok kid" "arity kid" "below n nk kid" "agree n k nk" "n < w" "w \<le> 64" "k AND pm w = k"
    "\<not> goesAfter kid k (pm w)"
  shows "(kid \<noteq> Null \<and> \<not> agree (Suc n) k (n_key kid) \<and> insert_kid (pm n) kid k (pm w) v = Inr None)
    \<or> ((kid = Null \<or> agree (Suc n) k (n_key kid)) \<and>
       (\<exists>kid' h. insert_kid (pm n) kid k (pm w) v = Inr (Some (kid', h)) \<and> kid_inserted n nk kid kid' h k w v))"
proof (cases "kid = Null")
  case True
  with leaf_inserted [OF assms(5,6,7,4)] show ?thesis by (simp add: insert_kid_def)
next
  case False
  with assms(3) obtain n' where n': "n < n'" "n' \<le> 64" "n_mask kid = pm n'" "agree n (n_key kid) nk"
    by (auto simp: below_def)
  have ag: "agree n k (n_key kid)" using assms(4) n'(4) agree_sym agree_trans by blast
  from walk_leg_pm [OF less_imp_le [OF assms(5)] assms(6) ag] obtain c where
    c: "walk_leg k (n_key kid) (pm w) (pm n) = Some (pm c)" "n \<le> c" "c \<le> w" "agree c k (n_key kid)"
      "c = w \<or> \<not> agree (Suc c) k (n_key kid)" by blast
  show ?thesis
  proof (cases "c = n")
    case True
    with c(5) assms(5) have "\<not> agree (Suc n) k (n_key kid)" by simp
    with True c(1) False show ?thesis by (simp add: insert_kid_def)
  next
    case n: False
    have "c < n'"
    proof (rule ccontr)
      assume "\<not> c < n'"
      with c(3,4) have "agree n' k (n_key kid)" "n' \<le> w" by (auto intro: agree_mono)
      with n' False assms(8) show False by (auto simp: goesAfter_iff [OF assms(1,3,6)])
    qed
    with n c n' assms False have "kid_inserted n nk kid (split_node c k w v kid) (if c = w then [] else [True]) k w v"
      by (intro split_inserted [of kid n']) auto
    moreover have "insert_kid (pm n) kid k (pm w) v = Inr (Some (split_node c k w v kid, if c = w then [] else [True]))"
      using False c n assms(5,6) by (simp add: insert_kid_def split_node_def)
    moreover have "agree (Suc n) k (n_key kid)" using c(2,4) n by (auto intro: agree_mono)
    ultimately show ?thesis by blast
  qed
qed

definition node_inserted :: "'v trie \<Rightarrow> 'v trie \<Rightarrow> handle \<Rightarrow> u64 \<Rightarrow> nat \<Rightarrow> 'v \<Rightarrow> bool" where
  "node_inserted t t' h k w v \<longleftrightarrow>
     t' \<noteq> Null \<and> n_key t' = n_key t \<and> n_mask t' = n_mask t \<and> tree_ok t'
     \<and> n_value t' = (if n_mask t = pm w then Some v else n_value t)
     \<and> (kid1 t' \<noteq> Null \<longrightarrow> kid0 t' \<noteq> Null) \<and> (kid1 t \<noteq> Null \<longrightarrow> kid1 t' \<noteq> Null)
     \<and> arity (kid0 t') \<and> arity (kid1 t')
     \<and> entries t' = add_mset (k, pm w, v) (entries t) \<and> stored_at t' h k (pm w) v"

lemma node_inserted_arity: "node_inserted t t' h k w v \<Longrightarrow> t \<noteq> Null \<Longrightarrow> arity t \<Longrightarrow> arity t'"
  by (cases t; cases t') (auto simp: node_inserted_def)

lemma node_inserted_kid:
  assumes "node_inserted t t' h k w v" "t \<noteq> Null"
  shows "below n nk t \<Longrightarrow> below n nk t'" "apart n t u \<Longrightarrow> apart n t' u" "apart n u t \<Longrightarrow> apart n u t'"
  using assms by (auto simp: node_inserted_def below_def apart_def)

lemma stored_at_Cons [simp]:
  "stored_at (Node nk nm val k0 k1) (b # h) k m v \<longleftrightarrow> stored_at (if b then k1 else k0) h k m v"
  by (simp add: stored_at_def)

lemma stored_at_Nil [simp]:
  "stored_at (Node nk nm val k0 k1) [] k m v \<longleftrightarrow> nk = k \<and> nm = m \<and> val = Some v"
  by (auto simp: stored_at_def)

lemma insert_here_spec:
  fixes t :: "'v trie"
  assumes t: "t = Node nk (pm n) val k0 k1" and ok: "tree_ok t" and ar: "arity k0" "arity k1" "k1 \<noteq> Null \<longrightarrow> k0 \<noteq> Null"
    and k: "n \<le> w" "w \<le> 64" "agree n k nk" "k AND pm w = k"
    and ng: "\<not> goesAfter k0 k (pm w)" "\<not> goesAfter k1 k (pm w)" and np: "\<not> present t k (pm w)"
  shows "\<exists>t' h. insert_here t k (pm w) v = Inr (t', h) \<and> node_inserted t t' h k w v"
proof -
  have n: "n \<le> 64" using k by simp
  have okt: "nk AND pm n = nk" "below n nk k0" "below n nk k1" "apart n k0 k1" "tree_ok k0" "tree_ok k1"
    using ok n by (auto simp: t)
  show ?thesis
  proof (cases "n = w")
    case True
    then have "nk = k" using k(3,4) okt(1) by (simp add: agree_def)
    moreover from this True np have "val = None" by (auto simp: t present_def split: option.splits)
    ultimately show ?thesis using True ok ar by (auto simp: t node_inserted_def)
  next
    case False
    then have nw: "n < w" using k by simp
    have m: "pm n \<noteq> pm w" using False n k(2) by simp
    note i0 = insert_kid_spec [OF okt(5) ar(1) okt(2) k(3) nw k(2,4) ng(1), of v]
    note i1 = insert_kid_spec [OF okt(6) ar(2) okt(3) k(3) nw k(2,4) ng(2), of v]
    from i0 i1 consider (first) k0' h where "insert_kid (pm n) k0 k (pm w) v = Inr (Some (k0', h))"
        "kid_inserted n nk k0 k0' h k w v" "k0 = Null \<or> agree (Suc n) k (n_key k0)"
      | (second) k1' h where "insert_kid (pm n) k0 k (pm w) v = Inr None" "k0 \<noteq> Null"
        "\<not> agree (Suc n) k (n_key k0)" "insert_kid (pm n) k1 k (pm w) v = Inr (Some (k1', h))"
        "kid_inserted n nk k1 k1' h k w v"
      | (neither) "k0 \<noteq> Null" "\<not> agree (Suc n) k (n_key k0)" "k1 \<noteq> Null" "\<not> agree (Suc n) k (n_key k1)"
      by blast
    then show ?thesis
    proof cases
      case first
      have "apart n k0' k1" using first(2,3) okt(4) ar(3) unfolding apart_def kid_inserted_def
        by (meson agree_sym agree_trans)
      with first m okt ar n show ?thesis by (auto simp: t node_inserted_def kid_inserted_def)
    next
      case second
      have "apart n k0 k1'" using second(3,5) unfolding apart_def kid_inserted_def
        by (meson agree_sym agree_trans)
      with second m okt ar n show ?thesis by (auto simp: t node_inserted_def kid_inserted_def)
    next
      case neither
      have n64: "n < 64" using nw k(2) by simp
      have a: "agree n nk (n_key k0)" "agree n nk (n_key k1)"
        using okt(2,3) neither(1,3) agree_sym by (auto simp: below_def)
      have b: "agree n k (n_key k0)" "agree n k (n_key k1)" "agree n (n_key k0) (n_key k1)"
        using agree_trans [OF k(3)] agree_trans [OF agree_sym] a by blast+
      have "\<not> agree (Suc n) (n_key k0) (n_key k1)" using okt(4) neither(1,3) by (simp add: apart_def)
      with neither(2,4) b show ?thesis unfolding agree_Suc [OF n64] by auto
    qed
  qed
qed

lemma arity_kids: "arity t \<Longrightarrow> t \<noteq> Null \<Longrightarrow> arity (kid0 t) \<and> arity (kid1 t) \<and> (kid1 t \<noteq> Null \<longrightarrow> kid0 t \<noteq> Null)"
  by (cases t) auto

lemma present_Node:
  "present (Node nk nm val k0 k1) k m \<longleftrightarrow> val \<noteq> None \<and> nk = k \<and> nm = m \<or> present k0 k m \<or> present k1 k m"
  by (auto simp: present_def split: option.splits)

lemma insert_from_spec:
  "t \<noteq> Null \<Longrightarrow> n_mask t = pm n \<Longrightarrow> tree_ok t \<Longrightarrow> arity (kid0 t) \<Longrightarrow> arity (kid1 t)
    \<Longrightarrow> (kid1 t \<noteq> Null \<longrightarrow> kid0 t \<noteq> Null) \<Longrightarrow> n \<le> w \<Longrightarrow> w \<le> 64 \<Longrightarrow> agree n k (n_key t) \<Longrightarrow> k AND pm w = k
    \<Longrightarrow> (if present t k (pm w) then insert_from t k (pm w) v = Inl Assert_Failed
        else \<exists>t' h. insert_from t k (pm w) v = Inr (t', h) \<and> node_inserted t t' h k w v)"
proof (induction t arbitrary: n)
  case (Node nk nm val k0 k1)
  note pr = Node.prems [simplified]
  have w: "w \<le> 64" "n \<le> w" and kw: "agree n k nk" "k AND pm w = k" using pr by auto
  have n: "n \<le> 64" "nm = pm n" using pr by auto
  have okt: "nk AND pm n = nk" "below n nk k0" "below n nk k1" "apart n k0 k1" "tree_ok k0" "tree_ok k1"
    using pr n by auto
  have spec: "if present kid k (pm w) then insert_from kid k (pm w) v = Inl Assert_Failed
        else \<exists>t' h. insert_from kid k (pm w) v = Inr (t', h) \<and> node_inserted kid t' h k w v"
    "n \<noteq> w" "kid \<noteq> Null"
    if "goesAfter kid k (pm w)" "kid = k0 \<or> kid = k1" for kid
  proof -
    have kid: "tree_ok kid" "below n nk kid" "arity kid" using that(2) okt pr by auto
    from that(1) obtain n' where n': "n < n'" "n' \<le> w" "n_mask kid = pm n'" "agree n' k (n_key kid)"
      unfolding goesAfter_iff [OF kid(1,2) w(1)] by blast
    then show "n \<noteq> w" "kid \<noteq> Null" using that(1) by (auto simp: goesAfter_def)
    with arity_kids [OF kid(3)] n' kid w kw that(2)
    show "if present kid k (pm w) then insert_from kid k (pm w) v = Inl Assert_Failed
        else \<exists>t' h. insert_from kid k (pm w) v = Inr (t', h) \<and> node_inserted kid t' h k w v"
      using Node.IH(1) [of n'] Node.IH(2) [of n'] by blast
  qed
  consider (k0) "goesAfter k0 k (pm w)" "\<not> goesAfter k1 k (pm w)"
    | (k1) "goesAfter k1 k (pm w)" "\<not> goesAfter k0 k (pm w)"
    | (here) "\<not> goesAfter k0 k (pm w)" "\<not> goesAfter k1 k (pm w)"
    using goesAfter_apart [OF okt(5,2) okt(6,3) okt(4) w(1)] by blast
  then show ?case
  proof cases
    case k0
    note sp = spec [OF k0(1)]
    have np: "\<not> present k1 k (pm w)" using k0(2) present_goesAfter [OF okt(6,3) w(1)] by blast
    have m: "pm n \<noteq> pm w" using sp(2) n w(1) by simp
    then have eq: "present (Node nk nm val k0 k1) k (pm w) \<longleftrightarrow> present k0 k (pm w)"
      using np n(2) by (simp add: present_Node)
    show ?thesis
    proof (cases "present k0 k (pm w)")
      case True
      with sp(1) k0(1) eq show ?thesis by simp
    next
      case False
      with sp(1) obtain t' h where i: "insert_from k0 k (pm w) v = Inr (t', h)" "node_inserted k0 t' h k w v"
        by auto
      have "node_inserted (Node nk nm val k0 k1) (Node nk nm val t' k1) (False # h) k w v"
        using node_inserted_kid [OF i(2) sp(3)] node_inserted_arity [OF i(2) sp(3)] i(2) sp(3) pr okt n m
        by (auto simp: node_inserted_def)
      with False eq i(1) k0(1) show ?thesis by simp
    qed
  next
    case k1
    note sp = spec [OF k1(1)]
    have np: "\<not> present k0 k (pm w)" using k1(2) present_goesAfter [OF okt(5,2) w(1)] by blast
    have m: "pm n \<noteq> pm w" using sp(2) n w(1) by simp
    then have eq: "present (Node nk nm val k0 k1) k (pm w) \<longleftrightarrow> present k1 k (pm w)"
      using np n(2) by (simp add: present_Node)
    show ?thesis
    proof (cases "present k1 k (pm w)")
      case True
      with sp(1) k1 eq show ?thesis by simp
    next
      case False
      with sp(1) obtain t' h where i: "insert_from k1 k (pm w) v = Inr (t', h)" "node_inserted k1 t' h k w v"
        by auto
      have "node_inserted (Node nk nm val k0 k1) (Node nk nm val k0 t') (True # h) k w v"
        using node_inserted_kid [OF i(2) sp(3)] node_inserted_arity [OF i(2) sp(3)] i(2) sp(3) pr okt n m
        by (auto simp: node_inserted_def)
      with False eq i(1) k1 show ?thesis by simp
    qed
  next
    case here
    then have np: "\<not> present k0 k (pm w)" "\<not> present k1 k (pm w)"
      using present_goesAfter [OF okt(5,2) w(1)] present_goesAfter [OF okt(6,3) w(1)] by blast+
    show ?thesis
    proof (cases "present (Node nk nm val k0 k1) k (pm w)")
      case True
      with np here show ?thesis by (auto simp: present_Node)
    next
      case False
      with insert_here_spec [of "Node nk nm val k0 k1" nk n val k0 k1 w k v] here pr n show ?thesis by auto
    qed
  qed
qed simp

section \<open>Lookup\<close>

definition prefix_of :: "u64 \<Rightarrow> u64 \<times> u64 \<times> 'v \<Rightarrow> bool" where
  "prefix_of k e \<longleftrightarrow> k AND fst (snd e) = fst e"

definition shortest_prefix :: "(u64 \<times> u64 \<times> 'v) multiset \<Rightarrow> u64 \<Rightarrow> u64 \<times> u64 \<times> 'v \<Rightarrow> bool" where
  "shortest_prefix E k e \<longleftrightarrow> e \<in># E \<and> prefix_of k e
     \<and> (\<forall>e' \<in># E. prefix_of k e' \<longrightarrow> fst (snd e) AND fst (snd e') = fst (snd e))"

lemma prefix_matches:
  assumes "tree_ok t" "below n nk t" "e \<in># entries t" "prefix_of k e"
  shows "t \<noteq> Null" "matches t k"
proof -
  obtain k' m' x where e: "e = (k', m', x)" by (cases e)
  from assms(3) show t: "t \<noteq> Null" by auto
  with assms(2) obtain n' where n': "n < n'" "n' \<le> 64" "n_mask t = pm n'" by (auto simp: below_def)
  from entries_within [OF assms(1) t n'(3,2) assms(3) [unfolded e]] obtain n'' where
    "n' \<le> n''" "m' = pm n''" "agree n' k' (n_key t)" by auto
  moreover from this assms(4) have "k' = k AND pm n''" by (simp add: prefix_of_def e)
  ultimately show "matches t k" by (simp add: matches_agree [OF assms(1) t n'(3)])
qed

lemma matches_apart:
  assumes "tree_ok t" "tree_ok u" "below n nk t" "below n nk u" "apart n t u" "t \<noteq> Null" "u \<noteq> Null"
    "matches t k" "matches u k"
  shows False
proof -
  from assms(3,4,6,7) obtain i j where i: "n < i" "n_mask t = pm i" and j: "n < j" "n_mask u = pm j"
    by (auto simp: below_def)
  have "agree (Suc n) k (n_key t)" "agree (Suc n) k (n_key u)"
    using assms(8,9) i j by (auto simp: matches_agree [OF assms(1,6) i(2)] matches_agree [OF assms(2,7) j(2)]
        intro: agree_mono)
  with assms(5-7) show False unfolding apart_def by (meson agree_sym agree_trans)
qed

lemma shortest_prefix_kid:
  assumes "shortest_prefix E k e" "\<forall>e \<in># E'. \<not> prefix_of k e"
  shows "shortest_prefix (E + E') k e" "shortest_prefix (E' + E) k e"
  using assms by (auto simp: shortest_prefix_def)

lemma lookupHandle_spec:
  "tree_ok t \<Longrightarrow> t \<noteq> Null \<Longrightarrow> matches t k \<Longrightarrow>
    (case lookupHandle t k of
       None \<Rightarrow> \<forall>e \<in># entries t. \<not> prefix_of k e
     | Some h \<Rightarrow> \<exists>k' m v. stored_at t h k' m v \<and> shortest_prefix (entries t) k (k', m, v))"
proof (induction t)
  case (Node nk nm val k0 k1)
  then obtain n where n: "n \<le> 64" "nm = pm n" by auto
  then have okt: "nk AND pm n = nk" "below n nk k0" "below n nk k1" "apart n k0 k1" "tree_ok k0" "tree_ok k1"
    using Node.prems by auto
  note m0 = prefix_matches [OF okt(5,2)] and m1 = prefix_matches [OF okt(6,3)]
  show ?case
  proof (cases val)
    case (Some v)
    have "nm AND fst (snd e) = nm" if "e \<in># entries (Node nk nm val k0 k1)" for e
    proof -
      obtain k' m' x where e: "e = (k', m', x)" by (cases e)
      from entries_within [OF Node.prems(1,2) _ n(1) that [unfolded e]] n obtain n'' where
        "n \<le> n''" "m' = pm n''" by auto
      then show ?thesis by (simp add: e n(2) pm_and)
    qed
    moreover have "prefix_of k (nk, nm, v)" using Node.prems(3) by (simp add: prefix_of_def matches_def)
    ultimately show ?thesis using Some by (auto simp: shortest_prefix_def)
  next
    case None
    consider (k0) "k0 \<noteq> Null" "matches k0 k" "\<forall>e \<in># entries k1. \<not> prefix_of k e"
      | (k1) "k1 \<noteq> Null" "matches k1 k" "\<not> (k0 \<noteq> Null \<and> matches k0 k)" "\<forall>e \<in># entries k0. \<not> prefix_of k e"
      | (none) "\<not> (k0 \<noteq> Null \<and> matches k0 k)" "\<not> (k1 \<noteq> Null \<and> matches k1 k)"
          "\<forall>e \<in># entries k0. \<not> prefix_of k e" "\<forall>e \<in># entries k1. \<not> prefix_of k e"
      using matches_apart [OF okt(5,6,2,3,4), of k] m0 m1 by metis
    then show ?thesis
    proof cases
      case k0
      with Node.IH(1) [OF okt(5)] None show ?thesis
        by (simp add: ball_Un split: option.splits) (metis shortest_prefix_kid(1) k0(3))
    next
      case k1
      then have "lookupHandle (Node nk nm val k0 k1) k = map_option (Cons True) (lookupHandle k1 k)"
        using None by auto
      with k1 Node.IH(2) [OF okt(6)] None show ?thesis
        by (simp del: lookupHandle.simps add: ball_Un split: option.splits) (metis shortest_prefix_kid(2) k1(4))
    next
      case none
      with None show ?thesis by auto
    qed
  qed
qed simp

section \<open>Removal\<close>

definition own_entry :: "'v trie \<Rightarrow> (u64 \<times> u64 \<times> 'v) multiset" where
  "own_entry n = (case n_value n of None \<Rightarrow> {#} | Some x \<Rightarrow> {#(n_key n, n_mask n, x)#})"

lemma entries_own: "n \<noteq> Null \<Longrightarrow> entries n = own_entry n + entries (kid0 n) + entries (kid1 n)"
  by (cases n) (simp_all add: own_entry_def split: option.split)

lemma deref_append: "deref t (h @ h') = deref (deref t h) h'"
  by (induction t h rule: deref.induct) (simp_all, (cases h'; simp)+)

lemma deref_Null [simp]: "deref Null h = Null"
  by (cases h) simp_all

lemma entries_update:
  "deref t h \<noteq> Null \<Longrightarrow> \<exists>R. entries t = entries (deref t h) + R \<and> (\<forall>s. entries (trie_update t h s) = entries s + R)"
proof (induction t h rule: deref.induct)
  case (3 nk nm v k0 k1 b bs)
  then obtain R where R: "entries (if b then k1 else k0) = entries (deref (if b then k1 else k0) bs) + R"
    "\<forall>s. entries (trie_update (if b then k1 else k0) bs s) = entries s + R" by auto
  define own where "own = (case v of None \<Rightarrow> {#} | Some x \<Rightarrow> {#(nk, nm, x)#})"
  show ?case
    by (rule exI [of _ "own + R + entries (if b then k0 else k1)"])
      (use R in \<open>auto simp: own_def [symmetric] ac_simps\<close>)
qed auto

lemma deref_update [simp]: "deref t h \<noteq> Null \<Longrightarrow> deref (trie_update t h s) h = s"
  by (induction t h rule: deref.induct) auto

definition same_head :: "'v trie \<Rightarrow> 'v trie \<Rightarrow> bool" where
  "same_head t t' \<longleftrightarrow> t \<noteq> Null \<and> t' \<noteq> Null \<and> n_key t' = n_key t \<and> n_mask t' = n_mask t"

lemma tree_ok_deref: "tree_ok t \<Longrightarrow> tree_ok (deref t h)"
  by (induction t h rule: deref.induct) auto

lemma same_head_kid:
  "same_head t t' \<Longrightarrow> below n nk t \<Longrightarrow> below n nk t'"
  "same_head t t' \<Longrightarrow> apart n t u \<Longrightarrow> apart n t' u"
  "same_head t t' \<Longrightarrow> apart n u t \<Longrightarrow> apart n u t'"
  by (auto simp: same_head_def below_def apart_def)

lemma tree_ok_update:
  "tree_ok t \<Longrightarrow> same_head (deref t h) s \<Longrightarrow> tree_ok s \<Longrightarrow> tree_ok (trie_update t h s) \<and> same_head t (trie_update t h s)"
proof (induction t h rule: deref.induct)
  case (3 nk nm v k0 k1 b bs)
  then have IH: "tree_ok (trie_update (if b then k1 else k0) bs s)"
    "same_head (if b then k1 else k0) (trie_update (if b then k1 else k0) bs s)" by auto
  from "3.prems"(1) obtain n where "n \<le> 64" "nm = pm n" "nk AND nm = nk" "below n nk k0" "below n nk k1" "apart n k0 k1"
    by auto
  with IH "3.prems"(1) show ?case
    by (cases b) (auto simp: same_head_def [of "Node _ _ _ _ _"] intro!: exI [of _ n] intro: same_head_kid)
qed (auto simp: same_head_def)

text \<open>
  All nodes have the kids they need, except that the node at \<open>h\<close> may have a single kid and no
  value. The flag \<open>root\<close> exempts the root, which is never taken out.
\<close>

fun arity_except :: "bool \<Rightarrow> 'v trie \<Rightarrow> handle \<Rightarrow> bool" where
  "arity_except root Null h \<longleftrightarrow> False"
| "arity_except root (Node k m v k0 k1) [] \<longleftrightarrow> (k1 \<noteq> Null \<longrightarrow> k0 \<noteq> Null) \<and> arity k0 \<and> arity k1"
| "arity_except root (Node k m v k0 k1) (b # h) \<longleftrightarrow>
     (k1 \<noteq> Null \<longrightarrow> k0 \<noteq> Null) \<and> (root \<or> v \<noteq> None \<or> k1 \<noteq> Null)
     \<and> arity (if b then k0 else k1) \<and> arity_except False (if b then k1 else k0) h"

definition needs_nothing :: "bool \<Rightarrow> 'v trie \<Rightarrow> bool" where
  "needs_nothing root n \<longleftrightarrow> root \<or> n_value n \<noteq> None \<or> kid1 n \<noteq> Null"

definition arity_root :: "bool \<Rightarrow> 'v trie \<Rightarrow> bool" where
  "arity_root root t \<longleftrightarrow> arity_except root t [] \<and> needs_nothing root t"

lemma arity_root_False: "t \<noteq> Null \<Longrightarrow> arity_root False t \<longleftrightarrow> arity t"
  by (cases t) (auto simp: arity_root_def needs_nothing_def)

lemma arity_except_deref: "arity_root root t \<Longrightarrow> deref t h \<noteq> Null \<Longrightarrow> arity_except root t h"
proof (induction t h arbitrary: root rule: deref.induct)
  case (3 nk nm v k0 k1 b bs)
  define kid where "kid = (if b then k1 else k0)"
  have "kid \<noteq> Null" "arity kid" using 3(2,3) by (auto simp: kid_def arity_root_def)
  then have "arity_root False kid" by (simp add: arity_root_False)
  with 3(1) [of False] 3(3) have "arity_except False kid bs" by (simp add: kid_def)
  with 3(2) show ?case by (auto simp: kid_def arity_root_def needs_nothing_def)
qed (auto simp: arity_root_def)

lemma arity_root_close:
  "arity_except root t h \<Longrightarrow> needs_nothing (root \<and> h = []) (deref t h) \<Longrightarrow> arity_root root t"
proof (induction t h arbitrary: root rule: deref.induct)
  case (3 nk nm v k0 k1 b bs)
  define kid where "kid = (if b then k1 else k0)"
  have k: "arity_except False kid bs" using 3(2) by (simp add: kid_def)
  then have "kid \<noteq> Null" by auto
  moreover have "arity_root False kid" using 3(1) [of False] 3(2,3) by (simp add: kid_def needs_nothing_def)
  ultimately have "arity kid" by (simp add: arity_root_False)
  with 3(2) show ?case by (auto simp: kid_def arity_root_def needs_nothing_def split: if_splits)
qed (auto simp: arity_root_def)

lemma grandkid:
  assumes "tree_ok u" "below n nk u" "u \<noteq> Null"
  shows "below n nk (kid0 u)" "apart n u x \<Longrightarrow> apart n (kid0 u) x" "apart n x u \<Longrightarrow> apart n x (kid0 u)"
    "tree_ok (kid0 u)"
proof -
  obtain uk um uv u0 u1 where u: "u = Node uk um uv u0 u1" using assms(3) by (cases u) auto
  from assms(2,3) obtain n' where n': "n < n'" "n' \<le> 64" "um = pm n'" "agree n uk nk" by (auto simp: below_def u)
  then have b: "below n' uk u0" using assms(1) by (auto simp: u)
  have ag: "agree (Suc n) (n_key u0) uk" "agree n (n_key u0) nk" if "u0 \<noteq> Null"
    using b that n' agree_mono [of n'] agree_trans unfolding below_def by (metis Suc_leI, metis less_imp_le)
  show "below n nk (kid0 u)" using b ag n' by (auto simp: u below_def)
  show "apart n u x \<Longrightarrow> apart n (kid0 u) x" "apart n x u \<Longrightarrow> apart n x (kid0 u)"
    using ag(1) by (auto simp: u apart_def) (metis agree_sym agree_trans)+
  show "tree_ok (kid0 u)" using assms(1) by (simp add: u)
qed

lemma splice_tree:
  assumes "tree_ok P" "P \<noteq> Null" "N = (if b then kid1 P else kid0 P)" "N \<noteq> Null" "kid1 N = Null"
  shows "tree_ok (splice_kid P b (kid0 N))" "same_head P (splice_kid P b (kid0 N))"
    "entries P = entries (splice_kid P b (kid0 N)) + own_entry N" "n_value (splice_kid P b (kid0 N)) = n_value P"
proof -
  obtain nk nm v k0 k1 where P: "P = Node nk nm v k0 k1" using assms(2) by (cases P) auto
  from assms(1) obtain n where n: "n \<le> 64" "nm = pm n" "nk AND pm n = nk" "below n nk k0" "below n nk k1" "apart n k0 k1"
    and k: "tree_ok k0" "tree_ok k1" by (auto simp: P)
  have N: "tree_ok N" "below n nk N" using n k assms(3) by (auto simp: P)
  note g = grandkid [OF N assms(4)]
  show "tree_ok (splice_kid P b (kid0 N))"
    using n k g assms(3) by (cases b) (auto simp: P splice_kid_def Let_def below_def [of n nk Null] apart_def [of n _ Null])
  show "same_head P (splice_kid P b (kid0 N))" "n_value (splice_kid P b (kid0 N)) = n_value P"
    by (auto simp: P splice_kid_def Let_def same_head_def)
  show "entries P = entries (splice_kid P b (kid0 N)) + own_entry N"
    using entries_own [OF assms(4)] assms(3,5) by (cases b) (auto simp: P splice_kid_def Let_def)
qed

lemma arity_splice:
  "arity_except root t (h @ [b]) \<Longrightarrow> kid1 (deref t (h @ [b])) = Null
    \<Longrightarrow> arity_except root (trie_update t h (splice_kid (deref t h) b (kid0 (deref t (h @ [b]))))) h"
proof (induction t h arbitrary: root rule: deref.induct)
  case (1 t)
  then obtain nk nm v k0 k1 where t: "t = Node nk nm v k0 k1" by (cases t) auto
  define N where "N = (if b then k1 else k0)"
  have "arity_except False N []" using 1 by (auto simp: t N_def)
  then have "arity (kid0 N)" by (cases N) auto
  with 1 show ?case by (auto simp: t N_def splice_kid_def Let_def split: if_splits)
next
  case (3 nk nm v k0 k1 c bs)
  define kid where "kid = (if c then k1 else k0)"
  have "arity_except False (trie_update kid bs (splice_kid (deref kid bs) b (kid0 (deref kid (bs @ [b]))))) bs"
    using 3(1) [of False] 3(2,3) by (simp add: kid_def)
  moreover from this have "trie_update kid bs (splice_kid (deref kid bs) b (kid0 (deref kid (bs @ [b])))) \<noteq> Null" by auto
  ultimately show ?case using 3(2) by (auto simp: kid_def split: if_splits)
qed auto

lemma arity_except_update:
  "arity_except root t h \<Longrightarrow> arity_except r s [] \<Longrightarrow> arity_except root (trie_update t h s) h"
proof (induction t h arbitrary: root rule: deref.induct)
  case (1 t)
  then show ?case by (cases s) auto
next
  case (3 nk nm v k0 k1 b bs)
  define kid where "kid = (if b then k1 else k0)"
  have "arity_except False (trie_update kid bs s) bs" using 3(1) [of False] 3(2,3) by (simp add: kid_def)
  moreover from this have "trie_update kid bs s \<noteq> Null" by auto
  ultimately show ?case using 3(2) by (auto simp: kid_def split: if_splits)
qed auto

lemma arity_except_at: "arity_except root t h \<Longrightarrow> arity_except r (deref t h) []"
proof (induction t h arbitrary: root rule: deref.induct)
  case (1 t)
  then show ?case by (cases t) auto
qed auto

lemma n_value_update: "h \<noteq> [] \<Longrightarrow> t \<noteq> Null \<Longrightarrow> n_value (trie_update t h s) = n_value t"
  by (cases t; cases h) auto

lemma clear_value_spec:
  assumes "arity_except True t h" "tree_ok t" "deref t h \<noteq> Null" "h \<noteq> []" "kid1 (deref t h) \<noteq> Null"
  defines "t' \<equiv> trie_update t h (set_value None (deref t h))"
  shows "tree_ok t' \<and> arity_root True t' \<and> same_head t t' \<and> n_value t' = n_value t
    \<and> entries t = entries t' + own_entry (deref t h)"
proof -
  define N N' where "N = deref t h" and "N' = set_value None N"
  obtain nk nm v k0 k1 where N: "N = Node nk nm v k0 k1" using assms(3) by (cases N) (auto simp: N_def)
  have ok: "tree_ok N" using tree_ok_deref [OF assms(2)] by (simp add: N_def)
  have N': "same_head N N'" "tree_ok N'" "entries N = entries N' + own_entry N"
    using ok entries_own [of N] entries_own [of N']
    by (auto simp: N N'_def set_value_def same_head_def own_entry_def)
  have "arity_except True N' []" using arity_except_at [OF assms(1), of True]
    by (simp add: N_def [symmetric]) (simp add: N N'_def set_value_def)
  from arity_except_update [OF assms(1) this] have "arity_root True t'"
    unfolding t'_def N_def [symmetric] N'_def [symmetric]
    by (rule arity_root_close) (use assms(3,5) in \<open>simp add: N'_def set_value_def needs_nothing_def N_def\<close>)
  moreover from entries_update [OF assms(3)] N'(3) have "entries t = entries t' + own_entry N"
    by (auto simp: t'_def N_def [symmetric] N'_def [symmetric])
  moreover have "t \<noteq> Null" using assms(3) by auto
  ultimately show ?thesis using tree_ok_update [OF assms(2), of h N'] N' n_value_update [OF assms(4)]
    by (simp add: t'_def N_def [symmetric] N'_def [symmetric])
qed

lemma remove_handle_spec:
  "arity_except True t h \<Longrightarrow> tree_ok t \<Longrightarrow> deref t h \<noteq> Null \<Longrightarrow> h \<noteq> []
    \<Longrightarrow> (kid1 (deref t h) \<noteq> Null \<longrightarrow> n_value (deref t h) \<noteq> None)
    \<Longrightarrow> \<exists>t'. remove_handle t h = Inr (n_value (deref t h), t') \<and> tree_ok t' \<and> arity_root True t'
      \<and> same_head t t' \<and> n_value t' = n_value t \<and> entries t = entries t' + own_entry (deref t h)"
proof (induction "length h" arbitrary: t h rule: less_induct)
  case less
  define N where "N = deref t h"
  show ?case
  proof (cases "kid1 N = Null")
    case False
    then have "remove_handle t h = Inr (n_value N, trie_update t h (set_value None N))"
      using less.prems(3,5) by (subst remove_handle.simps) (simp add: N_def [symmetric] check_def)
    with clear_value_spec [OF less.prems(1-4)] False show ?thesis by (simp add: N_def)
  next
    case True
    obtain p b where h: "h = p @ [b]" using less.prems(4) by (cases h rule: rev_cases) auto
    define P par t' where "P = deref t p" and "par = splice_kid P b (kid0 N)" and "t' = trie_update t p par"
    have NP: "N = deref P [b]" by (simp add: N_def P_def h deref_append)
    then have P: "P \<noteq> Null" using less.prems(3) by (auto simp: N_def)
    then have NP': "N = (if b then kid1 P else kid0 P)" using NP by (cases P) auto
    have ok: "tree_ok P" using tree_ok_deref [OF less.prems(2)] by (simp add: P_def)
    note sp = splice_tree [OF ok P NP' less.prems(3) [folded N_def] True, folded par_def]
    have u: "tree_ok t'" "same_head t t'"
      using tree_ok_update [OF less.prems(2), of p par] sp(1,2) by (auto simp: t'_def P_def)
    have e: "entries t = entries t' + own_entry N"
      using entries_update [of t p] P sp(3) by (auto simp: P_def t'_def)
    have d: "deref t' p = par" using P by (simp add: t'_def P_def)
    have ar: "arity_except True t' p" using arity_splice [of True t p b] less.prems(1) True
      by (simp add: h N_def P_def par_def t'_def)
    have "t \<noteq> Null" using less.prems(3) by auto
    with sp(4) n_value_update [of p t par] have v: "n_value t' = n_value t"
      by (cases p) (auto simp: t'_def P_def)
    have hN: "deref t (p @ [b]) = N" by (simp add: N_def h)
    have rm: "remove_handle t h = (if kid1 par = Null \<and> n_value par = None \<and> p \<noteq> []
        then obind (remove_handle t' p) (\<lambda>(_, t''). Inr (n_value N, t'')) else Inr (n_value N, t'))"
      unfolding h using less.prems(3) True hN
      by (subst remove_handle.simps)
        (simp only: Let_def butlast_snoc last_snoc t'_def par_def P_def N_def
          simp_thms not_Cons_self2 append_is_Nil_conv list.distinct if_True if_False)
    show ?thesis
    proof (cases "kid1 par = Null \<and> n_value par = None \<and> p \<noteq> []")
      case c: True
      then have "own_entry par = {#}" by (simp add: own_entry_def)
      moreover have "par \<noteq> Null" using sp(2) by (simp add: same_head_def)
      moreover have "length p < length h" by (simp add: h)
      ultimately show ?thesis using less.hyps [of p t'] ar u d c e v rm
        by (auto simp: N_def [symmetric] same_head_def)
    next
      case c: False
      then have "needs_nothing (True \<and> p = []) (deref t' p)" by (auto simp: needs_nothing_def d)
      moreover have "remove_handle t h = Inr (n_value N, t')" using c by (simp only: rm if_False)
      ultimately show ?thesis using arity_root_close [OF ar] u e v by (simp add: N_def [symmetric])
    qed
  qed
qed

section \<open>Properties\<close>

lemma trie_wf_arity: "trie_wf t \<longleftrightarrow> t \<noteq> Null \<and> n_key t = 0 \<and> n_mask t = 0 \<and> n_value t = None \<and> arity_root True t \<and> tree_ok t"
  by (cases t) (auto simp: trie_wf_def arity_root_def needs_nothing_def)

lemma trie_wf_remove:
  assumes "trie_wf t" "stored_at t h k m v"
  shows "\<exists>t'. remove_handle t h = Inr (Some v, t') \<and> trie_wf t' \<and> entries t = add_mset (k, m, v) (entries t')"
proof -
  from assms(2) obtain k0 k1 where d: "deref t h = Node k m (Some v) k0 k1" by (auto simp: stored_at_def)
  with assms(1) have "h \<noteq> []" by (auto simp: trie_wf_def)
  with remove_handle_spec [of t h] arity_except_deref [of True t h] assms(1) d show ?thesis
    by (auto simp: trie_wf_arity own_entry_def same_head_def)
qed

lemma trie_wf_insert:
  assumes "trie_wf t" "width \<noteq> 0"
  defines "m \<equiv> pm (min 64 (unat width))"
  shows "if present t (k AND m) m then trie_insert t k width (Some v) = Inl Assert_Failed
    else \<exists>t' h. trie_insert t k width (Some v) = Inr (t', h) \<and> trie_wf t'
      \<and> entries t' = add_mset (k AND m, m, v) (entries t) \<and> stored_at t' h (k AND m) m v"
proof -
  define w where "w = min 64 (unat width)"
  have w: "0 < w" "w \<le> 64" using assms(2) by (auto simp: w_def unat_gt_0)
  obtain k0 k1 where t: "t = Node 0 0 None k0 k1" "k1 \<noteq> Null \<longrightarrow> k0 \<noteq> Null" "arity k0" "arity k1" "tree_ok t"
    using assms(1) by (auto simp: trie_wf_def)
  have i: "trie_insert t k width (Some v) = insert_from t (k AND pm w) (pm w) v"
    using assms(2) by (simp add: trie_insert_def width_mask_pm w_def)
  have "pm w \<noteq> 0" using pm_inj [of w 0] w by simp
  with t w have "if present t (k AND pm w) (pm w) then insert_from t (k AND pm w) (pm w) v = Inl Assert_Failed
      else \<exists>t' h. insert_from t (k AND pm w) (pm w) v = Inr (t', h) \<and> node_inserted t t' h (k AND pm w) w v"
    by (intro insert_from_spec [of t 0]) auto
  moreover have "trie_wf t'" if "node_inserted t t' h (k AND pm w) w v" for t' h
    using that t \<open>pm w \<noteq> 0\<close> by (cases t') (auto simp: trie_wf_def node_inserted_def)
  ultimately show ?thesis unfolding i m_def w_def [symmetric]
    by (auto simp: node_inserted_def split: if_splits)
qed

lemma trie_wf_lookup:
  assumes "trie_wf t"
  shows "case lookupHandle t k of
      None \<Rightarrow> \<forall>e \<in># entries t. \<not> prefix_of k e
    | Some h \<Rightarrow> \<exists>k' m v. stored_at t h k' m v \<and> shortest_prefix (entries t) k (k', m, v)"
  using assms by (intro lookupHandle_spec) (auto simp: trie_wf_def matches_def)

lemma trie_wf_Trie: "trie_wf Trie" "entries Trie = {#}"
  by (auto simp: trie_wf_def Trie_def new_node_def below_def apart_def intro: exI [of _ 0])

lemma trie_wf_clear: "trie_wf t \<Longrightarrow> trie_clear t = Trie"
  by (auto simp: trie_wf_def trie_clear_def Trie_def new_node_def)

text \<open>The tries a program builds, with the triples it has stored so far.\<close>

inductive trie_reach :: "'v trie \<Rightarrow> bool" where
  reach_new: "trie_reach Trie"
| reach_insert: "trie_reach t \<Longrightarrow> trie_insert t k width v = Inr (t', h) \<Longrightarrow> trie_reach t'"
| reach_remove: "trie_reach t \<Longrightarrow> stored_at t h k m v \<Longrightarrow> remove_handle t h = Inr (x, t') \<Longrightarrow> trie_reach t'"
| reach_remove_key: "trie_reach t \<Longrightarrow> trie_remove t k = Inr (x, t') \<Longrightarrow> trie_reach t'"
| reach_clear: "trie_reach t \<Longrightarrow> trie_reach (trie_clear t)"

lemma trie_remove_spec:
  assumes "trie_wf t"
  shows "(\<forall>e \<in># entries t. \<not> prefix_of k e) \<and> trie_remove t k = Inr (None, t)
    \<or> (\<exists>k' m v t'. shortest_prefix (entries t) k (k', m, v) \<and> trie_remove t k = Inr (Some v, t')
        \<and> trie_wf t' \<and> entries t = add_mset (k', m, v) (entries t'))"
  using trie_wf_lookup [OF assms, of k] trie_wf_remove [OF assms]
  by (simp add: trie_remove_def split: option.splits) blast

lemma trie_reach_wf: "trie_reach t \<Longrightarrow> trie_wf t"
proof (induction rule: trie_reach.induct)
  case (reach_insert t k width v t' h)
  then obtain v' where "v = Some v'" "width \<noteq> 0"
    by (cases v) (auto simp: trie_insert_def width_mask_pm split: if_splits)
  with reach_insert trie_wf_insert [of t width k v'] show ?case by (auto split: if_splits)
next
  case (reach_remove t h k m v x t')
  with trie_wf_remove [of t h k m v] show ?case by auto
next
  case (reach_remove_key t k x t')
  with trie_remove_spec [of t k] show ?case by auto
qed (simp_all add: trie_wf_Trie trie_wf_clear)

text \<open>C2. A trie refines a collection of stored prefixes. In every trie built by insertions,
  removals and clearing, \<^verbatim>\<open>lookup\<close> returns the value of the shortest stored prefix of the key, or
  null when the key has no stored prefix; \<^verbatim>\<open>insert\<close> ends and adds exactly its prefix, or fails
  its assertion when that very prefix is stored already, and the handle it returns leads to the
  value; \<^verbatim>\<open>remove\<close> takes out exactly the prefix \<^verbatim>\<open>lookup\<close> would find and returns its value.\<close>

theorem trie_refines_prefixes:
  assumes "trie_reach t"
  shows "(case trie_lookup t k of
       None \<Rightarrow> \<forall>e \<in># entries t. \<not> prefix_of k e
     | Some v \<Rightarrow> \<exists>k' m. shortest_prefix (entries t) k (k', m, v)) \<and>
    (width \<noteq> 0 \<longrightarrow> (let m = pm (min 64 (unat width)) in
       if \<exists>x. (k AND m, m, x) \<in># entries t then trie_insert t k width (Some v) = Inl Assert_Failed
       else \<exists>t' h. trie_insert t k width (Some v) = Inr (t', h)
         \<and> entries t' = add_mset (k AND m, m, v) (entries t) \<and> n_value (deref t' h) = Some v)) \<and>
    (\<exists>t'. trie_remove t k = Inr (trie_lookup t k, t') \<and>
       (case trie_lookup t k of
          None \<Rightarrow> t' = t
        | Some v \<Rightarrow> \<exists>k' m. shortest_prefix (entries t) k (k', m, v)
            \<and> entries t = add_mset (k', m, v) (entries t')))"
proof (intro conjI impI)
  note wf = trie_reach_wf [OF assms]
  have l: "(lookupHandle t k = None \<and> trie_lookup t k = None \<and> (\<forall>e \<in># entries t. \<not> prefix_of k e))
    \<or> (\<exists>h k' m v. lookupHandle t k = Some h \<and> trie_lookup t k = Some v \<and> stored_at t h k' m v
         \<and> shortest_prefix (entries t) k (k', m, v))"
    using trie_wf_lookup [OF wf, of k] by (fastforce simp: trie_lookup_def stored_at_def split: option.splits)
  then show "case trie_lookup t k of None \<Rightarrow> \<forall>e \<in># entries t. \<not> prefix_of k e
     | Some v \<Rightarrow> \<exists>k' m. shortest_prefix (entries t) k (k', m, v)" by (elim disjE exE conjE) (simp_all, blast)
  show "let m = pm (min 64 (unat width)) in
       if \<exists>x. (k AND m, m, x) \<in># entries t then trie_insert t k width (Some v) = Inl Assert_Failed
       else \<exists>t' h. trie_insert t k width (Some v) = Inr (t', h)
         \<and> entries t' = add_mset (k AND m, m, v) (entries t) \<and> n_value (deref t' h) = Some v"
    if "width \<noteq> 0"
    using trie_wf_insert [OF wf that, of k v] unfolding Let_def present_def stored_at_def
    by (auto split: if_splits)
  show "\<exists>t'. trie_remove t k = Inr (trie_lookup t k, t') \<and>
       (case trie_lookup t k of
          None \<Rightarrow> t' = t
        | Some v \<Rightarrow> \<exists>k' m. shortest_prefix (entries t) k (k', m, v)
            \<and> entries t = add_mset (k', m, v) (entries t'))"
    using l trie_wf_remove [OF wf] by (fastforce simp: trie_remove_def)
qed

theorem trie_refines_prefixes_witness:
  "\<exists>t h t'. trie_insert Trie 0x8000 48 (Some (7 :: nat)) = Inr (t, h) \<and> trie_lookup t 0x8000 = Some 7
    \<and> trie_remove t 0x8000 = Inr (Some 7, t')"
proof -
  have "trie_insert Trie 0x8000 48 (Some (7 :: nat))
    = Inr (Node 0 0 None (Node 0 0xFFFFFFFFFFFF0000 (Some 7) Null Null) Null, [False])" (is "_ = Inr (?t, _)")
    by code_simp
  then have i: "trie_insert Trie 0x8000 48 (Some (7 :: nat)) = Inr (?t, [False])" .
  then have r: "trie_reach ?t" by (rule trie_reach.reach_insert [OF trie_reach.reach_new])
  have "trie_lookup ?t 0x8000 = Some 7" by code_simp
  with i trie_refines_prefixes [OF r, of "0x8000" 1 8] show ?thesis by auto
qed

end
