(* ===== verification/BloomFilter.thy ===== *)
theory BloomFilter
  imports SatCounter Intmath Contracts
begin

text \<open>
  The Bloom filters of \<^verbatim>\<open>base/filters\<close>: the base class with its saturating counters, the filter
  over one bit-field hash (\<^verbatim>\<open>Block\<close>), the filters over several hashes (\<^verbatim>\<open>MultiBitSel\<close>, \<^verbatim>\<open>Bulk\<close>,
  \<^verbatim>\<open>H3\<close>), the combination of sub-filters (\<^verbatim>\<open>Multi\<close>) and the exact set (\<^verbatim>\<open>Perfect\<close>). The class
  hierarchy is the datatype \<open>bloom\<close>; a virtual member is a function that dispatches on it. The
  parameters \<^verbatim>\<open>size\<close> and \<^verbatim>\<open>num_hashes\<close> are natural numbers.

  The contract of a filter is the locale \<open>membership_filter\<close>: what was inserted is reported as
  present for as long as addresses are only added.
\<close>

section \<open>Data\<close>

record bloom_base =
  offsetBits :: u32
  filter_ctr :: "8 sat_counter list"
  sizeBits :: nat
  setThreshold :: int

record multi_sel =
  numHashes :: nat
  parFilterSize :: nat
  isParallel :: bool
  skipBits :: nat

datatype sel_class = MultiBitSel | Bulk nat | H3

datatype bloom =
    BlockFilter bloom_base "u32 list" "u32 list"
  | SelFilter sel_class bloom_base multi_sel
  | MultiFilter bloom_base "bloom list"
  | PerfectFilter bloom_base "addr set"

section \<open>Construction\<close>

definition reset_all :: "8 sat_counter list \<Rightarrow> 8 sat_counter list" where
  "reset_all f = map sc_reset f"

definition Base_new :: "nat \<Rightarrow> u32 \<Rightarrow> nat \<Rightarrow> int \<Rightarrow> bloom_base outcome" where
  "Base_new sz off num_bits threshold =
     obind (GenericSatCounter num_bits 0) (\<lambda>c.
     obind (floorLog2 4 (int sz)) (\<lambda>sb.
       Inr \<lparr>offsetBits = off, filter_ctr = reset_all (replicate sz c), sizeBits = sb,
            setThreshold = threshold\<rparr>))"

fun mask_params_ok :: "nat \<Rightarrow> u32 list \<Rightarrow> u32 list \<Rightarrow> bool" where
  "mask_params_ok sb (l # ls) (s # ss) \<longleftrightarrow>
     \<not> (unat s > sb \<or> s = 0) \<and> \<not> (l + s > 64) \<and> mask_params_ok sb ls ss"
| "mask_params_ok sb _ _ \<longleftrightarrow> True"

definition Block_new :: "bloom_base \<Rightarrow> u32 list \<Rightarrow> u32 list \<Rightarrow> bloom outcome" where
  "Block_new b lsbs sizes =
     check (length lsbs = length sizes) Fatal
       (check (\<not> length lsbs < 1) Fatal
         (check (mask_params_ok (sizeBits b) lsbs sizes) Fatal
           (Inr (BlockFilter b lsbs sizes))))"

definition MultiBitSel_new :: "nat \<Rightarrow> nat \<Rightarrow> bool \<Rightarrow> nat \<Rightarrow> multi_sel outcome" where
  "MultiBitSel_new sz num_hashes par skip =
     check (num_hashes \<noteq> 0) Undefined
       (check (sz mod num_hashes = 0) Fatal
         (Inr \<lparr>numHashes = num_hashes, parFilterSize = sz div num_hashes, isParallel = par,
              skipBits = skip\<rparr>))"

definition Bulk_new :: "bloom_base \<Rightarrow> multi_sel \<Rightarrow> bloom outcome" where
  "Bulk_new b m =
     obind (floorLog2 4 (int (parFilterSize m))) (\<lambda>sb.
       check (\<not> (of_nat (numHashes m * sb) > 64 - offsetBits b)) Fatal
         (Inr (SelFilter (Bulk sb) b m)))"

definition H3_new :: "bloom_base \<Rightarrow> multi_sel \<Rightarrow> bloom outcome" where
  "H3_new b m = check (\<not> numHashes m > 16) Fatal (Inr (SelFilter H3 b m))"

definition Perfect_new :: "nat \<Rightarrow> nat \<Rightarrow> int \<Rightarrow> bloom_base \<Rightarrow> bloom outcome" where
  "Perfect_new sz num_bits threshold b =
     check (sz = 1) Fatal (check (num_bits = 1) Fatal (check (threshold = 1) Fatal
       (Inr (PerfectFilter b {}))))"

section \<open>Hashes\<close>

fun block_hash_loop :: "addr \<Rightarrow> u32 \<Rightarrow> u32 list \<Rightarrow> u32 list \<Rightarrow> addr \<Rightarrow> addr outcome" where
  "block_hash_loop a off (l # ls) (s # ss) h =
     obind (bits_checked a (unat (off + l + s - 1)) (unat (off + l)))
       (\<lambda>f. block_hash_loop a off ls ss (h XOR f))"
| "block_hash_loop a off _ _ h = Inr h"

definition block_hash :: "bloom_base \<Rightarrow> u32 list \<Rightarrow> u32 list \<Rightarrow> addr \<Rightarrow> nat outcome" where
  "block_hash b lsbs sizes a =
     obind (block_hash_loop a (offsetBits b) lsbs sizes 0) (\<lambda>h.
       check (unat h < length (filter_ctr b)) Assert_Failed (Inr (unat h)))"

text \<open>
  The selector mask \<^verbatim>\<open>1 << bit\<close> is an \<^verbatim>\<open>int\<close>: from bit 32 on the shift is undefined, and bit 31
  is sign-extended.
\<close>

fun sel_bits_loop :: "u64 \<Rightarrow> nat \<Rightarrow> nat \<Rightarrow> nat \<Rightarrow> nat list \<Rightarrow> nat \<Rightarrow> nat outcome" where
  "sel_bits_loop v hash_number nh max_bits [] result = Inr result"
| "sel_bits_loop v hash_number nh max_bits (i # is) result =
     (let b = (hash_number + nh * i) mod max_bits in
      check (b < 32) Undefined
        (sel_bits_loop v hash_number nh max_bits is
           (if v AND scast (push_bit b 1 :: u32) \<noteq> 0 then result + 2 ^ i else result)))"

definition place_hash :: "bloom_base \<Rightarrow> multi_sel \<Rightarrow> nat \<Rightarrow> nat \<Rightarrow> nat" where
  "place_hash b m hash_number result =
     (if isParallel m then result mod parFilterSize m + hash_number * parFilterSize m
      else result mod length (filter_ctr b))"

definition sel_hash :: "bloom_base \<Rightarrow> multi_sel \<Rightarrow> addr \<Rightarrow> nat \<Rightarrow> nat outcome" where
  "sel_hash b m a hash_number =
     obind (bits_checked a 63 (unat (offsetBits b))) (\<lambda>f.
       check (skipBits m < 64) Undefined
         (obind (sel_bits_loop (drop_bit (skipBits m) f) hash_number (numHashes m)
                   (64 - unat (offsetBits b)) [0..<sizeBits b] 0)
            (\<lambda>r. Inr (place_hash b m hash_number r))))"

definition H3Matrix_lo :: "u32 list list" where
  "H3Matrix_lo =
     [[33268410, 395488709, 311024285, 456111753, 181495008, 119997521, 220697869, 433891432,
       755927921, 515226970, 719448198, 349842774, 269183649, 463275672, 429800228, 521598937],
      [628677802, 820947732, 809435975, 1024657192, 887631270, 412050215, 391365090, 324227279,
       318338329, 1038393087, 489807930, 387366128, 518096428, 324184340, 429376066, 447109279],
      [599747653, 404960623, 103933604, 946416030, 656460913, 925957005, 1047665689, 163552053,
       88359290, 841315415, 899833584, 1067336680, 348549994, 464045876, 270252128, 829897652],
      [215495230, 966696438, 82589012, 750102795, 909780866, 920285789, 769759214, 331966823,
       939936006, 439950703, 883794828, 1009277508, 61634610, 741444350, 98689608, 524144422],
      [93868534, 196958667, 774076619, 327921978, 122538783, 879785030, 690748527, 3498564,
       83163077, 1027963025, 582088444, 466152216, 312424878, 550064499, 646612667, 561099434],
      [1002047931, 395477707, 821317480, 890482112, 697094476, 263813044, 840275189, 469664185,
       795625845, 211504898, 99204277, 1004491153, 725930417, 1064479221, 893834767, 839719181],
      [278507126, 985111995, 706462983, 1042178726, 123281719, 963778122, 500881056, 726291104,
       134293026, 568379664, 317050609, 533470307, 1022365922, 197645211, 315125721, 634827678],
      [219227366, 553960647, 870169525, 322232839, 508322497, 648672696, 249405795, 883596102,
       476433133, 541372919, 646647793, 1042679515, 43242483, 600187508, 499866821, 135713210],
      [52837162, 96966684, 401840460, 1071661176, 733560065, 150035417, 341319946, 811582750,
       636173904, 519054065, 196321433, 1028294565, 882204070, 522965093, 48884074, 117810166],
      [650860353, 789534698, 328813544, 473250022, 143128306, 173196006, 846958825, 174632187,
       683273509, 405459497, 787235556, 773873501, 240110267, 426797736, 92043842, 711789240],
      [586637493, 5059646, 398035664, 6686087, 498300175, 948278148, 681227731, 592751744,
       572019677, 558044722, 589368271, 695745538, 1073416749, 529192035, 550984939, 1070620580],
      [102904663, 647598516, 758863940, 313426443, 76504114, 1050747783, 708436441, 563815069,
       224107668, 875925186, 167675944, 926209739, 279737287, 1040288182, 768184312, 371708956],
      [683968868, 1027427757, 180781926, 742898864, 624078545, 645659833, 577225838, 987150210,
       723410002, 224013421, 993286634, 33188488, 247264323, 888018697, 38048664, 189037096],
      [475612146, 426739285, 873726278, 529192871, 607715202, 388486246, 987001312, 474493980,
       259747270, 417465536, 217062395, 392858482, 563810075, 137852805, 1051814153, 72895217],
      [71277086, 785496675, 500608842, 89633426, 274085706, 248467935, 838061983, 48106147,
       773662506, 49545328, 9071573, 100739031, 602018002, 904371654, 534132064, 332211304],
      [401893602, 735125342, 775548339, 210224843, 256081130, 482894412, 350801633, 1035713633,
       429458128, 327281409, 739927752, 359327650, 886942880, 847691759, 752417993, 359445596],
      [267472014, 1050659620, 1068232362, 1049684368, 17130239, 690524969, 793224378, 14455158,
       423092885, 873853424, 430535778, 7867877, 309731959, 370260786, 862353083, 403906850],
      [993077283, 218812656, 389234651, 393202875, 413116501, 263300295, 470013158, 592730725,
       441847172, 732392823, 407574059, 875664777, 271347307, 792954404, 554774761, 1022424300],
      [675919719, 637054073, 784720745, 149714381, 813144874, 502525801, 635436670, 1003196587,
       160786091, 947509775, 969788637, 26854073, 257964369, 63898568, 539767732, 772364518],
      [943076868, 1021732472, 697575075, 15843624, 617573396, 534113303, 122953324, 964873912,
       942995378, 87830944, 1012914818, 455484661, 592160054, 599844284, 810394353, 836812568],
      [688992674, 279465370, 731582262, 687883235, 438178468, 80493001, 342701501, 663561405,
       23360106, 531315007, 508931618, 36294623, 231216223, 840438413, 255665680, 663205938],
      [857265418, 552630887, 8173237, 792122963, 210140052, 823124938, 667709953, 751538219,
       991957789, 462064153, 19070176, 726604748, 714567823, 151147895, 1012619677, 697114353],
      [467105652, 683256174, 702387467, 28730434, 549942998, 48712701, 960519696, 1008345587,
       679267717, 370932249, 880419471, 352141567, 331640403, 598772468, 95160685, 812053015],
      [1053491323, 430526562, 1014938507, 109685515, 765949103, 177288303, 1034642653, 485421658,
       71850281, 981034542, 61620389, 601367920, 504420930, 220599168, 583051998, 158735752],
      [103033901, 522494916, 658494760, 959206022, 931348143, 834510661, 21542994, 189699884,
       679327018, 171983002, 96774168, 456133168, 543103352, 923945936, 970074188, 643658485],
      [566379913, 805798263, 840662512, 820206124, 796507494, 223712542, 118811519, 662246595,
       809326534, 416471323, 748027186, 161169753, 739149488, 276330378, 924837051, 964873733],
      [585882743, 135502711, 3386031, 625631285, 1068193307, 270342640, 432739484, 556606453,
       826419155, 1038540977, 158000202, 69109538, 207087256, 298111218, 678046259, 184611498],
      [305310710, 46237988, 855726974, 735975153, 930663798, 425764232, 104362407, 391371443,
       867622101, 71645091, 61824734, 661902640, 293738633, 309416189, 281710675, 879317360],
      [398146324, 398293087, 689145387, 1038451703, 521637478, 516134620, 314658937, 830334981,
       583400300, 340083705, 68029852, 675389876, 994635780, 788959180, 406967042, 74403607],
      [69463153, 744427484, 191639960, 590927798, 969916795, 546846769, 728756758, 889355646,
       520855076, 136068426, 776132410, 189663815, 252051082, 533662856, 362198652, 1026161384],
      [584984279, 1004834381, 568439705, 834508761, 21812513, 670870173, 1052043300, 341868768,
       473755574, 124339439, 36193947, 437997647, 137419489, 58705193, 337793711, 340738909],
      [898051466, 512792906, 234874060, 655358775, 683745319, 671676404, 428888546, 639928192,
       672697722, 176477579, 747020991, 758211282, 443045009, 205395173, 1016944273, 5584717]]"

definition H3Matrix_hi :: "u32 list list" where
  "H3Matrix_hi =
     [[156038300, 138620174, 588466825, 1061494056, 1013672100, 1064257198, 881417791, 839470738,
       83519030, 100875683, 237486447, 461483733, 681527127, 777996147, 574635362, 815974538],
      [184168473, 519509808, 62531892, 51821173, 43787358, 385711644, 141325169, 36069511,
       584183031, 571372909, 671503175, 226486781, 194932686, 1045460970, 753718579, 331442433],
      [73065106, 1015327221, 630916840, 1058053470, 306737587, 296343219, 907194989, 920172546,
       224516225, 818625553, 551143849, 634570650, 432966225, 756438259, 939564853, 767999933],
      [884775648, 394862257, 446787794, 219833788, 727195727, 728122304, 249888353, 732947974,
       289908868, 448282580, 618161877, 898939716, 739554163, 860631799, 1058977530, 86916736],
      [143850006, 352708694, 200194048, 979764914, 629404175, 546279766, 72106714, 860980514,
       313190585, 897143111, 308425797, 953791785, 349924906, 221457005, 950588925, 908254505],
      [950032043, 829868728, 68623614, 714624605, 69760597, 297275854, 355894016, 985369737,
       882852618, 864071289, 958512902, 950910111, 991368991, 829645051, 434698210, 771350575],
      [552695074, 319195551, 80297396, 496413831, 944046531, 621525571, 617653363, 416729825,
       441842808, 9847464, 99420657, 1033914550, 812966458, 937053011, 673390195, 934577365],
      [1034695843, 190969665, 332900185, 51897434, 523888639, 883512843, 146908572, 506785674,
       565814307, 692255649, 314052926, 826386588, 430691325, 866927620, 413880214, 936474339],
      [129380164, 741739952, 1013703462, 494392795, 957214600, 1010879043, 931790677, 94551922,
       988065869, 120637871, 882506912, 395075379, 210570485, 812422692, 910383687, 817722285],
      [51850866, 283408630, 1053047202, 858940389, 818507731, 477082181, 353546901, 993324368,
       407093779, 231608253, 1067319867, 73159811, 429792535, 971320614, 565699344, 718823399],
      [408185106, 491493570, 596050720, 310776444, 703628192, 454438809, 523988035, 728512200,
       686012353, 976339656, 72816924, 116926720, 165866591, 452043792, 866943072, 968545481],
      [443231195, 905907843, 1061421320, 746360489, 1043120338, 1069659155, 463359031, 688303227,
       186550710, 155347339, 1044842421, 1005904570, 69332909, 706951903, 422513657, 882038450],
      [430990623, 946501980, 742556791, 278398643, 183759217, 659404315, 279754382, 1069347846,
       843746517, 222777670, 990835599, 548741637, 129220580, 1392170, 1032654091, 894058935],
      [452042227, 751640705, 259481376, 765824585, 145991469, 1013683228, 1055491225, 536379588,
       392593350, 913368594, 1029429776, 226857786, 31505342, 1054416381, 32341741, 687106649],
      [404750944, 811417027, 869530820, 773491060, 810901282, 979340397, 1036910290, 461764404,
       834235095, 765695033, 604692390, 452158120, 928988098, 442719218, 1024059719, 167723114],
      [974245177, 1046377300, 1003424287, 787349855, 336314155, 875074696, 1018462718, 890313003,
       367376809, 86355556, 1020618772, 890710345, 444741481, 373230261, 767064947, 840920177],
      [719581124, 431808156, 138301690, 668222575, 497413494, 740492013, 485033226, 125301442,
       831265111, 879071459, 341690480, 152975256, 850330086, 717444507, 694225877, 785340566],
      [1032766252, 140959364, 737474726, 1062767538, 364464647, 331414723, 356152634, 642832379,
       158733632, 374691640, 285504811, 345349905, 876599880, 476392727, 479589210, 606376325],
      [174997730, 778177086, 319164313, 163614456, 10331364, 599358958, 8331663, 237538058,
       159173957, 174533880, 65588684, 878222844, 424467599, 901803515, 187504218, 776690353],
      [803856182, 965850321, 694948067, 218315960, 358416571, 683713254, 178069303, 428076035,
       686176454, 579553217, 357306738, 315018080, 886852373, 568563910, 896839725, 257416821],
      [401650013, 183289141, 497957228, 879734476, 265024455, 825794561, 889237440, 323359863,
       100258491, 991414783, 313986632, 85847250, 362520248, 276103512, 1041630342, 525981595],
      [487732740, 46201705, 990837834, 62744493, 1067364756, 58015363, 690846283, 680262648,
       997278956, 469357861, 432164624, 996763915, 211907847, 167824295, 144928194, 454839915],
      [41404232, 514493300, 259546924, 578217256, 972345130, 123299213, 346040332, 1014668104,
       520910639, 579955198, 36627803, 179072921, 547684341, 598950511, 269497394, 854352266],
      [603906768, 100863318, 708837659, 204175569, 375560904, 908375384, 28314106, 6303733,
       175283124, 749851198, 308667367, 415293931, 225365403, 1032188331, 977112710, 819705229],
      [399767123, 697985692, 356790426, 643687584, 298624218, 185095167, 381653926, 876816342,
       296720023, 2205879, 235816616, 521850105, 622753786, 1021421218, 726349744, 256504902],
      [851245024, 1022500222, 511909628, 313809625, 99776025, 39710175, 798739932, 741832408,
       140631966, 898295927, 607660421, 870669312, 1051422478, 789055529, 669113756, 681943450],
      [853872755, 491465269, 503341472, 98019440, 258267420, 335602837, 320687824, 1053324395,
       24932389, 955011453, 934255131, 435625663, 501568768, 238967025, 549987406, 248619780],
      [411151284, 576471205, 757985419, 544137226, 968135693, 877548443, 194586894, 74882373,
       248353663, 21207540, 273789651, 853653916, 861267970, 533253322, 3739570, 661358586],
      [271430986, 71390029, 257643671, 949329860, 348156406, 251939238, 445808698, 48269799,
       907589462, 105677619, 635451508, 20805932, 464874661, 7542147, 243619464, 288304568],
      [368215982, 530288964, 770090421, 660961164, 614935537, 630760399, 931299233, 794519275,
       779918979, 401746493, 561237006, 1027202224, 258968003, 339508073, 1050610516, 1064307013],
      [1039172162, 448331205, 928997884, 49813151, 198712120, 992335354, 671024050, 879525220,
       745915336, 1038822580, 138669665, 917958819, 681422342, 792868818, 924762727, 816386174],
      [515190336, 313808618, 441296783, 1022120897, 792325033, 354387581, 59273006, 280075434,
       411357221, 665274694, 4054464, 1059046246, 394261773, 848616745, 15446017, 517723271]]"

definition H3Matrix :: "u32 list list" where
  "H3Matrix = H3Matrix_lo @ H3Matrix_hi"

fun h3_loop :: "u32 list list \<Rightarrow> nat \<Rightarrow> u64 \<Rightarrow> u32 \<Rightarrow> u32" where
  "h3_loop [] hash_number v result = result"
| "h3_loop (row # rows) hash_number v result =
     (if v = 0 then result
      else h3_loop rows hash_number (drop_bit 1 v)
             (if v AND 1 \<noteq> 0 then result XOR row ! hash_number else result))"

definition h3_hash :: "bloom_base \<Rightarrow> multi_sel \<Rightarrow> addr \<Rightarrow> nat \<Rightarrow> nat outcome" where
  "h3_hash b m a hash_number =
     obind (bits_checked a 63 (unat (offsetBits b))) (\<lambda>v.
       Inr (place_hash b m hash_number (unat (h3_loop H3Matrix hash_number v 0))))"

definition permute :: "u32 \<Rightarrow> addr \<Rightarrow> addr outcome" where
  "permute offs a =
     (let bt = \<lambda>first lst. bits_checked a (unat (offs + first)) (unat (offs + lst)) in
      obind (bt 6 0) (\<lambda>part1.
      obind (bt 9 9) (\<lambda>part2.
      obind (bt 11 11) (\<lambda>part3.
      obind (bt 17 17) (\<lambda>part4.
      obind (bt 8 7) (\<lambda>part5.
      obind (bt 10 10) (\<lambda>part6.
      obind (bt 12 12) (\<lambda>part7.
      obind (bt 13 13) (\<lambda>part8.
      obind (bt 16 15) (\<lambda>part9.
      obind (bt 20 18) (\<lambda>part10.
      obind (bt 14 14) (\<lambda>part11.
      let result = push_bit 14 part1 OR push_bit 13 part2 OR push_bit 12 part3 OR push_bit 11 part4
                     OR push_bit 9 part5 OR push_bit 8 part6 OR push_bit 7 part7 OR push_bit 6 part8
                     OR push_bit 4 part9 OR push_bit 1 part10 OR part11
      in obind (bits_checked a 63 (unat (offs + 21))) (\<lambda>rest.
           Inr (result OR push_bit 21 rest))))))))))))))"

definition bulk_hash :: "nat \<Rightarrow> bloom_base \<Rightarrow> multi_sel \<Rightarrow> addr \<Rightarrow> nat \<Rightarrow> nat outcome" where
  "bulk_hash sectorBits b m a hash_number =
     (let off = offsetBits b;
          sector = length (filter_ctr b) div numHashes m
      in obind (permute off a) (\<lambda>a.
         obind (bits_checked a (unat (off + of_nat ((hash_number + 1) * sectorBits) - 1))
                  (unat (off + of_nat (hash_number * sectorBits)))) (\<lambda>f.
           let c = unat f in
           check (c < sector) Assert_Failed
             (let c = c + (numHashes m - 1 - hash_number) * sector
              in check (c < length (filter_ctr b)) Assert_Failed (Inr c)))))"

fun multi_hash :: "sel_class \<Rightarrow> bloom_base \<Rightarrow> multi_sel \<Rightarrow> addr \<Rightarrow> nat \<Rightarrow> nat outcome" where
  "multi_hash MultiBitSel b m a i = sel_hash b m a i"
| "multi_hash (Bulk sb) b m a i = bulk_hash sb b m a i"
| "multi_hash H3 b m a i = h3_hash b m a i"

section \<open>Operations\<close>

definition at_index :: "8 sat_counter list \<Rightarrow> nat \<Rightarrow> 8 sat_counter outcome" where
  "at_index f i = check (i < length f) Undefined (Inr (f ! i))"

definition upd_index ::
  "(8 sat_counter \<Rightarrow> 8 sat_counter) \<Rightarrow> bloom_base \<Rightarrow> nat \<Rightarrow> bloom_base outcome" where
  "upd_index g b i =
     obind (at_index (filter_ctr b) i) (\<lambda>c. Inr (b\<lparr>filter_ctr := (filter_ctr b)[i := g c]\<rparr>))"

fun sel_set :: "sel_class \<Rightarrow> bloom_base \<Rightarrow> multi_sel \<Rightarrow> addr \<Rightarrow> nat list \<Rightarrow> bloom_base outcome" where
  "sel_set k b m a [] = Inr b"
| "sel_set k b m a (i # is) =
     obind (multi_hash k b m a i) (\<lambda>h. obind (upd_index sc_inc b h) (\<lambda>b. sel_set k b m a is))"

fun sel_count :: "sel_class \<Rightarrow> bloom_base \<Rightarrow> multi_sel \<Rightarrow> addr \<Rightarrow> nat list \<Rightarrow> int \<Rightarrow> int outcome" where
  "sel_count k b m a [] count = Inr count"
| "sel_count k b m a (i # is) count =
     obind (multi_hash k b m a i) (\<lambda>h. obind (at_index (filter_ctr b) h) (\<lambda>c.
       sel_count k b m a is (count + uint (counter c))))"

fun bf_set :: "bloom \<Rightarrow> addr \<Rightarrow> bloom outcome"
  and bf_set_list :: "bloom list \<Rightarrow> addr \<Rightarrow> bloom list outcome" where
  "bf_set (BlockFilter b ls ss) a =
     obind (block_hash b ls ss a) (\<lambda>h. obind (upd_index sc_inc b h) (\<lambda>b. Inr (BlockFilter b ls ss)))"
| "bf_set (SelFilter k b m) a =
     obind (sel_set k b m a [0..<numHashes m]) (\<lambda>b. Inr (SelFilter k b m))"
| "bf_set (MultiFilter b fs) a = obind (bf_set_list fs a) (\<lambda>fs. Inr (MultiFilter b fs))"
| "bf_set (PerfectFilter b es) a = Inr (PerfectFilter b (insert a es))"
| "bf_set_list [] a = Inr []"
| "bf_set_list (f # fs) a =
     obind (bf_set f a) (\<lambda>f. obind (bf_set_list fs a) (\<lambda>fs. Inr (f # fs)))"

fun bf_unset :: "bloom \<Rightarrow> addr \<Rightarrow> bloom outcome"
  and bf_unset_list :: "bloom list \<Rightarrow> addr \<Rightarrow> bloom list outcome" where
  "bf_unset (BlockFilter b ls ss) a =
     obind (block_hash b ls ss a) (\<lambda>h. obind (upd_index sc_dec b h) (\<lambda>b. Inr (BlockFilter b ls ss)))"
| "bf_unset (SelFilter k b m) a = Inr (SelFilter k b m)"
| "bf_unset (MultiFilter b fs) a = obind (bf_unset_list fs a) (\<lambda>fs. Inr (MultiFilter b fs))"
| "bf_unset (PerfectFilter b es) a = Inr (PerfectFilter b (es - {a}))"
| "bf_unset_list [] a = Inr []"
| "bf_unset_list (f # fs) a =
     obind (bf_unset f a) (\<lambda>f. obind (bf_unset_list fs a) (\<lambda>fs. Inr (f # fs)))"

fun bf_clear :: "bloom \<Rightarrow> bloom"
  and bf_clear_list :: "bloom list \<Rightarrow> bloom list" where
  "bf_clear (BlockFilter b ls ss) = BlockFilter (b\<lparr>filter_ctr := reset_all (filter_ctr b)\<rparr>) ls ss"
| "bf_clear (SelFilter k b m) = SelFilter k (b\<lparr>filter_ctr := reset_all (filter_ctr b)\<rparr>) m"
| "bf_clear (MultiFilter b fs) = MultiFilter b (bf_clear_list fs)"
| "bf_clear (PerfectFilter b es) = PerfectFilter b {}"
| "bf_clear_list [] = []"
| "bf_clear_list (f # fs) = bf_clear f # bf_clear_list fs"

fun base_of :: "bloom \<Rightarrow> bloom_base" where
  "base_of (BlockFilter b _ _) = b"
| "base_of (SelFilter _ b _) = b"
| "base_of (MultiFilter b _) = b"
| "base_of (PerfectFilter b _) = b"

text \<open>The counters are added up by \<^verbatim>\<open>+=\<close>, in its branch for an amount that is not negative.\<close>

definition base_merge :: "bloom_base \<Rightarrow> bloom \<Rightarrow> bloom_base outcome" where
  "base_merge b other =
     check (length (filter_ctr b) = length (filter_ctr (base_of other))) Assert_Failed
       (Inr (b\<lparr>filter_ctr := map2 (\<lambda>c d. sc_add_pos c (uint (counter d)))
                               (filter_ctr b) (filter_ctr (base_of other))\<rparr>))"

text \<open>A \<^verbatim>\<open>Multi\<close> or \<^verbatim>\<open>Perfect\<close> filter casts the other filter to its own class unchecked.\<close>

fun bf_merge :: "bloom \<Rightarrow> bloom \<Rightarrow> bloom outcome"
  and bf_merge_list :: "bloom list \<Rightarrow> bloom list \<Rightarrow> bloom list outcome" where
  "bf_merge (BlockFilter b ls ss) other = obind (base_merge b other) (\<lambda>b. Inr (BlockFilter b ls ss))"
| "bf_merge (SelFilter k b m) other = obind (base_merge b other) (\<lambda>b. Inr (SelFilter k b m))"
| "bf_merge (MultiFilter b fs) other =
     (case other of
        MultiFilter _ gs \<Rightarrow>
          check (length fs = length gs) Assert_Failed
            (obind (bf_merge_list fs gs) (\<lambda>fs. Inr (MultiFilter b fs)))
      | _ \<Rightarrow> Inl Undefined)"
| "bf_merge (PerfectFilter b es) other =
     (case other of
        PerfectFilter _ es' \<Rightarrow> Inr (PerfectFilter b (es \<union> es'))
      | _ \<Rightarrow> Inl Undefined)"
| "bf_merge_list (f # fs) (g # gs) =
     obind (bf_merge f g) (\<lambda>f. obind (bf_merge_list fs gs) (\<lambda>fs. Inr (f # fs)))"
| "bf_merge_list fs _ = Inr fs"

fun bf_getCount :: "bloom \<Rightarrow> addr \<Rightarrow> int outcome"
  and bf_getCount_list :: "bloom list \<Rightarrow> addr \<Rightarrow> int \<Rightarrow> int outcome" where
  "bf_getCount (BlockFilter b ls ss) a =
     obind (block_hash b ls ss a) (\<lambda>h. obind (at_index (filter_ctr b) h) (\<lambda>c. Inr (uint (counter c))))"
| "bf_getCount (SelFilter k b m) a = sel_count k b m a [0..<numHashes m] 0"
| "bf_getCount (MultiFilter b fs) a = bf_getCount_list fs a 0"
| "bf_getCount (PerfectFilter b es) a = Inr (of_bool (a \<in> es))"
| "bf_getCount_list [] a count = Inr count"
| "bf_getCount_list (f # fs) a count =
     obind (bf_getCount f a) (\<lambda>c. bf_getCount_list fs a (count + c))"

fun bf_isSet :: "bloom \<Rightarrow> addr \<Rightarrow> bool outcome"
  and bf_isSet_list :: "bloom list \<Rightarrow> addr \<Rightarrow> int \<Rightarrow> int outcome" where
  "bf_isSet (MultiFilter b fs) a = obind (bf_isSet_list fs a 0) (\<lambda>n. Inr (n \<ge> setThreshold b))"
| "bf_isSet f a = obind (bf_getCount f a) (\<lambda>n. Inr (n \<ge> setThreshold (base_of f)))"
| "bf_isSet_list [] a count = Inr count"
| "bf_isSet_list (f # fs) a count =
     obind (bf_isSet f a) (\<lambda>s. bf_isSet_list fs a (if s then count + 1 else count))"

definition sum_counts :: "8 sat_counter list \<Rightarrow> int" where
  "sum_counts f = sum_list (map (\<lambda>c. uint (counter c)) f)"

fun bf_getTotalCount :: "bloom \<Rightarrow> int" where
  "bf_getTotalCount (BlockFilter b ls ss) = sum_counts (filter_ctr b)"
| "bf_getTotalCount (SelFilter k b m) = sum_counts (filter_ctr b)"
| "bf_getTotalCount (MultiFilter b fs) = sum_list (map bf_getTotalCount fs)"
| "bf_getTotalCount (PerfectFilter b es) = int (card es)"

section \<open>Growth\<close>

definition ctr_ok :: "8 sat_counter \<Rightarrow> bool" where
  "ctr_ok c \<longleftrightarrow> sat_wf c \<and> 1 \<le> maxVal c"

definition base_ok :: "bloom_base \<Rightarrow> bool" where
  "base_ok b \<longleftrightarrow> (\<forall>c \<in> set (filter_ctr b). ctr_ok c)"

definition base_le :: "bloom_base \<Rightarrow> bloom_base \<Rightarrow> bool" where
  "base_le b b' \<longleftrightarrow> offsetBits b' = offsetBits b \<and> sizeBits b' = sizeBits b \<and> setThreshold b' = setThreshold b
     \<and> list_all2 (\<lambda>c d. counter c \<le> counter d) (filter_ctr b) (filter_ctr b')"

fun grows :: "bloom \<Rightarrow> bloom \<Rightarrow> bool"
  and grows_list :: "bloom list \<Rightarrow> bloom list \<Rightarrow> bool" where
  "grows (BlockFilter b ls ss) g \<longleftrightarrow> (\<exists>b'. g = BlockFilter b' ls ss \<and> base_le b b')"
| "grows (SelFilter k b m) g \<longleftrightarrow> (\<exists>b'. g = SelFilter k b' m \<and> base_le b b')"
| "grows (MultiFilter b fs) g \<longleftrightarrow> (\<exists>gs. g = MultiFilter b gs \<and> grows_list fs gs)"
| "grows (PerfectFilter b es) g \<longleftrightarrow> (\<exists>es'. g = PerfectFilter b es' \<and> es \<subseteq> es')"
| "grows_list [] gs \<longleftrightarrow> gs = []"
| "grows_list (f # fs) gs \<longleftrightarrow> (\<exists>g gs'. gs = g # gs' \<and> grows f g \<and> grows_list fs gs')"

text \<open>The configurations whose threshold one insertion reaches.\<close>

fun bf_ok :: "bloom \<Rightarrow> bool" where
  "bf_ok (BlockFilter b ls ss) \<longleftrightarrow> base_ok b \<and> setThreshold b \<le> 1"
| "bf_ok (SelFilter k b m) \<longleftrightarrow> base_ok b \<and> setThreshold b \<le> int (numHashes m)"
| "bf_ok (MultiFilter b fs) \<longleftrightarrow> (\<forall>f \<in> set fs. bf_ok f) \<and> setThreshold b \<le> int (length fs)"
| "bf_ok (PerfectFilter b es) \<longleftrightarrow> setThreshold b \<le> 1"

lemma base_le_refl [simp]: "base_le b b"
  by (simp add: base_le_def list_all2_refl)

lemma base_le_trans: "base_le a b \<Longrightarrow> base_le b c \<Longrightarrow> base_le a c"
  by (auto simp: base_le_def elim: list_all2_trans [rotated] intro: order_trans)

lemma base_le_length: "base_le b b' \<Longrightarrow> length (filter_ctr b') = length (filter_ctr b)"
  by (auto simp: base_le_def dest: list_all2_lengthD)

lemma hash_cong:
  assumes "base_le b b'"
  shows "block_hash b' ls ss a = block_hash b ls ss a" "multi_hash k b' m a i = multi_hash k b m a i"
proof -
  have e: "offsetBits b' = offsetBits b" "sizeBits b' = sizeBits b" "length (filter_ctr b') = length (filter_ctr b)"
    using assms base_le_length [OF assms] by (auto simp: base_le_def)
  show "block_hash b' ls ss a = block_hash b ls ss a"
    by (simp only: block_hash_def e)
  show "multi_hash k b' m a i = multi_hash k b m a i"
    by (cases k) (simp_all only: multi_hash.simps sel_hash_def bulk_hash_def h3_hash_def place_hash_def e)
qed

lemma ctr_ok_inc: "ctr_ok c \<Longrightarrow> ctr_ok (sc_inc c) \<and> counter c \<le> counter (sc_inc c) \<and> 1 \<le> counter (sc_inc c)"
proof -
  assume c: "ctr_ok c"
  then have "sat_rel (unat (maxVal c)) (unat (initialVal c)) c (unat (counter c))"
    by (simp add: ctr_ok_def sat_rel_wf)
  from sc_inc_rel [OF this] c show ?thesis
    by (auto simp: ctr_ok_def sat_rel_def sat_wf_def word_le_nat_alt)
qed

lemma ctr_ok_add: "ctr_ok c \<Longrightarrow> ctr_ok (sc_add_pos c (uint (v :: u8))) \<and> counter c \<le> counter (sc_add_pos c (uint v))"
proof -
  assume c: "ctr_ok c"
  then have "sat_rel (unat (maxVal c)) (unat (initialVal c)) c (unat (counter c))"
    by (simp add: ctr_ok_def sat_rel_wf)
  from sc_add_pos_rel [OF this, of "uint v"] c
  have r: "sat_rel (unat (maxVal c)) (unat (initialVal c)) (sc_add_pos c (uint v))
      (nat (min (int (unat (maxVal c))) (int (unat (counter c)) + uint v)))" by simp
  have "unat (counter c) \<le> unat (maxVal c)" "0 \<le> uint v"
    using c by (auto simp: ctr_ok_def sat_wf_def word_le_nat_alt)
  then have "unat (counter c) \<le> nat (min (int (unat (maxVal c))) (int (unat (counter c)) + uint v))"
    by linarith
  with r c show ?thesis by (auto simp: ctr_ok_def sat_rel_def sat_wf_def word_le_nat_alt)
qed

lemma base_ok_nth: "base_ok b \<Longrightarrow> i < length (filter_ctr b) \<Longrightarrow> ctr_ok (filter_ctr b ! i)"
  by (simp add: base_ok_def)

lemma upd_inc:
  assumes "base_ok b" "upd_index sc_inc b h = Inr b'"
  shows "base_le b b'" "base_ok b'" "h < length (filter_ctr b')" "1 \<le> counter (filter_ctr b' ! h)"
proof -
  from assms(2) have h: "h < length (filter_ctr b)"
    and b': "b' = b\<lparr>filter_ctr := (filter_ctr b)[h := sc_inc (filter_ctr b ! h)]\<rparr>"
    by (auto simp: upd_index_def at_index_def)
  note c = ctr_ok_inc [OF base_ok_nth [OF assms(1) h]]
  show "base_le b b'" unfolding base_le_def list_all2_conv_all_nth
    using c h by (auto simp: b' nth_list_update)
  show "base_ok b'" using c assms(1) by (auto simp: b' base_ok_def dest!: set_update_subset_insert [THEN subsetD])
  show "h < length (filter_ctr b')" "1 \<le> counter (filter_ctr b' ! h)" using c h by (auto simp: b')
qed

lemma base_le_nth: "base_le b b' \<Longrightarrow> i < length (filter_ctr b) \<Longrightarrow> counter (filter_ctr b ! i) \<le> counter (filter_ctr b' ! i)"
  by (auto simp: base_le_def dest: list_all2_nthD)

lemma sel_set_grows:
  "sel_set k b m a is = Inr b' \<Longrightarrow> base_ok b \<Longrightarrow> base_le b b' \<and> base_ok b' \<and>
    (\<forall>i \<in> set is. \<exists>h. multi_hash k b m a i = Inr h \<and> h < length (filter_ctr b') \<and> 1 \<le> counter (filter_ctr b' ! h))"
proof (induction "is" arbitrary: b)
  case (Cons i "is")
  then obtain h b1 where h: "multi_hash k b m a i = Inr h" "upd_index sc_inc b h = Inr b1" "sel_set k b1 m a is = Inr b'"
    by auto
  note u = upd_inc [OF Cons.prems(2) h(2)]
  from Cons.IH [OF h(3) u(2)] have IH: "base_le b1 b'" "base_ok b'"
    "\<forall>i \<in> set is. \<exists>h. multi_hash k b1 m a i = Inr h \<and> h < length (filter_ctr b') \<and> 1 \<le> counter (filter_ctr b' ! h)"
    by auto
  have "h < length (filter_ctr b')" using u(3) base_le_length [OF IH(1)] by simp
  moreover have "1 \<le> counter (filter_ctr b' ! h)" using u(4) base_le_nth [OF IH(1) u(3)] by (rule order_trans)
  ultimately show ?case using IH(2,3) h(1) base_le_trans [OF u(1) IH(1)] by (simp add: hash_cong [OF u(1)])
qed simp

lemma sel_count_ge:
  "\<forall>i \<in> set is. \<exists>h. multi_hash k b m a i = Inr h \<and> h < length (filter_ctr b) \<and> 1 \<le> counter (filter_ctr b ! h)
    \<Longrightarrow> \<exists>c. sel_count k b m a is n = Inr c \<and> n + int (length is) \<le> c"
proof (induction "is" arbitrary: n)
  case (Cons i "is")
  then obtain h where h: "multi_hash k b m a i = Inr h" "h < length (filter_ctr b)" "1 \<le> counter (filter_ctr b ! h)"
    by auto
  then have "1 \<le> uint (counter (filter_ctr b ! h))" by (simp add: word_le_def)
  with h Cons.IH [of "n + uint (counter (filter_ctr b ! h))"] Cons.prems show ?case
    by (auto simp: at_index_def)
qed simp

lemma sel_count_mono:
  "sel_count k b m a is n = Inr c \<Longrightarrow> base_le b b' \<Longrightarrow> n \<le> n'
    \<Longrightarrow> \<exists>c'. sel_count k b' m a is n' = Inr c' \<and> c \<le> c'"
proof (induction "is" arbitrary: n n')
  case (Cons i "is")
  then obtain h where h: "multi_hash k b m a i = Inr h" "h < length (filter_ctr b)"
    "sel_count k b m a is (n + uint (counter (filter_ctr b ! h))) = Inr c" by (auto simp: at_index_def)
  have "uint (counter (filter_ctr b ! h)) \<le> uint (counter (filter_ctr b' ! h))"
    using base_le_nth [OF Cons.prems(2) h(2)] by (simp add: word_le_def)
  with Cons.IH [OF h(3) Cons.prems(2)] Cons.prems(3) h show ?case
    by (simp add: hash_cong [OF Cons.prems(2)] at_index_def base_le_length [OF Cons.prems(2)])
qed auto

lemma block_count_mono:
  assumes "base_le b b'" "bf_getCount (BlockFilter b ls ss) a = Inr c"
  shows "\<exists>c'. bf_getCount (BlockFilter b' ls ss) a = Inr c' \<and> c \<le> c'"
  using assms(2) base_le_nth [OF assms(1)]
  by (auto simp: hash_cong [OF assms(1)] at_index_def base_le_length [OF assms(1)] word_le_def)

lemma isSet_mono:
  "grows f g \<Longrightarrow> bf_isSet f a = Inr s \<Longrightarrow> \<exists>s'. bf_isSet g a = Inr s' \<and> (s \<longrightarrow> s')"
  "grows_list fs gs \<Longrightarrow> bf_isSet_list fs a n = Inr c \<Longrightarrow> n \<le> n'
    \<Longrightarrow> \<exists>c'. bf_isSet_list gs a n' = Inr c' \<and> c \<le> c'"
proof (induction f g and fs gs arbitrary: s and n n' c rule: grows_grows_list.induct)
  case (1 b ls ss g)
  then obtain b' where g: "g = BlockFilter b' ls ss" "base_le b b'" by auto
  from 1(2) obtain c where "bf_getCount (BlockFilter b ls ss) a = Inr c" "s = (setThreshold b \<le> c)" by auto
  moreover from block_count_mono [OF g(2) this(1)] obtain c' where
    "bf_getCount (BlockFilter b' ls ss) a = Inr c'" "c \<le> c'" by blast
  moreover have "setThreshold b' = setThreshold b" using g(2) by (simp add: base_le_def)
  ultimately show ?case by (simp del: bf_getCount.simps add: g(1))
next
  case (2 k b m g)
  then obtain b' where g: "g = SelFilter k b' m" "base_le b b'" by auto
  from 2(2) obtain c where "sel_count k b m a [0..<numHashes m] 0 = Inr c" "s = (setThreshold b \<le> c)" by auto
  moreover from sel_count_mono [OF this(1) g(2) order_refl] obtain c' where
    "sel_count k b' m a [0..<numHashes m] 0 = Inr c'" "c \<le> c'" by blast
  moreover have "setThreshold b' = setThreshold b" using g(2) by (simp add: base_le_def)
  ultimately show ?case by (simp add: g(1))
next
  case (3 b fs g)
  from 3(2) obtain gs where g: "g = MultiFilter b gs" "grows_list fs gs" by auto
  from 3(3) obtain c where c: "bf_isSet_list fs a 0 = Inr c" "s = (setThreshold b \<le> c)"
    by (auto simp only: bf_isSet.simps obind_eq_Inr sum.inject)
  obtain c' where "bf_isSet_list gs a 0 = Inr c'" "c \<le> c'" using 3(1) [OF g(2) c(1) order_refl] by blast
  with c(2) show ?case by (simp add: g(1))
next
  case (6 f fs gs)
  from 6(3) obtain g gs' where g: "gs = g # gs'" "grows f g" "grows_list fs gs'" by auto
  from 6(4) obtain s where s: "bf_isSet f a = Inr s" "bf_isSet_list fs a (if s then n + 1 else n) = Inr c"
    by (auto simp only: bf_isSet_list.simps obind_eq_Inr)
  from 6(1) [OF g(2) s(1)] obtain s' where s': "bf_isSet g a = Inr s'" "s \<longrightarrow> s'" by blast
  then have "(if s then n + 1 else n) \<le> (if s' then n' + 1 else n')" using 6(5) by auto
  from 6(2) [OF g(3) s(2) this] s' show ?case by (auto simp: g(1))
qed auto

lemma isSet_grows: "grows f g \<Longrightarrow> bf_isSet f a = Inr True \<Longrightarrow> bf_isSet g a = Inr True"
  using isSet_mono(1) [of f g a True] by auto

lemma list_isSet_all:
  "\<forall>f \<in> set fs. bf_isSet f a = Inr True \<Longrightarrow> bf_isSet_list fs a n = Inr (n + int (length fs))"
  by (induction fs arbitrary: n) auto

lemma grows_list_ok: "grows_list fs gs \<Longrightarrow> length gs = length fs"
  by (induction fs arbitrary: gs) auto

lemma set_grows:
  "bf_set f a = Inr g \<Longrightarrow> bf_ok f \<Longrightarrow> grows f g \<and> bf_ok g \<and> bf_isSet g a = Inr True"
  "bf_set_list fs a = Inr gs \<Longrightarrow> \<forall>f \<in> set fs. bf_ok f
    \<Longrightarrow> grows_list fs gs \<and> (\<forall>g \<in> set gs. bf_ok g \<and> bf_isSet g a = Inr True)"
proof (induction f a and fs a arbitrary: g and gs rule: bf_set_bf_set_list.induct)
  case (1 b ls ss a)
  then obtain h b' where h: "block_hash b ls ss a = Inr h" "upd_index sc_inc b h = Inr b'" "g = BlockFilter b' ls ss"
    by auto
  have "base_ok b" using 1(2) by simp
  note u = upd_inc [OF this h(2)]
  have "1 \<le> uint (counter (filter_ctr b' ! h))" using u(4) by (simp add: word_le_def)
  moreover have "setThreshold b' \<le> 1" using u(1) 1(2) by (simp add: base_le_def)
  ultimately show ?case using u h by (simp add: hash_cong [OF u(1)] at_index_def)
next
  case (2 k b m a)
  then obtain b' where b': "sel_set k b m a [0..<numHashes m] = Inr b'" "g = SelFilter k b' m" by auto
  have "base_ok b" using 2(2) by simp
  note s = sel_set_grows [OF b'(1) this]
  then have le: "base_le b b'" by simp
  have "\<exists>c. sel_count k b' m a [0..<numHashes m] 0 = Inr c \<and> 0 + int (length [0..<numHashes m]) \<le> c"
    by (rule sel_count_ge) (use s in \<open>simp add: hash_cong [OF le]\<close>)
  moreover have "setThreshold b' \<le> int (numHashes m)" using le 2(2) by (simp add: base_le_def)
  ultimately show ?case using s b'(2) by auto
next
  case (3 b fs a)
  from 3(2) obtain gs where gs: "bf_set_list fs a = Inr gs" "g = MultiFilter b gs" by auto
  from 3(1) [OF gs(1)] 3(3) have r: "grows_list fs gs" "\<forall>g \<in> set gs. bf_ok g \<and> bf_isSet g a = Inr True" by auto
  with 3(3) list_isSet_all [of gs a 0] grows_list_ok [OF r(1)] show ?case by (simp add: gs(2))
next
  case (6 f fs a)
  from 6(3) obtain f' fs' where s: "bf_set f a = Inr f'" "bf_set_list fs a = Inr fs'" "gs = f' # fs'" by auto
  with 6(1) [OF s(1)] 6(2) [OF s(1,2)] 6(4) show ?case by simp
qed auto

lemma base_merge_grows:
  assumes "base_merge b f = Inr b'" "base_ok b"
  shows "base_le b b' \<and> base_ok b'"
proof -
  let ?g = "\<lambda>c d. sc_add_pos c (uint (counter d))"
  from assms(1) have l: "length (filter_ctr b) = length (filter_ctr (base_of f))"
    and b': "b' = b\<lparr>filter_ctr := map2 ?g (filter_ctr b) (filter_ctr (base_of f))\<rparr>"
    by (auto simp: base_merge_def)
  have "ctr_ok (filter_ctr b' ! i) \<and> counter (filter_ctr b ! i) \<le> counter (filter_ctr b' ! i)"
    if "i < length (filter_ctr b)" for i
    using that l ctr_ok_add [OF base_ok_nth [OF assms(2) that]] by (simp add: b')
  with l show ?thesis by (auto simp: base_le_def base_ok_def list_all2_conv_all_nth b' all_set_conv_all_nth)
qed

lemma merge_grows:
  "bf_merge f h = Inr g \<Longrightarrow> bf_ok f \<Longrightarrow> grows f g \<and> bf_ok g"
  "bf_merge_list fs hs = Inr gs \<Longrightarrow> length fs = length hs \<Longrightarrow> \<forall>f \<in> set fs. bf_ok f
    \<Longrightarrow> grows_list fs gs \<and> (\<forall>g \<in> set gs. bf_ok g)"
proof (induction f h and fs hs arbitrary: g and gs rule: bf_merge_bf_merge_list.induct)
  case (1 b ls ss other)
  then obtain b' where "base_merge b other = Inr b'" "g = BlockFilter b' ls ss" by auto
  with base_merge_grows 1(2) show ?case by (auto simp: base_le_def)
next
  case (2 k b m other)
  then obtain b' where "base_merge b other = Inr b'" "g = SelFilter k b' m" by auto
  with base_merge_grows 2(2) show ?case by (auto simp: base_le_def)
next
  case (3 b fs other)
  from 3(2) obtain b' hs gs where o: "other = MultiFilter b' hs" "length fs = length hs" "bf_merge_list fs hs = Inr gs"
    "g = MultiFilter b gs" by (auto split: bloom.splits)
  with 3(1) [OF o(1) o(3,2)] 3(3) grows_list_ok show ?case by auto
next
  case (5 f fs h hs)
  from 5(3) obtain f' fs' where s: "bf_merge f h = Inr f'" "bf_merge_list fs hs = Inr fs'" "gs = f' # fs'" by auto
  with 5(1) [OF s(1)] 5(2) [OF s(1,2)] 5(4,5) show ?case by simp
qed (auto split: bloom.splits)

interpretation bloom: membership_filter bf_ok "\<lambda>f a. bf_isSet f a = Inr True" bf_set bf_merge
proof
  fix f a g assume "bf_ok f" "bf_set f a = Inr g"
  with set_grows(1) [of f a g] isSet_grows [of f g] show
    "bf_ok g \<and> bf_isSet g a = Inr True \<and> (\<forall>x. bf_isSet f x = Inr True \<longrightarrow> bf_isSet g x = Inr True)" by auto
next
  fix f h g assume "bf_ok f" "bf_merge f h = Inr g"
  with merge_grows(1) [of f h g] isSet_grows [of f g] show
    "bf_ok g \<and> (\<forall>x. bf_isSet f x = Inr True \<longrightarrow> bf_isSet g x = Inr True)" by auto
qed

section \<open>Indices\<close>

text \<open>A block filter as its constructor accepts it, when the fields lie within an address.\<close>

definition fields_inside :: "u32 \<Rightarrow> u32 list \<Rightarrow> u32 list \<Rightarrow> bool" where
  "fields_inside off ls ss \<longleftrightarrow> (\<forall>(l, s) \<in> set (zip ls ss). unat off + unat l + unat s \<le> 64)"

fun block_ok :: "bloom \<Rightarrow> bool" where
  "block_ok (BlockFilter b ls ss) \<longleftrightarrow>
     2 ^ sizeBits b \<le> length (filter_ctr b) \<and> mask_params_ok (sizeBits b) ls ss \<and> fields_inside (offsetBits b) ls ss"
| "block_ok _ \<longleftrightarrow> False"

lemma field_bits:
  fixes off l s :: u32
  assumes "unat off + unat l + unat s \<le> 64" "0 < unat s" "unat s \<le> sb"
  shows "\<exists>f. bits_checked a (unat (off + l + s - 1)) (unat (off + l)) = Inr f \<and> unat f < 2 ^ sb"
proof -
  have s1: "unat (off + l) = unat off + unat l"
    using assms(1) by (intro unat_add_lem [THEN iffD1]) simp
  have s2: "unat (off + l + s) = unat off + unat l + unat s"
    using assms(1) s1 by (subst unat_add_lem [THEN iffD1]) simp_all
  have "unat (off + l + s - 1) = unat off + unat l + unat s - 1"
    using s2 assms(2) by (subst unat_minus_one) (auto simp: unat_eq_0 [symmetric])
  then have b: "bits_checked a (unat (off + l + s - 1)) (unat (off + l))
      = Inr (bits a (unat off + unat l + unat s - 1) (unat off + unat l))"
    using assms(1,2) s1 by (simp add: bits_checked_def)
  have "unat (bits a (unat off + unat l + unat s - 1) (unat off + unat l)) < 2 ^ unat s"
    using assms(2) by (simp add: unat_bits)
  also have "(2 :: nat) ^ unat s \<le> 2 ^ sb" using assms(3) by (intro power_increasing) auto
  finally show ?thesis using b by blast
qed

lemma unat_xor_lt: "unat (v :: u64) < 2 ^ n \<Longrightarrow> unat w < 2 ^ n \<Longrightarrow> unat (v XOR w) < 2 ^ n"
proof -
  assume "unat v < 2 ^ n" "unat w < 2 ^ n"
  then have "take_bit n (unat v) = unat v" "take_bit n (unat w) = unat w" by (simp_all add: take_bit_nat_eq_self)
  then have "take_bit n (unat (v XOR w)) = unat (v XOR w)"
    by (simp add: unsigned_xor_eq take_bit_xor)
  then show ?thesis by (metis take_bit_nat_less_exp)
qed

lemma block_hash_loop_bound:
  "mask_params_ok sb ls ss \<Longrightarrow> fields_inside off ls ss \<Longrightarrow> unat h < 2 ^ sb
    \<Longrightarrow> \<exists>h'. block_hash_loop a off ls ss h = Inr h' \<and> unat h' < 2 ^ sb"
proof (induction sb ls ss arbitrary: h rule: mask_params_ok.induct)
  case (1 sb l ls s ss)
  have "0 < unat s" "unat s \<le> sb" using 1(2) by (auto simp: unat_gt_0)
  moreover have "unat off + unat l + unat s \<le> 64" "fields_inside off ls ss" using 1(3) by (auto simp: fields_inside_def)
  ultimately obtain f where f: "bits_checked a (unat (off + l + s - 1)) (unat (off + l)) = Inr f" "unat f < 2 ^ sb"
    using field_bits by blast
  from 1(1) [OF _ \<open>fields_inside off ls ss\<close> unat_xor_lt [OF 1(4) f(2)]] 1(2) f(1) show ?case by auto
qed auto

lemma block_hash_bound:
  assumes "block_ok (BlockFilter b ls ss)"
  shows "\<exists>h. block_hash b ls ss a = Inr h \<and> h < length (filter_ctr b)"
proof -
  from assms block_hash_loop_bound [of "sizeBits b" ls ss "offsetBits b" 0 a] obtain h where
    "block_hash_loop a (offsetBits b) ls ss 0 = Inr h" "unat h < 2 ^ sizeBits b" by auto
  with assms show ?thesis by (auto simp: block_hash_def check_def)
qed

text \<open>The bulk permutation moves the low 21 bits of the block number around and keeps the others.\<close>

definition perm_src :: "nat \<Rightarrow> nat" where
  "perm_src n =
     (if n \<ge> 21 then n
      else [14, 18, 19, 20, 15, 16, 13, 12, 10, 7, 8, 17, 11, 9, 0, 1, 2, 3, 4, 5, 6] ! n)"

lemma permute_bit:
  assumes "unat off < 43"
  shows "\<exists>r. permute off a = Inr r \<and> (\<forall>n < 64. bit r n \<longleftrightarrow> bit a (unat off + perm_src n))"
proof -
  have u: "unat (off + 0) = unat off" "unat (off + 6) = unat off + 6" "unat (off + 7) = unat off + 7"
    "unat (off + 8) = unat off + 8" "unat (off + 9) = unat off + 9" "unat (off + 10) = unat off + 10"
    "unat (off + 11) = unat off + 11" "unat (off + 12) = unat off + 12" "unat (off + 13) = unat off + 13"
    "unat (off + 14) = unat off + 14" "unat (off + 15) = unat off + 15" "unat (off + 16) = unat off + 16"
    "unat (off + 17) = unat off + 17" "unat (off + 18) = unat off + 18" "unat (off + 20) = unat off + 20"
    "unat (off + 21) = unat off + 21"
    using assms by (simp_all add: unat_word_ariths)
  define o' where "o' = unat off"
  have o': "o' < 43" using assms by (simp add: o'_def)
  define r where "r = push_bit 14 (bits a (o' + 6) o') OR push_bit 13 (bits a (o' + 9) (o' + 9))
    OR push_bit 12 (bits a (o' + 11) (o' + 11)) OR push_bit 11 (bits a (o' + 17) (o' + 17))
    OR push_bit 9 (bits a (o' + 8) (o' + 7)) OR push_bit 8 (bits a (o' + 10) (o' + 10))
    OR push_bit 7 (bits a (o' + 12) (o' + 12)) OR push_bit 6 (bits a (o' + 13) (o' + 13))
    OR push_bit 4 (bits a (o' + 16) (o' + 15)) OR push_bit 1 (bits a (o' + 20) (o' + 18))
    OR bits a (o' + 14) (o' + 14) OR push_bit 21 (bits a 63 (o' + 21))"
  have "permute off a = Inr r"
    using o' unfolding permute_def Let_def u o'_def [symmetric] r_def by (simp add: bits_checked_def or.assoc)
  moreover have "bit r n \<longleftrightarrow> bit a (o' + perm_src n)" if "n < 64" for n
  proof (cases "n < 21")
    case False
    then obtain m where n: "n = 21 + m" using le_Suc_ex [of 21 n] by auto
    have "bit r n \<longleftrightarrow> m < 63 - (o' + 21) + 1 \<and> bit a (o' + 21 + m)"
      using that unfolding r_def bit_or_iff bit_push_bit_iff bit_bits by (simp add: n)
    also have "\<dots> \<longleftrightarrow> bit a (o' + n)"
      using o' bit_u64_lt [of a "o' + n"] by (auto simp: n add.assoc)
    finally show ?thesis using False by (simp add: perm_src_def)
  next
    case True
    have "list_all (\<lambda>n. bit r n \<longleftrightarrow> bit a (o' + perm_src n)) [0..<21]"
      unfolding r_def bit_or_iff bit_push_bit_iff bit_bits perm_src_def
      by (simp add: upt_rec add.commute) (simp add: eval_nat_numeral)
    with True show ?thesis by (simp add: list_all_iff)
  qed
  ultimately show ?thesis by (auto simp: o'_def)
qed

lemma perm_src_range: "n < 64 \<Longrightarrow> \<exists>m < 64. perm_src m = n"
proof (cases "n < 21")
  case True
  let ?inv = "[14, 15, 16, 17, 18, 19, 20, 9, 10, 13, 8, 12, 7, 6, 0, 4, 5, 11, 1, 2, 3] :: nat list"
  have "\<forall>n \<in> set [0..<21]. ?inv ! n < 21 \<and> perm_src (?inv ! n) = n" by code_simp
  with True have "?inv ! n < 21" "perm_src (?inv ! n) = n" by auto
  then show ?thesis by (intro exI [of _ "?inv ! n"]) simp
qed (auto intro!: exI [of _ n] simp: perm_src_def)

lemma perm_src_less: "n < 64 \<Longrightarrow> perm_src n < 64"
proof -
  have "\<forall>n \<in> set [0..<21]. perm_src n < 64" by code_simp
  moreover assume "n < 64"
  ultimately show ?thesis by (cases "n < 21") (simp_all add: perm_src_def)
qed

lemma permute_blocks:
  assumes "unat off < 43"
  shows "permute off a = permute off a' \<longleftrightarrow> drop_bit (unat off) a = drop_bit (unat off) a'"
proof -
  obtain r r' where r: "permute off a = Inr r" "\<And>n. n < 64 \<Longrightarrow> bit r n \<longleftrightarrow> bit a (unat off + perm_src n)"
    "permute off a' = Inr r'" "\<And>n. n < 64 \<Longrightarrow> bit r' n \<longleftrightarrow> bit a' (unat off + perm_src n)"
    using permute_bit [OF assms] by metis
  have "r = r' \<longleftrightarrow> (\<forall>n < 64. bit a (unat off + perm_src n) \<longleftrightarrow> bit a' (unat off + perm_src n))"
    using r(2,4) word64_eqI [of r r'] by auto
  also have "\<dots> \<longleftrightarrow> (\<forall>n < 64. bit a (unat off + n) \<longleftrightarrow> bit a' (unat off + n))"
    using perm_src_range perm_src_less by metis
  also have "\<dots> \<longleftrightarrow> drop_bit (unat off) a = drop_bit (unat off) a'"
    by (auto simp: bit_eq_iff [of "drop_bit _ _"] bit_drop_bit_eq)
  finally show ?thesis by (simp add: r(1,3))
qed

text \<open>
  The constructor of \<^verbatim>\<open>Block\<close> bounds each field without the offset that hashing adds: it accepts
  a field at bit 58, which with 6 offset bits starts outside the address.
\<close>

lemma Block_offset_undefined:
  "let b = \<lparr>offsetBits = 6, filter_ctr = replicate 16 \<lparr>initialVal = 0, maxVal = 1, counter = 0\<rparr>,
            sizeBits = 4, setThreshold = 1\<rparr>
   in (case Block_new b [58] [4] of Inl _ \<Rightarrow> False | Inr f \<Rightarrow> map_sum id (\<lambda>_. ()) (bf_set f 0) = Inl Undefined)"
  by code_simp

section \<open>Properties\<close>

text \<open>C16. A Bloom filter has no false negatives: after an address is set in a filter of any
  class whose threshold one insertion reaches, the filter reports it as set, and goes on doing
  so through every later sequence of insertions and merges of other filters, whatever the hash
  functions and however the counters saturate.\<close>

theorem bloom_no_false_negative:
  assumes "bf_ok f" "bf_set f a = Inr f1" "ofold (filter_step bf_set bf_merge) f1 ps = Inr f'"
  shows "bf_isSet f' a = Inr True"
  by (rule bloom.no_false_negative [OF assms])

definition demo_base :: bloom_base where
  "demo_base = \<lparr>offsetBits = 6, filter_ctr = replicate 16 \<lparr>initialVal = 0, maxVal = 1, counter = 0\<rparr>,
     sizeBits = 4, setThreshold = 1\<rparr>"

definition demo_filter :: bloom where
  "demo_filter = MultiFilter (demo_base\<lparr>setThreshold := 2\<rparr>)
     [BlockFilter demo_base [0, 4] [4, 4],
      SelFilter MultiBitSel (demo_base\<lparr>setThreshold := 2\<rparr>) \<lparr>numHashes = 2, parFilterSize = 8, isParallel = True, skipBits = 0\<rparr>]"

lemma demo_filter_ok: "bf_ok demo_filter"
  by (simp add: demo_filter_def demo_base_def base_ok_def ctr_ok_def sat_wf_def)

theorem bloom_no_false_negative_witness:
  "\<exists>f1 f'. bf_set demo_filter 0x1240 = Inr f1 \<and> bf_set f1 0x5000 = Inr f' \<and> bf_isSet f' 0x1240 = Inr True"
proof -
  have "(case bf_set demo_filter 0x1240 of Inl _ \<Rightarrow> False
     | Inr f1 \<Rightarrow> (case bf_set f1 0x5000 of Inl _ \<Rightarrow> False | Inr _ \<Rightarrow> True))" by code_simp
  then obtain f1 f' where f: "bf_set demo_filter 0x1240 = Inr f1" "bf_set f1 0x5000 = Inr f'"
    by (auto split: sum.splits)
  moreover have "bf_isSet f' 0x1240 = Inr True"
    using f(2) by (intro bloom_no_false_negative [OF demo_filter_ok f(1), of "[Add 0x5000]"]) simp
  ultimately show ?thesis by blast
qed

text \<open>C38. A block filter that its constructor accepted and whose bit fields lie within an address
  never indexes outside its counters: setting, unsetting and counting succeed on every address
  and leave such a filter behind.\<close>

theorem block_filter_total:
  assumes "Block_new b lsbs sizes = Inr f" "2 ^ sizeBits b \<le> length (filter_ctr b)"
    and "fields_inside (offsetBits b) lsbs sizes"
  shows "block_ok f \<and> (\<forall>g. block_ok g \<longrightarrow> (\<exists>g'. bf_set g a = Inr g' \<and> block_ok g')
    \<and> (\<exists>g'. bf_unset g a = Inr g' \<and> block_ok g') \<and> (\<exists>c. bf_getCount g a = Inr c))"
proof (intro conjI allI impI)
  show "block_ok f" using assms by (auto simp: Block_new_def)
  fix g assume g: "block_ok g"
  then obtain b ls ss where gb: "g = BlockFilter b ls ss" by (cases g) auto
  from block_hash_bound [OF g [unfolded gb], of a] obtain h where
    h: "block_hash b ls ss a = Inr h" "h < length (filter_ctr b)" by blast
  show "\<exists>g'. bf_set g a = Inr g' \<and> block_ok g'" "\<exists>g'. bf_unset g a = Inr g' \<and> block_ok g'"
    "\<exists>c. bf_getCount g a = Inr c"
    using g h by (auto simp: gb upd_index_def at_index_def)
qed

lemma demo_base_fits: "2 ^ sizeBits demo_base \<le> length (filter_ctr demo_base)"
  "fields_inside (offsetBits demo_base) [0, 4] [4, 4]"
  by (simp_all add: demo_base_def fields_inside_def)

theorem block_filter_total_witness:
  "\<exists>f g. Block_new demo_base [0, 4] [4, 4] = Inr f \<and> bf_set f 0xFFFF = Inr g"
proof -
  have f: "Block_new demo_base [0, 4] [4, 4] = Inr (BlockFilter demo_base [0, 4] [4, 4])" by code_simp
  from block_filter_total [OF f, of "0xFFFF"] have "\<exists>g. bf_set (BlockFilter demo_base [0, 4] [4, 4]) 0xFFFF = Inr g"
    by (metis demo_base_fits)
  with f show ?thesis by blast
qed

text \<open>In its default configuration (4096 one-bit entries, 4 hashes, 6 offset bits, 2 skipped
  bits) the \<^verbatim>\<open>MultiBitSel\<close> filter shifts the \<^verbatim>\<open>int\<close> 1 by 32 positions while hashing, for every
  address: setting any address runs into undefined behaviour.\<close>

theorem MultiBitSel_default_undefined:
  "obind (Base_new 4096 6 1 4) (\<lambda>b. obind (MultiBitSel_new 4096 4 par 2) (\<lambda>m.
     bf_set (SelFilter MultiBitSel b m) a)) = Inl Undefined"
proof -
  have loop: "sel_bits_loop v 0 4 58 [8..<12] r = Inl Undefined" for v r
    by (simp add: upt_rec)
  have app: "sel_bits_loop v i nh mb (is @ js) r
    = obind (sel_bits_loop v i nh mb is r) (\<lambda>r. sel_bits_loop v i nh mb js r)" for v i nh mb "is" js r
    by (induction "is" arbitrary: r) (auto simp: Let_def check_def)
  have ok: "\<exists>r'. sel_bits_loop v 0 4 58 [0..<8] r = Inr r'" for v r
    by (simp add: upt_rec check_def)
  have "[0..<12] = [0..<8] @ [8..<12]" by (simp add: upt_rec)
  with loop ok app have h: "sel_bits_loop v 0 4 58 [0..<12] 0 = Inl Undefined" for v
    by (metis obind.simps(2))
  obtain b where b: "Base_new 4096 6 1 4 = Inr b" "offsetBits b = 6" "sizeBits b = 12"
  proof -
    have "GenericSatCounter 1 (0 :: u8) = Inr \<lparr>initialVal = 0, maxVal = 1, counter = 0\<rparr>" by code_simp
    moreover have "floorLog2 4 4096 = Inr 12" by code_simp
    ultimately show ?thesis using that by (simp add: Base_new_def)
  qed
  show ?thesis using b h
    by (simp add: MultiBitSel_new_def sel_hash_def bits_checked_def upt_rec [of 0 4])
qed

end
