(* ===== verification/AddrRangeMap.thy ===== *)
theory AddrRangeMap
  imports AddrRange Contracts "HOL-Library.Multiset"
begin

text \<open>
  The map from address ranges to values, \<^verbatim>\<open>base/addr_range_map.hh\<close>: a \<^verbatim>\<open>std::map\<close> ordered
  by \<^verbatim>\<open>AddrRange::operator<\<close> with a short list of recently used iterators in front of it.
  The tree is the list of its nodes in order. A node carries a name that no other node of the
  map ever has, so that an iterator is a name and dereferencing one whose node was erased is
  undefined, also when an equal range was inserted again. The template parameter
  \<^verbatim>\<open>max_cache_size\<close> is the argument \<open>mx\<close>; the conditions given to \<^verbatim>\<open>find\<close> may abort, as
  \<^verbatim>\<open>AddrRange::isSubset\<close> and \<^verbatim>\<open>AddrRange::intersects\<close> do.
\<close>

section \<open>The map\<close>

type_synonym 'v rnode = "nat \<times> addr_range \<times> 'v"

record 'v range_map =
  rm_tree :: "'v rnode list"
  rm_cache :: "nat list"
  rm_fresh :: nat

abbreviation nrange :: "'v rnode \<Rightarrow> addr_range" where
  "nrange n \<equiv> fst (snd n)"

abbreviation nvalue :: "'v rnode \<Rightarrow> 'v" where
  "nvalue n \<equiv> snd (snd n)"

definition rm_empty :: "'v range_map" where
  "rm_empty = \<lparr>rm_tree = [], rm_cache = [], rm_fresh = 0\<rparr>"

definition rm_deref :: "'v rnode list \<Rightarrow> nat \<Rightarrow> 'v rnode outcome" where
  "rm_deref t it = (case List.find (\<lambda>n. fst n = it) t of None \<Rightarrow> Inl Undefined | Some n \<Rightarrow> Inr n)"

text \<open>\<^verbatim>\<open>std::map::upper_bound\<close>, \<^verbatim>\<open>std::map::insert\<close> and \<^verbatim>\<open>std::map::erase\<close>, by position.\<close>

definition upper_bound :: "'v rnode list \<Rightarrow> addr_range \<Rightarrow> nat" where
  "upper_bound t r = length (takeWhile (\<lambda>n. \<not> ar_less r (nrange n)) t)"

definition tree_insert :: "'v range_map \<Rightarrow> addr_range \<Rightarrow> 'v \<Rightarrow> nat \<times> 'v range_map" where
  "tree_insert m r d =
     (let t = rm_tree m; i = length (takeWhile (\<lambda>n. ar_less (nrange n) r) t)
      in if i < length t \<and> \<not> ar_less r (nrange (t ! i)) then (fst (t ! i), m)
         else (rm_fresh m,
               m\<lparr>rm_tree := take i t @ (rm_fresh m, r, d) # drop i t, rm_fresh := Suc (rm_fresh m)\<rparr>))"

section \<open>Looking up\<close>

definition addNewEntryToCache :: "nat \<Rightarrow> nat \<Rightarrow> nat list \<Rightarrow> nat list" where
  "addNewEntryToCache mx it c =
     (if mx \<noteq> 0
      then if length c \<ge> mx
           then let c = c[length c - 1 := it]
                in if mx > 1 then last c # butlast c else c
           else it # c
      else c)"

text \<open>The first loop of \<^verbatim>\<open>find\<close>: \<open>skipped\<close> are the iterators already passed, in order.\<close>

fun find_cached :: "'v rnode list \<Rightarrow> (addr_range \<Rightarrow> bool outcome) \<Rightarrow> nat list \<Rightarrow> nat list \<Rightarrow>
    (nat \<times> nat list) option outcome" where
  "find_cached t cond skipped [] = Inr None"
| "find_cached t cond skipped (it # c) =
     obind (rm_deref t it) (\<lambda>n. obind (cond (nrange n)) (\<lambda>hit.
       if hit then Inr (Some (it, it # skipped @ c))
       else find_cached t cond (skipped @ [it]) c))"

text \<open>The second loop walks back while the ranges merge.\<close>

fun scan_back :: "'v rnode list \<Rightarrow> (addr_range \<Rightarrow> bool outcome) \<Rightarrow> nat \<Rightarrow> nat option outcome" where
  "scan_back t cond i =
     obind (cond (nrange (t ! i))) (\<lambda>hit.
       if hit then Inr (Some i)
       else if i \<noteq> 0 \<and> mergesWith (nrange (t ! (i - 1))) (nrange (t ! i))
       then scan_back t cond (i - 1)
       else Inr None)"

definition rm_found :: "nat \<Rightarrow> 'v range_map \<Rightarrow> nat \<Rightarrow> (nat option \<times> 'v range_map) outcome" where
  "rm_found mx m i =
     (let it = fst (rm_tree m ! i)
      in Inr (Some it, m\<lparr>rm_cache := addNewEntryToCache mx it (rm_cache m)\<rparr>))"

text \<open>The rest of \<^verbatim>\<open>find\<close>, when no cached entry matches, and \<^verbatim>\<open>find\<close> itself.\<close>

definition rm_search :: "nat \<Rightarrow> (addr_range \<Rightarrow> bool outcome) \<Rightarrow> 'v range_map \<Rightarrow> addr_range \<Rightarrow>
    (nat option \<times> 'v range_map) outcome" where
  "rm_search mx cond m r =
     (let t = rm_tree m; nxt = upper_bound t r
      in obind (if nxt < length t then cond (nrange (t ! nxt)) else Inr False) (\<lambda>hit.
           if hit then rm_found mx m nxt
           else if nxt = 0 then Inr (None, m)
           else obind (scan_back t cond (nxt - 1)) (\<lambda>s.
             case s of Some i \<Rightarrow> rm_found mx m i | None \<Rightarrow> Inr (None, m))))"

definition rm_find :: "nat \<Rightarrow> (addr_range \<Rightarrow> bool outcome) \<Rightarrow> 'v range_map \<Rightarrow> addr_range \<Rightarrow>
    (nat option \<times> 'v range_map) outcome" where
  "rm_find mx cond m r =
     obind (find_cached (rm_tree m) cond [] (rm_cache m)) (\<lambda>c.
       case c of Some (it, c') \<Rightarrow> Inr (Some it, m\<lparr>rm_cache := c'\<rparr>)
       | None \<Rightarrow> rm_search mx cond m r)"

definition rm_contains :: "nat \<Rightarrow> 'v range_map \<Rightarrow> addr_range \<Rightarrow> (nat option \<times> 'v range_map) outcome" where
  "rm_contains mx m r = rm_find mx (\<lambda>r1. isSubset r r1) m r"

definition rm_contains_addr :: "nat \<Rightarrow> 'v range_map \<Rightarrow> addr \<Rightarrow> (nat option \<times> 'v range_map) outcome" where
  "rm_contains_addr mx m a = rm_contains mx m (RangeSize a 1)"

definition rm_intersects :: "nat \<Rightarrow> 'v range_map \<Rightarrow> addr_range \<Rightarrow> (nat option \<times> 'v range_map) outcome" where
  "rm_intersects mx m r = rm_find mx (\<lambda>r1. intersects r r1) m r"

section \<open>Changing the map\<close>

definition rm_insert :: "nat \<Rightarrow> 'v range_map \<Rightarrow> addr_range \<Rightarrow> 'v \<Rightarrow>
    (nat option \<times> 'v range_map) outcome" where
  "rm_insert mx m r d =
     obind (rm_intersects mx m r) (\<lambda>(it, m).
       if it \<noteq> None then Inr (None, m)
       else let (it, m) = tree_insert m r d in Inr (Some it, m))"

definition rm_erase :: "'v range_map \<Rightarrow> nat \<Rightarrow> 'v range_map outcome" where
  "rm_erase m p =
     (let m = m\<lparr>rm_cache := removeAll p (rm_cache m)\<rparr>
      in obind (rm_deref (rm_tree m) p) (\<lambda>_.
           Inr (m\<lparr>rm_tree := filter (\<lambda>n. fst n \<noteq> p) (rm_tree m)\<rparr>)))"

text \<open>
  \<^verbatim>\<open>erase(p, q)\<close> takes two positions of the tree; every round of its loop removes the iterator
  \<open>p\<close> from the cache.
\<close>

definition rm_erase_range :: "'v range_map \<Rightarrow> nat \<Rightarrow> nat \<Rightarrow> 'v range_map outcome" where
  "rm_erase_range m p q =
     check (p \<le> q \<and> q \<le> length (rm_tree m)) Undefined
       (Inr (m\<lparr>rm_cache := (if p = q then rm_cache m
                             else removeAll (fst (rm_tree m ! p)) (rm_cache m)),
               rm_tree := take p (rm_tree m) @ drop q (rm_tree m)\<rparr>))"

definition rm_clear :: "'v range_map \<Rightarrow> 'v range_map" where
  "rm_clear m = m\<lparr>rm_cache := [], rm_tree := []\<rparr>"

definition rm_size :: "'v range_map \<Rightarrow> nat" where
  "rm_size m = length (rm_tree m)"

definition rm_is_empty :: "'v range_map \<Rightarrow> bool" where
  "rm_is_empty m \<longleftrightarrow> rm_tree m = []"

section \<open>The invariant\<close>

text \<open>
  Ranges the map decodes: not empty and built by a constructor that checks the match value; an
  interleaved one has a mask bit \<^verbatim>\<open>granularity\<close> can see and is longer than one byte.
\<close>

definition rng_ok :: "addr_range \<Rightarrow> bool" where
  "rng_ok r \<longleftrightarrow> ar_wf r \<and> ar_start r < ar_end r \<and>
     (interleaved r \<longrightarrow> combined_mask (masks r) \<noteq> 0 \<and> ar_size r \<noteq> 1)"

definition compat :: "addr_range \<Rightarrow> addr_range \<Rightarrow> bool" where
  "compat k l \<longleftrightarrow> ar_end k \<le> ar_start l \<or> mergesWith k l \<and> intlvMatch k < intlvMatch l"

definition touches :: "addr_range \<Rightarrow> addr_range \<Rightarrow> bool" where
  "touches r k \<longleftrightarrow> ar_start r < ar_end k \<and> ar_start k < ar_end r"

text \<open>
  A single byte is where \<^verbatim>\<open>AddrRange::intersects\<close> compares a plain range with an interleaved one:
  an interleaved range may be added over a byte of another channel, and the byte then stops
  the walk back over the channels (see \<open>byte_hides_channel\<close>). A range \<open>r\<close> is clear of an entry
  \<open>k\<close> unless this is the case.
\<close>

definition clear_of :: "addr_range \<Rightarrow> addr_range \<Rightarrow> bool" where
  "clear_of r k \<longleftrightarrow> \<not> (interleaved r \<and> ar_size k = 1 \<and> touches r k)"

definition tree_ok :: "'v rnode list \<Rightarrow> bool" where
  "tree_ok t \<longleftrightarrow> sorted_wrt (\<lambda>n n'. compat (nrange n) (nrange n')) t \<and>
     list_all (\<lambda>n. rng_ok (nrange n)) t"

definition rm_ok :: "nat \<Rightarrow> 'v range_map \<Rightarrow> bool" where
  "rm_ok mx m \<longleftrightarrow> tree_ok (rm_tree m) \<and> distinct (map fst (rm_tree m)) \<and>
     list_all (\<lambda>n. fst n < rm_fresh m) (rm_tree m) \<and>
     distinct (rm_cache m) \<and> set (rm_cache m) \<subseteq> fst ` set (rm_tree m) \<and> length (rm_cache m) \<le> mx"

text \<open>What the map promises: the value of the range an address lies in.\<close>

definition value_at :: "'v rnode list \<Rightarrow> addr \<Rightarrow> 'v option" where
  "value_at t a = map_option nvalue (List.find (\<lambda>n. contains (nrange n) a) t)"

declare scan_back.simps [simp del]

subsection \<open>The order of the tree\<close>

lemma mergesWith_eqs: "mergesWith k l \<Longrightarrow> ar_start l = ar_start k \<and> ar_end l = ar_end k \<and> masks l = masks k"
  by (simp add: mergesWith_def)

lemma compat_cases:
  assumes "compat k l" "rng_ok k" "rng_ok l"
  shows "ar_start k < ar_start l \<or> ar_start k = ar_start l \<and> interleaved k \<and> interleaved l \<and> intlvMatch k < intlvMatch l"
proof (cases "ar_end k \<le> ar_start l")
  case True
  with assms(2) have "ar_start k < ar_start l" unfolding rng_ok_def by (meson less_le_trans)
  then show ?thesis ..
next
  case False
  with assms(1) have m: "mergesWith k l" "intlvMatch k < intlvMatch l" by (simp_all add: compat_def)
  have "masks k \<noteq> []"
    using m ar_wf_plain [of k] ar_wf_plain [of l] assms(2,3) by (auto simp: rng_ok_def mergesWith_def)
  with m show ?thesis by (simp add: mergesWith_def)
qed

lemma compat_less: "compat k l \<Longrightarrow> rng_ok k \<Longrightarrow> rng_ok l \<Longrightarrow> ar_less k l \<and> \<not> ar_less l k"
  by (drule (2) compat_cases) (auto simp: ar_less_def)

lemma ar_less_trans: "ar_less k l \<Longrightarrow> ar_less l r \<Longrightarrow> ar_less k r"
  by (auto simp: ar_less_def split: if_splits)

lemma compat_start: "compat k l \<Longrightarrow> rng_ok k \<Longrightarrow> ar_start k \<le> ar_start l"
  by (auto simp: compat_def mergesWith_def rng_ok_def)

lemma tree_ok_nth:
  assumes "tree_ok t" "i < length t"
  shows "rng_ok (nrange (t ! i))"
  using assms by (auto simp: tree_ok_def list_all_length)

lemma tree_ok_compat:
  assumes "tree_ok t" "i < j" "j < length t"
  shows "compat (nrange (t ! i)) (nrange (t ! j))"
  using assms by (auto simp: tree_ok_def sorted_wrt_iff_nth_less)

lemma takeWhile_before: "i < length (takeWhile P t) \<Longrightarrow> P (t ! i)"
proof -
  assume i: "i < length (takeWhile P t)"
  then have "takeWhile P t ! i \<in> set (takeWhile P t)" by (rule nth_mem)
  then have "P (takeWhile P t ! i)" by (rule conjunct2 [OF set_takeWhileD])
  with i show "P (t ! i)" by (simp add: takeWhile_nth)
qed

lemma upper_bound_before: "i < upper_bound t r \<Longrightarrow> \<not> ar_less r (nrange (t ! i))"
  unfolding upper_bound_def by (drule takeWhile_before)

lemma upper_bound_at: "upper_bound t r < length t \<Longrightarrow> ar_less r (nrange (t ! upper_bound t r))"
  unfolding upper_bound_def by (drule nth_length_takeWhile) simp

lemma upper_bound_le: "upper_bound t r \<le> length t"
  unfolding upper_bound_def by (rule length_takeWhile_le)

lemma tree_ok_starts:
  assumes "tree_ok t" "i \<le> j" "j < length t"
  shows "ar_start (nrange (t ! i)) \<le> ar_start (nrange (t ! j))"
proof (cases "i = j")
  case False
  with assms have "compat (nrange (t ! i)) (nrange (t ! j))" "rng_ok (nrange (t ! i))"
    by (simp_all add: tree_ok_compat tree_ok_nth)
  then show ?thesis by (rule compat_start)
qed simp

lemma upper_bound_after:
  "upper_bound t r < length t \<Longrightarrow> ar_start r \<le> ar_start (nrange (t ! upper_bound t r))"
  by (rule ar_less_start(1) [OF upper_bound_at])

text \<open>
  Of the nodes before the upper bound, those whose bounds touch the range are the last ones
  and merge with each other, so that the walk back meets all of them.
\<close>

lemma touching_merge:
  assumes "tree_ok t" "touches r (nrange (t ! j))" "j \<le> l" "l < upper_bound t r"
  shows "mergesWith (nrange (t ! j)) (nrange (t ! l))"
proof (cases "j = l")
  case False
  have "l < length t" using assms(4) upper_bound_le [of t r] by linarith
  with False assms(1,3) have c: "compat (nrange (t ! j)) (nrange (t ! l))"
    by (intro tree_ok_compat) auto
  have "ar_start (nrange (t ! l)) \<le> ar_start r"
    using upper_bound_before [OF assms(4)] ar_less_start(2) by blast
  with assms(2) have "\<not> ar_end (nrange (t ! j)) \<le> ar_start (nrange (t ! l))"
    unfolding touches_def by (meson leD order.trans)
  with c show ?thesis by (simp add: compat_def)
qed (simp add: mergesWith_def)

lemma scan_back_None:
  assumes "scan_back t cond i = Inr None" "j \<le> i"
    "\<And>l. j \<le> l \<Longrightarrow> l \<le> i \<Longrightarrow> mergesWith (nrange (t ! j)) (nrange (t ! l))"
  shows "cond (nrange (t ! j)) = Inr False"
  using assms
proof (induction t cond i rule: scan_back.induct)
  case (1 t cond i)
  from 1(2) obtain h where h: "cond (nrange (t ! i)) = Inr h" "\<not> h"
    by (subst (asm) scan_back.simps) (cases "cond (nrange (t ! i))", auto split: if_splits)
  show ?case
  proof (cases "j = i")
    case False
    with 1(3) have i: "i \<noteq> 0" "j \<le> i - 1" by simp_all
    have "mergesWith (nrange (t ! (i - 1))) (nrange (t ! i))"
      using 1(4) [of "i - 1"] 1(4) [of i] 1(3) i by (simp add: mergesWith_def)
    moreover from this i h 1(2) have "scan_back t cond (i - 1) = Inr None"
      by (simp add: scan_back.simps [of t cond i])
    ultimately show ?thesis
      using 1(1) [OF h _ _ i(2)] h i 1(4) by simp
  qed (use h in simp)
qed

lemma scan_back_Some:
  "scan_back t cond i = Inr (Some j) \<Longrightarrow> j \<le> i \<and> cond (nrange (t ! j)) = Inr True"
proof (induction t cond i rule: scan_back.induct)
  case (1 t cond i)
  from 1(2) show ?case
    by (subst (asm) scan_back.simps)
      (cases "cond (nrange (t ! i))", auto dest: 1(1) split: if_splits)
qed

lemma scan_back_total:
  "(\<And>l. l \<le> i \<Longrightarrow> \<exists>b. cond (nrange (t ! l)) = Inr b) \<Longrightarrow> \<exists>s. scan_back t cond i = Inr s"
proof (induction t cond i rule: scan_back.induct)
  case (1 t cond i)
  obtain b where b: "cond (nrange (t ! i)) = Inr b" using 1(2) [of i] by auto
  show ?case
    using 1(1) [OF b] 1(2) by (subst scan_back.simps) (auto simp: b)
qed

subsection \<open>What a search returns\<close>

lemma rm_deref_Inr: "rm_deref t it = Inr n \<Longrightarrow> n \<in> set t \<and> fst n = it"
  by (auto simp: rm_deref_def find_Some_iff split: option.splits)

lemma rm_deref_ok: "it \<in> fst ` set t \<Longrightarrow> \<exists>n. rm_deref t it = Inr n"
  by (cases "List.find (\<lambda>n. fst n = it) t") (auto simp: rm_deref_def find_None_iff simp del: split_paired_Ex)

lemma rm_deref_node: "distinct (map fst t) \<Longrightarrow> n \<in> set t \<Longrightarrow> rm_deref t (fst n) = Inr n"
  using rm_deref_ok [of "fst n" t] rm_deref_Inr [of t "fst n"] by (auto simp: distinct_map inj_on_def)

lemma find_cached_Some:
  "find_cached t cond sk c = Inr (Some (it, c')) \<Longrightarrow>
     mset c' = mset (sk @ c) \<and> (\<exists>n \<in> set t. fst n = it \<and> cond (nrange n) = Inr True)"
proof (induction t cond sk c rule: find_cached.induct)
  case (2 t cond sk i c)
  from 2(2) obtain n b where n: "rm_deref t i = Inr n" "cond (nrange n) = Inr b"
    by (cases "rm_deref t i"; cases "cond (nrange (projr (rm_deref t i)))") auto
  with 2 show ?case using rm_deref_Inr [OF n(1)] by (cases b) (auto simp del: split_paired_Ex split_paired_All)
qed simp

lemma find_cached_None:
  "find_cached t cond sk c = Inr None \<Longrightarrow> it \<in> set c \<Longrightarrow>
     \<exists>n. rm_deref t it = Inr n \<and> cond (nrange n) = Inr False"
proof (induction c arbitrary: sk)
  case (Cons i c)
  from Cons(2) obtain n b where n: "rm_deref t i = Inr n" "cond (nrange n) = Inr b"
    by (cases "rm_deref t i"; cases "cond (nrange (projr (rm_deref t i)))") auto
  with Cons(2) have b: "\<not> b" "find_cached t cond (sk @ [i]) c = Inr None" by (cases b; simp)+
  show ?case
  proof (cases "it = i")
    case False
    with Cons(3) show ?thesis by (intro Cons(1) [OF b(2)]) simp
  qed (use n b in simp)
qed simp

lemma find_cached_total:
  "set c \<subseteq> fst ` set t \<Longrightarrow> (\<And>n. n \<in> set t \<Longrightarrow> \<exists>b. cond (nrange n) = Inr b) \<Longrightarrow>
     \<exists>x. find_cached t cond sk c = Inr x"
proof (induction c arbitrary: sk)
  case (Cons i c)
  obtain n where n: "rm_deref t i = Inr n" using rm_deref_ok [of i t] Cons(2) by auto
  obtain b where b: "cond (nrange n) = Inr b" using Cons(3) rm_deref_Inr [OF n] by blast
  show ?case using Cons(1) [of "sk @ [i]"] Cons(2,3) by (auto simp: n b)
qed simp

lemma addNewEntryToCache_ok:
  assumes "distinct c" "it \<notin> set c" "length c \<le> mx"
  shows "distinct (addNewEntryToCache mx it c)" "set (addNewEntryToCache mx it c) \<subseteq> insert it (set c)"
    "length (addNewEntryToCache mx it c) \<le> mx"
proof -
  have e: "addNewEntryToCache mx it c =
      (if mx = 0 then c else if length c \<ge> mx then it # butlast c else it # c)"
  proof (cases c rule: rev_cases)
    case (snoc d x)
    then show ?thesis using assms(3) by (auto simp: addNewEntryToCache_def Let_def list_update_append)
  qed (simp add: addNewEntryToCache_def)
  show "distinct (addNewEntryToCache mx it c)" "set (addNewEntryToCache mx it c) \<subseteq> insert it (set c)"
    "length (addNewEntryToCache mx it c) \<le> mx"
    using assms by (auto simp: e distinct_butlast dest: in_set_butlastD)
qed

definition search_misses :: "'v rnode list \<Rightarrow> (addr_range \<Rightarrow> bool outcome) \<Rightarrow> addr_range \<Rightarrow> bool" where
  "search_misses t cond r \<longleftrightarrow>
     (upper_bound t r < length t \<longrightarrow> cond (nrange (t ! upper_bound t r)) = Inr False) \<and>
     (upper_bound t r \<noteq> 0 \<longrightarrow> scan_back t cond (upper_bound t r - 1) = Inr None)"

definition search_result :: "'v rnode list \<Rightarrow> (addr_range \<Rightarrow> bool outcome) \<Rightarrow> addr_range \<Rightarrow> nat option \<Rightarrow> bool" where
  "search_result t cond r res \<longleftrightarrow>
     (case res of None \<Rightarrow> search_misses t cond r
      | Some it \<Rightarrow> \<exists>n \<in> set t. fst n = it \<and> cond (nrange n) = Inr True)"

lemma rm_found_ok:
  assumes "rm_ok mx m" "find_cached (rm_tree m) cond [] (rm_cache m) = Inr None" "i < length (rm_tree m)"
    "cond (nrange (rm_tree m ! i)) = Inr True" "rm_found mx m i = Inr (res, m')"
  shows "rm_ok mx m' \<and> rm_tree m' = rm_tree m \<and> rm_fresh m' = rm_fresh m \<and> search_result (rm_tree m) cond r res"
proof -
  let ?n = "rm_tree m ! i"
  have n: "?n \<in> set (rm_tree m)" using assms(3) by simp
  have d: "rm_deref (rm_tree m) (fst ?n) = Inr ?n"
    using assms(1) n by (intro rm_deref_node) (simp_all add: rm_ok_def)
  have out: "fst ?n \<notin> set (rm_cache m)"
    using find_cached_None [OF assms(2)] d assms(4) by fastforce
  have c: "distinct (rm_cache m)" "length (rm_cache m) \<le> mx" using assms(1) by (simp_all add: rm_ok_def)
  have sub: "set (addNewEntryToCache mx (fst ?n) (rm_cache m)) \<subseteq> fst ` set (rm_tree m)"
    using addNewEntryToCache_ok(2) [OF c(1) out c(2)] assms(1) imageI [OF n, of fst]
    unfolding rm_ok_def by blast
  have e: "res = Some (fst ?n)" "m' = m\<lparr>rm_cache := addNewEntryToCache mx (fst ?n) (rm_cache m)\<rparr>"
    using assms(5) by (simp_all add: rm_found_def Let_def)
  have "search_result (rm_tree m) cond r res"
    using n assms(4) e(1) by (auto simp: search_result_def)
  then show ?thesis
    using assms(1) sub addNewEntryToCache_ok(1,3) [OF c(1) out c(2)] by (simp add: e(2) rm_ok_def)
qed

lemma rm_search_result:
  assumes ok: "rm_ok mx m" and c: "find_cached (rm_tree m) cond [] (rm_cache m) = Inr None"
    and s: "rm_search mx cond m r = Inr (res, m')"
  shows "rm_ok mx m' \<and> rm_tree m' = rm_tree m \<and> rm_fresh m' = rm_fresh m \<and> search_result (rm_tree m) cond r res"
proof -
  let ?t = "rm_tree m" and ?u = "upper_bound (rm_tree m) r"
  obtain h where h: "(if ?u < length ?t then cond (nrange (?t ! ?u)) else Inr False) = Inr h"
    using s by (cases "if ?u < length ?t then cond (nrange (?t ! ?u)) else Inr False")
      (simp_all add: rm_search_def Let_def)
  consider (hit) "h" | (first) "\<not> h" "?u = 0" | (walk) "\<not> h" "?u \<noteq> 0" by blast
  then show ?thesis
  proof cases
    case hit
    with h have "?u < length ?t" "cond (nrange (?t ! ?u)) = Inr True" by (auto split: if_splits)
    then show ?thesis using s by (intro rm_found_ok [OF ok c]) (simp_all add: rm_search_def)
  next
    case first
    with h s ok show ?thesis
      by (auto simp: rm_search_def Let_def search_result_def search_misses_def split: if_splits)
  next
    case walk
    with h s obtain sc where sc: "scan_back ?t cond (?u - 1) = Inr sc"
      "(case sc of Some i \<Rightarrow> rm_found mx m i | None \<Rightarrow> Inr (None, m)) = Inr (res, m')"
      by (cases "scan_back ?t cond (?u - 1)") (simp_all add: rm_search_def Let_def)
    show ?thesis
    proof (cases sc)
      case None
      with sc h walk ok show ?thesis
        by (auto simp: search_result_def search_misses_def split: if_splits)
    next
      case (Some i)
      with sc have "i \<le> ?u - 1 \<and> cond (nrange (?t ! i)) = Inr True" by (intro scan_back_Some) simp
      moreover from this walk have "i < length ?t" using upper_bound_le [of ?t r] by linarith
      ultimately show ?thesis using sc Some by (intro rm_found_ok [OF ok c]) simp_all
    qed
  qed
qed

lemma rm_find_result:
  assumes "rm_ok mx m" "rm_find mx cond m r = Inr (res, m')"
  shows "rm_ok mx m' \<and> rm_tree m' = rm_tree m \<and> rm_fresh m' = rm_fresh m \<and> search_result (rm_tree m) cond r res"
proof (cases "find_cached (rm_tree m) cond [] (rm_cache m)")
  case c: (Inr c)
  show ?thesis
  proof (cases c)
    case (Some x)
    obtain it c' where x: "x = (it, c')" by force
    have f: "mset c' = mset (rm_cache m)" "\<exists>n \<in> set (rm_tree m). fst n = it \<and> cond (nrange n) = Inr True"
      using find_cached_Some [of "rm_tree m" cond "[]" "rm_cache m" it c'] c Some x by simp_all
    have e: "res = Some it" "m' = m\<lparr>rm_cache := c'\<rparr>"
      using assms(2) by (simp_all add: rm_find_def c Some x)
    show ?thesis
      using assms(1) f mset_eq_setD [OF f(1)] mset_eq_length [OF f(1)] mset_eq_imp_distinct_iff [OF f(1)]
      by (simp add: e rm_ok_def search_result_def)
  next
    case None
    with assms c show ?thesis by (intro rm_search_result) (simp_all add: rm_find_def)
  qed
qed (use assms(2) in \<open>simp add: rm_find_def\<close>)

lemma rm_find_total:
  assumes "rm_ok mx m" "\<And>n. n \<in> set (rm_tree m) \<Longrightarrow> \<exists>b. cond (nrange n) = Inr b"
  shows "\<exists>res m'. rm_find mx cond m r = Inr (res, m')"
proof -
  let ?t = "rm_tree m" and ?u = "upper_bound (rm_tree m) r"
  obtain c where c: "find_cached ?t cond [] (rm_cache m) = Inr c"
    using find_cached_total [of "rm_cache m" ?t cond "[]"] assms by (auto simp: rm_ok_def)
  obtain h where h: "(if ?u < length ?t then cond (nrange (?t ! ?u)) else Inr False) = Inr h"
    using assms(2) [of "?t ! ?u"] by (cases "?u < length ?t") auto
  have w: "\<exists>s. scan_back ?t cond (?u - 1) = Inr s" if "?u \<noteq> 0"
    using upper_bound_le [of ?t r] that by (intro scan_back_total assms(2) nth_mem) linarith
  have "\<exists>res m'. rm_search mx cond m r = Inr (res, m')"
  proof (cases "h \<or> ?u = 0")
    case False
    with w obtain s where "scan_back ?t cond (?u - 1) = Inr s" by blast
    with False show ?thesis by (cases s) (simp_all add: rm_search_def h Let_def rm_found_def)
  qed (auto simp: rm_search_def h Let_def rm_found_def)
  then show ?thesis
    by (cases c) (auto simp: rm_find_def c simp del: split_paired_Ex)
qed

subsection \<open>Values of addresses\<close>

lemma compat_disjoint:
  assumes "compat k l" "rng_ok k" "rng_ok l" "contains k a"
  shows "\<not> contains l a"
proof
  assume l: "contains l a"
  from contains_bounds [OF this] contains_bounds [OF assms(4)]
  have "\<not> ar_end k \<le> ar_start l" unfolding in_bounds_def by (meson leD le_less_trans less_le_trans)
  with assms(1) have m: "mergesWith k l" "intlvMatch k < intlvMatch l" by (simp_all add: compat_def)
  have "intlvMatch k = selector a (masks k)" "intlvMatch l = selector a (masks l)"
    using assms(2-4) l by (simp_all add: contains_selector rng_ok_def ar_wf_def)
  with m show False by (simp add: mergesWith_def)
qed

lemma value_at_node:
  assumes "tree_ok t" "n \<in> set t" "contains (nrange n) a"
  shows "value_at t a = Some (nvalue n)"
proof -
  obtain i where i: "i < length t" "n = t ! i" using assms(2) by (metis in_set_conv_nth)
  have "\<not> contains (nrange (t ! j)) a" if "j < i" for j
    using compat_disjoint [OF tree_ok_compat [OF assms(1) that i(1)]] tree_ok_nth [OF assms(1)] i that assms(3)
    by auto
  with i assms(3) have "List.find (\<lambda>n. contains (nrange n) a) t = Some n"
    by (auto simp: find_Some_iff simp del: split_paired_Ex)
  then show ?thesis by (simp add: value_at_def)
qed

lemma value_at_None: "(\<And>n. n \<in> set t \<Longrightarrow> \<not> contains (nrange n) a) \<Longrightarrow> value_at t a = None"
  by (simp add: value_at_def find_None_iff del: split_paired_All split_paired_Ex)

lemma find_append: "List.find P (xs @ ys) = (case List.find P xs of None \<Rightarrow> List.find P ys | Some x \<Rightarrow> Some x)"
  by (induction xs) auto

lemma find_skip: "\<not> P n \<Longrightarrow> List.find P (take i t @ n # drop i t) = List.find P t"
proof -
  assume "\<not> P n"
  then have "List.find P (n # drop i t) = List.find P (drop i t)" by simp
  then have "List.find P (take i t @ n # drop i t) = List.find P (take i t @ drop i t)"
    by (simp only: find_append)
  then show ?thesis by simp
qed

subsection \<open>Containment\<close>

lemma less_plus_one: "(a :: addr) \<noteq> - 1 \<Longrightarrow> a < a + 1"
proof -
  assume "a \<noteq> - 1"
  then have "1 + a \<noteq> 0" by (metis add.commute eq_neg_iff_add_eq_0)
  from unatSuc [OF this] show "a < a + 1" by (simp add: word_less_nat_alt add.commute)
qed

lemma isSubset_Inr:
  assumes "\<not> interleaved r" "rng_ok k"
  shows "\<exists>b. isSubset r k = Inr b"
proof (cases "interleaved k")
  case True
  let ?s = "scast (combined_mask (masks k)) :: u64"
  from assms(2) True obtain n where "bit (combined_mask (masks k)) n"
    by (auto simp: rng_ok_def bit_eq_iff)
  then have "bit ?s n" by (cases "n = 31") (auto simp: bit_simps min_def dest: bit_u32_lt)
  then have "?s \<noteq> 0" by auto
  from ctz64_nonzero(1) [OF this] have "ctz64 ?s < 64" by (rule bit_u64_lt)
  with True have "\<exists>g. granularity k = Inr g" by (simp add: granularity_def Let_def)
  with assms(1) True show ?thesis by (auto simp: isSubset_def)
qed (use assms(1) in \<open>simp add: isSubset_def\<close>)

lemma isSubset_start:
  assumes "isSubset r k = Inr True" "ar_start r < ar_end r" "rng_ok k"
  shows "contains k (ar_start r)"
proof (cases "interleaved k")
  case True
  with assms(1) show ?thesis by (auto simp: isSubset_def split: if_splits)
next
  case False
  with assms have "in_bounds k (ar_start r)"
    by (auto simp: isSubset_def in_bounds_def rng_ok_def not_le split: if_splits)
  with False assms(3) show ?thesis by (simp add: contains_plain rng_ok_def)
qed

lemma isSubset_byte:
  assumes "rng_ok k" "a \<noteq> - 1"
  shows "isSubset (RangeSize a 1) k = Inr (contains k a)"
proof -
  have lt: "a < a + 1" using assms(2) by (rule less_plus_one)
  obtain b where b: "isSubset (RangeSize a 1) k = Inr b"
    using isSubset_Inr [of "RangeSize a 1" k] assms(1) by (auto simp: RangeSize_def)
  have "b" if c: "contains k a"
  proof (cases "interleaved k")
    case True
    obtain g where g: "granularity k = Inr g" "b = (ar_size (RangeSize a 1) \<le> g)"
      using b True c by (cases "granularity k") (auto simp: isSubset_def RangeSize_def)
    from granularity_below_masks [OF g(1) True] obtain n where n: "n < 32" "g = 2 ^ n" by blast
    then have "unat g = 2 ^ n" by (simp add: unat_pow2)
    then have "g \<noteq> 0" by auto
    then have "1 \<le> g" by (simp add: word_le_nat_alt Suc_le_eq unat_gt_0)
    with g(2) show ?thesis by (simp add: ar_size_def RangeSize_def)
  next
    case False
    have "in_bounds k a" using c by (rule contains_bounds)
    then have "ar_start k \<le> a" "a + 1 \<le> ar_end k"
      by (auto simp: in_bounds_def intro: inc_le)
    moreover have "\<not> a + 1 \<le> a" "\<not> ar_end k \<le> ar_start k"
      using lt assms(1) by (simp_all add: rng_ok_def not_le)
    ultimately show ?thesis using b False by (simp add: isSubset_def RangeSize_def)
  qed
  moreover have "contains k a" if "b"
    using isSubset_start [of "RangeSize a 1" k] b that assms(1) lt by (simp add: RangeSize_def)
  ultimately show ?thesis using b by auto
qed

text \<open>When the search for a plain range misses, no node has it as a subset.\<close>

lemma contains_misses:
  assumes t: "tree_ok t" and m: "search_misses t (isSubset r) r"
    and r: "\<not> interleaved r" "ar_start r < ar_end r" and n: "n \<in> set t"
  shows "isSubset r (nrange n) = Inr False"
proof (rule ccontr)
  assume "isSubset r (nrange n) \<noteq> Inr False"
  obtain j where j: "j < length t" "n = t ! j" using n by (metis in_set_conv_nth)
  have ok: "rng_ok (nrange n)" using tree_ok_nth [OF t] j by simp
  obtain b where "isSubset r (nrange n) = Inr b" using isSubset_Inr [OF r(1) ok] by blast
  with \<open>isSubset r (nrange n) \<noteq> Inr False\<close> have s: "isSubset r (nrange n) = Inr True" by (cases b) auto
  from contains_bounds [OF isSubset_start [OF s r(2) ok]]
  have b: "ar_start (nrange n) \<le> ar_start r" "ar_start r < ar_end (nrange n)" by (simp_all add: in_bounds_def)
  have "j < upper_bound t r"
  proof (rule ccontr)
    assume "\<not> j < upper_bound t r"
    then have u: "upper_bound t r \<le> j" "upper_bound t r < length t" using j(1) by simp_all
    have "ar_start r < ar_start (nrange (t ! upper_bound t r))"
      using upper_bound_at [OF u(2)] r(1) by (simp add: ar_less_def split: if_splits)
    also have "\<dots> \<le> ar_start (nrange n)" using tree_ok_starts [OF t u(1) j(1)] j(2) by simp
    finally show False using b(1) by simp
  qed
  moreover have "touches r (nrange (t ! j))"
    using b r(2) j(2) by (auto simp: touches_def)
  moreover from calculation(1) m have "scan_back t (isSubset r) (upper_bound t r - 1) = Inr None"
    by (simp add: search_misses_def)
  ultimately have "isSubset r (nrange (t ! j)) = Inr False"
    by (elim scan_back_None) (auto intro: touching_merge [OF t])
  with s j(2) show False by simp
qed

lemma rm_contains_result:
  assumes "rm_ok mx m" "\<not> interleaved r" "ar_start r < ar_end r"
  obtains res m' where "rm_contains mx m r = Inr (res, m')" "rm_ok mx m'" "rm_tree m' = rm_tree m"
    "case res of None \<Rightarrow> \<forall>n \<in> set (rm_tree m). isSubset r (nrange n) = Inr False
       | Some it \<Rightarrow> \<exists>n. rm_deref (rm_tree m) it = Inr n \<and> isSubset r (nrange n) = Inr True \<and>
           value_at (rm_tree m) (ar_start r) = Some (nvalue n)"
proof -
  have t: "tree_ok (rm_tree m)" "distinct (map fst (rm_tree m))" using assms(1) by (simp_all add: rm_ok_def)
  have ok: "rng_ok (nrange n)" if "n \<in> set (rm_tree m)" for n
    using t(1) that by (auto simp: tree_ok_def list_all_iff)
  obtain res m' where f: "rm_find mx (isSubset r) m r = Inr (res, m')"
    using rm_find_total [OF assms(1), of "isSubset r"] isSubset_Inr [OF assms(2) ok] by blast
  note g = rm_find_result [OF assms(1) f]
  show ?thesis
  proof (rule that [of res m'])
    show "case res of None \<Rightarrow> \<forall>n \<in> set (rm_tree m). isSubset r (nrange n) = Inr False
       | Some it \<Rightarrow> \<exists>n. rm_deref (rm_tree m) it = Inr n \<and> isSubset r (nrange n) = Inr True \<and>
           value_at (rm_tree m) (ar_start r) = Some (nvalue n)"
    proof (cases res)
      case None
      with g contains_misses [OF t(1) _ assms(2,3)] show ?thesis by (simp add: search_result_def)
    next
      case (Some it)
      with g obtain n where n: "n \<in> set (rm_tree m)" "fst n = it" "isSubset r (nrange n) = Inr True"
        by (auto simp: search_result_def)
      have "value_at (rm_tree m) (ar_start r) = Some (nvalue n)"
        using n by (intro value_at_node [OF t(1)] isSubset_start assms(3) ok)
      with n rm_deref_node [OF t(2) n(1)] Some show ?thesis by auto
    qed
  qed (use f g in \<open>simp_all add: rm_contains_def\<close>)
qed

lemma rm_contains_addr_result:
  assumes "rm_ok mx m" "a \<noteq> - 1"
  obtains res m' where "rm_contains_addr mx m a = Inr (res, m')" "rm_ok mx m'" "rm_tree m' = rm_tree m"
    "case res of None \<Rightarrow> value_at (rm_tree m) a = None
       | Some it \<Rightarrow> \<exists>n. rm_deref (rm_tree m) it = Inr n \<and> contains (nrange n) a \<and>
           value_at (rm_tree m) a = Some (nvalue n)"
proof -
  have lt: "a < a + 1" using assms(2) by (rule less_plus_one)
  have r: "\<not> interleaved (RangeSize a 1)" "ar_start (RangeSize a 1) < ar_end (RangeSize a 1)"
    "ar_start (RangeSize a 1) = a" using lt by (simp_all add: RangeSize_def)
  have ok: "rng_ok (nrange n)" if "n \<in> set (rm_tree m)" for n
    using assms(1) that by (auto simp: rm_ok_def tree_ok_def list_all_iff)
  note byte = isSubset_byte [OF ok assms(2)]
  show ?thesis
  proof (rule rm_contains_result [OF assms(1) r(1,2)])
    fix res m'
    assume c: "rm_contains mx m (RangeSize a 1) = Inr (res, m')" "rm_ok mx m'" "rm_tree m' = rm_tree m"
      "case res of None \<Rightarrow> \<forall>n \<in> set (rm_tree m). isSubset (RangeSize a 1) (nrange n) = Inr False
       | Some it \<Rightarrow> \<exists>n. rm_deref (rm_tree m) it = Inr n \<and> isSubset (RangeSize a 1) (nrange n) = Inr True \<and>
           value_at (rm_tree m) (ar_start (RangeSize a 1)) = Some (nvalue n)"
    show ?thesis
    proof (rule that [of res m'])
      show "case res of None \<Rightarrow> value_at (rm_tree m) a = None
         | Some it \<Rightarrow> \<exists>n. rm_deref (rm_tree m) it = Inr n \<and> contains (nrange n) a \<and>
             value_at (rm_tree m) a = Some (nvalue n)"
      proof (cases res)
        case None
        with c(4) byte show ?thesis by (auto intro: value_at_None)
      next
        case (Some it)
        with c(4) r(3) obtain n where n: "rm_deref (rm_tree m) it = Inr n"
          "isSubset (RangeSize a 1) (nrange n) = Inr True" "value_at (rm_tree m) a = Some (nvalue n)" by auto
        with byte rm_deref_Inr [OF n(1)] Some show ?thesis by auto
      qed
    qed (use c in \<open>simp_all add: rm_contains_addr_def\<close>)
  qed
qed

subsection \<open>Insertion\<close>

lemma intersects_cases:
  assumes "rng_ok r" "rng_ok k" "clear_of r k" "intersects r k = Inr b"
  shows "if touches r k then b \<or> (mergesWith r k \<and> intlvMatch r \<noteq> intlvMatch k) else \<not> b"
  using assms by (auto simp: intersects_def touches_def rng_ok_def clear_of_def not_le split: if_splits)

lemma merged_compat:
  "mergesWith r k \<Longrightarrow> intlvMatch r \<noteq> intlvMatch k \<Longrightarrow> compat k r \<or> compat r k"
  by (auto simp: compat_def mergesWith_def)

lemma insert_misses:
  assumes t: "tree_ok t" and r: "rng_ok r" and cl: "list_all (\<lambda>n. clear_of r (nrange n)) t"
    and m: "search_misses t (intersects r) r" and j: "j < length t"
  shows "compat (nrange (t ! j)) r \<or> compat r (nrange (t ! j))"
proof (cases "touches r (nrange (t ! j))")
  case False
  then show ?thesis by (auto simp: touches_def compat_def not_less)
next
  case touch: True
  note ok = tree_ok_nth [OF t]
  have cl: "clear_of r (nrange (t ! i))" if "i < length t" for i using cl that by (simp add: list_all_length)
  let ?u = "upper_bound t r"
  show ?thesis
  proof (cases "j < ?u")
    case True
    with m have "scan_back t (intersects r) (?u - 1) = Inr None" by (simp add: search_misses_def)
    then have "intersects r (nrange (t ! j)) = Inr False"
      using True by (elim scan_back_None) (auto intro: touching_merge [OF t touch])
    from intersects_cases [OF r ok [OF j] cl [OF j] this] touch show ?thesis by (intro merged_compat) simp_all
  next
    case False
    then have u: "?u \<le> j" "?u < length t" using j by simp_all
    have "ar_start (nrange (t ! ?u)) < ar_end r"
      using tree_ok_starts [OF t u(1) j] touch by (auto simp: touches_def)
    moreover have "ar_start r < ar_end (nrange (t ! ?u))"
      using upper_bound_after [OF u(2)] ok [OF u(2)] by (auto simp: rng_ok_def)
    ultimately have "touches r (nrange (t ! ?u))" by (simp add: touches_def)
    moreover have "intersects r (nrange (t ! ?u)) = Inr False" using m u(2) by (simp add: search_misses_def)
    ultimately have mu: "mergesWith r (nrange (t ! ?u))" "intlvMatch r \<noteq> intlvMatch (nrange (t ! ?u))"
      using intersects_cases [OF r ok [OF u(2)] cl [OF u(2)]] by auto
    show ?thesis
    proof (cases "j = ?u")
      case False
      with u have c: "compat (nrange (t ! ?u)) (nrange (t ! j))" by (intro tree_ok_compat [OF t _ j]) simp
      have "\<not> ar_end (nrange (t ! ?u)) \<le> ar_start (nrange (t ! j))"
        using touch mu(1) by (simp add: touches_def mergesWith_def not_le)
      with c have c: "mergesWith (nrange (t ! ?u)) (nrange (t ! j))"
        "intlvMatch (nrange (t ! ?u)) < intlvMatch (nrange (t ! j))" by (simp_all add: compat_def)
      have "intlvMatch r < intlvMatch (nrange (t ! ?u))"
      proof (cases "masks r = []")
        case True
        then show ?thesis using mu r ok [OF u(2)] ar_wf_plain by (simp add: rng_ok_def mergesWith_def)
      next
        case False
        then show ?thesis using upper_bound_at [OF u(2)] mu(1) by (simp add: ar_less_def mergesWith_def)
      qed
      with c mu(1) show ?thesis by (auto simp: compat_def mergesWith_def)
    qed (use merged_compat [OF mu] in simp)
  qed
qed

lemma in_take_nth: "x \<in> set (take i t) \<Longrightarrow> \<exists>j < i. x = t ! j"
  by (auto simp: in_set_conv_nth)

lemma in_drop_nth: "x \<in> set (drop i t) \<Longrightarrow> \<exists>j. i \<le> j \<and> j < length t \<and> x = t ! j"
  by (auto simp: in_set_conv_nth) (metis add.commute le_add1 less_diff_conv)

lemma insert_position:
  assumes t: "tree_ok t" and r: "rng_ok r"
    and c: "\<And>j. j < length t \<Longrightarrow> compat (nrange (t ! j)) r \<or> compat r (nrange (t ! j))"
  defines "i \<equiv> length (takeWhile (\<lambda>n. ar_less (nrange n) r) t)"
  shows "i < length t \<Longrightarrow> ar_less r (nrange (t ! i))" "tree_ok (take i t @ (f, r, d) # drop i t)"
proof -
  note ok = tree_ok_nth [OF t]
  have before: "compat (nrange (t ! j)) r" if "j < i" for j
  proof -
    have j: "j < length t" using that length_takeWhile_le i_def by (metis less_le_trans)
    have "ar_less (nrange (t ! j)) r" using that takeWhile_before i_def by blast
    with c [OF j] compat_less [OF _ r ok [OF j]] show ?thesis by blast
  qed
  have after: "compat r (nrange (t ! j))" if "i \<le> j" "j < length t" for j
  proof (rule ccontr)
    assume "\<not> compat r (nrange (t ! j))"
    with c [OF that(2)] have "ar_less (nrange (t ! j)) r" using compat_less ok [OF that(2)] r by blast
    moreover have "\<not> ar_less (nrange (t ! i)) r"
      using that nth_length_takeWhile [of "\<lambda>n. ar_less (nrange n) r" t] by (simp add: i_def)
    moreover have "i = j \<or> ar_less (nrange (t ! i)) (nrange (t ! j))"
      using that compat_less [OF tree_ok_compat [OF t, of i j]] ok by fastforce
    ultimately show False using ar_less_trans by blast
  qed
  show "ar_less r (nrange (t ! i))" if "i < length t"
    using after [of i] that compat_less r ok by blast
  have "sorted_wrt (\<lambda>n n'. compat (nrange n) (nrange n')) t" "list_all (\<lambda>n. rng_ok (nrange n)) t"
    using t by (simp_all add: tree_ok_def)
  moreover have "compat (nrange x) r" if "x \<in> set (take i t)" for x
    using in_take_nth [OF that] before by blast
  moreover have "compat r (nrange x)" if "x \<in> set (drop i t)" for x
    using in_drop_nth [OF that] after by blast
  moreover have "compat (nrange x) (nrange y)" if "x \<in> set (take i t)" "y \<in> set (drop i t)" for x y
    using in_take_nth [OF that(1)] in_drop_nth [OF that(2)] tree_ok_compat [OF t] by (metis less_le_trans)
  ultimately show "tree_ok (take i t @ (f, r, d) # drop i t)"
    using r by (auto simp: tree_ok_def sorted_wrt_append list_all_iff sorted_wrt_take sorted_wrt_drop
        dest: in_set_takeD in_set_dropD)
qed

lemma rm_insert_ok:
  assumes ok: "rm_ok mx m" and r: "rng_ok r" and cl: "list_all (\<lambda>n. clear_of r (nrange n)) (rm_tree m)"
    and i: "rm_insert mx m r d = Inr (res, m')"
  shows "rm_ok mx m' \<and>
    (case res of
       None \<Rightarrow> rm_tree m' = rm_tree m \<and> (\<exists>n \<in> set (rm_tree m). intersects r (nrange n) = Inr True)
     | Some it \<Rightarrow> rm_deref (rm_tree m') it = Inr (it, r, d) \<and>
         snd ` set (rm_tree m') = insert (r, d) (snd ` set (rm_tree m)) \<and>
         (\<forall>a. value_at (rm_tree m') a = (if contains r a then Some d else value_at (rm_tree m) a)) \<and>
         (\<forall>a. contains r a \<longrightarrow> value_at (rm_tree m) a = None))"
proof -
  from i obtain q m1 where f: "rm_find mx (intersects r) m r = Inr (q, m1)"
    by (cases "rm_find mx (intersects r) m r") (auto simp: rm_insert_def rm_intersects_def)
  note g = rm_find_result [OF ok f]
  let ?t = "rm_tree m" and ?f = "rm_fresh m"
  define p where "p = length (takeWhile (\<lambda>n. ar_less (nrange n) r) ?t)"
  show ?thesis
  proof (cases q)
    case (Some x)
    with i f g show ?thesis by (auto simp: rm_insert_def rm_intersects_def search_result_def)
  next
    case None
    have t: "tree_ok ?t" using ok by (simp add: rm_ok_def)
    have c: "\<And>j. j < length ?t \<Longrightarrow> compat (nrange (?t ! j)) r \<or> compat r (nrange (?t ! j))"
      using g None by (intro insert_misses [OF t r cl]) (simp_all add: search_result_def)
    note pos = insert_position [OF t r c, folded p_def]
    define n where "n = (?f, r, d)"
    have "tree_insert m1 r d = (?f, m1\<lparr>rm_tree := take p ?t @ n # drop p ?t, rm_fresh := Suc ?f\<rparr>)"
      using g pos(1) by (auto simp: tree_insert_def Let_def p_def n_def)
    then have e: "res = Some ?f" "rm_tree m' = take p ?t @ n # drop p ?t" "rm_fresh m' = Suc ?f" "rm_cache m' = rm_cache m1"
      using i f None by (auto simp: rm_insert_def rm_intersects_def)
    have t': "tree_ok (rm_tree m')" using pos(2) e(2) by (simp add: n_def)
    have s: "set (rm_tree m') = insert n (set ?t)"
      by (simp add: e(2)) (metis Un_insert_right append_take_drop_id set_append)
    have mf: "map fst (rm_tree m') = take p (map fst ?t) @ ?f # drop p (map fst ?t)"
      by (simp add: e(2) take_map drop_map n_def)
    have "?f \<notin> set (map fst ?t)" using ok by (auto simp: rm_ok_def list_all_iff)
    moreover have "distinct (map fst ?t)" using ok by (simp add: rm_ok_def)
    ultimately have d': "distinct (map fst (rm_tree m'))"
      unfolding mf using set_take_disj_set_drop_if_distinct [of "map fst ?t" p p]
      by (auto dest: in_set_takeD in_set_dropD)
    have ok': "rm_ok mx m'"
      using ok g t' d' e s by (auto simp: rm_ok_def list_all_iff n_def)
    have at: "value_at (rm_tree m') a = (if contains r a then Some d else value_at ?t a)" for a
    proof (cases "contains r a")
      case True
      then show ?thesis using value_at_node [OF t', of n a] s by (simp add: n_def)
    next
      case False
      then show ?thesis unfolding value_at_def e(2) by (subst find_skip) (simp_all add: n_def)
    qed
    have free: "value_at ?t a = None" if "contains r a" for a
    proof (rule value_at_None)
      fix x assume "x \<in> set ?t"
      then obtain j where j: "j < length ?t" "x = ?t ! j" by (metis in_set_conv_nth)
      with c [OF j(1)] compat_disjoint r tree_ok_nth [OF t j(1)] that
      show "\<not> contains (nrange x) a" by blast
    qed
    have "rm_deref (rm_tree m') ?f = Inr (?f, r, d)" using rm_deref_node [OF d', of n] s by (simp add: n_def)
    moreover have "snd ` set (rm_tree m') = insert (r, d) (snd ` set ?t)" by (simp add: s n_def)
    ultimately show ?thesis using ok' at free e(1) by simp
  qed
qed

lemma rm_erase_ok:
  assumes "rm_ok mx m" "rm_erase m p = Inr m'"
  shows "rm_ok mx m'" "rm_tree m' = filter (\<lambda>n. fst n \<noteq> p) (rm_tree m)"
proof -
  have e: "m' = m\<lparr>rm_cache := removeAll p (rm_cache m), rm_tree := filter (\<lambda>n. fst n \<noteq> p) (rm_tree m)\<rparr>"
    using assms(2) by (cases "rm_deref (rm_tree m) p") (simp_all add: rm_erase_def Let_def)
  show "rm_tree m' = filter (\<lambda>n. fst n \<noteq> p) (rm_tree m)" by (simp add: e)
  have "set (removeAll p (rm_cache m)) \<subseteq> fst ` set (filter (\<lambda>n. fst n \<noteq> p) (rm_tree m))"
    using assms(1) by (auto simp: rm_ok_def)
  moreover have "length (removeAll p (rm_cache m)) \<le> mx"
    using assms(1) length_removeAll_less_eq [of p "rm_cache m"] unfolding rm_ok_def by (meson order.trans)
  moreover have "tree_ok (filter (\<lambda>n. fst n \<noteq> p) (rm_tree m))"
    using assms(1) by (auto simp: rm_ok_def tree_ok_def list_all_iff intro: sorted_wrt_filter)
  ultimately show "rm_ok mx m'"
    using assms(1) by (simp add: e rm_ok_def list_all_iff distinct_map_filter distinct_removeAll)
qed

lemma rm_erase_range_ok:
  assumes ok: "rm_ok mx m" and e: "rm_erase_range m p q = Inr m'"
    and fresh: "\<forall>i. p < i \<and> i < q \<longrightarrow> fst (rm_tree m ! i) \<notin> set (rm_cache m)"
  shows "rm_ok mx m'" "rm_tree m' = take p (rm_tree m) @ drop q (rm_tree m)"
proof -
  let ?t = "rm_tree m" and ?t' = "take p (rm_tree m) @ drop q (rm_tree m)"
  let ?c = "if p = q then rm_cache m else removeAll (fst (?t ! p)) (rm_cache m)"
  have pq: "p \<le> q" "q \<le> length ?t" and m': "m' = m\<lparr>rm_cache := ?c, rm_tree := ?t'\<rparr>"
    using e by (simp_all add: rm_erase_range_def check_def split: if_splits)
  then show "rm_tree m' = ?t'" by simp
  have t: "tree_ok ?t" "distinct (map fst ?t)" "distinct (rm_cache m)" "set (rm_cache m) \<subseteq> fst ` set ?t" "length (rm_cache m) \<le> mx"
    "list_all (\<lambda>n. fst n < rm_fresh m) ?t"
    using ok by (simp_all add: rm_ok_def)
  have sub: "set ?t' \<subseteq> set ?t" by (auto dest: in_set_takeD in_set_dropD)
  have mid: "?t = take p ?t @ take (q - p) (drop p ?t) @ drop q ?t" using pq by (metis append_take_drop_id drop_drop le_add_diff_inverse2)
  have "set ?c \<subseteq> fst ` set ?t'"
  proof
    fix it assume it: "it \<in> set ?c"
    then have "it \<in> set (rm_cache m)" by (auto split: if_splits)
    then obtain i where i: "i < length ?t" "it = fst (?t ! i)" using t(4) by (force simp: in_set_conv_nth)
    have "\<not> (p \<le> i \<and> i < q)"
    proof
      assume "p \<le> i \<and> i < q"
      moreover have "i \<noteq> p" using it i calculation by (auto split: if_splits)
      ultimately show False using fresh \<open>it \<in> set (rm_cache m)\<close> i(2) by auto
    qed
    then consider "i < p" | "q \<le> i" by linarith
    then have "?t ! i \<in> set ?t'"
    proof cases
      case 1
      then have "take p ?t ! i \<in> set (take p ?t)" using i(1) by (intro nth_mem) simp
      then show ?thesis using 1 by simp
    next
      case 2
      then have "drop q ?t ! (i - q) \<in> set (drop q ?t)" using i(1) by (intro nth_mem) simp
      then show ?thesis using 2 pq(2) by simp
    qed
    then show "it \<in> fst ` set ?t'" using i(2) by blast
  qed
  moreover have "distinct (map fst ?t')" using t(2) by (subst (asm) mid) auto
  moreover have "tree_ok ?t'" using t(1) sub by (subst (asm) (1) mid) (auto simp: tree_ok_def sorted_wrt_append list_all_iff)
  moreover have "length ?c \<le> mx" using order.trans [OF length_removeAll_less_eq t(5)] t(5) by simp
  ultimately show "rm_ok mx m'" using t sub by (auto simp: m' rm_ok_def list_all_iff distinct_removeAll)
qed

text \<open>A range without interleaving is always accepted or refused when the others have none.\<close>

lemma rm_insert_plain:
  assumes "rm_ok mx m" "\<not> interleaved r" "list_all (\<lambda>n. \<not> interleaved (nrange n)) (rm_tree m)"
  shows "\<exists>res m'. rm_insert mx m r d = Inr (res, m')"
proof -
  have "\<exists>b. intersects r (nrange n) = Inr b" if "n \<in> set (rm_tree m)" for n
    using assms(2,3) that by (auto simp: intersects_def list_all_iff)
  then obtain q m1 where "rm_intersects mx m r = Inr (q, m1)"
    using rm_find_total [OF assms(1), of "intersects r" r] unfolding rm_intersects_def by blast
  then show ?thesis by (cases q) (auto simp: rm_insert_def split: prod.split)
qed

section \<open>Histories\<close>

text \<open>
  Any sequence of the operations, with two exceptions that are shown below to break the map:
  an interleaved range is not added over a plain range of one byte, and \<^verbatim>\<open>erase(p, q)\<close> is not
  called while the cache holds one of the entries it erases after the first.
\<close>

inductive rm_reach :: "nat \<Rightarrow> 'v range_map \<Rightarrow> bool" for mx where
  empty: "rm_reach mx rm_empty"
| insert: "rm_reach mx m \<Longrightarrow> rng_ok r \<Longrightarrow> list_all (\<lambda>n. clear_of r (nrange n)) (rm_tree m) \<Longrightarrow> rm_insert mx m r d = Inr (res, m') \<Longrightarrow> rm_reach mx m'"
| erase: "rm_reach mx m \<Longrightarrow> rm_erase m it = Inr m' \<Longrightarrow> rm_reach mx m'"
| erase_range: "rm_reach mx m \<Longrightarrow> rm_erase_range m p q = Inr m' \<Longrightarrow>
    \<forall>i. p < i \<and> i < q \<longrightarrow> fst (rm_tree m ! i) \<notin> set (rm_cache m) \<Longrightarrow> rm_reach mx m'"
| clear: "rm_reach mx m \<Longrightarrow> rm_reach mx (rm_clear m)"
| lookup: "rm_reach mx m \<Longrightarrow> rm_contains mx m r = Inr (res, m') \<Longrightarrow> rm_reach mx m'"
| overlap: "rm_reach mx m \<Longrightarrow> rm_intersects mx m r = Inr (res, m') \<Longrightarrow> rm_reach mx m'"

lemma rm_reach_ok: "rm_reach mx m \<Longrightarrow> rm_ok mx m"
proof (induction rule: rm_reach.induct)
  case empty
  then show ?case by (simp add: rm_ok_def rm_empty_def tree_ok_def)
next
  case (insert m r d res m')
  from rm_insert_ok [OF insert.IH insert.hyps(2-4)] show ?case ..
next
  case (erase m it m')
  show ?case by (rule rm_erase_ok(1) [OF erase.IH erase.hyps(2)])
next
  case (erase_range m p q m')
  show ?case by (rule rm_erase_range_ok(1) [OF erase_range.IH erase_range.hyps(2,3)])
next
  case (clear m)
  then show ?case by (simp add: rm_ok_def rm_clear_def tree_ok_def)
next
  case (lookup m r res m')
  from rm_find_result [OF lookup.IH lookup.hyps(2) [unfolded rm_contains_def]] show ?case ..
next
  case (overlap m r res m')
  from rm_find_result [OF overlap.IH overlap.hyps(2) [unfolded rm_intersects_def]] show ?case ..
qed

section \<open>Entries\<close>

definition rm_entries :: "'v range_map \<Rightarrow> (addr_range \<times> 'v) set" where
  "rm_entries m = snd ` set (rm_tree m)"

text \<open>Addresses of a list of ranges, and lists of interleaved ranges that belong together.\<close>

definition covers :: "addr_range list \<Rightarrow> addr \<Rightarrow> bool" where
  "covers rs a \<longleftrightarrow> (\<exists>r \<in> set rs. contains r a)"

lemma covers_simps [simp]:
  "covers [] a = False" "covers (r # rs) a \<longleftrightarrow> contains r a \<or> covers rs a"
  "covers (rs @ rs') a \<longleftrightarrow> covers rs a \<or> covers rs' a"
  by (auto simp: covers_def)

definition siblings :: "addr_range list \<Rightarrow> bool" where
  "siblings rs \<longleftrightarrow> list_all rng_ok rs \<and> list_all (mergesWith (hd rs)) rs"

lemma siblings_single: "rng_ok r \<Longrightarrow> siblings [r]"
  by (simp add: siblings_def mergesWith_def)

lemma siblings_snoc:
  assumes "siblings rs" "rs = [] \<or> mergesWith (last rs) r" "rng_ok r"
  shows "siblings (rs @ [r])"
proof (cases "rs = []")
  case False
  with assms(1) have "mergesWith (hd rs) (last rs)" by (simp add: siblings_def list_all_iff)
  moreover have "mergesWith (last rs) r" using assms(2) False by simp
  ultimately have "mergesWith (hd rs) r" by (simp add: mergesWith_def)
  with assms(1,3) False show ?thesis by (simp add: siblings_def)
qed (use assms(3) in \<open>simp add: siblings_single\<close>)

lemma merge_covers:
  assumes "AddrRange_merge rs = Inr t" "siblings rs" "rs \<noteq> []"
  shows "contains t a \<longleftrightarrow> covers rs a" "ar_start t < ar_end t"
proof -
  obtain r rs' where rs: "rs = r # rs'" using assms(3) by (cases rs) auto
  have "contains t a = covers rs a \<and> ar_start t < ar_end t"
  proof (cases "length rs > 1")
    case False
    with assms(1) rs have "t = r" "rs = [r]" by (auto simp: AddrRange_merge_def)
    with assms(2) show ?thesis by (simp add: siblings_def rng_ok_def)
  next
    case True
    have m8: "\<forall>r \<in> set rs. length (masks r) \<le> 8"
      using assms(2) by (auto simp: siblings_def list_all_iff rng_ok_def ar_wf_def)
    obtain i where i: "i < length rs" "\<And>j. j < length rs \<Longrightarrow> contains (rs ! j) a \<longleftrightarrow> contains t a \<and> j = i"
      using merge_members [OF assms(1) True m8] by blast
    have "covers rs a \<longleftrightarrow> (\<exists>j < length rs. contains (rs ! j) a)" by (metis covers_def in_set_conv_nth)
    moreover have "ar_start t < ar_end t"
      using AddrRange_merge_shape [OF assms(1) True] assms(2) rs by (auto simp: siblings_def rng_ok_def)
    ultimately show ?thesis using i by blast
  qed
  then show "contains t a \<longleftrightarrow> covers rs a" "ar_start t < ar_end t" by simp_all
qed


section \<open>The interface of a range store\<close>

text \<open>
  What the users of the map build on it: an operation that adds a range or stops the simulation.
  Adding a list of ranges then adds exactly these entries, and no address lies in two of them.
\<close>

abbreviation apart :: "addr_range \<Rightarrow> addr_range \<Rightarrow> bool" where
  "apart k l \<equiv> \<forall>a. contains k a \<longrightarrow> \<not> contains l a"

lemma rm_insert_entries:
  assumes "rm_ok mx m" "rng_ok r" "\<forall>x \<in> rm_entries m. clear_of r (fst x)" "rm_insert mx m r d = Inr (Some it, m')"
  shows "rm_ok mx m' \<and> rm_entries m' = insert (r, d) (rm_entries m) \<and> (\<forall>x \<in> rm_entries m. apart (fst x) r)"
proof -
  have "list_all (\<lambda>n. clear_of r (nrange n)) (rm_tree m)" using assms(3) by (auto simp: rm_entries_def list_all_iff)
  note ok = rm_insert_ok [OF assms(1,2) this assms(4), simplified]
  have "apart (nrange n) r" if n: "n \<in> set (rm_tree m)" for n
    using value_at_node [OF _ n] ok assms(1) by (auto simp: rm_ok_def)
  with ok show ?thesis by (auto simp: rm_entries_def)
qed

locale range_store =
  fixes inv :: "'s \<Rightarrow> bool"
    and entries :: "'s \<Rightarrow> (addr_range \<times> 'v) set"
    and add :: "'s \<Rightarrow> addr_range \<times> 'v \<Rightarrow> 's outcome"
  assumes add_law: "inv s \<Longrightarrow> rng_ok r \<Longrightarrow> \<forall>x \<in> entries s. clear_of r (fst x) \<Longrightarrow> add s (r, d) = Inr s' \<Longrightarrow>
      inv s' \<and> entries s' = insert (r, d) (entries s) \<and> (\<forall>x \<in> entries s. apart (fst x) r)"
begin

lemma add_all:
  "ofold add s xs = Inr s' \<Longrightarrow> inv s \<Longrightarrow> list_all (\<lambda>x. rng_ok (fst x)) xs \<Longrightarrow>
   \<forall>x \<in> set xs. \<forall>y \<in> entries s \<union> set xs. clear_of (fst x) (fst y) \<Longrightarrow>
   inv s' \<and> entries s' = entries s \<union> set xs \<and> sorted_wrt (\<lambda>x y. apart (fst x) (fst y)) xs \<and>
   (\<forall>x \<in> entries s. \<forall>y \<in> set xs. apart (fst x) (fst y))"
proof (induction xs arbitrary: s)
  case (Cons x xs)
  obtain r d where x: "x = (r, d)" by force
  from Cons(2) obtain s1 where s1: "add s (r, d) = Inr s1" "ofold add s1 xs = Inr s'"
    by (auto simp: x)
  have r: "rng_ok r" "list_all (\<lambda>x. rng_ok (fst x)) xs" using Cons(4) by (simp_all add: x)
  have "\<forall>y \<in> entries s. clear_of r (fst y)" using Cons(5) by (auto simp: x)
  note law = add_law [OF Cons(3) r(1) this s1(1)]
  have e: "entries s1 = insert x (entries s)" using law by (simp add: x)
  have "\<forall>z \<in> set xs. \<forall>y \<in> entries s1 \<union> set xs. clear_of (fst z) (fst y)" using Cons(5) by (auto simp: e)
  note ih = Cons(1) [OF s1(2) conjunct1 [OF law] r(2) this]
  from ih law show ?case unfolding e by (simp add: x)
qed simp

end

section \<open>Properties\<close>

text \<open>Two channels of an interleaved memory and a device window above them, for the examples.\<close>

definition chan2 :: "u8 \<Rightarrow> addr_range" where
  "chan2 k = \<lparr>ar_start = 0, ar_end = 0x1000, masks = [0x40], intlvMatch = k\<rparr>"

definition demo_map :: "nat range_map" where
  "demo_map = \<lparr>rm_tree = [(0, chan2 0, 10), (1, chan2 1, 11)], rm_cache = [], rm_fresh = 2\<rparr>"

text \<open>
  C5. Looking up an address in an \<^verbatim>\<open>AddrRangeMap\<close> never aborts, leaves the entries alone, and
  finds the entry whose range contains the address exactly when there is one, be the ranges
  plain or the interleaved channels of a memory, and whatever the cache of recent entries holds.
  This holds after every sequence of insertions, erasures, clearings and lookups, provided that
  inserted ranges are well formed, no interleaved range was inserted over an entry of one byte
  (\<open>clear_of\<close>), and no \<^verbatim>\<open>erase(p, q)\<close> happened while an entry it erased, other than the first,
  was cached (\<open>rm_reach\<close>). The last address of the space is excluded: the range asked for wraps.
\<close>

theorem range_map_lookup_exact:
  assumes "rm_reach mx m" "a \<noteq> - 1"
  shows "\<exists>res m'. rm_contains_addr mx m a = Inr (res, m') \<and> rm_reach mx m' \<and> rm_tree m' = rm_tree m \<and>
    length (rm_cache m') \<le> mx \<and>
    (case res of None \<Rightarrow> value_at (rm_tree m) a = None
     | Some it \<Rightarrow> \<exists>n. rm_deref (rm_tree m) it = Inr n \<and> contains (nrange n) a \<and>
         value_at (rm_tree m) a = Some (nvalue n))"
proof (rule rm_contains_addr_result [OF rm_reach_ok [OF assms(1)] assms(2)])
  fix res m'
  assume c: "rm_contains_addr mx m a = Inr (res, m')" "rm_ok mx m'" "rm_tree m' = rm_tree m"
    "case res of None \<Rightarrow> value_at (rm_tree m) a = None
     | Some it \<Rightarrow> \<exists>n. rm_deref (rm_tree m) it = Inr n \<and> contains (nrange n) a \<and>
         value_at (rm_tree m) a = Some (nvalue n)"
  have "rm_reach mx m'" using c(1) unfolding rm_contains_addr_def by (rule rm_reach.lookup [OF assms(1)])
  moreover have "length (rm_cache m') \<le> mx" using c(2) by (simp add: rm_ok_def)
  ultimately show ?thesis using c(1,3,4) by blast
qed

theorem range_map_lookup_exact_witness:
  "(0x7f3 :: addr) \<noteq> - 1 \<and> rm_reach 3 demo_map \<and>
   (\<exists>res m'. rm_contains_addr 3 demo_map 0x7f3 = Inr (res, m') \<and> rm_reach 3 m')"
proof -
  let ?m = "\<lparr>rm_tree = [(0, chan2 0, 10 :: nat)], rm_cache = [], rm_fresh = 1\<rparr>"
  have "rm_insert 3 rm_empty (chan2 0) (10 :: nat) = Inr (Some 0, ?m)"
    "rm_insert 3 ?m (chan2 1) 11 = Inr (Some 1, demo_map)" by code_simp+
  moreover have "rng_ok (chan2 0)" "rng_ok (chan2 1)" by code_simp+
  moreover have "list_all (\<lambda>n. clear_of (chan2 0) (nrange n)) (rm_tree rm_empty)" "list_all (\<lambda>n. clear_of (chan2 1) (nrange n)) (rm_tree ?m)"
    by code_simp+
  ultimately have "rm_reach 3 demo_map" by (metis rm_reach.empty rm_reach.insert)
  moreover have "(0x7f3 :: addr) \<noteq> - 1" by simp
  ultimately show ?thesis using range_map_lookup_exact [of 3 demo_map "0x7f3"] by blast
qed

text \<open>
  C27. \<^verbatim>\<open>AddrRangeMap::insert\<close>, for a map with a history as in the lookup and a well formed range
  that is not an interleaved one over an entry of one byte. An insertion that returns either
  refuses the range, changes no entry and some entry intersects it, or adds exactly the new entry:
  the addresses of the range get the new value, had none before, and every other address keeps
  its own. Among plain ranges, of one byte or more, it always returns.
\<close>

theorem range_map_insert:
  assumes "rm_reach mx m" "rng_ok r" "list_all (\<lambda>n. clear_of r (nrange n)) (rm_tree m)"
  shows "(\<forall>res m'. rm_insert mx m r d = Inr (res, m') \<longrightarrow> rm_reach mx m' \<and>
      (case res of
         None \<Rightarrow> rm_tree m' = rm_tree m \<and> (\<exists>n \<in> set (rm_tree m). intersects r (nrange n) = Inr True)
       | Some it \<Rightarrow> rm_deref (rm_tree m') it = Inr (it, r, d) \<and>
           snd ` set (rm_tree m') = insert (r, d) (snd ` set (rm_tree m)) \<and>
           (\<forall>a. value_at (rm_tree m') a = (if contains r a then Some d else value_at (rm_tree m) a)) \<and>
           (\<forall>a. contains r a \<longrightarrow> value_at (rm_tree m) a = None))) \<and>
    (\<not> interleaved r \<and> list_all (\<lambda>n. \<not> interleaved (nrange n)) (rm_tree m) \<longrightarrow>
      (\<exists>res m'. rm_insert mx m r d = Inr (res, m')))"
  using rm_insert_ok [OF rm_reach_ok [OF assms(1)] assms(2,3)] rm_reach.insert [OF assms]
    rm_insert_plain [OF rm_reach_ok [OF assms(1)]] by blast

text \<open>A device of one byte next to a memory, and a range that is refused.\<close>

theorem range_map_insert_witness:
  "\<exists>m m'. rm_reach 3 m \<and> snd ` set (rm_tree m) = {(RangeSize 0x60 1, 5 :: nat)} \<and>
     rm_insert 3 m (AddrRange_plain 0x1000 0x2000) 7 = Inr (Some 1, m') \<and>
     rm_reach 3 m' \<and> value_at (rm_tree m') 0x1004 = Some 7 \<and> value_at (rm_tree m') 0x60 = Some 5"
proof -
  let ?m = "\<lparr>rm_tree = [(0, RangeSize 0x60 1, 5 :: nat)], rm_cache = [], rm_fresh = 1\<rparr>"
  let ?r = "AddrRange_plain 0x1000 0x2000"
  have byte: "rng_ok (RangeSize 0x60 1)" "list_all (\<lambda>n. clear_of (RangeSize 0x60 1) (nrange n)) (rm_tree (rm_empty :: nat range_map))"
    "rm_insert 3 rm_empty (RangeSize 0x60 1) (5 :: nat) = Inr (Some 0, ?m)" by code_simp+
  have m: "rm_reach 3 ?m" by (rule rm_reach.insert [OF rm_reach.empty byte])
  have r: "rng_ok ?r" "list_all (\<lambda>n. clear_of ?r (nrange n)) (rm_tree ?m)" by code_simp+
  have i: "rm_insert 3 ?m ?r 7 = Inr (Some 1, \<lparr>rm_tree = [(0, RangeSize 0x60 1, 5), (1, ?r, 7)], rm_cache = [], rm_fresh = 2\<rparr>)"
    (is "_ = Inr (_, ?m')") by code_simp
  have a: "contains ?r 0x1004" "\<not> contains ?r 0x60" "value_at (rm_tree ?m) 0x60 = Some 5" by code_simp+
  have "rm_reach 3 ?m' \<and> (\<forall>a. value_at (rm_tree ?m') a = (if contains ?r a then Some 7 else value_at (rm_tree ?m) a))"
    using range_map_insert [OF m r, of 7] i by auto
  then have p: "rm_reach 3 ?m'" "value_at (rm_tree ?m') 0x1004 = Some 7" "value_at (rm_tree ?m') 0x60 = Some 5"
    using a by (simp_all only: if_True if_False)
  show ?thesis
  proof (intro exI conjI)
    show "snd ` set (rm_tree ?m) = {(RangeSize 0x60 1, 5)}" by simp
  qed (rule m i p)+
qed

text \<open>
  What the condition on single bytes is about. The map accepts a channel of an interleaved memory
  over a device of one byte that lies in the other channel; the device then hides the channel:
  an address of the channel above the device is not found.
\<close>

lemma byte_hides_channel:
  "\<exists>m m'. rm_insert 3 rm_empty (RangeSize 0x40 1) (5 :: nat) = Inr (Some 0, m) \<and>
     rm_insert 3 m (chan2 0) 10 = Inr (Some 1, m') \<and> contains (chan2 0) 0x80 \<and> value_at (rm_tree m') 0x80 = Some 10 \<and>
     rm_contains_addr 3 m' 0x80 = Inr (None, m')"
proof -
  let ?m = "\<lparr>rm_tree = [(0, RangeSize 0x40 1, 5 :: nat)], rm_cache = [], rm_fresh = 1\<rparr>"
  let ?m' = "\<lparr>rm_tree = [(1, chan2 0, 10), (0, RangeSize 0x40 1, 5 :: nat)], rm_cache = [], rm_fresh = 2\<rparr>"
  have "rm_insert 3 rm_empty (RangeSize 0x40 1) (5 :: nat) = Inr (Some 0, ?m)" "rm_insert 3 ?m (chan2 0) 10 = Inr (Some 1, ?m')"
    "contains (chan2 0) 0x80" "value_at (rm_tree ?m') 0x80 = Some 10" "rm_contains_addr 3 ?m' 0x80 = Inr (None, ?m')" by code_simp+
  then show ?thesis by blast
qed

text \<open>
  C39. \<^verbatim>\<open>AddrRangeMap::erase(p, q)\<close> leaves iterators of erased entries in the cache: its loop
  removes the iterator \<open>p\<close> each time around instead of the one it stands on. A lookup that
  follows dereferences an erased entry.
\<close>

theorem erase_range_dangles:
  "\<exists>m m'. rm_reach 3 (m :: nat range_map) \<and> rm_erase_range m 0 2 = Inr m' \<and> rm_tree m' = [] \<and>
     rm_contains_addr 3 m' 0x40 = Inl Undefined"
proof -
  let ?m = "\<lparr>rm_tree = [(0, chan2 0, 10 :: nat)], rm_cache = [], rm_fresh = 1\<rparr>"
  let ?c = "demo_map\<lparr>rm_cache := [1]\<rparr>"
  have "rm_insert 3 rm_empty (chan2 0) (10 :: nat) = Inr (Some 0, ?m)"
    "rm_insert 3 ?m (chan2 1) 11 = Inr (Some 1, demo_map)"
    "rm_contains 3 demo_map (RangeSize 0x40 1) = Inr (Some 1, ?c)" by code_simp+
  moreover have "rng_ok (chan2 0)" "rng_ok (chan2 1)" by code_simp+
  moreover have "list_all (\<lambda>n. clear_of (chan2 0) (nrange n)) (rm_tree rm_empty)" "list_all (\<lambda>n. clear_of (chan2 1) (nrange n)) (rm_tree ?m)"
    by code_simp+
  ultimately have "rm_reach 3 ?c" by (metis rm_reach.empty rm_reach.insert rm_reach.lookup)
  moreover have "rm_erase_range ?c 0 2 = Inr \<lparr>rm_tree = [], rm_cache = [1], rm_fresh = 2\<rparr>" by code_simp
  moreover have "rm_contains_addr 3 \<lparr>rm_tree = [] :: nat rnode list, rm_cache = [1], rm_fresh = 2\<rparr> 0x40 = Inl Undefined"
    by code_simp
  ultimately show ?thesis by (metis range_map.select_convs(1))
qed

end
