(* ===== verification/ClockDomain.thy ===== *)
theory ClockDomain
  imports Intmath
begin

text \<open>
  Clocked objects and clock domains, \<^verbatim>\<open>sim/clocked_object.hh\<close>, \<^verbatim>\<open>sim/clock_domain.hh\<close> and
  \<^verbatim>\<open>sim/clock_domain.cc\<close>. A clocked object caches its next clock edge and the number of that
  cycle. A domain is a node of the tree of domains with the objects registered in it. The
  current tick is an argument of every operation; the period of a clocked object is its
  domain's. Voltages are not modelled: \<^verbatim>\<open>VoltageDomain::sanitiseVoltages\<close> does not touch a
  clock. The virtual hook \<^verbatim>\<open>clockPeriodUpdated\<close>, which a clocked object may override and which does
  nothing otherwise, is left out.
\<close>

section \<open>Clocked objects\<close>

record clocked =
  clk_tick :: tick
  clk_cycle :: u64

definition Clocked :: clocked where
  "Clocked = \<lparr>clk_tick = 0, clk_cycle = 0\<rparr>"

definition clk_update :: "tick \<Rightarrow> tick \<Rightarrow> clocked \<Rightarrow> clocked outcome" where
  "clk_update period now c =
     (if clk_tick c \<ge> now then Inr c
      else let c = \<lparr>clk_tick = clk_tick c + period, clk_cycle = clk_cycle c + 1\<rparr>
           in if clk_tick c \<ge> now then Inr c
              else obind (divCeil (now - clk_tick c) period) (\<lambda>elapsedCycles.
                Inr \<lparr>clk_tick = clk_tick c + elapsedCycles * period,
                     clk_cycle = clk_cycle c + elapsedCycles\<rparr>))"

definition resetClock :: "tick \<Rightarrow> tick \<Rightarrow> clocked \<Rightarrow> clocked outcome" where
  "resetClock period now c =
     obind (divCeil now period) (\<lambda>elapsedCycles.
       Inr (c\<lparr>clk_cycle := elapsedCycles, clk_tick := elapsedCycles * period\<rparr>))"

definition clockEdge :: "tick \<Rightarrow> tick \<Rightarrow> clocked \<Rightarrow> u64 \<Rightarrow> (tick \<times> clocked) outcome" where
  "clockEdge period now c cycles =
     obind (clk_update period now c) (\<lambda>c. Inr (clk_tick c + period * cycles, c))"

definition curCycle :: "tick \<Rightarrow> tick \<Rightarrow> clocked \<Rightarrow> (u64 \<times> clocked) outcome" where
  "curCycle period now c = obind (clk_update period now c) (\<lambda>c. Inr (clk_cycle c, c))"

definition nextCycle :: "tick \<Rightarrow> tick \<Rightarrow> clocked \<Rightarrow> (tick \<times> clocked) outcome" where
  "nextCycle period now c = clockEdge period now c 1"

definition ticksToCycles :: "tick \<Rightarrow> tick \<Rightarrow> u64 outcome" where
  "ticksToCycles period t = divCeil t period"

definition cyclesToTicks :: "tick \<Rightarrow> u64 \<Rightarrow> tick" where
  "cyclesToTicks period c = period * c"

text \<open>Subtraction of cycles throws when the result would be negative.\<close>

definition Cycles_minus :: "u64 \<Rightarrow> u64 \<Rightarrow> u64 outcome" where
  "Cycles_minus a b = check (a \<ge> b) Exception (Inr (a - b))"

section \<open>Clock domains\<close>

fun omap :: "('a \<Rightarrow> 'b outcome) \<Rightarrow> 'a list \<Rightarrow> 'b list outcome" where
  "omap f [] = Inr []"
| "omap f (x # xs) = obind (f x) (\<lambda>y. obind (omap f xs) (\<lambda>ys. Inr (y # ys)))"

lemma omap_cong [fundef_cong]:
  "xs = ys \<Longrightarrow> (\<And>x. x \<in> set ys \<Longrightarrow> f x = g x) \<Longrightarrow> omap f xs = omap g ys"
  by (induction ys arbitrary: xs) auto

datatype clk_domain =
  ClkDomain (clockDivider: u64) (clockPeriod: tick) (members: "clocked list") (children: "clk_domain list")

fun updateClockPeriod :: "tick \<Rightarrow> tick \<Rightarrow> clk_domain \<Rightarrow> clk_domain outcome" where
  "updateClockPeriod now parent (ClkDomain d p ms cs) =
     obind (omap (clk_update p now) ms) (\<lambda>ms.
       let p = parent * d
       in obind (omap (updateClockPeriod now p) cs) (\<lambda>cs. Inr (ClkDomain d p ms cs)))"

definition DerivedClockDomain :: "tick \<Rightarrow> tick \<Rightarrow> u64 \<Rightarrow> clk_domain outcome" where
  "DerivedClockDomain now parent d =
     check (d \<ge> 1) Fatal (updateClockPeriod now parent (ClkDomain d 0 [] []))"

definition registerWithClockDomain :: "clk_domain \<Rightarrow> clocked \<Rightarrow> clk_domain" where
  "registerWithClockDomain cd c =
     ClkDomain (clockDivider cd) (clockPeriod cd) (members cd @ [c]) (children cd)"

definition addDerivedDomain :: "clk_domain \<Rightarrow> clk_domain \<Rightarrow> clk_domain" where
  "addDerivedDomain cd c =
     ClkDomain (clockDivider cd) (clockPeriod cd) (members cd) (children cd @ [c])"

text \<open>A source domain is a tree whose root has divider one.\<close>

record src_domain =
  src_dom :: clk_domain
  freqOpPoints :: "tick list"
  perf_level :: u32

definition set_clockPeriod :: "tick \<Rightarrow> tick \<Rightarrow> clk_domain \<Rightarrow> clk_domain outcome" where
  "set_clockPeriod now p cd =
     check (p \<noteq> 0) Fatal
       (obind (omap (clk_update (clockPeriod cd) now) (members cd)) (\<lambda>ms.
         obind (omap (updateClockPeriod now p) (children cd)) (\<lambda>cs.
           Inr (ClkDomain (clockDivider cd) p ms cs))))"

definition validPerfLevel :: "src_domain \<Rightarrow> u32 \<Rightarrow> bool" where
  "validPerfLevel s l \<longleftrightarrow> unat l < length (freqOpPoints s)"

definition signalPerfLevelUpdate :: "tick \<Rightarrow> src_domain \<Rightarrow> src_domain outcome" where
  "signalPerfLevelUpdate now s =
     check (unat (perf_level s) < length (freqOpPoints s)) Undefined
       (obind (set_clockPeriod now (freqOpPoints s ! unat (perf_level s)) (src_dom s)) (\<lambda>d.
         Inr (s\<lparr>src_dom := d\<rparr>)))"

definition set_perfLevel :: "tick \<Rightarrow> src_domain \<Rightarrow> u32 \<Rightarrow> src_domain outcome" where
  "set_perfLevel now s l =
     check (validPerfLevel s l) Assert_Failed
       (if l = perf_level s then Inr s else signalPerfLevelUpdate now (s\<lparr>perf_level := l\<rparr>))"

text \<open>
  The constructor; \<open>voltages\<close> is the number of voltages of the voltage domain it is given,
  \<^term>\<open>None\<close> when there is none.
\<close>

definition SrcClockDomain :: "tick \<Rightarrow> tick list \<Rightarrow> u32 \<Rightarrow> nat option \<Rightarrow> src_domain outcome" where
  "SrcClockDomain now freqs level voltages =
     check (freqs \<noteq> []) Fatal
      (case voltages of None \<Rightarrow> Inl Fatal
       | Some v \<Rightarrow>
         check (\<not> (v > 1 \<and> v \<noteq> length freqs)) Fatal
          (check (sorted freqs) Fatal
            (check (unat level < length freqs) Fatal
              (obind (set_clockPeriod now (freqs ! unat level) (ClkDomain 1 0 [] [])) (\<lambda>d.
                Inr \<lparr>src_dom = d, freqOpPoints = freqs, perf_level = level\<rparr>)))))"

section \<open>Edges\<close>

text \<open>The clock of \<open>c'\<close> is the clock of \<open>c\<close>, advanced to the first edge not before \<open>now\<close>.\<close>

definition advanced :: "tick \<Rightarrow> tick \<Rightarrow> clocked \<Rightarrow> clocked \<Rightarrow> bool" where
  "advanced period now c c' \<longleftrightarrow>
     now \<le> clk_tick c' \<and>
     (\<exists>k. unat (clk_tick c') = unat (clk_tick c) + k * unat period \<and>
          clk_cycle c' = clk_cycle c + of_nat k \<and>
          (k \<noteq> 0 \<longrightarrow> unat (clk_tick c) + (k - 1) * unat period < unat now))"

definition in_time :: "tick \<Rightarrow> tick \<Rightarrow> clocked \<Rightarrow> bool" where
  "in_time period now c \<longleftrightarrow> clk_tick c \<ge> now \<or> period \<noteq> 0 \<and> unat now + unat period < 2 ^ 64"

lemma of_nat_unat64: "of_nat (unat w) = (w :: u64)"
  by simp

lemma unat_of_nat64: "n < 2 ^ 64 \<Longrightarrow> unat (of_nat n :: u64) = n"
  by (simp add: unat_of_nat take_bit_eq_mod)

lemma divCeil_nat:
  assumes "b \<noteq> 0" "unat a + unat b < 2 ^ 64"
  shows "divCeil a b = Inr (of_nat ((unat a + unat b - 1) div unat b))"
proof -
  have b: "unat b > 0" using assms(1) by (simp add: unat_gt_0)
  have ab: "unat (a + b) = unat a + unat b" using assms(2) by (intro unat_add_lem [THEN iffD1]) simp
  then have "a + b \<noteq> 0" using b by (metis add_is_0 less_numeral_extra(3) unat_0)
  then have "unat (a + b - 1) = unat a + unat b - 1" by (simp add: unat_minus_one ab)
  then have "unat ((a + b - 1) div b) = (unat a + unat b - 1) div unat b" by (simp add: unat_div)
  then have "(a + b - 1) div b = of_nat ((unat a + unat b - 1) div unat b)" by (metis of_nat_unat64)
  with assms(1) show ?thesis by (simp add: divCeil_def)
qed

lemma ceil_bounds:
  fixes a b :: nat
  assumes "0 < b" "0 < a"
  shows "a \<le> (a + b - 1) div b * b" "(a + b - 1) div b * b < a + b" "0 < (a + b - 1) div b"
proof -
  have e: "(a + b - 1) div b * b + (a + b - 1) mod b = a + b - 1" by simp
  have "(a + b - 1) mod b < b" using assms(1) by simp
  with e assms show "a \<le> (a + b - 1) div b * b" "(a + b - 1) div b * b < a + b" by linarith+
  then show "0 < (a + b - 1) div b" using assms(2) by (metis mult_0 not_gr_zero leD)
qed

lemma clk_update_advanced:
  assumes "in_time period now c"
  shows "\<exists>c'. clk_update period now c = Inr c' \<and> advanced period now c c'"
proof (cases "clk_tick c \<ge> now")
  case True
  then show ?thesis by (auto simp: clk_update_def advanced_def intro: exI [of _ "0::nat"])
next
  case False
  with assms have p: "period \<noteq> 0" "unat now + unat period < 2 ^ 64" by (auto simp: in_time_def)
  have p0: "0 < unat period" using p(1) by (simp add: unat_gt_0)
  let ?t = "clk_tick c + period"
  have lt: "unat (clk_tick c) < unat now" using False by (simp add: word_less_nat_alt not_le)
  have t: "unat ?t = unat (clk_tick c) + unat period" using p lt by (intro unat_add_lem [THEN iffD1]) simp
  show ?thesis
  proof (cases "?t \<ge> now")
    case True
    then show ?thesis using False lt t by (auto simp: clk_update_def advanced_def intro!: exI [of _ "1::nat"])
  next
    case late: False
    let ?a = "unat now - unat ?t"
    let ?k = "(?a + unat period - 1) div unat period"
    have a: "unat (now - ?t) = ?a" "0 < ?a"
      using late by (simp_all add: unat_sub word_le_nat_alt word_less_nat_alt not_le)
    have dc: "divCeil (now - ?t) period = Inr (of_nat ?k)"
      using divCeil_nat [OF p(1), of "now - ?t"] a p(2) by simp
    note cb = ceil_bounds [OF p0 a(2)]
    let ?u = "unat ?t + ?k * unat period"
    have u: "?u < 2 ^ 64" "unat now \<le> ?u" using cb(1,2) a(2) p(2) by linarith+
    have "?t + of_nat ?k * period = (of_nat ?u :: u64)" by (simp only: of_nat_add of_nat_mult of_nat_unat64)
    moreover have "unat (of_nat ?u :: u64) = ?u" using u(1) by (rule unat_of_nat64)
    ultimately have e: "unat (?t + of_nat ?k * period) = ?u" by (simp only:)
    define c' where "c' = \<lparr>clk_tick = ?t + of_nat ?k * period, clk_cycle = clk_cycle c + 1 + of_nat ?k\<rparr>"
    have "clk_update period now c = Inr c'"
      using False late by (simp add: clk_update_def Let_def dc c'_def)
    moreover have "advanced period now c c'"
      unfolding advanced_def
    proof (intro conjI exI [of _ "Suc ?k"] impI)
      show "now \<le> clk_tick c'" using u(2) by (simp only: c'_def word_le_nat_alt e clocked.select_convs)
      show "unat (clk_tick c') = unat (clk_tick c) + Suc ?k * unat period"
        by (simp only: c'_def e clocked.select_convs) (simp add: t)
      show "clk_cycle c' = clk_cycle c + of_nat (Suc ?k)" by (simp add: c'_def)
      have "?k * unat period < ?a + unat period" by (rule cb(2))
      then show "unat (clk_tick c) + (Suc ?k - 1) * unat period < unat now" using a(2) t by simp
    qed
    ultimately show ?thesis by blast
  qed
qed

lemma advanced_close:
  assumes "advanced period now c c'" "unat (clk_tick c) < unat now + unat period"
  shows "unat (clk_tick c') < unat now + unat period" "unat (clk_tick c') mod unat period = unat (clk_tick c) mod unat period"
proof -
  obtain k where k: "unat (clk_tick c') = unat (clk_tick c) + k * unat period"
    "k \<noteq> 0 \<longrightarrow> unat (clk_tick c) + (k - 1) * unat period < unat now"
    using assms(1) by (auto simp: advanced_def)
  show "unat (clk_tick c') < unat now + unat period"
    using k assms(2) by (cases k) auto
  show "unat (clk_tick c') mod unat period = unat (clk_tick c) mod unat period"
    by (simp add: k(1))
qed

section \<open>Trees of domains\<close>

text \<open>
  The domains of a tree in the order the changes reach them, each with the product of the
  dividers on its path, its period and its members.
\<close>

fun flat :: "u64 \<Rightarrow> clk_domain \<Rightarrow> (u64 \<times> tick \<times> clocked list) list" where
  "flat m (ClkDomain d p ms cs) = (m * d, p, ms) # concat (map (flat (m * d)) cs)"

definition retimed :: "tick \<Rightarrow> tick \<Rightarrow> u64 \<times> tick \<times> clocked list \<Rightarrow> u64 \<times> tick \<times> clocked list \<Rightarrow> bool" where
  "retimed now base x y \<longleftrightarrow>
     (case (x, y) of ((k, p, ms), (k', p', ms')) \<Rightarrow> k' = k \<and> p' = base * k \<and> list_all2 (advanced p now) ms ms')"

definition all_in_time :: "tick \<Rightarrow> (u64 \<times> tick \<times> clocked list) list \<Rightarrow> bool" where
  "all_in_time now xs \<longleftrightarrow> list_all (\<lambda>(k, p, ms). list_all (in_time p now) ms) xs"

lemma omap_rel:
  "(\<And>x. x \<in> set xs \<Longrightarrow> \<exists>y. f x = Inr y \<and> R x y) \<Longrightarrow> \<exists>ys. omap f xs = Inr ys \<and> list_all2 R xs ys"
proof (induction xs)
  case (Cons x xs)
  obtain y where y: "f x = Inr y" "R x y" using Cons(2) [of x] by auto
  obtain ys where "omap f xs = Inr ys" "list_all2 R xs ys" using Cons by auto
  with y show ?case by auto
qed simp

lemma concat_all2:
  "list_all2 (\<lambda>x y. list_all2 R (f x) (g y)) xs ys \<Longrightarrow> list_all2 R (concat (map f xs)) (concat (map g ys))"
  by (induction rule: list_all2_induct) (auto intro: list_all2_appendI)

lemma updateClockPeriod_retimes:
  "all_in_time now (flat m cd) \<Longrightarrow>
   \<exists>cd'. updateClockPeriod now (base * m) cd = Inr cd' \<and> list_all2 (retimed now base) (flat m cd) (flat m cd')"
proof (induction cd arbitrary: m)
  case (ClkDomain d p ms cs)
  have ms: "\<And>c. c \<in> set ms \<Longrightarrow> in_time p now c"
    and cs: "\<And>x. x \<in> set cs \<Longrightarrow> all_in_time now (flat (m * d) x)"
    using ClkDomain.prems by (simp_all add: all_in_time_def list_all_iff ball_Un)
  obtain ms' where ms': "omap (clk_update p now) ms = Inr ms'" "list_all2 (advanced p now) ms ms'"
    using omap_rel [of ms "clk_update p now" "advanced p now"] clk_update_advanced [OF ms] by blast
  obtain cs' where cs': "omap (updateClockPeriod now (base * (m * d))) cs = Inr cs'"
    "list_all2 (\<lambda>x y. list_all2 (retimed now base) (flat (m * d) x) (flat (m * d) y)) cs cs'"
    using omap_rel [of cs "updateClockPeriod now (base * (m * d))"
        "\<lambda>x y. list_all2 (retimed now base) (flat (m * d) x) (flat (m * d) y)"]
      ClkDomain.IH [OF _ cs] by blast
  have e: "base * m * d = base * (m * d)" by (simp add: mult.assoc)
  have root: "retimed now base (m * d, p, ms) (m * d, base * (m * d), ms')" using ms'(2) by (simp add: retimed_def)
  show ?case
    using ms' cs' root concat_all2 [OF cs'(2)] by (simp add: e)
qed

section \<open>Properties\<close>

text \<open>
  \<^verbatim>\<open>Clocked::clockEdge\<close>. At any tick the object returns an edge of its clock: the first
  edge not before the current tick, plus the number of periods asked for. It is in phase
  with the edge cached before, and the cycle counter advances by the number of edges passed.
\<close>

theorem clockEdge_exact:
  assumes "period \<noteq> 0" "unat now + unat period * (unat n + 1) < 2 ^ 64"
    "unat (clk_tick c) < unat now + unat period"
  shows "\<exists>t c'. clockEdge period now c n = Inr (t, c') \<and> curCycle period now c = Inr (clk_cycle c', c') \<and>
    unat now + unat period * unat n \<le> unat t \<and> unat t < unat now + unat period + unat period * unat n \<and>
    unat t mod unat period = unat (clk_tick c) mod unat period \<and>
    clk_cycle c' = clk_cycle c + of_nat ((unat (clk_tick c') - unat (clk_tick c)) div unat period)"
proof -
  have p: "0 < unat period" using assms(1) by (simp add: unat_gt_0)
  have b: "unat now + unat period + unat period * unat n < 2 ^ 64" using assms(2) by (simp add: algebra_simps)
  then have "in_time period now c" using assms(1) by (simp add: in_time_def)
  then obtain c' where c': "clk_update period now c = Inr c'" "advanced period now c c'"
    using clk_update_advanced by blast
  note close = advanced_close [OF c'(2) assms(3)]
  have t: "unat (clk_tick c' + period * n) = unat (clk_tick c') + unat period * unat n"
  proof -
    have "clk_tick c' + period * n = of_nat (unat (clk_tick c') + unat period * unat n)" by simp
    moreover have "unat (clk_tick c') + unat period * unat n < 2 ^ 64" using b close(1) by linarith
    ultimately show ?thesis by (simp only: unat_of_nat64)
  qed
  have "unat now \<le> unat (clk_tick c')" using c'(2) by (simp add: advanced_def word_le_nat_alt)
  moreover have "clk_cycle c' = clk_cycle c + of_nat ((unat (clk_tick c') - unat (clk_tick c)) div unat period)"
    using c'(2) p by (auto simp: advanced_def)
  ultimately show ?thesis using c'(1) t close by (simp add: clockEdge_def curCycle_def)
qed

theorem clockEdge_exact_witness:
  "\<exists>t c'. clockEdge 1000 4250 Clocked 2 = Inr (t, c') \<and> 6250 \<le> unat t \<and> unat t < 7250 \<and> unat t mod 1000 = 0"
  using clockEdge_exact [of 1000 4250 2 Clocked] by (auto simp: Clocked_def)

text \<open>
  C25. \<^verbatim>\<open>SrcClockDomain::clockPeriod\<close>. Setting the period of a source domain to a value other than
  zero reaches the whole tree under it, domains without members included: every domain has the
  new period times the product of the dividers on its path, and every clocked object in it is
  first advanced, with its old period, to its first edge not before the current tick, its cycle
  counter by the edges passed. The arithmetic of the objects that must catch up is assumed not to
  overflow, and their old periods not to be zero.
\<close>

theorem clock_period_change:
  assumes "p \<noteq> 0" "clockDivider cd = 1" "all_in_time now (flat 1 cd)"
  shows "\<exists>cd'. set_clockPeriod now p cd = Inr cd' \<and> clockPeriod cd' = p \<and>
    list_all2 (retimed now p) (flat 1 cd) (flat 1 cd')"
proof -
  obtain q ms cs where cd: "cd = ClkDomain 1 q ms cs" using assms(2) by (cases cd) auto
  obtain cd' where "updateClockPeriod now (p * 1) cd = Inr cd'" "list_all2 (retimed now p) (flat 1 cd) (flat 1 cd')"
    using updateClockPeriod_retimes [OF assms(3)] by blast
  moreover from this(1) have "set_clockPeriod now p cd = Inr cd'" "clockPeriod cd' = p"
    using assms(1) by (auto simp: cd set_clockPeriod_def)
  ultimately show ?thesis by blast
qed

definition demo_domain :: clk_domain where
  "demo_domain = ClkDomain 1 1000 [\<lparr>clk_tick = 3000, clk_cycle = 3\<rparr>]
     [ClkDomain 2 2000 [\<lparr>clk_tick = 6000, clk_cycle = 3\<rparr>] [ClkDomain 3 6000 [Clocked] [], ClkDomain 5 10000 [] []]]"

theorem clock_period_change_witness:
  "\<exists>cd'. set_clockPeriod 4250 500 demo_domain = Inr cd' \<and> clockPeriod cd' = 500 \<and>
     list_all2 (retimed 4250 500) (flat 1 demo_domain) (flat 1 cd')"
proof (rule clock_period_change)
  show "all_in_time 4250 (flat 1 demo_domain)"
    by (simp add: all_in_time_def demo_domain_def in_time_def Clocked_def)
qed (simp_all add: demo_domain_def)

end
