(* ===== verification/XBar.thy ===== *)
theory XBar
  imports AddrRangeMap ClockDomain
begin

text \<open>
  Address decoding in the crossbar, \<^verbatim>\<open>mem/xbar.hh\<close> and \<^verbatim>\<open>mem/xbar.cc\<close>: the responders on the
  memory side announce their ranges, \<^verbatim>\<open>BaseXBar::recvRangeChange\<close> keeps them in the
  \<^verbatim>\<open>AddrRangeMap\<close> \<open>portMap\<close> and passes the union on, and \<^verbatim>\<open>BaseXBar::findPort\<close> routes a
  request. What a responder answers to \<^verbatim>\<open>getAddrRanges\<close> is code of other objects: the argument
  \<open>ask\<close> gives the answer of every port at the time of the call. Port identifiers are integers,
  \<open>- 1\<close> being \<^verbatim>\<open>InvalidPortID\<close>.
\<close>

section \<open>The crossbar\<close>

record xbar =
  portMap :: "int range_map"
  gotAddrRanges :: "bool list"
  gotAllAddrRanges :: bool
  defaultPortID :: int
  useDefaultRange :: bool
  defaultRange :: addr_range
  xbarRanges :: "addr_range list"

text \<open>
  The constructor with \<open>n\<close> memory-side ports; when a default responder is connected the derived
  crossbars add its port behind the others and set \<open>defaultPortID\<close>.
\<close>

definition BaseXBar :: "nat \<Rightarrow> bool \<Rightarrow> bool \<Rightarrow> xbar" where
  "BaseXBar n has_default use_default =
     \<lparr>portMap = rm_empty, gotAddrRanges = replicate (n + (if has_default then 1 else 0)) False,
      gotAllAddrRanges = False, defaultPortID = (if has_default then int n else - 1),
      useDefaultRange = use_default, defaultRange = AddrRange_empty, xbarRanges = []\<rparr>"

text \<open>\<^verbatim>\<open>portMap\<close> is an \<^verbatim>\<open>AddrRangeMap<PortID, 3>\<close>.\<close>

abbreviation port_cache :: nat where
  "port_cache \<equiv> 3"

section \<open>Routing\<close>

definition default_port :: "xbar \<Rightarrow> addr_range \<Rightarrow> int outcome" where
  "default_port x r =
     (if useDefaultRange x
      then obind (isSubset r (defaultRange x)) (\<lambda>b. if b then Inr (defaultPortID x) else Inl Fatal)
      else if defaultPortID x \<noteq> - 1 then Inr (defaultPortID x)
      else Inl Fatal)"

definition findPort :: "xbar \<Rightarrow> addr_range \<Rightarrow> (int \<times> xbar) outcome" where
  "findPort x r =
     check (gotAllAddrRanges x) Assert_Failed
       (obind (rm_contains port_cache (portMap x) r) (\<lambda>(i, m).
         let x = x\<lparr>portMap := m\<rparr>
         in case i of
              Some it \<Rightarrow> obind (rm_deref (rm_tree m) it) (\<lambda>n. Inr (nvalue n, x))
            | None \<Rightarrow> obind (default_port x r) (\<lambda>p. Inr (p, x))))"

section \<open>A change of ranges\<close>

text \<open>The flags: the port answered, and whether all of them have.\<close>

definition note_port :: "xbar \<Rightarrow> int \<Rightarrow> xbar outcome" where
  "note_port x p =
     check (0 \<le> p \<and> nat p < length (gotAddrRanges x)) Undefined
       (let got = (gotAddrRanges x)[nat p := True]
        in Inr (x\<lparr>gotAddrRanges := got,
                  gotAllAddrRanges := (if gotAllAddrRanges x then True else list_all (\<lambda>b. b) got)\<rparr>))"

text \<open>The loop that erases the entries of a port, over the nodes the tree had when it began.\<close>

fun drop_port :: "int range_map \<Rightarrow> int \<Rightarrow> int rnode list \<Rightarrow> int range_map outcome" where
  "drop_port m p [] = Inr m"
| "drop_port m p (n # ns) =
     (if nvalue n = p then obind (rm_erase m (fst n)) (\<lambda>m. drop_port m p ns)
      else drop_port m p ns)"

text \<open>
  One round of the loop that inserts the ranges of a port: a range that does not fit is fatal,
  after the port it conflicts with has been looked up for the message.
\<close>

definition add_range :: "int range_map \<Rightarrow> addr_range \<times> int \<Rightarrow> int range_map outcome" where
  "add_range m x =
     obind (rm_insert port_cache m (fst x) (snd x)) (\<lambda>(i, m).
       if i = None
       then obind (rm_intersects port_cache m (fst x)) (\<lambda>(c, m).
              case c of None \<Rightarrow> Inl Undefined
              | Some it \<Rightarrow> obind (rm_deref (rm_tree m) it) (\<lambda>_. Inl Fatal))
       else Inr m)"

definition update_ranges :: "(int \<Rightarrow> addr_range list) \<Rightarrow> xbar \<Rightarrow> int \<Rightarrow> xbar outcome" where
  "update_ranges ask x p =
     (if p = defaultPortID x
      then if useDefaultRange x
           then check (length (ask p) = 1) Fatal (Inr (x\<lparr>defaultRange := hd (ask p)\<rparr>))
           else Inr x
      else obind (drop_port (portMap x) p (rm_tree (portMap x))) (\<lambda>m.
             obind (ofold add_range m (map (\<lambda>r. (r, p)) (ask p))) (\<lambda>m.
               Inr (x\<lparr>portMap := m\<rparr>))))"

text \<open>
  Collecting the ranges: interleaved ranges wait in \<open>intlv\<close> until one comes that does not merge
  with them, and nothing that lies in the default range is passed on.
\<close>

definition keep_range :: "xbar \<Rightarrow> addr_range list \<Rightarrow> addr_range \<Rightarrow> addr_range list outcome" where
  "keep_range x rs r =
     (if useDefaultRange x
      then obind (isSubset r (defaultRange x)) (\<lambda>b. Inr (if b then rs else rs @ [r]))
      else Inr (rs @ [r]))"

definition merge_ranges :: "xbar \<Rightarrow> addr_range list \<Rightarrow> addr_range list \<Rightarrow> addr_range list outcome" where
  "merge_ranges x rs intlv = obind (AddrRange_merge intlv) (keep_range x rs)"

fun collect :: "xbar \<Rightarrow> addr_range list \<Rightarrow> addr_range list \<Rightarrow> addr_range list \<Rightarrow> addr_range list outcome" where
  "collect x rs intlv [] = (if intlv \<noteq> [] then merge_ranges x rs intlv else Inr rs)"
| "collect x rs intlv (r # ks) =
     (if interleaved r
      then if intlv \<noteq> [] \<and> \<not> mergesWith (last intlv) r
           then obind (merge_ranges x rs intlv) (\<lambda>rs. collect x rs [r] ks)
           else collect x rs (intlv @ [r]) ks
      else obind (keep_range x rs r) (\<lambda>rs. collect x rs intlv ks))"

fun check_partial :: "addr_range \<Rightarrow> addr_range list \<Rightarrow> unit outcome" where
  "check_partial d [] = Inr ()"
| "check_partial d (r # rs) =
     obind (intersects r d) (\<lambda>i.
       if i then obind (isSubset r d) (\<lambda>s. if s then check_partial d rs else Inl Fatal)
       else check_partial d rs)"

definition aggregate :: "xbar \<Rightarrow> xbar outcome" where
  "aggregate x =
     obind (if useDefaultRange x
            then check (0 \<le> defaultPortID x \<and> nat (defaultPortID x) < length (gotAddrRanges x)) Undefined
                  (check (gotAddrRanges x ! nat (defaultPortID x)) Fatal (Inr [defaultRange x]))
            else Inr []) (\<lambda>rs.
       obind (collect x rs [] (map nrange (rm_tree (portMap x)))) (\<lambda>rs.
         obind (if useDefaultRange x then check_partial (defaultRange x) rs else Inr ()) (\<lambda>_.
           Inr (x\<lparr>xbarRanges := rs\<rparr>))))"

text \<open>The result says whether the neighbours on the CPU side are told.\<close>

definition recvRangeChange :: "(int \<Rightarrow> addr_range list) \<Rightarrow> xbar \<Rightarrow> int \<Rightarrow> (bool \<times> xbar) outcome" where
  "recvRangeChange ask x p =
     obind (note_port x p) (\<lambda>x.
       obind (update_ranges ask x p) (\<lambda>x.
         if gotAllAddrRanges x then obind (aggregate x) (\<lambda>x. Inr (True, x))
         else Inr (False, x)))"

definition getAddrRanges :: "xbar \<Rightarrow> addr_range list outcome" where
  "getAddrRanges x = check (gotAllAddrRanges x) Assert_Failed (Inr (xbarRanges x))"

section \<open>Timing of a packet\<close>

record packet_timing =
  headerDelay :: u32
  payloadDelay :: u32

definition divCeil32 :: "u32 \<Rightarrow> u32 \<Rightarrow> u32 outcome" where
  "divCeil32 a b = check (b \<noteq> 0) Undefined (Inr ((a + b - 1) div b))"

text \<open>
  \<^verbatim>\<open>calcPacketTiming\<close>: \<open>us\<close> is the number of ticks of a microsecond, \<open>data\<close> the size of the
  payload if there is one. The delays of a packet are 32-bit fields.
\<close>

definition calcPacketTiming ::
  "tick \<Rightarrow> u32 \<Rightarrow> tick \<Rightarrow> tick \<Rightarrow> clocked \<Rightarrow> u32 option \<Rightarrow> tick \<Rightarrow> packet_timing \<Rightarrow>
   (packet_timing \<times> clocked) outcome" where
  "calcPacketTiming us width period now c data header_delay pkt =
     obind (clockEdge period now c 0) (\<lambda>(edge, c).
       let offset = edge - now;
           pkt = pkt\<lparr>headerDelay := ucast (ucast (headerDelay pkt) + (offset + header_delay))\<rparr>
       in check (\<not> ucast (headerDelay pkt) > us) Panic
            (case data of None \<Rightarrow> Inr (pkt, c)
             | Some sz \<Rightarrow> obind (divCeil32 sz width) (\<lambda>n.
                 Inr (pkt\<lparr>payloadDelay := ucast (max (ucast (payloadDelay pkt)) (ucast n * period))\<rparr>, c))))"

section \<open>The port map and what the ports announced\<close>

lemma add_range_ok:
  assumes "rm_ok port_cache m" "rng_ok r" "\<forall>x \<in> rm_entries m. clear_of r (fst x)" "add_range m (r, d) = Inr m'"
  shows "rm_ok port_cache m' \<and> rm_entries m' = insert (r, d) (rm_entries m) \<and>
    (\<forall>x \<in> rm_entries m. apart (fst x) r)"
proof -
  obtain it where i: "rm_insert port_cache m r d = Inr (Some it, m')"
    using assms(4) by (auto simp: add_range_def split: if_splits option.splits)
  from rm_insert_entries [OF assms(1-3) i] show ?thesis .
qed

interpretation ports: range_store "rm_ok port_cache" rm_entries add_range
  by unfold_locales (rule add_range_ok)

lemma drop_port_tree:
  "drop_port m p ns = Inr m' \<Longrightarrow> rm_ok mx m \<Longrightarrow>
   rm_ok mx m' \<and> set (rm_tree m') = {n \<in> set (rm_tree m). \<not> (\<exists>n' \<in> set ns. nvalue n' = p \<and> fst n' = fst n)}"
proof (induction ns arbitrary: m)
  case (Cons n ns)
  show ?case
  proof (cases "nvalue n = p")
    case True
    with Cons(2) obtain m1 where m1: "rm_erase m (fst n) = Inr m1" "drop_port m1 p ns = Inr m'" by auto
    note e = rm_erase_ok [OF Cons(3) m1(1)]
    from Cons(1) [OF m1(2) e(1)] e(2) True show ?thesis by (auto simp del: split_paired_Ex)
  next
    case False
    with Cons(2) have "drop_port m p ns = Inr m'" by simp
    from Cons(1) [OF this Cons(3)] False show ?thesis by (auto simp del: split_paired_Ex)
  qed
qed simp

lemma drop_port_ok:
  assumes "drop_port m p (rm_tree m) = Inr m'" "rm_ok mx m"
  shows "rm_ok mx m'" "rm_entries m' = {x \<in> rm_entries m. snd x \<noteq> p}"
proof -
  note d = drop_port_tree [OF assms]
  have "n' = n" if "n \<in> set (rm_tree m)" "n' \<in> set (rm_tree m)" "fst n' = fst n" for n n'
    using assms(2) that by (simp add: rm_ok_def distinct_map inj_on_def)
  with d have "set (rm_tree m') = {n \<in> set (rm_tree m). nvalue n \<noteq> p}" by (auto simp del: split_paired_Ex)
  then show "rm_entries m' = {x \<in> rm_entries m. snd x \<noteq> p}" by (auto simp: rm_entries_def)
  show "rm_ok mx m'" using d by simp
qed

definition announced :: "(int \<Rightarrow> addr_range list) \<Rightarrow> (addr_range \<times> int) set" where
  "announced ann = {(k, p). k \<in> set (ann p)}"

text \<open>What the ports of the crossbar have announced after one more change.\<close>

definition announce :: "(int \<Rightarrow> addr_range list) \<Rightarrow> xbar \<Rightarrow> int \<Rightarrow> (int \<Rightarrow> addr_range list) \<Rightarrow> int \<Rightarrow> addr_range list" where
  "announce ask x p ann = (if p = defaultPortID x then ann else ann(p := ask p))"

text \<open>
  Announcements the map of the crossbar can decode: well formed ranges, none of them an interleaved
  one over a single byte that some port has announced.
\<close>

definition announces_ok :: "(int \<Rightarrow> addr_range list) \<Rightarrow> xbar \<Rightarrow> int \<Rightarrow> (int \<Rightarrow> addr_range list) \<Rightarrow> bool" where
  "announces_ok ask x p ann \<longleftrightarrow> list_all rng_ok (ask p) \<and>
     (p \<noteq> defaultPortID x \<longrightarrow> (\<forall>r \<in> set (ask p). \<forall>q. \<forall>k \<in> set (announce ask x p ann q). clear_of r k))"

definition ports_inv :: "xbar \<Rightarrow> (int \<Rightarrow> addr_range list) \<Rightarrow> bool" where
  "ports_inv x ann \<longleftrightarrow> rm_ok port_cache (portMap x) \<and> rm_entries (portMap x) = announced ann"

definition same_setup :: "xbar \<Rightarrow> xbar \<Rightarrow> bool" where
  "same_setup x y \<longleftrightarrow> defaultPortID y = defaultPortID x \<and> useDefaultRange y = useDefaultRange x \<and>
     length (gotAddrRanges y) = length (gotAddrRanges x)"

lemma update_ranges_ports:
  assumes "ports_inv x ann" "update_ranges ask x p = Inr x'" "announces_ok ask x p ann"
  shows "ports_inv x' (announce ask x p ann)"
proof (cases "p = defaultPortID x")
  case True
  with assms(2) have "portMap x' = portMap x" by (auto simp: update_ranges_def split: if_splits)
  with True assms(1) show ?thesis by (simp add: announce_def ports_inv_def)
next
  case False
  with assms(2) obtain m m' where m: "drop_port (portMap x) p (rm_tree (portMap x)) = Inr m"
    "ofold add_range m (map (\<lambda>r. (r, p)) (ask p)) = Inr m'" "x' = x\<lparr>portMap := m'\<rparr>"
    unfolding update_ranges_def by (simp only: if_False obind_eq_Inr sum.inject) metis
  have ok: "rm_ok port_cache (portMap x)" "rm_entries (portMap x) = announced ann"
    using assms(1) by (simp_all add: ports_inv_def)
  note d = drop_port_ok [OF m(1) ok(1)]
  have "list_all (\<lambda>x. rng_ok (fst x)) (map (\<lambda>r. (r, p)) (ask p))" using assms(3) by (simp add: list_all_iff announces_ok_def)
  moreover have "clear_of r (fst z)" if "r \<in> set (ask p)" "z \<in> rm_entries m \<union> set (map (\<lambda>r. (r, p)) (ask p))" for r z
  proof -
    have "fst z \<in> set (announce ask x p ann (snd z))" using that(2) d(2) ok(2) False by (auto simp: announce_def announced_def)
    then show ?thesis using assms(3) False that(1) unfolding announces_ok_def by blast
  qed
  then have "\<forall>y \<in> set (map (\<lambda>r. (r, p)) (ask p)). \<forall>z \<in> rm_entries m \<union> set (map (\<lambda>r. (r, p)) (ask p)). clear_of (fst y) (fst z)"
    unfolding set_map by auto
  ultimately have all: "rm_ok port_cache m' \<and> rm_entries m' = rm_entries m \<union> set (map (\<lambda>r. (r, p)) (ask p))"
    using ports.add_all [OF m(2) d(1)] by blast
  have "rm_entries m' = {x \<in> announced ann. snd x \<noteq> p} \<union> (\<lambda>r. (r, p)) ` set (ask p)"
    using all d(2) ok(2) by simp
  also have "\<dots> = announced (ann(p := ask p))" by (auto simp: announced_def)
  finally show ?thesis using False all by (simp add: ports_inv_def announce_def m(3))
qed

lemma note_port_ok:
  "note_port x p = Inr x' \<Longrightarrow> portMap x' = portMap x \<and> same_setup x x' \<and> defaultRange x' = defaultRange x \<and>
     xbarRanges x' = xbarRanges x"
  by (auto simp: note_port_def Let_def same_setup_def)

lemma update_ranges_setup: "update_ranges ask x p = Inr x' \<Longrightarrow> same_setup x x'"
  by (auto simp: update_ranges_def same_setup_def split: if_splits)

lemma aggregate_setup:
  "aggregate x = Inr x' \<Longrightarrow> x' = x\<lparr>xbarRanges := xbarRanges x'\<rparr>"
  by (auto simp: aggregate_def)

section \<open>The ranges passed on\<close>

text \<open>The default range when it is used.\<close>

definition in_default :: "xbar \<Rightarrow> addr \<Rightarrow> bool" where
  "in_default x a \<longleftrightarrow> useDefaultRange x \<and> contains (defaultRange x) a"

definition default_ok :: "xbar \<Rightarrow> bool" where
  "default_ok x \<longleftrightarrow> (useDefaultRange x \<longrightarrow> rng_ok (defaultRange x))"

lemma keep_range_covers:
  assumes "keep_range x rs r = Inr rs'" "default_ok x" "ar_start r < ar_end r"
  shows "covers rs' a \<or> in_default x a \<longleftrightarrow> covers rs a \<or> contains r a \<or> in_default x a"
    "covers rs a \<Longrightarrow> covers rs' a"
proof -
  have sub: "contains (defaultRange x) a" if "useDefaultRange x" "isSubset r (defaultRange x) = Inr True" "contains r a"
  proof (rule isSubset_sound [OF that(2,3)])
    show "ar_wf (defaultRange x)" "interleaved (defaultRange x) \<or> ar_start (defaultRange x) < ar_end (defaultRange x)"
      using assms(2) that(1) by (simp_all add: default_ok_def rng_ok_def)
  qed (rule assms(3))
  show "covers rs' a \<or> in_default x a \<longleftrightarrow> covers rs a \<or> contains r a \<or> in_default x a"
    "covers rs a \<Longrightarrow> covers rs' a"
    using assms(1) sub by (auto simp: keep_range_def in_default_def split: if_splits)
qed

lemma collect_covers:
  assumes "collect x rs intlv ks = Inr rs'" "default_ok x" "siblings intlv" "list_all rng_ok ks"
  shows "(covers rs' a \<or> in_default x a \<longleftrightarrow> covers rs a \<or> covers intlv a \<or> covers ks a \<or> in_default x a) \<and>
    (covers rs a \<longrightarrow> covers rs' a)"
  using assms
proof (induction ks arbitrary: rs intlv)
  case Nil
  show ?case
  proof (cases "intlv = []")
    case False
    with Nil(1) obtain t where t: "AddrRange_merge intlv = Inr t" "keep_range x rs t = Inr rs'"
      by (auto simp: merge_ranges_def)
    note c = merge_covers [OF t(1) Nil(3) False]
    from keep_range_covers [OF t(2) Nil(2) c(2), of a] c(1) show ?thesis by auto
  qed (use Nil in simp)
next
  case (Cons r ks)
  have r: "rng_ok r" "list_all rng_ok ks" using Cons(5) by simp_all
  consider (plain) "\<not> interleaved r" | (flush) "interleaved r" "intlv \<noteq> []" "\<not> mergesWith (last intlv) r"
    | (wait) "interleaved r" "intlv = [] \<or> mergesWith (last intlv) r" by blast
  then show ?case
  proof cases
    case plain
    with Cons(2) obtain rs1 where rs1: "keep_range x rs r = Inr rs1" "collect x rs1 intlv ks = Inr rs'" by auto
    have "ar_start r < ar_end r" using r(1) by (simp add: rng_ok_def)
    from keep_range_covers [OF rs1(1) Cons(3) this, of a] Cons(1) [OF rs1(2) Cons(3,4) r(2)]
    show ?thesis by auto
  next
    case flush
    with Cons(2) obtain t rs1 where t: "AddrRange_merge intlv = Inr t" "keep_range x rs t = Inr rs1"
      "collect x rs1 [r] ks = Inr rs'" by (auto simp: merge_ranges_def)
    note c = merge_covers [OF t(1) Cons(4) flush(2)]
    have "siblings [r]" by (rule siblings_single [OF r(1)])
    from keep_range_covers [OF t(2) Cons(3) c(2), of a] c(1) Cons(1) [OF t(3) Cons(3) this r(2)]
    show ?thesis by auto
  next
    case wait
    with Cons(2) have c: "collect x rs (intlv @ [r]) ks = Inr rs'" by (auto split: if_splits)
    have "siblings (intlv @ [r])" by (rule siblings_snoc [OF Cons(4) wait(2) r(1)])
    from Cons(1) [OF c Cons(3) this r(2)] show ?thesis by auto
  qed
qed

lemma aggregate_covers:
  assumes "aggregate x = Inr x'" "default_ok x" "ports_inv x ann"
  shows "covers (xbarRanges x') a \<longleftrightarrow> in_default x a \<or> (\<exists>p. covers (ann p) a)"
proof -
  define ks where "ks = map nrange (rm_tree (portMap x))"
  obtain rs where rs: "rs = (if useDefaultRange x then [defaultRange x] else [])"
    "collect x rs [] ks = Inr (xbarRanges x')"
    using assms(1) by (auto simp: aggregate_def ks_def split: if_splits)
  have "list_all rng_ok ks"
    using assms(3) by (simp add: ports_inv_def rm_ok_def tree_ok_def ks_def list_all_iff)
  from collect_covers [OF rs(2) assms(2) _ this, of a]
  have "covers (xbarRanges x') a \<or> in_default x a \<longleftrightarrow> covers rs a \<or> covers ks a \<or> in_default x a"
    "covers rs a \<longrightarrow> covers (xbarRanges x') a" by (simp_all add: siblings_def)
  moreover have "covers rs a \<longleftrightarrow> in_default x a" by (simp add: rs(1) in_default_def)
  moreover have "covers ks a \<longleftrightarrow> (\<exists>p. covers (ann p) a)"
  proof -
    have "set ks = fst ` rm_entries (portMap x)" by (auto simp: ks_def rm_entries_def image_image)
    also have "\<dots> = (\<Union>p. set (ann p))"
      using assms(3) by (force simp: ports_inv_def announced_def)
    finally show ?thesis by (auto simp: covers_def)
  qed
  ultimately show ?thesis by blast
qed

section \<open>Histories\<close>

text \<open>
  The crossbar with the ranges its ports, the default port apart, announced last: ports announce
  changes in any order and any number of times, and requests are routed in between. The ranges
  announced may be interleaved or plain, of any size, within what \<open>announces_ok\<close> says.
\<close>

inductive xbar_run :: "xbar \<Rightarrow> (int \<Rightarrow> addr_range list) \<Rightarrow> bool" where
  init: "xbar_run (BaseXBar n has_default use_default) (\<lambda>_. [])"
| change: "xbar_run x ann \<Longrightarrow> announces_ok ask x p ann \<Longrightarrow> recvRangeChange ask x p = Inr (told, x') \<Longrightarrow>
    xbar_run x' (announce ask x p ann)"
| route: "xbar_run x ann \<Longrightarrow> findPort x r = Inr (p, x') \<Longrightarrow> xbar_run x' ann"

definition default_flag :: "xbar \<Rightarrow> bool" where
  "default_flag x \<longleftrightarrow> 0 \<le> defaultPortID x \<and> nat (defaultPortID x) < length (gotAddrRanges x) \<and>
     gotAddrRanges x ! nat (defaultPortID x)"

definition xbar_inv :: "xbar \<Rightarrow> (int \<Rightarrow> addr_range list) \<Rightarrow> bool" where
  "xbar_inv x ann \<longleftrightarrow> ports_inv x ann \<and> (useDefaultRange x \<and> default_flag x \<longrightarrow> rng_ok (defaultRange x)) \<and>
     (gotAllAddrRanges x \<longrightarrow> (\<forall>a. covers (xbarRanges x) a \<longleftrightarrow> in_default x a \<or> (\<exists>p. covers (ann p) a)))"

lemma note_update_default:
  assumes "note_port x p = Inr x1" "update_ranges ask x1 p = Inr x2" "list_all rng_ok (ask p)"
    "useDefaultRange x \<and> default_flag x \<longrightarrow> rng_ok (defaultRange x)"
  shows "useDefaultRange x2 \<and> default_flag x2 \<longrightarrow> rng_ok (defaultRange x2)"
proof (cases "p = defaultPortID x")
  case True
  have u: "defaultPortID x1 = p" "useDefaultRange x1 = useDefaultRange x"
    using note_port_ok [OF assms(1)] True by (simp_all add: same_setup_def)
  have "rng_ok (defaultRange x2)" if "useDefaultRange x2"
  proof -
    have "useDefaultRange x1" using update_ranges_setup [OF assms(2)] that by (simp add: same_setup_def)
    with assms(2) u(1) have "length (ask p) = 1" "defaultRange x2 = hd (ask p)" by (auto simp: update_ranges_def)
    with assms(3) show ?thesis by (cases "ask p") auto
  qed
  then show ?thesis by blast
next
  case False
  have n: "defaultPortID x1 = defaultPortID x" "useDefaultRange x1 = useDefaultRange x"
    "defaultRange x1 = defaultRange x" "gotAddrRanges x1 = (gotAddrRanges x)[nat p := True]" "0 \<le> p"
    using assms(1) by (auto simp: note_port_def Let_def)
  have "\<exists>m. x2 = x1\<lparr>portMap := m\<rparr>" using assms(2) n(1) False by (auto simp: update_ranges_def)
  with n have "default_flag x2 \<longrightarrow> default_flag x" "useDefaultRange x2 = useDefaultRange x" "defaultRange x2 = defaultRange x"
    using False by (auto simp: default_flag_def nth_list_update split: if_splits)
  with assms(4) show ?thesis by simp
qed

lemma recvRangeChange_inv:
  assumes "xbar_inv x ann" "announces_ok ask x p ann" "recvRangeChange ask x p = Inr (told, x')"
  shows "xbar_inv x' (announce ask x p ann)"
proof -
  from assms(3) obtain x1 x2 where x: "note_port x p = Inr x1" "update_ranges ask x1 p = Inr x2"
    and agg: "(if gotAllAddrRanges x2 then obind (aggregate x2) (\<lambda>x. Inr (True, x)) else Inr (False, x2)) = Inr (told, x')"
    by (auto simp: recvRangeChange_def)
  have n: "portMap x1 = portMap x" "defaultPortID x1 = defaultPortID x"
    using note_port_ok [OF x(1)] by (simp_all add: same_setup_def)
  have "ports_inv x1 ann" using assms(1) n(1) by (simp add: xbar_inv_def ports_inv_def)
  moreover have "announces_ok ask x1 p ann" using assms(2) n(2) by (simp add: announces_ok_def announce_def)
  ultimately have "ports_inv x2 (announce ask x1 p ann)" by (intro update_ranges_ports [OF _ x(2)])
  then
  have p2: "ports_inv x2 (announce ask x p ann)" by (simp add: announce_def n(2))
  have d2: "useDefaultRange x2 \<and> default_flag x2 \<longrightarrow> rng_ok (defaultRange x2)"
    using note_update_default [OF x] assms(1,2) by (simp add: xbar_inv_def announces_ok_def)
  show ?thesis
  proof (cases "gotAllAddrRanges x2")
    case False
    with agg have "x' = x2" by simp
    with p2 d2 False show ?thesis by (simp add: xbar_inv_def)
  next
    case True
    with agg have a: "aggregate x2 = Inr x'" by auto
    then have "useDefaultRange x2 \<longrightarrow> default_flag x2"
      by (auto simp: aggregate_def default_flag_def)
    with d2 have ok: "default_ok x2" by (auto simp: default_ok_def)
    obtain rs where e: "x' = x2\<lparr>xbarRanges := rs\<rparr>" using aggregate_setup [OF a] by blast
    have s: "ports_inv x' = ports_inv x2" "in_default x' = in_default x2" "default_flag x' = default_flag x2"
      "useDefaultRange x' = useDefaultRange x2" "defaultRange x' = defaultRange x2"
      by (auto simp: e ports_inv_def in_default_def default_flag_def)
    show ?thesis using aggregate_covers [OF a ok p2] p2 d2 s by (simp add: xbar_inv_def)
  qed
qed

lemma findPort_inv:
  assumes "xbar_inv x ann" "findPort x r = Inr (p, x')"
  shows "xbar_inv x' ann"
proof -
  from assms(2) obtain i m where m: "rm_contains port_cache (portMap x) r = Inr (i, m)" "x' = x\<lparr>portMap := m\<rparr>"
    by (auto simp: findPort_def Let_def split: option.splits)
  have "rm_ok port_cache (portMap x)" using assms(1) by (simp add: xbar_inv_def ports_inv_def)
  from rm_find_result [OF this m(1) [unfolded rm_contains_def]]
  have "rm_ok port_cache m" "rm_entries m = rm_entries (portMap x)" by (simp_all add: rm_entries_def)
  then have "ports_inv x' = ports_inv x" "in_default x' = in_default x" "default_flag x' = default_flag x"
    using \<open>rm_ok port_cache (portMap x)\<close> by (auto simp: m(2) ports_inv_def in_default_def default_flag_def)
  with assms(1) show ?thesis by (simp add: xbar_inv_def m(2))
qed

lemma xbar_run_inv: "xbar_run x ann \<Longrightarrow> xbar_inv x ann"
proof (induction rule: xbar_run.induct)
  case (init n has_default use_default)
  show ?case
    by (auto simp: xbar_inv_def ports_inv_def BaseXBar_def rm_ok_def rm_empty_def tree_ok_def rm_entries_def
        announced_def default_flag_def nth_Cons')
next
  case (change x ann ask p told x')
  show ?case by (rule recvRangeChange_inv [OF change.IH change.hyps(2,3)])
next
  case (route x ann r p x')
  show ?case by (rule findPort_inv [OF route.IH route.hyps(2)])
qed

section \<open>Delays\<close>

text \<open>The header of a packet that had no delay leaves a header delay after a clock edge.\<close>

lemma calcPacketTiming_edge:
  assumes "calcPacketTiming us width period now c data header_delay pkt = Inr (pkt', c')" "headerDelay pkt = 0"
    "clockEdge period now c 0 = Inr (edge, c1)" "unat (edge - now + header_delay) < 2 ^ 32"
  shows "now + ucast (headerDelay pkt') = edge + header_delay"
proof -
  have "headerDelay pkt' = ucast (edge - now + header_delay)"
    using assms(1,2) by (auto simp: calcPacketTiming_def assms(3) Let_def split: option.splits)
  moreover have "ucast (ucast w :: u32) = w" if "unat w < 2 ^ 32" for w :: u64
    using that by (simp add: word_unat_eq_iff unsigned_ucast_eq unsigned_take_bit_eq take_bit_nat_eq_self)
  ultimately show ?thesis using assms(4) by (simp add: algebra_simps)
qed

section \<open>Properties\<close>

text \<open>
  C4. \<^verbatim>\<open>BaseXBar::findPort\<close>. Once all ports have announced ranges, in whatever order and
  however often, a request whose bytes lie in a range a port announced last is routed to that
  port, to no other, and every other request goes where the default port decides. The ranges are
  well formed, and no port announces an interleaved range over a range of one byte that is
  announced at that time (\<open>announces_ok\<close>; the map of the crossbar would lose the interleaved one).
\<close>

theorem xbar_routes:
  assumes "xbar_run x ann" "gotAllAddrRanges x" "\<not> interleaved r" "ar_start r < ar_end r"
  shows "(\<forall>p k. k \<in> set (ann p) \<and> isSubset r k = Inr True \<longrightarrow> (\<exists>x'. findPort x r = Inr (p, x') \<and> xbar_run x' ann)) \<and>
    ((\<forall>p. \<forall>k \<in> set (ann p). isSubset r k \<noteq> Inr True) \<longrightarrow>
      (\<exists>x'. findPort x r = obind (default_port x r) (\<lambda>p. Inr (p, x'))))"
proof -
  have inv: "rm_ok port_cache (portMap x)" "rm_entries (portMap x) = announced ann"
    using xbar_run_inv [OF assms(1)] by (simp_all add: xbar_inv_def ports_inv_def)
  show ?thesis
  proof (rule rm_contains_result [OF inv(1) assms(3,4)])
    fix res m'
    assume c: "rm_contains port_cache (portMap x) r = Inr (res, m')" "rm_tree m' = rm_tree (portMap x)"
      and res: "case res of None \<Rightarrow> \<forall>n \<in> set (rm_tree (portMap x)). isSubset r (nrange n) = Inr False
       | Some it \<Rightarrow> \<exists>n. rm_deref (rm_tree (portMap x)) it = Inr n \<and> isSubset r (nrange n) = Inr True \<and>
           value_at (rm_tree (portMap x)) (ar_start r) = Some (nvalue n)"
    have node: "k \<in> set (ann p) \<longleftrightarrow> (\<exists>n \<in> set (rm_tree (portMap x)). snd n = (k, p))" for k p
    proof -
      have "(k, p) \<in> rm_entries (portMap x) \<longleftrightarrow> k \<in> set (ann p)" by (simp add: inv(2) announced_def)
      then show ?thesis unfolding rm_entries_def image_iff by metis
    qed
    show ?thesis
    proof (cases res)
      case None
      with res have no: "\<forall>p. \<forall>k \<in> set (ann p). isSubset r k = Inr False" using node by force
      have "default_port (x\<lparr>portMap := m'\<rparr>) r = default_port x r"
        by (cases "isSubset r (defaultRange x)") (simp_all add: default_port_def)
      then have "findPort x r = obind (default_port x r) (\<lambda>p. Inr (p, x\<lparr>portMap := m'\<rparr>))"
        using c(1) None assms(2) by (simp add: findPort_def)
      with no show ?thesis by auto
    next
      case (Some it)
      with res obtain n where n: "rm_deref (rm_tree (portMap x)) it = Inr n" "isSubset r (nrange n) = Inr True"
        "value_at (rm_tree (portMap x)) (ar_start r) = Some (nvalue n)" by auto
      have f: "findPort x r = Inr (nvalue n, x\<lparr>portMap := m'\<rparr>)"
        using c n(1) Some assms(2) by (simp add: findPort_def)
      have t: "tree_ok (rm_tree (portMap x))" using inv(1) by (simp add: rm_ok_def)
      have "p = nvalue n" if k: "k \<in> set (ann p)" "isSubset r k = Inr True" for p k
      proof -
        obtain n' where n': "n' \<in> set (rm_tree (portMap x))" "snd n' = (k, p)" using node k(1) by blast
        have "rng_ok k" using t n' by (auto simp: tree_ok_def list_all_iff)
        then have "contains (nrange n') (ar_start r)" using isSubset_start [OF k(2) assms(4)] n'(2) by simp
        from value_at_node [OF t n'(1) this] n(3) n'(2) show ?thesis by simp
      qed
      moreover have "nrange n \<in> set (ann (nvalue n))" using rm_deref_Inr [OF n(1)] node by force
      ultimately show ?thesis using f n(2) xbar_run.route [OF assms(1) f] by metis
    qed
  qed
qed

text \<open>A crossbar between two channels of a memory and a device of one byte.\<close>

definition demo_ask :: "int \<Rightarrow> addr_range list" where
  "demo_ask p = (if p = 0 then [chan2 0] else [chan2 1, RangeSize 0x2000 1])"

definition demo_xbar :: "nat \<Rightarrow> xbar" where
  "demo_xbar n =
     \<lparr>portMap = \<lparr>rm_tree = (if n = 1 then [(0, chan2 0, 0)] else [(0, chan2 0, 0), (1, chan2 1, 1), (2, RangeSize 0x2000 1, 1)]),
        rm_cache = [], rm_fresh = (if n = 1 then 1 else 3)\<rparr>,
      gotAddrRanges = [True, n = 2], gotAllAddrRanges = (n = 2), defaultPortID = - 1,
      useDefaultRange = False, defaultRange = AddrRange_empty,
      xbarRanges = (if n = 2 then [RangeSize 0x2000 1, AddrRange_plain 0 0x1000] else [])\<rparr>"

lemma demo_run:
  "xbar_run (demo_xbar 2) (\<lambda>p. if p = 1 then [chan2 1, RangeSize 0x2000 1] else if p = 0 then [chan2 0] else [])"
proof -
  have "recvRangeChange demo_ask (BaseXBar 2 False False) 0 = Inr (False, demo_xbar 1)"
    "recvRangeChange demo_ask (demo_xbar 1) 1 = Inr (True, demo_xbar 2)" by code_simp+
  moreover have "announces_ok demo_ask (BaseXBar 2 False False) 0 (\<lambda>_. [])"
    "announces_ok demo_ask (demo_xbar 1) 1 (announce demo_ask (BaseXBar 2 False False) 0 (\<lambda>_. []))"
  proof -
    have ok: "list_all rng_ok (demo_ask 0)" "list_all rng_ok (demo_ask 1)" by code_simp+
    have cl: "list_all (\<lambda>r. list_all (clear_of r) [chan2 0, chan2 1, RangeSize 0x2000 1]) [chan2 0, chan2 1, RangeSize 0x2000 1]" by code_simp
    show "announces_ok demo_ask (BaseXBar 2 False False) 0 (\<lambda>_. [])"
      "announces_ok demo_ask (demo_xbar 1) 1 (announce demo_ask (BaseXBar 2 False False) 0 (\<lambda>_. []))"
      using ok cl by (auto simp: announces_ok_def announce_def demo_ask_def demo_xbar_def BaseXBar_def)
  qed
  ultimately have "xbar_run (demo_xbar 2) (announce demo_ask (demo_xbar 1) 1 (announce demo_ask (BaseXBar 2 False False) 0 (\<lambda>_. [])))"
    using xbar_run.change [OF xbar_run.change [OF xbar_run.init]] by blast
  also have "announce demo_ask (demo_xbar 1) 1 (announce demo_ask (BaseXBar 2 False False) 0 (\<lambda>_. [])) =
      (\<lambda>p. if p = 1 then [chan2 1, RangeSize 0x2000 1] else if p = 0 then [chan2 0] else [])"
    by (auto simp: announce_def demo_xbar_def BaseXBar_def demo_ask_def)
  finally show ?thesis .
qed

theorem xbar_routes_witness:
  "gotAllAddrRanges (demo_xbar 2) \<and> isSubset (RangeSize 0x40 8) (chan2 1) = Inr True \<and>
   (\<exists>x'. findPort (demo_xbar 2) (RangeSize 0x40 8) = Inr (1, x'))"
proof -
  have s: "isSubset (RangeSize 0x40 8) (chan2 1) = Inr True" "gotAllAddrRanges (demo_xbar 2)" by code_simp+
  moreover have "\<not> interleaved (RangeSize 0x40 8)" "ar_start (RangeSize 0x40 8) < ar_end (RangeSize 0x40 8)"
    by (simp_all add: RangeSize_def)
  ultimately show ?thesis
    using conjunct1 [OF xbar_routes [OF demo_run], rule_format, of "RangeSize 0x40 8" "chan2 1" 1] by auto
qed

text \<open>
  C18. \<^verbatim>\<open>BaseXBar::recvRangeChange\<close>. The ranges the crossbar passes on to its neighbours, after
  merging the interleaved ones and dropping those inside the default range, contain exactly
  the addresses that some responder announced last or that lie in the default range. The
  announcements are those of the routing property (\<open>announces_ok\<close>).
\<close>

theorem xbar_ranges_exact:
  assumes "xbar_run x ann" "getAddrRanges x = Inr rs"
  shows "(\<exists>r \<in> set rs. contains r a) \<longleftrightarrow>
    (useDefaultRange x \<and> contains (defaultRange x) a) \<or> (\<exists>p. \<exists>k \<in> set (ann p). contains k a)"
proof -
  have "gotAllAddrRanges x" "rs = xbarRanges x" using assms(2) by (simp_all add: getAddrRanges_def)
  with xbar_run_inv [OF assms(1)] show ?thesis by (simp add: xbar_inv_def covers_def in_default_def)
qed

theorem xbar_ranges_exact_witness:
  "getAddrRanges (demo_xbar 2) = Inr [RangeSize 0x2000 1, AddrRange_plain 0 0x1000] \<and>
   (\<exists>r \<in> set [RangeSize 0x2000 1, AddrRange_plain 0 0x1000]. contains r 0x47)"
proof -
  have "getAddrRanges (demo_xbar 2) = Inr [RangeSize 0x2000 1, AddrRange_plain 0 0x1000]" by code_simp
  moreover have "contains (chan2 1) 0x47" by code_simp
  then have "\<exists>p :: int. \<exists>k \<in> set (if p = 1 then [chan2 1, RangeSize 0x2000 1] else if p = 0 then [chan2 0] else []). contains k 0x47"
    by (intro exI [of _ 1]) simp
  ultimately show ?thesis using xbar_ranges_exact [OF demo_run, of "[RangeSize 0x2000 1, AddrRange_plain 0 0x1000]" "0x47"] by blast
qed

end
