(* ===== verification/XBarLayer.thy ===== *)
theory XBarLayer
  imports ClockDomain
begin

text \<open>
  Flow control in the crossbar, \<^verbatim>\<open>BaseXBar::Layer\<close> of \<^verbatim>\<open>mem/xbar.hh\<close> and \<^verbatim>\<open>mem/xbar.cc\<close>. A layer
  is the arbitration point in front of one destination port: a port that finds it occupied
  queues in \<open>waitingForLayer\<close>, a port whose packet the destination refused is
  \<open>waitingForPeer\<close>, and the release event or the destination's retry lets the next one try
  again. The current tick and the clock of the crossbar are arguments. Statistics are left out.
  What a port does when it is told to retry is code of another object: it is the argument
  \<open>reaction\<close>, the sends it attempts before \<^verbatim>\<open>sendRetry\<close> returns, each with the answer of the
  destination and the tick until which the layer is then occupied.
\<close>

section \<open>The layer\<close>

datatype layer_state = IDLE | BUSY | RETRY

record 'p layer =
  lstate :: layer_state
  waitingForLayer :: "'p list"
  waitingForPeer :: "'p option"
  releaseEvent :: "tick option"
  draining :: bool

definition Layer :: "'p layer" where
  "Layer = \<lparr>lstate = IDLE, waitingForLayer = [], waitingForPeer = None, releaseEvent = None, draining = False\<rparr>"

definition occupyLayer :: "tick \<Rightarrow> tick \<Rightarrow> 'p layer \<Rightarrow> 'p layer outcome" where
  "occupyLayer now until l =
     check (lstate l = BUSY) Assert_Failed
      (check (until \<noteq> 0) Assert_Failed
       (check (until \<ge> now \<and> releaseEvent l = None) Assert_Failed
        (Inr (l\<lparr>releaseEvent := Some until\<rparr>))))"

definition tryTiming :: "'p \<Rightarrow> 'p layer \<Rightarrow> (bool \<times> 'p layer) outcome" where
  "tryTiming src l =
     (if lstate l = BUSY \<or> waitingForPeer l \<noteq> None
      then check (src \<notin> set (waitingForLayer l)) Assert_Failed
             (Inr (False, l\<lparr>waitingForLayer := waitingForLayer l @ [src]\<rparr>))
      else Inr (True, l\<lparr>lstate := BUSY\<rparr>))"

definition succeededTiming :: "tick \<Rightarrow> tick \<Rightarrow> 'p layer \<Rightarrow> 'p layer outcome" where
  "succeededTiming now busy_time l =
     check (lstate l = BUSY) Assert_Failed (occupyLayer now busy_time l)"

definition failedTiming :: "tick \<Rightarrow> 'p \<Rightarrow> tick \<Rightarrow> 'p layer \<Rightarrow> 'p layer outcome" where
  "failedTiming now src busy_time l =
     check (waitingForPeer l = None) Assert_Failed
       (let l = l\<lparr>waitingForPeer := Some src\<rparr>
        in check (lstate l = BUSY) Assert_Failed (occupyLayer now busy_time l))"

text \<open>
  A send through the layer, as \<^verbatim>\<open>NoncoherentXBar::recvTimingReq\<close> performs it: \<open>ok\<close> is what the
  destination answers.
\<close>

definition send :: "tick \<Rightarrow> 'p \<Rightarrow> bool \<Rightarrow> tick \<Rightarrow> 'p layer \<Rightarrow> 'p layer outcome" where
  "send now src ok busy_time l =
     obind (tryTiming src l) (\<lambda>(accepted, l).
       if \<not> accepted then Inr l
       else if ok then succeededTiming now busy_time l
       else failedTiming now src busy_time l)"

fun sends :: "tick \<Rightarrow> 'p \<Rightarrow> (bool \<times> tick) list \<Rightarrow> 'p layer \<Rightarrow> 'p layer outcome" where
  "sends now src [] l = Inr l"
| "sends now src ((ok, t) # rs) l = obind (send now src ok t l) (sends now src rs)"

text \<open>
  Telling a port to retry, as the layer does by \<^verbatim>\<open>sendRetry\<close>. The result says which port was told.
\<close>

definition sendRetry :: "tick \<Rightarrow> 'p \<Rightarrow> (bool \<times> tick) list \<Rightarrow> 'p layer \<Rightarrow> ('p \<times> 'p layer) outcome" where
  "sendRetry now retry_port reaction l = obind (sends now retry_port reaction l) (\<lambda>l. Inr (retry_port, l))"

definition retryWaiting :: "tick \<Rightarrow> tick \<Rightarrow> (bool \<times> tick) list \<Rightarrow> clocked \<Rightarrow> 'p layer \<Rightarrow>
    ('p option \<times> 'p layer \<times> clocked) outcome" where
  "retryWaiting period now reaction c l =
     check (waitingForLayer l \<noteq> []) Assert_Failed
      (check (lstate l = IDLE) Assert_Failed
        (let l = l\<lparr>lstate := RETRY\<rparr>;
             retryingPort = hd (waitingForLayer l);
             l = l\<lparr>waitingForLayer := tl (waitingForLayer l)\<rparr>
         in obind (sendRetry now retryingPort reaction l) (\<lambda>(told, l).
              if lstate l = RETRY
              then let l = l\<lparr>lstate := BUSY\<rparr>
                   in obind (clockEdge period now c 0) (\<lambda>(edge, c).
                        obind (occupyLayer now edge l) (\<lambda>l. Inr (Some told, l, c)))
              else Inr (Some told, l, c))))"

text \<open>The release event has fired: it is no longer scheduled.\<close>

definition releaseLayer :: "tick \<Rightarrow> tick \<Rightarrow> (bool \<times> tick) list \<Rightarrow> clocked \<Rightarrow> 'p layer \<Rightarrow>
    ('p option \<times> 'p layer \<times> clocked) outcome" where
  "releaseLayer period now reaction c l =
     check (lstate l = BUSY) Assert_Failed
      (check (releaseEvent l = None) Assert_Failed
        (let l = l\<lparr>lstate := IDLE\<rparr>
         in if waitingForLayer l \<noteq> []
            then if waitingForPeer l = None then retryWaiting period now reaction c l else Inr (None, l, c)
            else if waitingForPeer l = None \<and> draining l then Inr (None, l\<lparr>draining := False\<rparr>, c)
            else Inr (None, l, c)))"

definition recvRetry :: "tick \<Rightarrow> tick \<Rightarrow> (bool \<times> tick) list \<Rightarrow> clocked \<Rightarrow> 'p layer \<Rightarrow>
    ('p option \<times> 'p layer \<times> clocked) outcome" where
  "recvRetry period now reaction c l =
     (case waitingForPeer l of None \<Rightarrow> Inl Assert_Failed
      | Some src \<Rightarrow>
        let l = l\<lparr>waitingForLayer := src # waitingForLayer l, waitingForPeer := None\<rparr>
        in if lstate l = IDLE then retryWaiting period now reaction c l
           else check (lstate l = BUSY) Assert_Failed (Inr (None, l, c)))"

definition layer_drain :: "'p layer \<Rightarrow> 'p layer" where
  "layer_drain l = (if lstate l \<noteq> IDLE then l\<lparr>draining := True\<rparr> else l)"

section \<open>Runs of a layer\<close>

text \<open>
  What can happen to a layer: a port sends, the release event fires, the destination retries,
  the simulator asks the layer to drain, or time passes. Nothing happens past the tick of a
  scheduled release before the release itself. A step returns the port it told to retry, if any.
\<close>

datatype 'p act =
  Send 'p bool tick
| Release "(bool \<times> tick) list"
| PeerRetry "(bool \<times> tick) list"
| Drain
| Elapse tick

record 'p lrun =
  the_layer :: "'p layer"
  the_clock :: clocked
  the_now :: tick

definition layer_start :: "'p lrun" where
  "layer_start = \<lparr>the_layer = Layer, the_clock = Clocked, the_now = 0\<rparr>"

definition with_layer :: "'p lrun \<Rightarrow> ('p option \<times> 'p layer \<times> clocked) outcome \<Rightarrow> ('p option \<times> 'p lrun) outcome" where
  "with_layer s r = obind r (\<lambda>(told, l, c). Inr (told, s\<lparr>the_layer := l, the_clock := c\<rparr>))"

fun layer_step :: "tick \<Rightarrow> 'p act \<Rightarrow> 'p lrun \<Rightarrow> ('p option \<times> 'p lrun) outcome" where
  "layer_step period (Send src ok t) s =
     obind (send (the_now s) src ok t (the_layer s)) (\<lambda>l. Inr (None, s\<lparr>the_layer := l\<rparr>))"
| "layer_step period (Release reaction) s =
     (case releaseEvent (the_layer s) of None \<Rightarrow> Inl Undefined
      | Some t \<Rightarrow>
        let s = s\<lparr>the_now := t, the_layer := (the_layer s)\<lparr>releaseEvent := None\<rparr>\<rparr>
        in with_layer s (releaseLayer period t reaction (the_clock s) (the_layer s)))"
| "layer_step period (PeerRetry reaction) s =
     with_layer s (recvRetry period (the_now s) reaction (the_clock s) (the_layer s))"
| "layer_step period Drain s = Inr (None, s\<lparr>the_layer := layer_drain (the_layer s)\<rparr>)"
| "layer_step period (Elapse t) s =
     check (the_now s \<le> t \<and> (case releaseEvent (the_layer s) of None \<Rightarrow> True | Some u \<Rightarrow> t \<le> u)) Undefined
       (Inr (None, s\<lparr>the_now := t\<rparr>))"

section \<open>The invariant\<close>

definition layer_inv :: "'p layer \<Rightarrow> bool" where
  "layer_inv l \<longleftrightarrow> lstate l \<noteq> RETRY \<and> (lstate l = BUSY \<longleftrightarrow> releaseEvent l \<noteq> None) \<and>
     (lstate l = IDLE \<and> waitingForPeer l = None \<longrightarrow> waitingForLayer l = [])"

lemma layer_drain_simps [simp]:
  "lstate (layer_drain l) = lstate l" "waitingForLayer (layer_drain l) = waitingForLayer l"
  "waitingForPeer (layer_drain l) = waitingForPeer l" "releaseEvent (layer_drain l) = releaseEvent l"
  by (simp_all add: layer_drain_def)

lemma occupyLayer_Inr:
  "occupyLayer now t l = Inr l' \<longleftrightarrow>
     lstate l = BUSY \<and> t \<noteq> 0 \<and> now \<le> t \<and> releaseEvent l = None \<and> l' = l\<lparr>releaseEvent := Some t\<rparr>"
  by (auto simp: occupyLayer_def check_def)

text \<open>A layer in the middle of a retry: no send was accepted yet, or one was.\<close>

definition busy_until :: "tick \<Rightarrow> 'p layer \<Rightarrow> bool" where
  "busy_until now l \<longleftrightarrow> lstate l = BUSY \<and> (\<exists>t. releaseEvent l = Some t \<and> t \<noteq> 0 \<and> now \<le> t)"

definition retry_inv :: "tick \<Rightarrow> 'p layer \<Rightarrow> bool" where
  "retry_inv now l \<longleftrightarrow> (lstate l = RETRY \<and> waitingForPeer l = None \<and> releaseEvent l = None) \<or> busy_until now l"

definition tail_of :: "'p layer \<Rightarrow> 'p layer \<Rightarrow> bool" where
  "tail_of l l' \<longleftrightarrow> (\<exists>ys. waitingForLayer l' = waitingForLayer l @ ys) \<and> draining l' = draining l"

lemma send_refused:
  assumes "lstate l = BUSY \<or> waitingForPeer l \<noteq> None"
  shows "send now src ok t l = Inr l' \<longleftrightarrow>
     src \<notin> set (waitingForLayer l) \<and> l' = l\<lparr>waitingForLayer := waitingForLayer l @ [src]\<rparr>"
  using assms by (auto simp: send_def tryTiming_def check_def)

lemma send_accepted:
  assumes "\<not> (lstate l = BUSY \<or> waitingForPeer l \<noteq> None)"
  shows "send now src ok t l = Inr l' \<longleftrightarrow> t \<noteq> 0 \<and> now \<le> t \<and> releaseEvent l = None \<and>
     l' = l\<lparr>lstate := BUSY, waitingForPeer := (if ok then None else Some src), releaseEvent := Some t\<rparr>"
  using assms by (cases l) (auto simp: send_def tryTiming_def succeededTiming_def failedTiming_def check_def
      occupyLayer_Inr Let_def)

lemma send_retry:
  assumes "send now src ok t l = Inr l'" "retry_inv now l"
  shows "retry_inv now l'" "tail_of l l'"
proof -
  have "retry_inv now l' \<and> tail_of l l'"
  proof (cases "lstate l = BUSY \<or> waitingForPeer l \<noteq> None")
    case True
    with assms show ?thesis by (auto simp: send_refused retry_inv_def busy_until_def tail_of_def)
  next
    case False
    with assms show ?thesis by (auto simp: send_accepted retry_inv_def busy_until_def tail_of_def)
  qed
  then show "retry_inv now l'" "tail_of l l'" by simp_all
qed

lemma sends_retry:
  "sends now src rs l = Inr l' \<Longrightarrow> retry_inv now l \<Longrightarrow> retry_inv now l' \<and> tail_of l l'"
proof (induction rs arbitrary: l)
  case (Cons r rs)
  obtain ok t where r: "r = (ok, t)" by force
  from Cons(2) obtain l1 where l1: "send now src ok t l = Inr l1" "sends now src rs l1 = Inr l'" by (auto simp: r)
  from Cons(1) [OF l1(2) send_retry(1) [OF l1(1) Cons(3)]] send_retry(2) [OF l1(1) Cons(3)]
  show ?case by (auto simp: tail_of_def)
qed (simp add: tail_of_def)

lemma retryWaiting_inv:
  assumes "retryWaiting period now rs c l = Inr (told, l', c')" "waitingForPeer l = None" "releaseEvent l = None"
  shows "layer_inv l'" "busy_until now l'" "\<exists>ys. waitingForLayer l' = tl (waitingForLayer l) @ ys" "waitingForLayer l \<noteq> []"
    "told = Some (hd (waitingForLayer l))"
proof -
  let ?l = "l\<lparr>lstate := RETRY, waitingForLayer := tl (waitingForLayer l)\<rparr>"
  from assms(1) obtain l1 where w: "waitingForLayer l \<noteq> []"
    and l1: "sends now (hd (waitingForLayer l)) rs ?l = Inr l1"
    and l2: "(if lstate l1 = RETRY then obind (clockEdge period now c 0) (\<lambda>(edge, c).
        obind (occupyLayer now edge (l1\<lparr>lstate := BUSY\<rparr>)) (\<lambda>l. Inr (l, c))) else Inr (l1, c)) = Inr (l', c')"
    and told: "told = Some (hd (waitingForLayer l))"
    by (auto simp: retryWaiting_def sendRetry_def check_def Let_def split: if_splits)
  have "retry_inv now ?l" using assms(2,3) by (simp add: retry_inv_def)
  from sends_retry [OF l1 this] have i: "retry_inv now l1" "tail_of ?l l1" by simp_all
  have "layer_inv l' \<and> busy_until now l' \<and> waitingForLayer l' = waitingForLayer l1"
    using l2 i(1) by (auto simp: retry_inv_def busy_until_def layer_inv_def occupyLayer_Inr split: if_splits)
  with i(2) w told show "layer_inv l'" "busy_until now l'" "\<exists>ys. waitingForLayer l' = tl (waitingForLayer l) @ ys" "waitingForLayer l \<noteq> []"
    "told = Some (hd (waitingForLayer l))" by (auto simp: tail_of_def)
qed

lemma recvRetry_Inr:
  assumes "recvRetry period now rs c l = Inr (told, l', c')" "layer_inv l"
  obtains (retry) src where "waitingForPeer l = Some src" "lstate l = IDLE" "layer_inv l'" "busy_until now l'"
      "\<exists>ys. waitingForLayer l' = waitingForLayer l @ ys" "told = Some src"
    | (queue) src where "waitingForPeer l = Some src" "lstate l = BUSY"
      "l' = l\<lparr>waitingForLayer := src # waitingForLayer l, waitingForPeer := None\<rparr>" "layer_inv l'" "told = None"
proof -
  obtain src where src: "waitingForPeer l = Some src" using assms(1) by (auto simp: recvRetry_def split: option.splits)
  let ?l = "l\<lparr>waitingForLayer := src # waitingForLayer l, waitingForPeer := None\<rparr>"
  show ?thesis
  proof (cases "lstate l = IDLE")
    case True
    with assms(1) src have r: "retryWaiting period now rs c ?l = Inr (told, l', c')" by (simp add: recvRetry_def)
    have "releaseEvent ?l = None" using assms(2) True by (simp add: layer_inv_def)
    note i = retryWaiting_inv [OF r _ this]
    show ?thesis using retry [OF src True] i by simp
  next
    case False
    with assms(1) src have "lstate l = BUSY" "l' = ?l" "told = None" by (auto simp: recvRetry_def check_def Let_def split: if_splits)
    moreover from this have "layer_inv l'" using assms(2) by (simp add: layer_inv_def)
    ultimately show ?thesis using queue [OF src] by simp
  qed
qed

lemma releaseLayer_Inr:
  assumes "releaseLayer period now rs c (l\<lparr>releaseEvent := None\<rparr>) = Inr (told, l', c')" "layer_inv l"
  obtains (retry) "waitingForPeer l = None" "waitingForLayer l \<noteq> []" "layer_inv l'" "busy_until now l'"
      "\<exists>ys. waitingForLayer l' = tl (waitingForLayer l) @ ys" "told = Some (hd (waitingForLayer l))"
    | (idle) "waitingForPeer l \<noteq> None \<or> waitingForLayer l = []" "lstate l' = IDLE" "layer_inv l'"
      "waitingForLayer l' = waitingForLayer l" "waitingForPeer l' = waitingForPeer l" "told = None"
proof (cases "waitingForPeer l = None \<and> waitingForLayer l \<noteq> []")
  case True
  with assms(1) have r: "retryWaiting period now rs c (l\<lparr>releaseEvent := None, lstate := IDLE\<rparr>) = Inr (told, l', c')"
    by (simp add: releaseLayer_def check_def Let_def split: if_splits)
  note i = retryWaiting_inv [OF r]
  show ?thesis using retry True i by simp
next
  case False
  with assms show ?thesis
    by (intro idle) (auto simp: releaseLayer_def check_def Let_def layer_inv_def split: if_splits)
qed

lemma with_layer_Inr:
  "with_layer s r = Inr (told, s') \<longleftrightarrow> (\<exists>l c. r = Inr (told, l, c) \<and> s' = s\<lparr>the_layer := l, the_clock := c\<rparr>)"
  by (cases r) (auto simp: with_layer_def)

lemma Release_Inr:
  assumes "layer_step period (Release rs) s = Inr (told, s')"
  obtains t c where "releaseEvent (the_layer s) = Some t" "the_now s' = t"
    "releaseLayer period t rs (the_clock s) ((the_layer s)\<lparr>releaseEvent := None\<rparr>) = Inr (told, the_layer s', c)"
  using assms by (auto simp: with_layer_Inr Let_def split: option.splits)

lemma PeerRetry_Inr:
  assumes "layer_step period (PeerRetry rs) s = Inr (told, s')"
  obtains c where "recvRetry period (the_now s) rs (the_clock s) (the_layer s) = Inr (told, the_layer s', c)"
  using assms by (auto simp: with_layer_Inr)

lemma Send_Inr:
  assumes "layer_step period (Send src ok t) s = Inr (told, s')"
  shows "send (the_now s) src ok t (the_layer s) = Inr (the_layer s')" "told = None"
  using assms by auto

lemma layer_step_inv:
  assumes "layer_step period a s = Inr (told, s')" "layer_inv (the_layer s)"
  shows "layer_inv (the_layer s')"
proof (cases a)
  case (Send src ok t)
  note e = Send_Inr(1) [OF assms(1) [unfolded Send]] and n = Send_Inr(2) [OF assms(1) [unfolded Send]]
  show ?thesis
  proof (cases "lstate (the_layer s) = BUSY \<or> waitingForPeer (the_layer s) \<noteq> None")
    case True
    with e assms(2) show ?thesis by (auto simp: send_refused layer_inv_def)
  next
    case False
    with e assms(2) show ?thesis by (auto simp: send_accepted layer_inv_def)
  qed
next
  case (Release rs)
  from Release_Inr [OF assms(1) [unfolded Release]] show ?thesis
    by (metis releaseLayer_Inr assms(2))
next
  case (PeerRetry rs)
  from PeerRetry_Inr [OF assms(1) [unfolded PeerRetry]] show ?thesis
    by (metis recvRetry_Inr assms(2))
next
  case Drain
  with assms show ?thesis by (auto simp: layer_inv_def)
next
  case (Elapse t)
  with assms show ?thesis by (auto simp: check_def split: if_splits)
qed

section \<open>How long a port waits\<close>

definition place :: "'p \<Rightarrow> 'p list \<Rightarrow> nat" where
  "place p xs = length (takeWhile (\<lambda>q. q \<noteq> p) xs)"

lemma place_simps:
  "place p (q # xs) = (if q = p then 0 else Suc (place p xs))"
  "p \<in> set xs \<Longrightarrow> place p (xs @ ys) = place p xs"
  by (auto simp: place_def takeWhile_append1)

lemma place_tl:
  assumes "p \<in> set xs" "hd xs \<noteq> p"
  shows "p \<in> set (tl xs)" "place p xs = Suc (place p (tl xs))"
  using assms by (cases xs; auto simp: place_simps)+

text \<open>The number of other ports in front of a port, the one waiting for the peer included.\<close>

definition rank :: "'p \<Rightarrow> 'p layer \<Rightarrow> nat" where
  "rank p l = place p (waitingForLayer l) + (if waitingForPeer l = None then 0 else 1)"

lemma layer_step_rank:
  assumes "layer_step period a s = Inr (told, s')" "layer_inv (the_layer s)" "p \<in> set (waitingForLayer (the_layer s))"
    "told \<noteq> Some p"
  shows "p \<in> set (waitingForLayer (the_layer s')) \<and> rank p (the_layer s') \<le> rank p (the_layer s) \<and>
    (told \<noteq> None \<and> waitingForPeer (the_layer s') = None \<longrightarrow> rank p (the_layer s') < rank p (the_layer s))"
proof (cases a)
  case (Send src ok t)
  note e = Send_Inr(1) [OF assms(1) [unfolded Send]] and n = Send_Inr(2) [OF assms(1) [unfolded Send]]
  have "lstate (the_layer s) = BUSY \<or> waitingForPeer (the_layer s) \<noteq> None"
    using assms(2,3) by (cases "lstate (the_layer s)") (auto simp: layer_inv_def)
  with e n assms(3) show ?thesis by (auto simp: send_refused rank_def place_simps)
next
  case (Release rs)
  from Release_Inr [OF assms(1) [unfolded Release]] obtain t c where
    r: "releaseLayer period t rs (the_clock s) ((the_layer s)\<lparr>releaseEvent := None\<rparr>) = Inr (told, the_layer s', c)"
    by metis
  from r assms(2) show ?thesis
  proof (cases rule: releaseLayer_Inr)
    case retry
    then obtain ys where ys: "waitingForLayer (the_layer s') = tl (waitingForLayer (the_layer s)) @ ys" by blast
    have "hd (waitingForLayer (the_layer s)) \<noteq> p" using assms(4) retry by simp
    note t = place_tl [OF assms(3) this]
    show ?thesis using t ys retry(1) by (simp add: rank_def place_simps)
  next
    case idle
    with assms(3) show ?thesis by (auto simp: rank_def)
  qed
next
  case (PeerRetry rs)
  from PeerRetry_Inr [OF assms(1) [unfolded PeerRetry]] obtain c where
    r: "recvRetry period (the_now s) rs (the_clock s) (the_layer s) = Inr (told, the_layer s', c)" by metis
  from r assms(2) show ?thesis
  proof (cases rule: recvRetry_Inr)
    case (retry src)
    with assms(3) show ?thesis by (auto simp: rank_def place_simps)
  next
    case (queue src)
    with assms(3) show ?thesis by (auto simp: rank_def place_simps)
  qed
next
  case Drain
  with assms show ?thesis by (auto simp: rank_def)
next
  case (Elapse t)
  with assms show ?thesis by (auto simp: check_def split: if_splits)
qed

section \<open>Endless runs\<close>

text \<open>The states, the actions and the ports told to retry.\<close>

definition layer_trace :: "tick \<Rightarrow> (nat \<Rightarrow> 'p lrun) \<Rightarrow> (nat \<Rightarrow> 'p act) \<Rightarrow> (nat \<Rightarrow> 'p option) \<Rightarrow> bool" where
  "layer_trace period \<sigma> \<alpha> \<rho> \<longleftrightarrow> \<sigma> 0 = layer_start \<and> (\<forall>i. layer_step period (\<alpha> i) (\<sigma> i) = Inr (\<rho> i, \<sigma> (Suc i)))"

fun is_release :: "'p act \<Rightarrow> bool" where
  "is_release (Release _) = True"
| "is_release _ = False"

fun is_peer_retry :: "'p act \<Rightarrow> bool" where
  "is_peer_retry (PeerRetry _) = True"
| "is_peer_retry _ = False"

text \<open>
  What the surroundings owe the layer: a scheduled release fires, a destination that refused a
  packet retries, and when ports are told to retry over and over, some retry is not answered
  by one more refusal.
\<close>

definition releases_fire :: "(nat \<Rightarrow> 'p lrun) \<Rightarrow> (nat \<Rightarrow> 'p act) \<Rightarrow> bool" where
  "releases_fire \<sigma> \<alpha> \<longleftrightarrow> (\<forall>i. releaseEvent (the_layer (\<sigma> i)) \<noteq> None \<longrightarrow> (\<exists>j \<ge> i. is_release (\<alpha> j)))"

definition peers_retry :: "(nat \<Rightarrow> 'p lrun) \<Rightarrow> (nat \<Rightarrow> 'p act) \<Rightarrow> bool" where
  "peers_retry \<sigma> \<alpha> \<longleftrightarrow> (\<forall>i. waitingForPeer (the_layer (\<sigma> i)) \<noteq> None \<longrightarrow> (\<exists>j \<ge> i. is_peer_retry (\<alpha> j)))"

definition not_always_refused :: "(nat \<Rightarrow> 'p lrun) \<Rightarrow> (nat \<Rightarrow> 'p option) \<Rightarrow> bool" where
  "not_always_refused \<sigma> \<rho> \<longleftrightarrow>
     (\<forall>i. (\<forall>k \<ge> i. \<exists>j \<ge> k. \<rho> j \<noteq> None) \<longrightarrow>
       (\<exists>j \<ge> i. \<rho> j \<noteq> None \<and> waitingForPeer (the_layer (\<sigma> (Suc j))) = None))"

lemma trace_inv:
  assumes "layer_trace period \<sigma> \<alpha> \<rho>"
  shows "layer_inv (the_layer (\<sigma> i))"
proof (induction i)
  case 0
  then show ?case using assms by (simp add: layer_trace_def layer_start_def Layer_def layer_inv_def)
next
  case (Suc i)
  then show ?case using assms layer_step_inv unfolding layer_trace_def by blast
qed

text \<open>A busy layer with no refused packet stays so until it is released.\<close>

lemma busy_step:
  assumes "layer_step period a s = Inr (told, s')" "\<not> is_release a" "lstate (the_layer s) = BUSY" "waitingForPeer (the_layer s) = None"
  shows "lstate (the_layer s') = BUSY" "waitingForPeer (the_layer s') = None"
proof -
  have "lstate (the_layer s') = BUSY \<and> waitingForPeer (the_layer s') = None"
  proof (cases a)
    case (Send src ok t)
    with Send_Inr(1) [OF assms(1) [unfolded Send]] assms(3,4) show ?thesis by (simp add: send_refused)
  next
    case (PeerRetry rs)
    with assms(1,4) show ?thesis by (auto simp: with_layer_Inr recvRetry_def)
  qed (use assms in \<open>auto simp: check_def split: if_splits\<close>)
  then show "lstate (the_layer s') = BUSY" "waitingForPeer (the_layer s') = None" by simp_all
qed

lemma busy_until_release:
  assumes "layer_trace period \<sigma> \<alpha> \<rho>" "lstate (the_layer (\<sigma> k)) = BUSY" "waitingForPeer (the_layer (\<sigma> k)) = None"
    "\<And>m. k \<le> m \<Longrightarrow> m < j \<Longrightarrow> \<not> is_release (\<alpha> m)" "k \<le> j"
  shows "lstate (the_layer (\<sigma> j)) = BUSY \<and> waitingForPeer (the_layer (\<sigma> j)) = None"
  using assms(5,4)
proof (induction j rule: dec_induct)
  case base
  then show ?case using assms(2,3) by simp
next
  case (step n)
  from step have "lstate (the_layer (\<sigma> n)) = BUSY \<and> waitingForPeer (the_layer (\<sigma> n)) = None" by simp
  moreover have "layer_step period (\<alpha> n) (\<sigma> n) = Inr (\<rho> n, \<sigma> (Suc n))" using assms(1) by (simp add: layer_trace_def)
  moreover have "\<not> is_release (\<alpha> n)" using step by simp
  ultimately show ?case using busy_step by blast
qed

lemma retry_when_free:
  assumes "layer_trace period \<sigma> \<alpha> \<rho>" "releases_fire \<sigma> \<alpha>" "lstate (the_layer (\<sigma> k)) = BUSY" "waitingForPeer (the_layer (\<sigma> k)) = None"
    "\<And>j. k \<le> j \<Longrightarrow> waitingForLayer (the_layer (\<sigma> j)) \<noteq> []"
  shows "\<exists>j \<ge> k. \<rho> j \<noteq> None"
proof -
  have "releaseEvent (the_layer (\<sigma> k)) \<noteq> None"
    using trace_inv [OF assms(1), of k] assms(3) by (simp add: layer_inv_def)
  then have ex: "\<exists>j. k \<le> j \<and> is_release (\<alpha> j)" using assms(2) by (auto simp: releases_fire_def)
  define j where "j = (LEAST j. k \<le> j \<and> is_release (\<alpha> j))"
  have j: "k \<le> j" "is_release (\<alpha> j)" using LeastI_ex [OF ex] by (simp_all add: j_def)
  have "\<not> is_release (\<alpha> m)" if "k \<le> m" "m < j" for m
    using not_less_Least [of m "\<lambda>j. k \<le> j \<and> is_release (\<alpha> j)"] that by (auto simp: j_def)
  from busy_until_release [OF assms(1,3,4) this j(1)]
  have free: "waitingForPeer (the_layer (\<sigma> j)) = None" by simp
  obtain rs where a: "\<alpha> j = Release rs" using j(2) by (cases "\<alpha> j") auto
  have "layer_step period (Release rs) (\<sigma> j) = Inr (\<rho> j, \<sigma> (Suc j))" using assms(1) a by (metis layer_trace_def)
  from Release_Inr [OF this] obtain t c where
    "releaseLayer period t rs (the_clock (\<sigma> j)) ((the_layer (\<sigma> j))\<lparr>releaseEvent := None\<rparr>) = Inr (\<rho> j, the_layer (\<sigma> (Suc j)), c)"
    by metis
  from this trace_inv [OF assms(1)] have "\<rho> j \<noteq> None"
    by (cases rule: releaseLayer_Inr) (use free assms(5) [OF j(1)] in auto)
  with j(1) show ?thesis by blast
qed

lemma retry_again:
  assumes "layer_trace period \<sigma> \<alpha> \<rho>" "releases_fire \<sigma> \<alpha>" "peers_retry \<sigma> \<alpha>"
    "\<And>j. k \<le> j \<Longrightarrow> waitingForLayer (the_layer (\<sigma> j)) \<noteq> []"
  shows "\<exists>j \<ge> k. \<rho> j \<noteq> None"
proof (cases "waitingForPeer (the_layer (\<sigma> k)) = None")
  case True
  then have "lstate (the_layer (\<sigma> k)) = BUSY"
    using trace_inv [OF assms(1), of k] assms(4) [of k] by (cases "lstate (the_layer (\<sigma> k))") (auto simp: layer_inv_def)
  from retry_when_free [OF assms(1,2) this True assms(4)] show ?thesis .
next
  case False
  then obtain j where j: "k \<le> j" "is_peer_retry (\<alpha> j)" using assms(3) by (auto simp: peers_retry_def)
  then obtain rs where a: "\<alpha> j = PeerRetry rs" by (cases "\<alpha> j") auto
  have st: "layer_step period (PeerRetry rs) (\<sigma> j) = Inr (\<rho> j, \<sigma> (Suc j))" using assms(1) a by (metis layer_trace_def)
  obtain c where r: "recvRetry period (the_now (\<sigma> j)) rs (the_clock (\<sigma> j)) (the_layer (\<sigma> j)) = Inr (\<rho> j, the_layer (\<sigma> (Suc j)), c)"
    using PeerRetry_Inr [OF st] by metis
  from r trace_inv [OF assms(1)] show ?thesis
  proof (cases rule: recvRetry_Inr)
    case (retry src)
    then have "\<rho> j \<noteq> None" by simp
    with j(1) show ?thesis by blast
  next
    case (queue src)
    then have "lstate (the_layer (\<sigma> (Suc j))) = BUSY" "waitingForPeer (the_layer (\<sigma> (Suc j))) = None" by simp_all
    from retry_when_free [OF assms(1,2) this] assms(4) j(1) obtain j' where "Suc j \<le> j'" "\<rho> j' \<noteq> None"
      by auto
    with j(1) show ?thesis by (intro exI [of _ j']) auto
  qed
qed

lemma waits_on:
  assumes "layer_trace period \<sigma> \<alpha> \<rho>" "p \<in> set (waitingForLayer (the_layer (\<sigma> i)))"
    "\<And>j. i \<le> j \<Longrightarrow> \<rho> j \<noteq> Some p" "i \<le> k" "k \<le> m"
  shows "p \<in> set (waitingForLayer (the_layer (\<sigma> m))) \<and> rank p (the_layer (\<sigma> m)) \<le> rank p (the_layer (\<sigma> k))"
proof -
  have st: "layer_step period (\<alpha> n) (\<sigma> n) = Inr (\<rho> n, \<sigma> (Suc n))" for n using assms(1) by (simp add: layer_trace_def)
  have w: "p \<in> set (waitingForLayer (the_layer (\<sigma> n)))" if "i \<le> n" for n
    using that
  proof (induction n rule: dec_induct)
    case (step n)
    then show ?case using layer_step_rank [OF st trace_inv [OF assms(1)] _ assms(3)] by blast
  qed (rule assms(2))
  have "rank p (the_layer (\<sigma> m)) \<le> rank p (the_layer (\<sigma> k))"
    using assms(5)
  proof (induction m rule: dec_induct)
    case (step n)
    then have n: "i \<le> n" using assms(4) by simp
    from layer_step_rank [OF st trace_inv [OF assms(1)] w [OF n] assms(3) [OF n]] step.IH show ?case by linarith
  qed simp
  with w assms(4,5) show ?thesis by simp
qed

section \<open>Properties\<close>

text \<open>
  C3. No port starves at a crossbar layer. In every endless run in which scheduled releases
  fire, destinations retry after a refusal, and not every retry is refused again, a port that
  waits for the layer is later told to retry: a later step calls \<^verbatim>\<open>sendRetry\<close> on it, however many
  other ports keep sending.
\<close>

theorem layer_no_starvation:
  assumes "layer_trace period \<sigma> \<alpha> \<rho>" "releases_fire \<sigma> \<alpha>" "peers_retry \<sigma> \<alpha>" "not_always_refused \<sigma> \<rho>"
    "p \<in> set (waitingForLayer (the_layer (\<sigma> i)))"
  shows "\<exists>j \<ge> i. \<rho> j = Some p"
proof (rule ccontr)
  assume "\<not> ?thesis"
  then have no: "\<rho> j \<noteq> Some p" if "i \<le> j" for j using that by blast
  have on: "p \<in> set (waitingForLayer (the_layer (\<sigma> m))) \<and> rank p (the_layer (\<sigma> m)) \<le> rank p (the_layer (\<sigma> k))"
    if "i \<le> k" "k \<le> m" for k m
    using that by (intro waits_on [OF assms(1,5)] no)
  have again: "\<exists>j \<ge> k. \<rho> j \<noteq> None" if "i \<le> k" for k
  proof (rule retry_again [OF assms(1-3)])
    show "waitingForLayer (the_layer (\<sigma> j)) \<noteq> []" if "k \<le> j" for j
      using on [of i j] \<open>i \<le> k\<close> that by auto
  qed
  have False if "rank p (the_layer (\<sigma> k)) = r" "i \<le> k" for k r
    using that
  proof (induction r arbitrary: k rule: less_induct)
    case (less r)
    obtain j where j: "k \<le> j" "\<rho> j \<noteq> None" "waitingForPeer (the_layer (\<sigma> (Suc j))) = None"
      using assms(4) again less(3) unfolding not_always_refused_def by (meson order.trans)
    then have ij: "i \<le> j" using less(3) by simp
    have "layer_step period (\<alpha> j) (\<sigma> j) = Inr (\<rho> j, \<sigma> (Suc j))" using assms(1) by (simp add: layer_trace_def)
    from layer_step_rank [OF this trace_inv [OF assms(1)] _ no [OF ij]] on [OF ij, of j] j(2,3)
    have "rank p (the_layer (\<sigma> (Suc j))) < rank p (the_layer (\<sigma> j))" by simp
    also have "\<dots> \<le> r" using on [OF less(3) j(1)] less(2) by simp
    finally show False by (rule less(1) [OF _ refl]) (use ij in simp)
  qed
  then show False by blast
qed

text \<open>Two ports: the second waits for the first, sends after the release, and nothing follows.\<close>

definition demo_act :: "nat \<Rightarrow> nat act" where
  "demo_act n = (if n = 0 then Send 1 True 10 else if n = 1 then Send 2 True 20
     else if n = 2 then Release [(True, 20)] else if n = 3 then Release [] else Elapse 20)"

primrec demo_trace :: "nat \<Rightarrow> nat lrun" where
  "demo_trace 0 = layer_start"
| "demo_trace (Suc n) = snd (projr (layer_step 10 (demo_act n) (demo_trace n)))"

definition demo_told :: "nat \<Rightarrow> nat option" where
  "demo_told n = fst (projr (layer_step 10 (demo_act n) (demo_trace n)))"

lemma demo_steps:
  "demo_trace 1 = layer_start\<lparr>the_layer := Layer\<lparr>lstate := BUSY, releaseEvent := Some 10\<rparr>\<rparr>"
  "demo_trace 2 = layer_start\<lparr>the_layer := Layer\<lparr>lstate := BUSY, releaseEvent := Some 10, waitingForLayer := [2]\<rparr>\<rparr>"
  "demo_trace 3 = \<lparr>the_layer = Layer\<lparr>lstate := BUSY, releaseEvent := Some 20\<rparr>, the_clock = Clocked, the_now = 10\<rparr>"
  "demo_trace 4 = \<lparr>the_layer = Layer, the_clock = Clocked, the_now = 20\<rparr>"
  by code_simp+

lemma demo_end: "4 \<le> n \<Longrightarrow> demo_trace n = \<lparr>the_layer = Layer, the_clock = Clocked, the_now = 20\<rparr>"
proof (induction n rule: dec_induct)
  case base
  show ?case by (rule demo_steps)
next
  case (step n)
  then show ?case by (simp add: demo_act_def Layer_def check_def)
qed

lemma demo_layer_trace: "layer_trace 10 demo_trace demo_act demo_told"
proof -
  have "layer_step 10 (demo_act 0) (demo_trace 0) = Inr (demo_told 0, demo_trace (Suc 0))"
    "layer_step 10 (demo_act 1) (demo_trace 1) = Inr (demo_told 1, demo_trace (Suc 1))"
    "layer_step 10 (demo_act 2) (demo_trace 2) = Inr (demo_told 2, demo_trace (Suc 2))"
    "layer_step 10 (demo_act 3) (demo_trace 3) = Inr (demo_told 3, demo_trace (Suc 3))" by code_simp+
  moreover have "layer_step 10 (demo_act i) (demo_trace i) = Inr (demo_told i, demo_trace (Suc i))" if "4 \<le> i" for i
    using demo_end [OF that] demo_end [of "Suc i"] that by (simp add: demo_act_def demo_told_def Layer_def check_def)
  moreover have "i = 0 \<or> i = 1 \<or> i = 2 \<or> i = 3 \<or> 4 \<le> i" for i :: nat by linarith
  ultimately have "layer_step 10 (demo_act i) (demo_trace i) = Inr (demo_told i, demo_trace (Suc i))" for i by metis
  then show ?thesis by (simp add: layer_trace_def)
qed

lemma demo_fair: "releases_fire demo_trace demo_act" "peers_retry demo_trace demo_act" "not_always_refused demo_trace demo_told"
proof -
  have d: "i = 0 \<or> i = 1 \<or> i = 2 \<or> i = 3 \<or> 4 \<le> i" for i :: nat by linarith
  show "releases_fire demo_trace demo_act"
    unfolding releases_fire_def
  proof (intro allI impI)
    fix i assume r: "releaseEvent (the_layer (demo_trace i)) \<noteq> None"
    have "i < 4"
    proof (rule ccontr)
      assume "\<not> i < 4"
      with r demo_end [of i] show False by (simp add: Layer_def)
    qed
    then show "\<exists>j \<ge> i. is_release (demo_act j)" by (intro exI [of _ 3]) (simp add: demo_act_def)
  qed
  have "waitingForPeer (the_layer (demo_trace 0)) = None" "waitingForPeer (the_layer (demo_trace 1)) = None"
    "waitingForPeer (the_layer (demo_trace 2)) = None" "waitingForPeer (the_layer (demo_trace 3)) = None" by code_simp+
  moreover have "waitingForPeer (the_layer (demo_trace i)) = None" if "4 \<le> i" for i
    using demo_end [OF that] by (simp add: Layer_def)
  ultimately have "waitingForPeer (the_layer (demo_trace i)) = None" for i using d [of i] by metis
  then show "peers_retry demo_trace demo_act" by (simp add: peers_retry_def)
  have "demo_told j = None" if "4 \<le> j" for j using that demo_end [OF that] by (simp add: demo_told_def demo_act_def Layer_def check_def)
  then have "\<not> (\<exists>j \<ge> max i 4. demo_told j \<noteq> None)" for i by auto
  then show "not_always_refused demo_trace demo_told" unfolding not_always_refused_def by (meson max.cobounded1)
qed

theorem layer_no_starvation_witness:
  "2 \<in> set (waitingForLayer (the_layer (demo_trace 2))) \<and> (\<exists>j \<ge> 2. demo_told j = Some 2)"
proof -
  have "2 \<in> set (waitingForLayer (the_layer (demo_trace 2)))" by (simp add: demo_steps)
  with layer_no_starvation [OF demo_layer_trace demo_fair, of 2 2] show ?thesis by blast
qed

text \<open>
  The steps the surroundings may take: a port that already waits does not send again, a port
  that is told to retry sends at most once, the layer is occupied until a tick that has not
  passed, and the clock of the crossbar runs.
\<close>

fun reaction_ok :: "tick \<Rightarrow> (bool \<times> tick) list \<Rightarrow> bool" where
  "reaction_ok now [] = True"
| "reaction_ok now [(ok, t)] = (now \<le> t)"
| "reaction_ok now (_ # _ # _) = False"

fun legal :: "tick \<Rightarrow> 'p act \<Rightarrow> 'p lrun \<Rightarrow> bool" where
  "legal period (Send src ok t) s \<longleftrightarrow> src \<notin> set (waitingForLayer (the_layer s)) \<and> t \<noteq> 0 \<and> the_now s \<le> t"
| "legal period (Release rs) s \<longleftrightarrow> (case releaseEvent (the_layer s) of None \<Rightarrow> False
     | Some t \<Rightarrow> reaction_ok t rs \<and> in_time period t (the_clock s))"
| "legal period (PeerRetry rs) s \<longleftrightarrow> waitingForPeer (the_layer s) \<noteq> None \<and> reaction_ok (the_now s) rs \<and>
     in_time period (the_now s) (the_clock s)"
| "legal period Drain s \<longleftrightarrow> True"
| "legal period (Elapse t) s \<longleftrightarrow> the_now s \<le> t \<and>
     (case releaseEvent (the_layer s) of None \<Rightarrow> True | Some u \<Rightarrow> t \<le> u)"

inductive layer_reach :: "tick \<Rightarrow> 'p lrun \<Rightarrow> bool" for period where
  start: "layer_reach period layer_start"
| step: "layer_reach period s \<Longrightarrow> layer_step period a s = Inr (told, s') \<Longrightarrow> layer_reach period s'"

definition times_ok :: "'p lrun \<Rightarrow> bool" where
  "times_ok s \<longleftrightarrow> (case releaseEvent (the_layer s) of
       None \<Rightarrow> waitingForPeer (the_layer s) \<noteq> None \<longrightarrow> the_now s \<noteq> 0
     | Some t \<Rightarrow> t \<noteq> 0 \<and> the_now s \<le> t)"

lemma busy_until_ok: "busy_until (the_now s) (the_layer s) \<Longrightarrow> times_ok s"
  by (auto simp: busy_until_def times_ok_def)

lemma layer_step_times:
  assumes "layer_step period a s = Inr (told, s')" "layer_inv (the_layer s)" "times_ok s"
  shows "times_ok s'"
proof (cases a)
  case (Send src ok t)
  note e = Send_Inr(1) [OF assms(1) [unfolded Send]] and n = Send_Inr(2) [OF assms(1) [unfolded Send]]
  have n: "the_now s' = the_now s" using assms(1) Send by auto
  show ?thesis
  proof (cases "lstate (the_layer s) = BUSY \<or> waitingForPeer (the_layer s) \<noteq> None")
    case True
    with e have "the_layer s' = (the_layer s)\<lparr>waitingForLayer := waitingForLayer (the_layer s) @ [src]\<rparr>"
      by (simp add: send_refused)
    with n assms(3) show ?thesis by (simp add: times_ok_def split: option.splits)
  next
    case False
    with e n show ?thesis by (simp add: send_accepted times_ok_def)
  qed
next
  case (Release rs)
  from Release_Inr [OF assms(1) [unfolded Release]] obtain t c where
    r: "releaseEvent (the_layer s) = Some t" "the_now s' = t"
    "releaseLayer period t rs (the_clock s) ((the_layer s)\<lparr>releaseEvent := None\<rparr>) = Inr (told, the_layer s', c)" by metis
  from r(3) assms(2) show ?thesis
  proof (cases rule: releaseLayer_Inr)
    case retry
    then show ?thesis using r by (intro busy_until_ok) simp
  next
    case idle
    have "t \<noteq> 0" using assms(3) r(1) by (simp add: times_ok_def)
    moreover have "releaseEvent (the_layer s') = None" using idle by (simp add: layer_inv_def)
    ultimately show ?thesis using r by (simp add: times_ok_def)
  qed
next
  case (PeerRetry rs)
  have n: "the_now s' = the_now s" using assms(1) PeerRetry by (auto simp: with_layer_Inr)
  from PeerRetry_Inr [OF assms(1) [unfolded PeerRetry]] obtain c where
    r: "recvRetry period (the_now s) rs (the_clock s) (the_layer s) = Inr (told, the_layer s', c)" by metis
  from r assms(2) show ?thesis
  proof (cases rule: recvRetry_Inr)
    case (retry src)
    then show ?thesis using n by (intro busy_until_ok) simp
  next
    case (queue src)
    with assms(2,3) n show ?thesis by (auto simp: times_ok_def layer_inv_def split: option.splits)
  qed
next
  case Drain
  with assms show ?thesis by (auto simp: times_ok_def split: option.splits)
next
  case (Elapse t)
  with assms have "the_now s \<le> t" "s' = s\<lparr>the_now := t\<rparr>"
    "case releaseEvent (the_layer s) of None \<Rightarrow> True | Some u \<Rightarrow> t \<le> u" by (auto simp: check_def split: if_splits)
  with assms(3) show ?thesis by (auto simp: times_ok_def split: option.splits)
qed

lemma layer_reach_ok: "layer_reach period s \<Longrightarrow> layer_inv (the_layer s) \<and> times_ok s"
proof (induction rule: layer_reach.induct)
  case start
  show ?case by (simp add: layer_start_def Layer_def layer_inv_def times_ok_def)
next
  case (step s a told s')
  then show ?case using layer_step_inv layer_step_times by blast
qed

lemma retryWaiting_total:
  assumes "waitingForLayer l \<noteq> []" "lstate l = IDLE" "waitingForPeer l = None" "releaseEvent l = None"
    "now \<noteq> 0" "reaction_ok now rs" "in_time period now c"
  shows "\<exists>r. retryWaiting period now rs c l = Inr r"
proof -
  let ?l = "l\<lparr>lstate := RETRY, waitingForLayer := tl (waitingForLayer l)\<rparr>" and ?p = "hd (waitingForLayer l)"
  consider "rs = []" | ok t where "rs = [(ok, t)]" "now \<le> t"
    using assms(6) by (cases "(now, rs)" rule: reaction_ok.cases) auto
  then show ?thesis
  proof cases
    case 1
    obtain c' where c': "clk_update period now c = Inr c'" "now \<le> clk_tick c'"
      using clk_update_advanced [OF assms(7)] by (auto simp: advanced_def)
    then have "clk_tick c' \<noteq> 0" using assms(5) by (metis word_le_0_iff)
    with c' 1 assms show ?thesis
      by (simp add: retryWaiting_def sendRetry_def Let_def clockEdge_def occupyLayer_def)
  next
    case 2
    have "t \<noteq> 0" using 2(2) assms(5) by (metis word_le_0_iff)
    then obtain l' where "send now ?p ok t ?l = Inr l'" "lstate l' = BUSY"
      using 2(2) assms(3,4) by (auto simp: send_accepted)
    with 2(1) assms(1,2) have "retryWaiting period now rs c l = Inr (Some ?p, l', c)" by (simp add: retryWaiting_def sendRetry_def)
    then show ?thesis ..
  qed
qed

text \<open>
  C26. The assertions of a crossbar layer never fail. In every state a layer reaches, each step
  its surroundings may take succeeds: the release event is never scheduled twice or in the
  past, the layer is busy exactly when its release is scheduled, it is never left in the retry
  state, and no port is left waiting at an idle layer whose destination is not to retry.
\<close>

theorem layer_never_asserts:
  assumes "layer_reach period s" "legal period a s"
  shows "(\<exists>told s'. layer_step period a s = Inr (told, s') \<and> layer_reach period s') \<and>
    (lstate (the_layer s) = BUSY \<longleftrightarrow> releaseEvent (the_layer s) \<noteq> None) \<and> lstate (the_layer s) \<noteq> RETRY \<and>
    (lstate (the_layer s) = BUSY \<or> waitingForPeer (the_layer s) \<noteq> None \<or> waitingForLayer (the_layer s) = [])"
proof -
  let ?l = "the_layer s"
  have i: "layer_inv ?l" "times_ok s" using layer_reach_ok [OF assms(1)] by simp_all
  have "\<exists>told s'. layer_step period a s = Inr (told, s')"
  proof (cases a)
    case (Send src ok t)
    with assms(2) have "\<exists>l. send (the_now s) src ok t ?l = Inr l"
      using i(1) by (cases "lstate ?l = BUSY \<or> waitingForPeer ?l \<noteq> None")
        (auto simp: send_refused send_accepted layer_inv_def)
    with Send show ?thesis by auto
  next
    case (Release rs)
    with assms(2) obtain t where t: "releaseEvent ?l = Some t" "reaction_ok t rs" "in_time period t (the_clock s)"
      by (auto split: option.splits)
    have b: "lstate ?l = BUSY" "t \<noteq> 0" using i t(1) by (simp_all add: layer_inv_def times_ok_def)
    have "\<exists>r. retryWaiting period t rs (the_clock s) (?l\<lparr>releaseEvent := None, lstate := IDLE\<rparr>) = Inr r"
      if "waitingForLayer ?l \<noteq> []" "waitingForPeer ?l = None"
      using that b t by (intro retryWaiting_total) simp_all
    then show ?thesis using Release t b by (auto simp: with_layer_Inr Let_def releaseLayer_def check_def)
  next
    case (PeerRetry rs)
    with assms(2) obtain src where src: "waitingForPeer ?l = Some src" by auto
    let ?m = "?l\<lparr>waitingForLayer := src # waitingForLayer ?l, waitingForPeer := None\<rparr>"
    have "\<exists>r. retryWaiting period (the_now s) rs (the_clock s) ?m = Inr r" if "lstate ?l = IDLE"
      using that i src assms(2) PeerRetry
      by (intro retryWaiting_total) (auto simp: layer_inv_def times_ok_def split: option.splits)
    then show ?thesis using PeerRetry src i(1)
      by (cases "lstate ?l") (auto simp: with_layer_Inr recvRetry_def Let_def layer_inv_def)
  next
    case (Elapse t)
    with assms(2) show ?thesis by (auto simp: check_def)
  qed simp
  then show ?thesis
    using layer_reach.step [OF assms(1)] i(1) by (cases "lstate ?l") (auto simp: layer_inv_def)
qed

theorem layer_never_asserts_witness:
  "layer_reach 10 (demo_trace 2) \<and> legal 10 (Release [(True, 20)]) (demo_trace 2) \<and>
   (\<exists>told s'. layer_step 10 (Release [(True, 20)]) (demo_trace 2) = Inr (told, s') \<and> layer_reach 10 s')"
proof -
  have t: "layer_step 10 (demo_act i) (demo_trace i) = Inr (demo_told i, demo_trace (Suc i))" for i
    using demo_layer_trace by (simp add: layer_trace_def)
  have "layer_reach 10 (demo_trace i)" for i
  proof (induction i)
    case 0
    show ?case by (simp add: layer_reach.start)
  next
    case (Suc i)
    from layer_reach.step [OF this t] show ?case .
  qed
  moreover have "legal 10 (Release [(True, 20)]) (demo_trace 2)"
    by (simp add: demo_steps in_time_def layer_start_def)
  ultimately show ?thesis using layer_never_asserts by blast
qed

end
