(* ===== verification/NoncoherentXBar.thy ===== *)
theory NoncoherentXBar
  imports XBar XBarLayer
begin

text \<open>
  The non-coherent crossbar, \<^verbatim>\<open>mem/noncoherent_xbar.cc\<close>: requests are routed by address through
  one layer per memory-side port, responses find their way back through the table \<open>routeTo\<close>
  and one layer per CPU-side port. What a destination answers to \<^verbatim>\<open>sendTimingReq\<close> is an argument;
  it does not call the crossbar back before it answers. A port that is told to retry may: what
  it and its peers call before \<^verbatim>\<open>sendRetry\<close> returns is the argument \<open>reaction\<close>. Statistics are
  left out.
\<close>

section \<open>The crossbar\<close>

record nc_config =
  cfg_us :: tick
  cfg_width :: u32
  cfg_period :: tick
  frontendLatency :: u64
  forwardLatency :: u64
  responseLatency :: u64

record 'r nc_packet =
  pkt_req :: 'r
  pkt_range :: addr_range
  pkt_data :: "u32 option"
  needsResponse :: bool
  cacheResponding :: bool
  isExpressSnoop :: bool
  pkt_timing :: packet_timing

record 'r ncx =
  nc_base :: xbar
  nc_clock :: clocked
  reqLayers :: "int layer list"
  respLayers :: "int layer list"
  routeTo :: "'r \<Rightarrow> int option"

definition NoncoherentXBar :: "nat \<Rightarrow> bool \<Rightarrow> nat \<Rightarrow> bool \<Rightarrow> 'r ncx" where
  "NoncoherentXBar n has_default cpus use_default =
     \<lparr>nc_base = BaseXBar n has_default use_default, nc_clock = Clocked,
      reqLayers = replicate (n + (if has_default then 1 else 0)) Layer,
      respLayers = replicate cpus Layer, routeTo = Map.empty\<rparr>"

text \<open>Indexing a vector out of range is undefined.\<close>

definition at_port :: "'a list \<Rightarrow> int \<Rightarrow> 'a outcome" where
  "at_port xs p = check (0 \<le> p \<and> nat p < length xs) Undefined (Inr (xs ! nat p))"

section \<open>Requests\<close>

definition remember_route :: "bool \<Rightarrow> 'r \<Rightarrow> int \<Rightarrow> ('r \<Rightarrow> int option) \<Rightarrow> ('r \<Rightarrow> int option) outcome" where
  "remember_route expect_response req src routes =
     (if expect_response
      then check (routes req = None) Assert_Failed (Inr (routes(req \<mapsto> src)))
      else Inr routes)"

text \<open>The result is what the call returns, the packet with its delays, and the crossbar.\<close>

definition recvTimingReq :: "nc_config \<Rightarrow> tick \<Rightarrow> (int \<Rightarrow> bool) \<Rightarrow> 'r nc_packet \<Rightarrow> int \<Rightarrow> 'r ncx \<Rightarrow>
    (bool \<times> 'r nc_packet \<times> 'r ncx) outcome" where
  "recvTimingReq cfg now answers pkt src x =
     obind (at_port (respLayers x) src) (\<lambda>_.
      check (\<not> isExpressSnoop pkt) Assert_Failed
       (obind (findPort (nc_base x) (pkt_range pkt)) (\<lambda>(dst, b).
         let x = x\<lparr>nc_base := b\<rparr>
         in obind (at_port (reqLayers x) dst) (\<lambda>l.
          obind (tryTiming src l) (\<lambda>(accepted, l).
           if \<not> accepted then Inr (False, pkt, x\<lparr>reqLayers := (reqLayers x)[nat dst := l]\<rparr>)
           else
             let old_header_delay = headerDelay (pkt_timing pkt);
                 xbar_delay = (frontendLatency cfg + forwardLatency cfg) * cfg_period cfg
             in obind (calcPacketTiming (cfg_us cfg) (cfg_width cfg) (cfg_period cfg) now (nc_clock x)
                        (pkt_data pkt) xbar_delay (pkt_timing pkt)) (\<lambda>(tm, c).
               obind (clockEdge (cfg_period cfg) now c 1) (\<lambda>(edge, c).
                 let packetFinishTime = edge + ucast (payloadDelay tm);
                     expect_response = needsResponse pkt \<and> \<not> cacheResponding pkt;
                     x = x\<lparr>nc_clock := c\<rparr>
                 in if \<not> answers dst
                    then let pkt = pkt\<lparr>pkt_timing := tm\<lparr>headerDelay := old_header_delay\<rparr>\<rparr>
                         in obind (clockEdge (cfg_period cfg) now c 1) (\<lambda>(edge, c).
                              obind (failedTiming now src edge l) (\<lambda>l.
                                Inr (False, pkt, x\<lparr>nc_clock := c, reqLayers := (reqLayers x)[nat dst := l]\<rparr>)))
                    else obind (remember_route expect_response (pkt_req pkt) src (routeTo x)) (\<lambda>r.
                           obind (succeededTiming now packetFinishTime l) (\<lambda>l.
                             Inr (True, pkt\<lparr>pkt_timing := tm\<rparr>,
                               x\<lparr>routeTo := r, reqLayers := (reqLayers x)[nat dst := l]\<rparr>))))))))))"

section \<open>Responses\<close>

text \<open>A response that is taken is scheduled at a CPU-side port for a tick.\<close>

definition recvTimingResp :: "nc_config \<Rightarrow> tick \<Rightarrow> 'r nc_packet \<Rightarrow> int \<Rightarrow> 'r ncx \<Rightarrow>
    ((int \<times> tick) option \<times> 'r nc_packet \<times> 'r ncx) outcome" where
  "recvTimingResp cfg now pkt src x =
     obind (at_port (reqLayers x) src) (\<lambda>_.
       case routeTo x (pkt_req pkt) of None \<Rightarrow> Inl Assert_Failed
       | Some dst \<Rightarrow>
         check (dst \<noteq> - 1 \<and> dst < int (length (respLayers x))) Assert_Failed
          (obind (at_port (respLayers x) dst) (\<lambda>l.
           obind (tryTiming src l) (\<lambda>(accepted, l).
             if \<not> accepted then Inr (None, pkt, x\<lparr>respLayers := (respLayers x)[nat dst := l]\<rparr>)
             else
               let xbar_delay = responseLatency cfg * cfg_period cfg
               in obind (calcPacketTiming (cfg_us cfg) (cfg_width cfg) (cfg_period cfg) now (nc_clock x)
                          (pkt_data pkt) xbar_delay (pkt_timing pkt)) (\<lambda>(tm, c).
                 obind (clockEdge (cfg_period cfg) now c 1) (\<lambda>(edge, c).
                   let packetFinishTime = edge + ucast (payloadDelay tm);
                       latency = ucast (headerDelay tm);
                       pkt = pkt\<lparr>pkt_timing := tm\<lparr>headerDelay := 0\<rparr>\<rparr>
                   in obind (succeededTiming now packetFinishTime l) (\<lambda>l.
                        Inr (Some (dst, now + latency), pkt,
                          x\<lparr>nc_clock := c, routeTo := (routeTo x)(pkt_req pkt := None),
                            respLayers := (respLayers x)[nat dst := l]\<rparr>))))))))"

section \<open>Atomic and functional accesses\<close>

text \<open>Both go to the port \<^verbatim>\<open>findPort\<close> names; the latency of an atomic access is the destination's.\<close>

definition recvAtomic :: "(int \<Rightarrow> tick) \<Rightarrow> 'r nc_packet \<Rightarrow> 'r ncx \<Rightarrow> (tick \<times> 'r nc_packet \<times> 'r ncx) outcome" where
  "recvAtomic latency_of pkt x =
     obind (findPort (nc_base x) (pkt_range pkt)) (\<lambda>(dst, b).
       obind (at_port (reqLayers x) dst) (\<lambda>_.
         let lat = latency_of dst
         in Inr (lat, pkt\<lparr>pkt_timing := (pkt_timing pkt)\<lparr>payloadDelay := ucast lat\<rparr>\<rparr>, x\<lparr>nc_base := b\<rparr>)))"

text \<open>\<open>satisfied\<close> tells for every CPU-side port whether its queue holds the data.\<close>

definition recvFunctional :: "bool list \<Rightarrow> 'r nc_packet \<Rightarrow> 'r ncx \<Rightarrow> (int option \<times> 'r ncx) outcome" where
  "recvFunctional satisfied pkt x =
     (if list_ex (\<lambda>b. b) satisfied then Inr (None, x)
      else obind (findPort (nc_base x) (pkt_range pkt)) (\<lambda>(dst, b).
             obind (at_port (reqLayers x) dst) (\<lambda>_. Inr (Some dst, x\<lparr>nc_base := b\<rparr>))))"

text \<open>A request for a backdoor is passed on the same way.\<close>

definition recvMemBackdoorReq :: "addr_range \<Rightarrow> 'r ncx \<Rightarrow> (int \<times> 'r ncx) outcome" where
  "recvMemBackdoorReq r x =
     obind (findPort (nc_base x) r) (\<lambda>(dst, b).
       obind (at_port (reqLayers x) dst) (\<lambda>_. Inr (dst, x\<lparr>nc_base := b\<rparr>)))"

section \<open>Calls and their effects\<close>

text \<open>
  A log of what crossed the crossbar: requests whose response is owed to a port, and responses
  handed to a port.
\<close>

datatype 'r nc_event = Owed 'r int | Answered 'r int

datatype 'r nc_call = Req "int \<Rightarrow> bool" "'r nc_packet" int | Resp "'r nc_packet" int

fun do_call :: "nc_config \<Rightarrow> tick \<Rightarrow> 'r nc_call \<Rightarrow> 'r ncx \<Rightarrow> ('r nc_event list \<times> 'r ncx) outcome" where
  "do_call cfg now (Req answers pkt src) x =
     obind (recvTimingReq cfg now answers pkt src x) (\<lambda>(ok, _, x).
       Inr (if ok \<and> needsResponse pkt \<and> \<not> cacheResponding pkt then [Owed (pkt_req pkt) src] else [], x))"
| "do_call cfg now (Resp pkt src) x =
     obind (recvTimingResp cfg now pkt src x) (\<lambda>(r, _, x).
       Inr (case r of None \<Rightarrow> [] | Some (dst, _) \<Rightarrow> [Answered (pkt_req pkt) dst], x))"

fun do_calls :: "nc_config \<Rightarrow> tick \<Rightarrow> 'r nc_call list \<Rightarrow> 'r ncx \<Rightarrow> ('r nc_event list \<times> 'r ncx) outcome" where
  "do_calls cfg now [] x = Inr ([], x)"
| "do_calls cfg now (c # cs) x =
     obind (do_call cfg now c x) (\<lambda>(es, x). obind (do_calls cfg now cs x) (\<lambda>(fs, x). Inr (es @ fs, x)))"

section \<open>Retries and releases\<close>

text \<open>
  A layer of the crossbar: the request layer or the response layer of a port. The functions of
  \<^verbatim>\<open>BaseXBar::Layer\<close> that send a retry, with the calls that follow from it running on the whole
  crossbar.
\<close>

datatype layer_id = ReqLayer int | RespLayer int

fun get_layer :: "layer_id \<Rightarrow> 'r ncx \<Rightarrow> int layer outcome" where
  "get_layer (ReqLayer p) x = at_port (reqLayers x) p"
| "get_layer (RespLayer p) x = at_port (respLayers x) p"

fun put_layer :: "layer_id \<Rightarrow> int layer \<Rightarrow> 'r ncx \<Rightarrow> 'r ncx" where
  "put_layer (ReqLayer p) l x = x\<lparr>reqLayers := (reqLayers x)[nat p := l]\<rparr>"
| "put_layer (RespLayer p) l x = x\<lparr>respLayers := (respLayers x)[nat p := l]\<rparr>"

definition nc_retryWaiting :: "nc_config \<Rightarrow> tick \<Rightarrow> 'r nc_call list \<Rightarrow> layer_id \<Rightarrow> 'r ncx \<Rightarrow>
    ('r nc_event list \<times> 'r ncx) outcome" where
  "nc_retryWaiting cfg now reaction d x =
     obind (get_layer d x) (\<lambda>l.
      check (waitingForLayer l \<noteq> []) Assert_Failed
       (check (lstate l = IDLE) Assert_Failed
         (obind (do_calls cfg now reaction
                  (put_layer d (l\<lparr>lstate := RETRY, waitingForLayer := tl (waitingForLayer l)\<rparr>) x)) (\<lambda>(es, x).
           obind (get_layer d x) (\<lambda>l.
             if lstate l = RETRY
             then obind (clockEdge (cfg_period cfg) now (nc_clock x) 0) (\<lambda>(edge, c).
                    obind (occupyLayer now edge (l\<lparr>lstate := BUSY\<rparr>)) (\<lambda>l.
                      Inr (es, put_layer d l (x\<lparr>nc_clock := c\<rparr>))))
             else Inr (es, x))))))"

text \<open>The release event of a layer fires.\<close>

definition nc_releaseLayer :: "nc_config \<Rightarrow> tick \<Rightarrow> 'r nc_call list \<Rightarrow> layer_id \<Rightarrow> 'r ncx \<Rightarrow>
    ('r nc_event list \<times> 'r ncx) outcome" where
  "nc_releaseLayer cfg now reaction d x =
     obind (get_layer d x) (\<lambda>l.
      check (releaseEvent l = Some now) Undefined
       (let l = l\<lparr>releaseEvent := None\<rparr>
        in check (lstate l = BUSY) Assert_Failed
          (let l = l\<lparr>lstate := IDLE\<rparr>
           in if waitingForLayer l \<noteq> []
              then if waitingForPeer l = None then nc_retryWaiting cfg now reaction d (put_layer d l x)
                   else Inr ([], put_layer d l x)
              else if waitingForPeer l = None \<and> draining l then Inr ([], put_layer d (l\<lparr>draining := False\<rparr>) x)
              else Inr ([], put_layer d l x))))"

definition recvReqRetry :: "nc_config \<Rightarrow> tick \<Rightarrow> 'r nc_call list \<Rightarrow> int \<Rightarrow> 'r ncx \<Rightarrow>
    ('r nc_event list \<times> 'r ncx) outcome" where
  "recvReqRetry cfg now reaction p x =
     obind (get_layer (ReqLayer p) x) (\<lambda>l.
       case waitingForPeer l of None \<Rightarrow> Inl Assert_Failed
       | Some src \<Rightarrow>
         let l = l\<lparr>waitingForLayer := src # waitingForLayer l, waitingForPeer := None\<rparr>
         in if lstate l = IDLE then nc_retryWaiting cfg now reaction (ReqLayer p) (put_layer (ReqLayer p) l x)
            else check (lstate l = BUSY) Assert_Failed (Inr ([], put_layer (ReqLayer p) l x)))"

section \<open>Histories\<close>

datatype 'r nc_op =
  Call "'r nc_call"
| ReleaseOf layer_id "'r nc_call list"
| RetryFrom int "'r nc_call list"
| Ranges "int \<Rightarrow> addr_range list" int

fun do_op :: "nc_config \<Rightarrow> tick \<Rightarrow> 'r nc_op \<Rightarrow> 'r ncx \<Rightarrow> ('r nc_event list \<times> 'r ncx) outcome" where
  "do_op cfg now (Call c) x = do_call cfg now c x"
| "do_op cfg now (ReleaseOf d reaction) x = nc_releaseLayer cfg now reaction d x"
| "do_op cfg now (RetryFrom p reaction) x = recvReqRetry cfg now reaction p x"
| "do_op cfg now (Ranges ask p) x =
     obind (recvRangeChange ask (nc_base x) p) (\<lambda>(_, b). Inr ([], x\<lparr>nc_base := b\<rparr>))"

inductive nc_run :: "nc_config \<Rightarrow> 'r nc_event list \<Rightarrow> 'r ncx \<Rightarrow> bool" for cfg where
  init: "nc_run cfg [] (NoncoherentXBar n has_default cpus use_default)"
| step: "nc_run cfg es x \<Longrightarrow> do_op cfg now a x = Inr (fs, x') \<Longrightarrow> nc_run cfg (es @ fs) x'"

text \<open>
  What one request may show in the log: it is owed to a port, answered to that port, and so on.
  The value is the port it is owed to at the end, if any; \<^term>\<open>None\<close> is a log that breaks this.
\<close>

fun follow :: "'r \<Rightarrow> int option \<Rightarrow> 'r nc_event list \<Rightarrow> int option option" where
  "follow q w [] = Some w"
| "follow q w (Owed r p # es) =
     (if r = q then if w = None then follow q (Some p) es else None else follow q w es)"
| "follow q w (Answered r p # es) =
     (if r = q then if w = Some p then follow q None es else None else follow q w es)"

lemma follow_append: "follow q w (es @ fs) = Option.bind (follow q w es) (\<lambda>w. follow q w fs)"
  by (induction q w es rule: follow.induct) auto

definition keeps_routes :: "'r ncx \<Rightarrow> 'r nc_event list \<Rightarrow> 'r ncx \<Rightarrow> bool" where
  "keeps_routes x es x' \<longleftrightarrow> (\<forall>q. follow q (routeTo x q) es = Some (routeTo x' q))"

lemma keeps_routes_trans: "keeps_routes x es y \<Longrightarrow> keeps_routes y fs z \<Longrightarrow> keeps_routes x (es @ fs) z"
  by (simp add: keeps_routes_def follow_append)

lemma keeps_routes_refl: "routeTo x' = routeTo x \<Longrightarrow> keeps_routes x [] x'"
  by (simp add: keeps_routes_def)

lemma put_layer_routes [simp]: "routeTo (put_layer d l x) = routeTo x"
  by (cases d) simp_all

section \<open>Layers through a call\<close>

lemma at_port_Inr [simp]: "at_port xs p = Inr y \<longleftrightarrow> 0 \<le> p \<and> nat p < length xs \<and> y = xs ! nat p"
  by (auto simp: at_port_def check_def)

lemma send_intros:
  "tryTiming src l = Inr (False, l') \<Longrightarrow> send now src ok t l = Inr l'"
  "tryTiming src l = Inr (True, l1) \<Longrightarrow> succeededTiming now t l1 = Inr l' \<Longrightarrow> send now src True t l = Inr l'"
  "tryTiming src l = Inr (True, l1) \<Longrightarrow> failedTiming now src t l1 = Inr l' \<Longrightarrow> send now src False t l = Inr l'"
  by (simp_all add: send_def)

lemma recvTimingReq_effect:
  assumes "recvTimingReq cfg now answers pkt src x = Inr (ok, pkt', x')"
  obtains dst ok' t l where "0 \<le> dst" "nat dst < length (reqLayers x)"
    "send now src ok' t (reqLayers x ! nat dst) = Inr l" "reqLayers x' = (reqLayers x)[nat dst := l]"
    "respLayers x' = respLayers x"
    "if ok \<and> needsResponse pkt \<and> \<not> cacheResponding pkt
     then routeTo x (pkt_req pkt) = None \<and> routeTo x' = (routeTo x)(pkt_req pkt \<mapsto> src)
     else routeTo x' = routeTo x"
proof -
  from assms obtain dst b acc l1 where d: "0 \<le> dst" "nat dst < length (reqLayers x)"
    "tryTiming src (reqLayers x ! nat dst) = Inr (acc, l1)" "findPort (nc_base x) (pkt_range pkt) = Inr (dst, b)"
    by (auto simp: recvTimingReq_def Let_def)
  show ?thesis
  proof (cases acc)
    case False
    with assms d have "\<not> ok \<and> x' = x\<lparr>nc_base := b, reqLayers := (reqLayers x)[nat dst := l1]\<rparr>"
      by (auto simp: recvTimingReq_def Let_def)
    then show ?thesis using that [OF d(1,2) send_intros(1)] d(3) False by simp
  next
    case acc: True
    show ?thesis
    proof (cases "answers dst")
      case True
      with assms d acc obtain t l2 where l2: "succeededTiming now t l1 = Inr l2" "ok"
        "reqLayers x' = (reqLayers x)[nat dst := l2]" "respLayers x' = respLayers x"
        "remember_route (needsResponse pkt \<and> \<not> cacheResponding pkt) (pkt_req pkt) src (routeTo x) = Inr (routeTo x')"
        by (auto simp: recvTimingReq_def Let_def)
      have "send now src True t (reqLayers x ! nat dst) = Inr l2" using d(3) acc l2(1) by (intro send_intros(2)) simp_all
      from that [OF d(1,2) this] l2(2-5) show ?thesis by (auto simp: remember_route_def split: if_splits)
    next
      case False
      with assms d acc obtain t l2 c where l2: "failedTiming now src t l1 = Inr l2" "\<not> ok"
        "x' = x\<lparr>nc_base := b, nc_clock := c, reqLayers := (reqLayers x)[nat dst := l2]\<rparr>"
        by (auto simp: recvTimingReq_def Let_def)
      have "send now src False t (reqLayers x ! nat dst) = Inr l2" using d(3) acc l2(1) by (intro send_intros(3)) simp_all
      from that [OF d(1,2) this] l2(2,3) show ?thesis by simp
    qed
  qed
qed

lemma recvTimingResp_effect:
  assumes "recvTimingResp cfg now pkt src x = Inr (r, pkt', x')"
  obtains dst ok' t l where "0 \<le> dst" "nat dst < length (respLayers x)"
    "send now src ok' t (respLayers x ! nat dst) = Inr l" "respLayers x' = (respLayers x)[nat dst := l]"
    "reqLayers x' = reqLayers x"
    "case r of None \<Rightarrow> routeTo x' = routeTo x
     | Some (p, _) \<Rightarrow> routeTo x (pkt_req pkt) = Some p \<and> routeTo x' = (routeTo x)(pkt_req pkt := None)"
proof -
  from assms obtain dst acc l1 where d: "0 \<le> dst" "nat dst < length (respLayers x)"
    "tryTiming src (respLayers x ! nat dst) = Inr (acc, l1)" "routeTo x (pkt_req pkt) = Some dst"
    by (auto simp: recvTimingResp_def Let_def split: option.splits)
  show ?thesis
  proof (cases acc)
    case False
    with assms d have "r = None \<and> x' = x\<lparr>respLayers := (respLayers x)[nat dst := l1]\<rparr>"
      by (auto simp: recvTimingResp_def)
    then show ?thesis using that [OF d(1,2) send_intros(1)] d(3) False by simp
  next
    case True
    with assms d obtain t w l2 c where l2: "succeededTiming now t l1 = Inr l2" "r = Some (dst, w)"
      "x' = x\<lparr>nc_clock := c, routeTo := (routeTo x)(pkt_req pkt := None), respLayers := (respLayers x)[nat dst := l2]\<rparr>"
      by (auto simp: recvTimingResp_def Let_def)
    have "send now src True t (respLayers x ! nat dst) = Inr l2" using d(3) True l2(1) by (intro send_intros(2)) simp_all
    from that [OF d(1,2) this] l2(2,3) d(4) show ?thesis by simp
  qed
qed

section \<open>Calls keep routes and layers\<close>

definition all_layers :: "(layer_id \<Rightarrow> int layer \<Rightarrow> bool) \<Rightarrow> 'r ncx \<Rightarrow> bool" where
  "all_layers P x \<longleftrightarrow> (\<forall>d l. get_layer d x = Inr l \<longrightarrow> P d l)"

definition send_closed :: "tick \<Rightarrow> (layer_id \<Rightarrow> int layer \<Rightarrow> bool) \<Rightarrow> bool" where
  "send_closed now P \<longleftrightarrow> (\<forall>d l src ok t l'. P d l \<longrightarrow> send now src ok t l = Inr l' \<longrightarrow> P d l')"

lemma get_put_layer:
  assumes "get_layer d x = Inr l0"
  shows "get_layer e (put_layer d l x) = (if e = d then Inr l else get_layer e x)"
proof -
  have p: "0 \<le> p \<Longrightarrow> nat p < length xs \<Longrightarrow> at_port (xs[nat p := y]) q = (if q = p then Inr y else at_port xs q)"
    for p q and xs :: "int layer list" and y
    by (auto simp: at_port_def check_def nth_list_update)
  show ?thesis using assms by (cases d; cases e) (auto simp: p)
qed

lemma do_call_ok:
  assumes "do_call cfg now c x = Inr (es, x')" "send_closed now P" "all_layers P x"
  shows "keeps_routes x es x' \<and> all_layers P x'"
proof (cases c)
  case (Req answers pkt src)
  with assms(1) obtain ok pkt' where r: "recvTimingReq cfg now answers pkt src x = Inr (ok, pkt', x')"
    "es = (if ok \<and> needsResponse pkt \<and> \<not> cacheResponding pkt then [Owed (pkt_req pkt) src] else [])" by auto
  show ?thesis
  proof (rule recvTimingReq_effect [OF r(1)])
    fix dst ok' t l
    assume d: "0 \<le> dst" "nat dst < length (reqLayers x)" "send now src ok' t (reqLayers x ! nat dst) = Inr l"
      "reqLayers x' = (reqLayers x)[nat dst := l]" "respLayers x' = respLayers x"
      and rt: "if ok \<and> needsResponse pkt \<and> \<not> cacheResponding pkt
        then routeTo x (pkt_req pkt) = None \<and> routeTo x' = (routeTo x)(pkt_req pkt \<mapsto> src) else routeTo x' = routeTo x"
    have g: "get_layer (ReqLayer dst) x = Inr (reqLayers x ! nat dst)" using d(1,2) by simp
    have "get_layer e x' = get_layer e (put_layer (ReqLayer dst) l x)" for e using d(4,5) by (cases e) simp_all
    then have "get_layer e x' = (if e = ReqLayer dst then Inr l else get_layer e x)" for e
      by (simp only: get_put_layer [OF g])
    moreover have "P (ReqLayer dst) l" using assms(2,3) g d(3) unfolding send_closed_def all_layers_def by blast
    ultimately have "all_layers P x'" using assms(3) by (simp add: all_layers_def)
    moreover have "keeps_routes x es x'" using rt r(2) by (auto simp: keeps_routes_def split: if_splits)
    ultimately show ?thesis by simp
  qed
next
  case (Resp pkt src)
  with assms(1) obtain r pkt' where r: "recvTimingResp cfg now pkt src x = Inr (r, pkt', x')"
    "es = (case r of None \<Rightarrow> [] | Some (dst, _) \<Rightarrow> [Answered (pkt_req pkt) dst])" by auto
  show ?thesis
  proof (rule recvTimingResp_effect [OF r(1)])
    fix dst ok' t l
    assume d: "0 \<le> dst" "nat dst < length (respLayers x)" "send now src ok' t (respLayers x ! nat dst) = Inr l"
      "respLayers x' = (respLayers x)[nat dst := l]" "reqLayers x' = reqLayers x"
      and rt: "case r of None \<Rightarrow> routeTo x' = routeTo x
        | Some (p, _) \<Rightarrow> routeTo x (pkt_req pkt) = Some p \<and> routeTo x' = (routeTo x)(pkt_req pkt := None)"
    have g: "get_layer (RespLayer dst) x = Inr (respLayers x ! nat dst)" using d(1,2) by simp
    have "get_layer e x' = get_layer e (put_layer (RespLayer dst) l x)" for e using d(4,5) by (cases e) simp_all
    then have "get_layer e x' = (if e = RespLayer dst then Inr l else get_layer e x)" for e
      by (simp only: get_put_layer [OF g])
    moreover have "P (RespLayer dst) l" using assms(2,3) g d(3) unfolding send_closed_def all_layers_def by blast
    ultimately have "all_layers P x'" using assms(3) by (simp add: all_layers_def)
    moreover have "keeps_routes x es x'" using rt r(2) by (auto simp: keeps_routes_def split: option.splits)
    ultimately show ?thesis by simp
  qed
qed

lemma do_calls_ok:
  "do_calls cfg now cs x = Inr (es, x') \<Longrightarrow> send_closed now P \<Longrightarrow> all_layers P x \<Longrightarrow>
   keeps_routes x es x' \<and> all_layers P x'"
proof (induction cs arbitrary: x es)
  case Nil
  then show ?case by (simp add: keeps_routes_refl)
next
  case (Cons c cs)
  from Cons(2) obtain es1 x1 es2 where c: "do_call cfg now c x = Inr (es1, x1)" "do_calls cfg now cs x1 = Inr (es2, x')"
    "es = es1 @ es2" by auto
  note h = do_call_ok [OF c(1) Cons(3,4)]
  from Cons(1) [OF c(2) Cons(3) conjunct2 [OF h]] h show ?case by (auto simp: c(3) intro: keeps_routes_trans)
qed

abbreviation calm :: "layer_id \<Rightarrow> int layer \<Rightarrow> bool" where
  "calm d \<equiv> layer_inv"

text \<open>During a retry of the layer \<open>d\<close> the others are as between calls.\<close>

definition retrying :: "layer_id \<Rightarrow> tick \<Rightarrow> layer_id \<Rightarrow> int layer \<Rightarrow> bool" where
  "retrying d now e l \<longleftrightarrow> (if e = d then retry_inv now l else layer_inv l)"

lemma send_layer_inv: "layer_inv l \<Longrightarrow> send now src ok t l = Inr l' \<Longrightarrow> layer_inv l'"
  using layer_step_inv [of 0 "Send src ok t" "\<lparr>the_layer = l, the_clock = Clocked, the_now = now\<rparr>"] by simp

lemma calm_closed: "send_closed now calm"
  unfolding send_closed_def by (intro allI impI) (rule send_layer_inv)

lemma retrying_closed: "send_closed now (retrying d now)"
  unfolding send_closed_def retrying_def by (auto intro: send_layer_inv send_retry(1))

lemma all_layers_put:
  assumes "get_layer d x = Inr l0" "all_layers P x" "\<And>e m. e \<noteq> d \<Longrightarrow> P e m \<Longrightarrow> Q e m" "Q d l"
  shows "all_layers Q (put_layer d l x)"
  using assms by (auto simp: all_layers_def get_put_layer)

lemma nc_retryWaiting_ok:
  assumes "nc_retryWaiting cfg now reaction d x = Inr (es, x')" "get_layer d x = Inr l"
    "waitingForPeer l = None" "releaseEvent l = None" "\<And>e m. e \<noteq> d \<Longrightarrow> get_layer e x = Inr m \<Longrightarrow> layer_inv m"
  shows "keeps_routes x es x' \<and> all_layers calm x'"
proof -
  let ?y = "put_layer d (l\<lparr>lstate := RETRY, waitingForLayer := tl (waitingForLayer l)\<rparr>) x"
  from assms(1,2) obtain y m where y: "do_calls cfg now reaction ?y = Inr (es, y)" "get_layer d y = Inr m"
    and fin: "(if lstate m = RETRY
      then obind (clockEdge (cfg_period cfg) now (nc_clock y) 0) (\<lambda>(edge, c).
        obind (occupyLayer now edge (m\<lparr>lstate := BUSY\<rparr>)) (\<lambda>l. Inr (es, put_layer d l (y\<lparr>nc_clock := c\<rparr>))))
      else Inr (es, y)) = Inr (es, x')"
    by (auto simp: nc_retryWaiting_def check_def split: if_splits)
  have "all_layers (retrying d now) ?y"
    using assms(2-5) by (auto simp: all_layers_def get_put_layer retrying_def retry_inv_def)
  note k = do_calls_ok [OF y(1) retrying_closed this]
  have r: "keeps_routes x es y" using conjunct1 [OF k] by (simp add: keeps_routes_def)
  have m: "retry_inv now m" using k y(2) by (auto simp: all_layers_def retrying_def)
  show ?thesis
  proof (cases "lstate m = RETRY")
    case True
    with fin obtain t c where t: "x' = put_layer d (m\<lparr>lstate := BUSY, releaseEvent := Some t\<rparr>) (y\<lparr>nc_clock := c\<rparr>)"
      by (auto simp: occupyLayer_Inr)
    have g: "get_layer e (y\<lparr>nc_clock := c\<rparr>) = get_layer e y" for e by (cases e) simp_all
    have "all_layers (retrying d now) (y\<lparr>nc_clock := c\<rparr>)" using k g by (simp add: all_layers_def)
    then have "all_layers calm x'"
      unfolding t by (rule all_layers_put [rotated]) (use g y(2) in \<open>simp_all add: retrying_def layer_inv_def\<close>)
    with r show ?thesis by (simp add: keeps_routes_def t)
  next
    case False
    with fin have x': "x' = y" by simp
    have "layer_inv m" using m False by (auto simp: retry_inv_def busy_until_def layer_inv_def)
    then have "layer_inv n" if "get_layer e y = Inr n" for e n
      using k y(2) that by (cases "e = d") (auto simp: all_layers_def retrying_def)
    then have "all_layers calm y" by (simp add: all_layers_def)
    with r x' show ?thesis by simp
  qed
qed

lemma nc_releaseLayer_ok:
  assumes "nc_releaseLayer cfg now reaction d x = Inr (es, x')" "all_layers calm x"
  shows "keeps_routes x es x' \<and> all_layers calm x'"
proof -
  from assms(1) obtain l where l: "get_layer d x = Inr l" by (auto simp: nc_releaseLayer_def)
  let ?l = "l\<lparr>releaseEvent := None, lstate := IDLE\<rparr>"
  have calm: "all_layers calm (put_layer d m x)" if "layer_inv m" for m
    using assms(2) that by (intro all_layers_put [OF l]) auto
  show ?thesis
  proof (cases "waitingForLayer l \<noteq> [] \<and> waitingForPeer l = None")
    case True
    with assms(1) l have r: "nc_retryWaiting cfg now reaction d (put_layer d ?l x) = Inr (es, x')"
      by (simp add: nc_releaseLayer_def check_def Let_def split: if_splits)
    have "keeps_routes (put_layer d ?l x) es x' \<and> all_layers calm x'"
    proof (rule nc_retryWaiting_ok [OF r])
      show "get_layer d (put_layer d ?l x) = Inr ?l" by (simp add: get_put_layer [OF l])
      show "layer_inv m" if "e \<noteq> d" "get_layer e (put_layer d ?l x) = Inr m" for e m
        using that assms(2) by (simp add: get_put_layer [OF l] all_layers_def)
    qed (use True in simp_all)
    then show ?thesis by (simp add: keeps_routes_def)
  next
    case False
    have li: "layer_inv ?l" "layer_inv (?l\<lparr>draining := False\<rparr>)"
      using assms(2) l False by (auto simp: all_layers_def layer_inv_def)
    from False assms(1) l have "es = [] \<and> (x' = put_layer d ?l x \<or> x' = put_layer d (?l\<lparr>draining := False\<rparr>) x)"
      by (auto simp: nc_releaseLayer_def check_def Let_def split: if_splits)
    then show ?thesis using calm [OF li(1)] calm [OF li(2)] by (auto simp: keeps_routes_def)
  qed
qed

lemma recvReqRetry_ok:
  assumes "recvReqRetry cfg now reaction p x = Inr (es, x')" "all_layers calm x"
  shows "keeps_routes x es x' \<and> all_layers calm x'"
proof -
  let ?d = "ReqLayer p"
  from assms(1) obtain l src where l: "get_layer ?d x = Inr l" "waitingForPeer l = Some src"
    by (auto simp: recvReqRetry_def split: option.splits)
  let ?l = "l\<lparr>waitingForLayer := src # waitingForLayer l, waitingForPeer := None\<rparr>"
  have inv: "layer_inv l" using assms(2) l(1) unfolding all_layers_def by blast
  show ?thesis
  proof (cases "lstate l = IDLE")
    case True
    with assms(1) l have r: "nc_retryWaiting cfg now reaction ?d (put_layer ?d ?l x) = Inr (es, x')"
      unfolding recvReqRetry_def by (simp only: obind.simps option.case Let_def) simp
    have "keeps_routes (put_layer ?d ?l x) es x' \<and> all_layers calm x'"
    proof (rule nc_retryWaiting_ok [OF r])
      show "get_layer ?d (put_layer ?d ?l x) = Inr ?l" by (simp only: get_put_layer [OF l(1)] if_True refl)
      show "layer_inv m" if "e \<noteq> ?d" "get_layer e (put_layer ?d ?l x) = Inr m" for e m
        using that assms(2) by (simp only: get_put_layer [OF l(1)] if_False all_layers_def)
      show "releaseEvent ?l = None" using inv True by (simp add: layer_inv_def)
    qed simp
    then show ?thesis by (simp add: keeps_routes_def)
  next
    case False
    with assms(1) l have "lstate l = BUSY" "es = []" "x' = put_layer ?d ?l x"
      unfolding recvReqRetry_def by (simp_all only: obind.simps option.case Let_def) (auto simp: check_def split: if_splits)
    moreover have "all_layers calm (put_layer ?d ?l x)"
      using inv \<open>lstate l = BUSY\<close> by (intro all_layers_put [OF l(1) assms(2)]) (simp_all add: layer_inv_def)
    ultimately show ?thesis by (simp add: keeps_routes_def)
  qed
qed

lemma do_op_ok:
  assumes "do_op cfg now a x = Inr (es, x')" "all_layers calm x"
  shows "keeps_routes x es x' \<and> all_layers calm x'"
proof (cases a)
  case (Ranges ask p)
  with assms(1) obtain b where "es = []" "x' = x\<lparr>nc_base := b\<rparr>" by auto
  moreover have "get_layer d (x\<lparr>nc_base := b\<rparr>) = get_layer d x" for d by (cases d) simp_all
  ultimately show ?thesis using assms(2) by (simp add: all_layers_def keeps_routes_def)
next
  case (Call c)
  with assms show ?thesis by (intro do_call_ok [OF _ calm_closed]) simp_all
next
  case (ReleaseOf d reaction)
  with assms show ?thesis by (intro nc_releaseLayer_ok) simp_all
next
  case (RetryFrom p reaction)
  with assms show ?thesis by (intro recvReqRetry_ok) simp_all
qed

section \<open>Properties\<close>

text \<open>
  C8. Responses through the non-coherent crossbar. In every history of requests, responses,
  retries, releases and range changes, a response is handed only to the CPU-side port whose
  request it answers, every request is answered at most once, the routes that remain are
  exactly the requests not yet answered, and between calls every layer is busy exactly while
  its release is scheduled.
\<close>

theorem noncoherent_responses_return:
  fixes x :: "'r ncx"
  assumes "nc_run cfg es x"
  shows "(\<forall>q. follow q None es = Some (routeTo x q)) \<and>
    (\<forall>d l. get_layer d x = Inr l \<longrightarrow> lstate l \<noteq> RETRY \<and> (lstate l = BUSY \<longleftrightarrow> releaseEvent l \<noteq> None))"
proof -
  have "(\<forall>q. follow q None es = Some (routeTo x q)) \<and> all_layers calm x"
    using assms
  proof (induction rule: nc_run.induct)
    case (init n has_default cpus use_default)
    have "layer_inv Layer" by (simp add: layer_inv_def Layer_def)
    then have "get_layer d (NoncoherentXBar n has_default cpus use_default :: 'r ncx) = Inr l \<Longrightarrow> layer_inv l" for d l
      by (cases d) (auto simp: NoncoherentXBar_def)
    then have "all_layers calm (NoncoherentXBar n has_default cpus use_default :: 'r ncx)" unfolding all_layers_def by blast
    moreover have "routeTo (NoncoherentXBar n has_default cpus use_default :: 'r ncx) q = None" for q
      by (simp add: NoncoherentXBar_def)
    ultimately show ?case by simp
  next
    case (step es x now a fs x')
    from do_op_ok [OF step.hyps(2)] step.IH show ?case by (simp add: follow_append keeps_routes_def)
  qed
  then show ?thesis by (simp add: all_layers_def layer_inv_def)
qed

text \<open>One responder, one requestor, a request and its response.\<close>

definition demo_cfg :: nc_config where
  "demo_cfg = \<lparr>cfg_us = 1000000, cfg_width = 8, cfg_period = 1000, frontendLatency = 1, forwardLatency = 1, responseLatency = 1\<rparr>"

definition demo_pkt :: "nat nc_packet" where
  "demo_pkt = \<lparr>pkt_req = 7, pkt_range = RangeSize 0x40 8, pkt_data = Some 8, needsResponse = True,
     cacheResponding = False, isExpressSnoop = False, pkt_timing = \<lparr>headerDelay = 0, payloadDelay = 0\<rparr>\<rparr>"

definition demo_ops :: "(tick \<times> nat nc_op) list" where
  "demo_ops = [(0, Ranges (\<lambda>_. [AddrRange_plain 0 0x1000]) 0), (500, Call (Req (\<lambda>_. True) demo_pkt 0)),
     (9000, Call (Resp demo_pkt 0))]"

fun do_ops :: "nc_config \<Rightarrow> (tick \<times> 'r nc_op) list \<Rightarrow> 'r nc_event list \<Rightarrow> 'r ncx \<Rightarrow> ('r nc_event list \<times> 'r ncx) outcome" where
  "do_ops cfg [] es x = Inr (es, x)"
| "do_ops cfg ((now, a) # os) es x = obind (do_op cfg now a x) (\<lambda>(fs, x). do_ops cfg os (es @ fs) x)"

lemma do_ops_run: "do_ops cfg os es x = Inr (es', x') \<Longrightarrow> nc_run cfg es x \<Longrightarrow> nc_run cfg es' x'"
proof (induction os arbitrary: es x)
  case (Cons o' os)
  obtain now a where o: "o' = (now, a)" by force
  from Cons(2) obtain fs y where y: "do_op cfg now a x = Inr (fs, y)" "do_ops cfg os (es @ fs) y = Inr (es', x')"
    by (auto simp: o)
  from Cons(1) [OF y(2) nc_run.step [OF Cons(3) y(1)]] show ?case .
qed simp

theorem noncoherent_responses_return_witness:
  "\<exists>x. nc_run demo_cfg [Owed (7 :: nat) 0, Answered 7 0] x \<and>
     follow (7 :: nat) None [Owed 7 0, Answered 7 0] = Some (routeTo x 7)"
proof -
  have "case do_ops demo_cfg demo_ops [] (NoncoherentXBar 1 False 1 False) of
      Inl _ \<Rightarrow> False | Inr (es, x) \<Rightarrow> es = [Owed 7 0, Answered 7 0]" by code_simp
  then obtain x where "do_ops demo_cfg demo_ops [] (NoncoherentXBar 1 False 1 False) = Inr ([Owed 7 0, Answered 7 0], x)"
    by (auto split: sum.splits)
  from do_ops_run [OF this nc_run.init] have "nc_run demo_cfg [Owed 7 0, Answered 7 0] x" .
  with noncoherent_responses_return [OF this] show ?thesis by blast
qed

end
