(* ===== verification/PhysicalMemory.thy ===== *)
theory PhysicalMemory
  imports AddrRangeMap
begin

text \<open>
  The physical memory of a system, \<^verbatim>\<open>mem/physical.hh\<close> and \<^verbatim>\<open>mem/physical.cc\<close>: the memories that
  are part of the global address map are kept in an \<^verbatim>\<open>AddrRangeMap\<close>, contiguous ranges get a
  backing store, and accesses are dispatched by address. A memory is named by its position in
  the list given to the constructor. The pointer \<^verbatim>\<open>mmap\<close> returns is named by the position of the
  backing store; whether the calls of the operating system succeed is an argument. Checkpoint
  files are not modelled.
\<close>

section \<open>Memories and backing stores\<close>

record amem =
  am_range :: addr_range
  isInAddrMap :: bool
  isConfReported :: bool
  isKvmMap :: bool
  isNull :: bool

record bstore =
  bs_range :: addr_range
  confTableReported :: bool
  inAddrMap :: bool
  kvmMap :: bool
  shmOffset :: u64

record pmem_config =
  sharedBackstore :: bool
  pageSize :: u64
  shm_works :: bool
  mmap_works :: "addr_range \<Rightarrow> bool"

record pmem =
  addrMap :: "nat range_map"
  memories :: "nat list"
  totalSize :: u64
  backingStore :: "bstore list"
  sharedBackstoreSize :: u64
  store_of :: "nat \<Rightarrow> nat option"

definition pmem_empty :: pmem where
  "pmem_empty = \<lparr>addrMap = rm_empty, memories = [], totalSize = 0, backingStore = [],
     sharedBackstoreSize = 0, store_of = (\<lambda>_. None)\<rparr>"

text \<open>\<^verbatim>\<open>addrMap\<close> is an \<^verbatim>\<open>AddrRangeMap<AbstractMemory*, 1>\<close>.\<close>

abbreviation mem_cache :: nat where
  "mem_cache \<equiv> 1"

definition point_to_store :: "nat list \<Rightarrow> nat \<Rightarrow> (nat \<Rightarrow> nat option) \<Rightarrow> nat \<Rightarrow> nat option" where
  "point_to_store ms k f = (\<lambda>i. if i \<in> set ms then Some k else f i)"

definition createBackingStore ::
  "pmem_config \<Rightarrow> addr_range \<Rightarrow> nat list \<Rightarrow> bool \<Rightarrow> bool \<Rightarrow> bool \<Rightarrow> pmem \<Rightarrow> pmem outcome" where
  "createBackingStore cfg rng ms conf in_map kvm p =
     check (\<not> interleaved rng) Panic
      (obind (if \<not> sharedBackstore cfg then Inr (0, sharedBackstoreSize p)
              else obind (roundUp (ar_size rng) (pageSize cfg)) (\<lambda>n.
                     check (shm_works cfg) Panic
                       (Inr (sharedBackstoreSize p, sharedBackstoreSize p + n)))) (\<lambda>(map_offset, shared).
        check (mmap_works cfg rng) Fatal
         (Inr (p\<lparr>sharedBackstoreSize := shared,
                 backingStore := backingStore p @
                   [\<lparr>bs_range = rng, confTableReported = conf, inAddrMap = in_map, kvmMap = kvm, shmOffset = map_offset\<rparr>],
                 store_of := point_to_store ms (length (backingStore p)) (store_of p)\<rparr>))))"

section \<open>Construction\<close>

definition map_memory :: "nat range_map \<Rightarrow> addr_range \<times> nat \<Rightarrow> nat range_map outcome" where
  "map_memory m x =
     obind (rm_insert mem_cache m (fst x) (snd x)) (\<lambda>(i, m). check (i \<noteq> None) Fatal (Inr m))"

definition add_memory :: "pmem_config \<Rightarrow> amem list \<Rightarrow> pmem \<Rightarrow> nat \<Rightarrow> pmem outcome" where
  "add_memory cfg ms p i =
     (let m = ms ! i
      in if isInAddrMap m
         then obind (map_memory (addrMap p) (am_range m, i)) (\<lambda>am.
                Inr (p\<lparr>memories := memories p @ [i], totalSize := totalSize p + ar_size (am_range m), addrMap := am\<rparr>))
         else check (\<not> interleaved (am_range m)) Fatal
                (createBackingStore cfg (am_range m) [i] (isConfReported m) (isInAddrMap m) (isKvmMap m) p))"

text \<open>The interleaved memories collected so far get a store of their merged range.\<close>

definition same_flags :: "amem \<Rightarrow> amem \<Rightarrow> bool" where
  "same_flags f c \<longleftrightarrow> isConfReported f = isConfReported c \<and> isInAddrMap f = isInAddrMap c \<and> isKvmMap f = isKvmMap c"

definition store_merged :: "pmem_config \<Rightarrow> amem list \<Rightarrow> addr_range list \<Rightarrow> nat list \<Rightarrow> pmem \<Rightarrow> pmem outcome" where
  "store_merged cfg ms intlv_ranges curr_memories p =
     obind (AddrRange_merge intlv_ranges) (\<lambda>merged_range.
       let f = ms ! hd curr_memories
       in check (list_all (\<lambda>c. same_flags f (ms ! c)) curr_memories) Fatal
            (createBackingStore cfg merged_range curr_memories (isConfReported f) (isInAddrMap f) (isKvmMap f) p))"

fun store_all :: "pmem_config \<Rightarrow> amem list \<Rightarrow> addr_range list \<Rightarrow> nat list \<Rightarrow> (addr_range \<times> nat) list \<Rightarrow> pmem \<Rightarrow> pmem outcome" where
  "store_all cfg ms intlv cur [] p = (if intlv \<noteq> [] then store_merged cfg ms intlv cur p else Inr p)"
| "store_all cfg ms intlv cur ((r, i) # ns) p =
     (if isNull (ms ! i) then store_all cfg ms intlv cur ns p
      else if interleaved r
      then if intlv \<noteq> [] \<and> \<not> mergesWith (last intlv) r
           then obind (store_merged cfg ms intlv cur p) (store_all cfg ms [r] [i] ns)
           else store_all cfg ms (intlv @ [r]) (cur @ [i]) ns p
      else obind (createBackingStore cfg r [i] (isConfReported (ms ! i)) (isInAddrMap (ms ! i)) (isKvmMap (ms ! i)) p)
             (store_all cfg ms intlv cur ns))"

definition PhysicalMemory :: "pmem_config \<Rightarrow> amem list \<Rightarrow> pmem outcome" where
  "PhysicalMemory cfg ms =
     obind (ofold (add_memory cfg ms) pmem_empty [0..<length ms]) (\<lambda>p.
       store_all cfg ms [] [] (map snd (rm_tree (addrMap p))) p)"

section \<open>Queries and accesses\<close>

definition isMemAddr :: "pmem \<Rightarrow> addr \<Rightarrow> (bool \<times> pmem) outcome" where
  "isMemAddr p a =
     obind (rm_contains_addr mem_cache (addrMap p) a) (\<lambda>(i, m). Inr (i \<noteq> None, p\<lparr>addrMap := m\<rparr>))"

fun conf_ranges :: "amem list \<Rightarrow> addr_range list \<Rightarrow> addr_range list \<Rightarrow> (addr_range \<times> nat) list \<Rightarrow> addr_range list outcome" where
  "conf_ranges ms rs intlv [] =
     (if intlv \<noteq> [] then obind (AddrRange_merge intlv) (\<lambda>r. Inr (rs @ [r])) else Inr rs)"
| "conf_ranges ms rs intlv ((r, i) # ns) =
     (if isConfReported (ms ! i)
      then if interleaved r
           then if intlv \<noteq> [] \<and> \<not> mergesWith (last intlv) r
                then obind (AddrRange_merge intlv) (\<lambda>m. conf_ranges ms (rs @ [m]) [r] ns)
                else conf_ranges ms rs (intlv @ [r]) ns
           else conf_ranges ms (rs @ [r]) intlv ns
      else conf_ranges ms rs intlv ns)"

definition getConfAddrRanges :: "amem list \<Rightarrow> pmem \<Rightarrow> addr_range list outcome" where
  "getConfAddrRanges ms p = conf_ranges ms [] [] (map snd (rm_tree (addrMap p)))"

text \<open>\<^verbatim>\<open>access\<close> and \<^verbatim>\<open>functionalAccess\<close>: the memory the request is passed to.\<close>

definition pmem_access :: "pmem \<Rightarrow> bool \<Rightarrow> addr_range \<Rightarrow> (nat \<times> pmem) outcome" where
  "pmem_access p isRequest r =
     check isRequest Assert_Failed
       (obind (rm_contains mem_cache (addrMap p) r) (\<lambda>(i, m).
         case i of None \<Rightarrow> Inl Assert_Failed
         | Some it \<Rightarrow> obind (rm_deref (rm_tree m) it) (\<lambda>n. Inr (nvalue n, p\<lparr>addrMap := m\<rparr>))))"

text \<open>
  The first loop of \<^verbatim>\<open>unserialize\<close>: the memory each locked address is given back to. The end of
  the map is dereferenced when an address is in no memory.
\<close>

definition locked_owner :: "pmem \<Rightarrow> addr \<Rightarrow> (nat \<times> pmem) outcome" where
  "locked_owner p a =
     obind (rm_contains_addr mem_cache (addrMap p) a) (\<lambda>(i, m).
       case i of None \<Rightarrow> Inl Undefined
       | Some it \<Rightarrow> obind (rm_deref (rm_tree m) it) (\<lambda>n. Inr (nvalue n, p\<lparr>addrMap := m\<rparr>)))"

section \<open>The address map\<close>

lemma map_memory_ok:
  assumes "rm_ok mem_cache m" "rng_ok r" "\<forall>x \<in> rm_entries m. clear_of r (fst x)" "map_memory m (r, d) = Inr m'"
  shows "rm_ok mem_cache m' \<and> rm_entries m' = insert (r, d) (rm_entries m) \<and> (\<forall>x \<in> rm_entries m. apart (fst x) r)"
proof -
  obtain it where i: "rm_insert mem_cache m r d = Inr (Some it, m')"
    using assms(4) by (auto simp: map_memory_def)
  from rm_insert_entries [OF assms(1-3) i] show ?thesis .
qed

interpretation memory_map: range_store "rm_ok mem_cache" rm_entries map_memory
  by unfold_locales (rule map_memory_ok)

text \<open>The memories that go into the map, with their ranges.\<close>

definition mapped :: "amem list \<Rightarrow> nat list \<Rightarrow> (addr_range \<times> nat) list" where
  "mapped ms xs = map (\<lambda>i. (am_range (ms ! i), i)) (filter (\<lambda>i. isInAddrMap (ms ! i)) xs)"

lemma createBackingStore_Inr:
  assumes "createBackingStore cfg rng ms conf in_map kvm p = Inr p'"
  shows "addrMap p' = addrMap p" "store_of p' = point_to_store ms (length (backingStore p)) (store_of p)"
    "map bs_range (backingStore p') = map bs_range (backingStore p) @ [rng]"
  using assms by (auto simp: createBackingStore_def)

lemma add_all_map:
  "ofold (add_memory cfg ms) p xs = Inr p' \<Longrightarrow> ofold map_memory (addrMap p) (mapped ms xs) = Inr (addrMap p')"
proof (induction xs arbitrary: p)
  case (Cons i xs)
  from Cons(2) obtain p1 where p1: "add_memory cfg ms p i = Inr p1" "ofold (add_memory cfg ms) p1 xs = Inr p'" by auto
  note ih = Cons(1) [OF p1(2)]
  show ?case
  proof (cases "isInAddrMap (ms ! i)")
    case True
    with p1(1) have "map_memory (addrMap p) (am_range (ms ! i), i) = Inr (addrMap p1)"
      by (auto simp: add_memory_def Let_def)
    with ih True show ?thesis by (simp add: mapped_def)
  next
    case False
    with p1(1) have "addrMap p1 = addrMap p" by (auto simp: add_memory_def Let_def dest: createBackingStore_Inr(1))
    with ih False show ?thesis by (simp add: mapped_def)
  qed
qed (simp add: mapped_def)

section \<open>Backing stores\<close>

text \<open>Every store holds exactly the addresses of the memories that point to it.\<close>

definition stores_ok :: "amem list \<Rightarrow> pmem \<Rightarrow> bool" where
  "stores_ok ms p \<longleftrightarrow>
     (\<forall>k < length (backingStore p). \<forall>a. contains (bs_range (backingStore p ! k)) a \<longleftrightarrow>
        (\<exists>i. store_of p i = Some k \<and> contains (am_range (ms ! i)) a)) \<and>
     (\<forall>i k. store_of p i = Some k \<longrightarrow> k < length (backingStore p))"

definition extends_stores :: "amem list \<Rightarrow> pmem \<Rightarrow> nat set \<Rightarrow> pmem \<Rightarrow> bool" where
  "extends_stores ms p S p' \<longleftrightarrow> stores_ok ms p' \<and> addrMap p' = addrMap p \<and>
     (\<forall>i. store_of p' i = None \<longleftrightarrow> i \<notin> S \<and> store_of p i = None)"

lemma extends_stores_trans:
  "extends_stores ms p S q \<Longrightarrow> extends_stores ms q T r \<Longrightarrow> extends_stores ms p (S \<union> T) r"
  by (auto simp: extends_stores_def)

lemma createBackingStore_stores:
  assumes "createBackingStore cfg rng xs conf in_map kvm p = Inr p'" "stores_ok ms p"
    "\<And>i. i \<in> set xs \<Longrightarrow> store_of p i = None"
    "\<And>a. contains rng a \<longleftrightarrow> (\<exists>i \<in> set xs. contains (am_range (ms ! i)) a)"
  shows "extends_stores ms p (set xs) p'"
proof -
  note c = createBackingStore_Inr [OF assms(1)]
  let ?n = "length (backingStore p)"
  have len: "length (backingStore p') = Suc ?n" using arg_cong [OF c(3), of length] by simp
  have bs: "bs_range (backingStore p' ! k) = (map bs_range (backingStore p) @ [rng]) ! k" if "k < Suc ?n" for k
    using c(3) len that by (metis nth_map)
  have lt: "store_of p i = Some k \<Longrightarrow> k < ?n" for i k using assms(2) by (simp add: stores_ok_def)
  have st: "store_of p' i = (if i \<in> set xs then Some ?n else store_of p i)" for i
    by (simp add: c(2) point_to_store_def)
  have "contains (bs_range (backingStore p' ! k)) a \<longleftrightarrow> (\<exists>i. store_of p' i = Some k \<and> contains (am_range (ms ! i)) a)"
    if k: "k < Suc ?n" for k a
  proof (cases "k = ?n")
    case True
    have "store_of p' i = Some ?n \<longleftrightarrow> i \<in> set xs" for i using st [of i] lt [of i ?n] by auto
    then show ?thesis using bs [OF k] True assms(4) by (auto simp: nth_append)
  next
    case False
    then have "store_of p' i = Some k \<longleftrightarrow> store_of p i = Some k" for i using st [of i] assms(3) [of i] by auto
    then show ?thesis using bs [OF k] False k assms(2) by (simp add: nth_append stores_ok_def)
  qed
  moreover have "store_of p' i = Some k \<Longrightarrow> k < Suc ?n" for i k
    using st [of i] lt [of i k] by (auto split: if_splits)
  ultimately have "stores_ok ms p'" by (simp add: stores_ok_def len)
  then show ?thesis using c(1) st by (auto simp: extends_stores_def)
qed

definition ranges_of :: "amem list \<Rightarrow> nat list \<Rightarrow> addr_range list" where
  "ranges_of ms xs = map (\<lambda>i. am_range (ms ! i)) xs"

lemma covers_ranges_of: "covers (ranges_of ms xs) a \<longleftrightarrow> (\<exists>i \<in> set xs. contains (am_range (ms ! i)) a)"
  by (auto simp: covers_def ranges_of_def)

lemma store_merged_stores:
  assumes "store_merged cfg ms (ranges_of ms cur) cur p = Inr p'" "stores_ok ms p" "siblings (ranges_of ms cur)"
    "cur \<noteq> []" "\<And>i. i \<in> set cur \<Longrightarrow> store_of p i = None"
  shows "extends_stores ms p (set cur) p'"
proof -
  from assms(1) obtain t where t: "AddrRange_merge (ranges_of ms cur) = Inr t"
    "createBackingStore cfg t cur (isConfReported (ms ! hd cur)) (isInAddrMap (ms ! hd cur)) (isKvmMap (ms ! hd cur)) p = Inr p'"
    by (auto simp: store_merged_def Let_def)
  have "ranges_of ms cur \<noteq> []" using assms(4) by (simp add: ranges_of_def)
  from merge_covers(1) [OF t(1) assms(3) this] show ?thesis
    by (intro createBackingStore_stores [OF t(2) assms(2,5)]) (simp_all add: covers_ranges_of)
qed

lemma store_all_stores:
  assumes "store_all cfg ms (ranges_of ms cur) cur (map (\<lambda>i. (am_range (ms ! i), i)) ns) p = Inr p'"
    "stores_ok ms p" "siblings (ranges_of ms cur)" "\<And>i. i \<in> set ns \<Longrightarrow> rng_ok (am_range (ms ! i))"
    "distinct (cur @ ns)" "\<And>i. i \<in> set cur \<union> set ns \<Longrightarrow> store_of p i = None"
  shows "extends_stores ms p (set cur \<union> set (filter (\<lambda>i. \<not> isNull (ms ! i)) ns)) p'"
  using assms
proof (induction ns arbitrary: cur p)
  case Nil
  show ?case
  proof (cases "cur = []")
    case True
    with Nil show ?thesis by (auto simp: extends_stores_def ranges_of_def)
  next
    case False
    with Nil(1) have "store_merged cfg ms (ranges_of ms cur) cur p = Inr p'" by (simp add: ranges_of_def)
    from store_merged_stores [OF this Nil(2,3) False] Nil(6) show ?thesis by simp
  qed
next
  case (Cons i ns)
  let ?r = "am_range (ms ! i)"
  have ok: "rng_ok ?r" and rest: "\<And>j. j \<in> set ns \<Longrightarrow> rng_ok (am_range (ms ! j))" using Cons(5) by simp_all
  have i: "i \<notin> set cur" "i \<notin> set ns" "distinct (cur @ ns)" using Cons(6) by auto
  consider (null) "isNull (ms ! i)" | (plain) "\<not> isNull (ms ! i)" "\<not> interleaved ?r"
    | (flush) "\<not> isNull (ms ! i)" "interleaved ?r" "cur \<noteq> []" "\<not> mergesWith (last (ranges_of ms cur)) ?r"
    | (wait) "\<not> isNull (ms ! i)" "interleaved ?r" "ranges_of ms cur = [] \<or> mergesWith (last (ranges_of ms cur)) ?r"
    by (auto simp: ranges_of_def)
  then show ?case
  proof cases
    case null
    with Cons(2) have "store_all cfg ms (ranges_of ms cur) cur (map (\<lambda>i. (am_range (ms ! i), i)) ns) p = Inr p'" by simp
    from Cons(1) [OF this Cons(3,4) rest i(3)] Cons(7) null show ?thesis by simp
  next
    case plain
    with Cons(2) obtain q where
      q: "createBackingStore cfg ?r [i] (isConfReported (ms ! i)) (isInAddrMap (ms ! i)) (isKvmMap (ms ! i)) p = Inr q"
      "store_all cfg ms (ranges_of ms cur) cur (map (\<lambda>i. (am_range (ms ! i), i)) ns) q = Inr p'" by auto
    have e: "extends_stores ms p (set [i]) q"
      by (rule createBackingStore_stores [OF q(1) Cons(3)]) (use Cons(7) in simp_all)
    have "extends_stores ms q (set cur \<union> set (filter (\<lambda>i. \<not> isNull (ms ! i)) ns)) p'"
      by (rule Cons(1) [OF q(2) _ Cons(4) rest i(3)]) (use e i Cons(7) in \<open>auto simp: extends_stores_def\<close>)
    from extends_stores_trans [OF e this] plain(1) show ?thesis by simp
  next
    case flush
    then have "ranges_of ms cur \<noteq> []" by (simp add: ranges_of_def)
    with flush Cons(2) obtain q where q: "store_merged cfg ms (ranges_of ms cur) cur p = Inr q"
      "store_all cfg ms (ranges_of ms [i]) [i] (map (\<lambda>i. (am_range (ms ! i), i)) ns) q = Inr p'"
      by (auto simp: ranges_of_def)
    have e: "extends_stores ms p (set cur) q"
      by (rule store_merged_stores [OF q(1) Cons(3,4) flush(3)]) (use Cons(7) in simp)
    have "siblings (ranges_of ms [i])" using siblings_single [OF ok] by (simp add: ranges_of_def)
    then have "extends_stores ms q (set [i] \<union> set (filter (\<lambda>i. \<not> isNull (ms ! i)) ns)) p'"
      by (intro Cons(1) [OF q(2)]) (use e i rest Cons(7) Cons(6) in \<open>auto simp: extends_stores_def\<close>)
    from extends_stores_trans [OF e this] flush(1) show ?thesis by simp
  next
    case wait
    with Cons(2) have w: "store_all cfg ms (ranges_of ms (cur @ [i])) (cur @ [i]) (map (\<lambda>i. (am_range (ms ! i), i)) ns) p = Inr p'"
      by (auto simp: ranges_of_def split: if_splits)
    have "siblings (ranges_of ms (cur @ [i]))"
      using siblings_snoc [OF Cons(4) wait(3) ok] by (simp add: ranges_of_def)
    then have "extends_stores ms p (set (cur @ [i]) \<union> set (filter (\<lambda>i. \<not> isNull (ms ! i)) ns)) p'"
      by (intro Cons(1) [OF w Cons(3)]) (use rest Cons(6,7) in auto)
    then show ?thesis using wait(1) by simp
  qed
qed

lemma add_all_stores:
  assumes "ofold (add_memory cfg ms) p xs = Inr p'" "stores_ok ms p" "distinct xs"
    "\<And>i. i \<in> set xs \<Longrightarrow> store_of p i = None"
  shows "stores_ok ms p' \<and>
    (\<forall>i. store_of p' i = None \<longleftrightarrow> \<not> (i \<in> set xs \<and> \<not> isInAddrMap (ms ! i)) \<and> store_of p i = None)"
  using assms
proof (induction xs arbitrary: p)
  case (Cons i xs)
  from Cons(2) obtain q where q: "add_memory cfg ms p i = Inr q" "ofold (add_memory cfg ms) q xs = Inr p'" by auto
  show ?case
  proof (cases "isInAddrMap (ms ! i)")
    case True
    with q(1) obtain am k where "q = p\<lparr>memories := memories p @ [i], totalSize := k, addrMap := am\<rparr>"
      by (auto simp: add_memory_def Let_def)
    then have "stores_ok ms q" "store_of q = store_of p" using Cons(3) by (simp_all add: stores_ok_def)
    with Cons(1) [OF q(2)] Cons(4,5) True show ?thesis by auto
  next
    case False
    with q(1) have c: "createBackingStore cfg (am_range (ms ! i)) [i] (isConfReported (ms ! i)) False (isKvmMap (ms ! i)) p = Inr q"
      by (auto simp: add_memory_def Let_def)
    have e: "extends_stores ms p (set [i]) q"
      by (rule createBackingStore_stores [OF c Cons(3)]) (use Cons(5) in simp_all)
    then have "stores_ok ms q" "\<And>j. j \<in> set xs \<Longrightarrow> store_of q j = None"
      using Cons(4,5) by (auto simp: extends_stores_def)
    with Cons(1) [OF q(2)] Cons(4) e False show ?thesis by (auto simp: extends_stores_def)
  qed
qed simp

lemma mapped_values_distinct:
  assumes "rm_ok mx m" "\<And>k i. (k, i) \<in> rm_entries m \<Longrightarrow> k = f i"
  shows "map snd (rm_tree m) = map (\<lambda>i. (f i, i)) (map nvalue (rm_tree m))" "distinct (map nvalue (rm_tree m))"
proof -
  have node: "nrange n = f (nvalue n)" if "n \<in> set (rm_tree m)" for n
    using assms(2) [of "nrange n" "nvalue n"] that by (auto simp: rm_entries_def)
  then show "map snd (rm_tree m) = map (\<lambda>i. (f i, i)) (map nvalue (rm_tree m))" by (auto intro: prod_eqI)
  have t: "tree_ok (rm_tree m)" using assms(1) by (simp add: rm_ok_def)
  have "nvalue (rm_tree m ! i) \<noteq> nvalue (rm_tree m ! j)" if "i < j" "j < length (rm_tree m)" for i j
  proof
    assume "nvalue (rm_tree m ! i) = nvalue (rm_tree m ! j)"
    with node have "nrange (rm_tree m ! i) = nrange (rm_tree m ! j)" using that by simp
    with tree_ok_compat [OF t that] tree_ok_nth [OF t that(2)] show False by (auto simp: compat_def rng_ok_def)
  qed
  then show "distinct (map nvalue (rm_tree m))"
    by (auto simp: distinct_conv_nth) (metis linorder_neqE_nat)
qed

text \<open>
  Memories the address map can hold: well formed ranges, and no memory of one byte within the
  bounds of an interleaved one.
\<close>

definition good_memories :: "amem list \<Rightarrow> bool" where
  "good_memories ms \<longleftrightarrow> list_all (\<lambda>m. isInAddrMap m \<longrightarrow> rng_ok (am_range m) \<and>
     list_all (\<lambda>m'. isInAddrMap m' \<longrightarrow> clear_of (am_range m) (am_range m')) ms) ms"

lemma PhysicalMemory_steps:
  assumes "PhysicalMemory cfg ms = Inr p" "good_memories ms"
  obtains q where "ofold (add_memory cfg ms) pmem_empty [0..<length ms] = Inr q"
    "store_all cfg ms [] [] (map snd (rm_tree (addrMap q))) q = Inr p"
    "rm_ok mem_cache (addrMap q)" "rm_entries (addrMap q) = set (mapped ms [0..<length ms])"
proof -
  from assms(1) obtain q where q: "ofold (add_memory cfg ms) pmem_empty [0..<length ms] = Inr q"
    "store_all cfg ms [] [] (map snd (rm_tree (addrMap q))) q = Inr p" by (auto simp: PhysicalMemory_def)
  have "ofold map_memory rm_empty (mapped ms [0..<length ms]) = Inr (addrMap q)"
    using add_all_map [OF q(1)] by (simp add: pmem_empty_def)
  moreover have "rm_ok mem_cache (rm_empty :: nat range_map)" by (rule rm_reach_ok [OF rm_reach.empty])
  moreover have "list_all (\<lambda>x. rng_ok (fst x)) (mapped ms [0..<length ms])"
    using assms(2) by (auto simp: mapped_def good_memories_def list_all_iff)
  moreover have "\<forall>x \<in> set (mapped ms [0..<length ms]). \<forall>y \<in> rm_entries (rm_empty :: nat range_map) \<union> set (mapped ms [0..<length ms]).
      clear_of (fst x) (fst y)"
    using assms(2) by (auto simp: mapped_def good_memories_def list_all_iff rm_entries_def rm_empty_def)
  ultimately have "rm_ok mem_cache (addrMap q) \<and> rm_entries (addrMap q) = rm_entries (rm_empty :: nat range_map) \<union> set (mapped ms [0..<length ms])"
    using memory_map.add_all by blast
  then show ?thesis using that [OF q] by (simp add: rm_entries_def rm_empty_def)
qed

lemma in_mapped: "(k, i) \<in> set (mapped ms [0..<length ms]) \<longleftrightarrow> i < length ms \<and> isInAddrMap (ms ! i) \<and> k = am_range (ms ! i)"
  by (auto simp: mapped_def)

lemma PhysicalMemory_stores:
  assumes "PhysicalMemory cfg ms = Inr p" "good_memories ms"
  shows "stores_ok ms p" "rm_ok mem_cache (addrMap p)" "rm_entries (addrMap p) = set (mapped ms [0..<length ms])"
    "\<And>i. i < length ms \<Longrightarrow> store_of p i = None \<longleftrightarrow> isInAddrMap (ms ! i) \<and> isNull (ms ! i)"
proof -
  obtain q where q: "ofold (add_memory cfg ms) pmem_empty [0..<length ms] = Inr q"
    "store_all cfg ms [] [] (map snd (rm_tree (addrMap q))) q = Inr p"
    "rm_ok mem_cache (addrMap q)" "rm_entries (addrMap q) = set (mapped ms [0..<length ms])"
    by (rule PhysicalMemory_steps [OF assms])
  let ?ns = "map nvalue (rm_tree (addrMap q))"
  have v: "map snd (rm_tree (addrMap q)) = map (\<lambda>i. (am_range (ms ! i), i)) ?ns" "distinct ?ns"
    using mapped_values_distinct [OF q(3), of "\<lambda>i. am_range (ms ! i)"] by (simp_all add: q(4) in_mapped)
  have ns: "i \<in> set ?ns \<longleftrightarrow> i < length ms \<and> isInAddrMap (ms ! i)" for i
  proof -
    have "set ?ns = snd ` rm_entries (addrMap q)" by (auto simp: rm_entries_def image_image)
    then show ?thesis by (auto simp: q(4) mapped_def image_image)
  qed
  have "stores_ok ms pmem_empty" "\<And>i. store_of pmem_empty i = None" by (simp_all add: stores_ok_def pmem_empty_def)
  from add_all_stores [OF q(1) this(1)] this(2)
  have a: "stores_ok ms q" "\<And>i. store_of q i = None \<longleftrightarrow> \<not> (i < length ms \<and> \<not> isInAddrMap (ms ! i))" by simp_all
  have "extends_stores ms q (set [] \<union> set (filter (\<lambda>i. \<not> isNull (ms ! i)) ?ns)) p"
  proof (rule store_all_stores)
    show "store_all cfg ms (ranges_of ms []) [] (map (\<lambda>i. (am_range (ms ! i), i)) ?ns) q = Inr p"
      using q(2) v(1) by (simp add: ranges_of_def)
    show "siblings (ranges_of ms [])" by (simp add: siblings_def ranges_of_def)
    show "rng_ok (am_range (ms ! i))" if "i \<in> set ?ns" for i
      using assms(2) that ns by (simp add: good_memories_def list_all_length)
    show "store_of q i = None" if "i \<in> set [] \<union> set ?ns" for i using that ns a(2) by simp
  qed (use a v in simp_all)
  then have e: "stores_ok ms p" "addrMap p = addrMap q"
    "\<And>i. store_of p i = None \<longleftrightarrow> i \<notin> set (filter (\<lambda>i. \<not> isNull (ms ! i)) ?ns) \<and> store_of q i = None"
    by (simp_all add: extends_stores_def)
  show "stores_ok ms p" "rm_ok mem_cache (addrMap p)" "rm_entries (addrMap p) = set (mapped ms [0..<length ms])"
    using e q by simp_all
  show "store_of p i = None \<longleftrightarrow> isInAddrMap (ms ! i) \<and> isNull (ms ! i)" if "i < length ms" for i
    using e(3) [of i] a(2) [of i] ns [of i] that by auto
qed

section \<open>Reported ranges\<close>

lemma conf_ranges_covers:
  assumes "conf_ranges ms rs intlv ns = Inr rs'" "siblings intlv" "list_all (\<lambda>x. rng_ok (fst x)) ns"
  shows "covers rs' a \<longleftrightarrow> covers rs a \<or> covers intlv a \<or> (\<exists>x \<in> set ns. isConfReported (ms ! snd x) \<and> contains (fst x) a)"
  using assms
proof (induction ns arbitrary: rs intlv)
  case Nil
  then show ?case using merge_covers(1) by (fastforce split: if_splits)
next
  case (Cons x ns)
  obtain r i where x: "x = (r, i)" by force
  have r: "rng_ok r" "list_all (\<lambda>x. rng_ok (fst x)) ns" using Cons(4) by (simp_all add: x)
  consider (skip) "\<not> isConfReported (ms ! i)" | (plain) "isConfReported (ms ! i)" "\<not> interleaved r"
    | (flush) "isConfReported (ms ! i)" "interleaved r" "intlv \<noteq> []" "\<not> mergesWith (last intlv) r"
    | (wait) "isConfReported (ms ! i)" "interleaved r" "intlv = [] \<or> mergesWith (last intlv) r" by blast
  then show ?case
  proof cases
    case flush
    with Cons(2) obtain t where t: "AddrRange_merge intlv = Inr t" "conf_ranges ms (rs @ [t]) [r] ns = Inr rs'" by (auto simp: x)
    from Cons(1) [OF t(2) siblings_single [OF r(1)] r(2)] merge_covers(1) [OF t(1) Cons(3) flush(3), of a] flush(1)
    show ?thesis by (auto simp: x)
  next
    case wait
    with Cons(2) have "conf_ranges ms rs (intlv @ [r]) ns = Inr rs'" by (auto simp: x split: if_splits)
    from Cons(1) [OF this siblings_snoc [OF Cons(3) wait(3) r(1)] r(2)] wait(1) show ?thesis by (auto simp: x)
  qed (use Cons r in \<open>auto simp: x\<close>)
qed

section \<open>Histories\<close>

text \<open>A physical memory from its construction on, with any sequence of queries and accesses.\<close>

inductive pmem_run :: "pmem_config \<Rightarrow> amem list \<Rightarrow> pmem \<Rightarrow> bool" for cfg ms where
  built: "PhysicalMemory cfg ms = Inr p \<Longrightarrow> pmem_run cfg ms p"
| query: "pmem_run cfg ms p \<Longrightarrow> isMemAddr p a = Inr (b, p') \<Longrightarrow> pmem_run cfg ms p'"
| access: "pmem_run cfg ms p \<Longrightarrow> pmem_access p isRequest r = Inr (i, p') \<Longrightarrow> pmem_run cfg ms p'"
| locked: "pmem_run cfg ms p \<Longrightarrow> locked_owner p a = Inr (i, p') \<Longrightarrow> pmem_run cfg ms p'"

definition pmem_inv :: "amem list \<Rightarrow> pmem \<Rightarrow> bool" where
  "pmem_inv ms p \<longleftrightarrow> rm_ok mem_cache (addrMap p) \<and> rm_entries (addrMap p) = set (mapped ms [0..<length ms])"

lemma rm_contains_inv:
  assumes "pmem_inv ms p" "rm_contains mem_cache (addrMap p) r = Inr (res, m)"
  shows "pmem_inv ms (p\<lparr>addrMap := m\<rparr>)"
  using assms rm_find_result [of mem_cache "addrMap p" "isSubset r" r res m]
  by (simp add: pmem_inv_def rm_contains_def rm_entries_def)

lemma pmem_run_inv:
  assumes "pmem_run cfg ms p" "good_memories ms"
  shows "pmem_inv ms p"
  using assms(1)
proof (induction rule: pmem_run.induct)
  case (built p)
  then show ?case using PhysicalMemory_stores(2,3) [OF _ assms(2)] by (simp add: pmem_inv_def)
next
  case (query p a b p')
  then show ?case by (auto simp: isMemAddr_def rm_contains_addr_def simp del: One_nat_def intro: rm_contains_inv)
next
  case (access p isRequest r i p')
  then show ?case by (auto simp: pmem_access_def simp del: One_nat_def intro: rm_contains_inv split: option.splits)
next
  case (locked p a i p')
  then show ?case by (auto simp: locked_owner_def rm_contains_addr_def simp del: One_nat_def intro: rm_contains_inv split: option.splits)
qed

lemma pmem_inv_node:
  assumes "pmem_inv ms p"
  shows "(\<exists>n \<in> set (rm_tree (addrMap p)). snd n = (k, i)) \<longleftrightarrow> i < length ms \<and> isInAddrMap (ms ! i) \<and> k = am_range (ms ! i)"
proof -
  have "(k, i) \<in> rm_entries (addrMap p) \<longleftrightarrow> (\<exists>n \<in> set (rm_tree (addrMap p)). snd n = (k, i))"
    unfolding rm_entries_def image_iff by metis
  then show ?thesis using assms by (simp only: pmem_inv_def in_mapped)
qed

lemma isMemAddr_exact:
  assumes inv: "pmem_inv ms p" and a: "a \<noteq> - 1"
  shows "\<exists>p'. isMemAddr p a = Inr (\<exists>i < length ms. isInAddrMap (ms ! i) \<and> contains (am_range (ms ! i)) a, p')"
proof (rule rm_contains_addr_result [OF conjunct1 [OF inv [unfolded pmem_inv_def]] a])
  let ?t = "rm_tree (addrMap p)"
  fix res m'
  assume c: "rm_contains_addr mem_cache (addrMap p) a = Inr (res, m')"
    and res: "case res of None \<Rightarrow> value_at ?t a = None
     | Some it \<Rightarrow> \<exists>n. rm_deref ?t it = Inr n \<and> contains (nrange n) a \<and> value_at ?t a = Some (nvalue n)"
  note node = pmem_inv_node [OF inv]
  have "res \<noteq> None \<longleftrightarrow> value_at ?t a \<noteq> None" using res by (cases res) auto
  also have "\<dots> \<longleftrightarrow> (\<exists>n \<in> set ?t. contains (nrange n) a)"
    unfolding value_at_def by (simp only: option.map_disc_iff find_None_iff) blast
  also have "\<dots> \<longleftrightarrow> (\<exists>i < length ms. isInAddrMap (ms ! i) \<and> contains (am_range (ms ! i)) a)" (is "?l \<longleftrightarrow> ?r")
  proof
    assume ?l
    then obtain n where "n \<in> set ?t" "contains (nrange n) a" by blast
    with node [of "nrange n" "nvalue n"] show ?r by auto
  next
    assume ?r
    then obtain i where "i < length ms" "isInAddrMap (ms ! i)" "contains (am_range (ms ! i)) a" by blast
    moreover from this node [of "am_range (ms ! i)" i] obtain n where "n \<in> set ?t" "snd n = (am_range (ms ! i), i)" by auto
    ultimately show ?l by (intro bexI [of _ n]) simp_all
  qed
  finally show ?thesis using c by (simp add: isMemAddr_def)
qed

lemma pmem_access_cases:
  assumes inv: "pmem_inv ms p" and r: "\<not> interleaved r" "ar_start r < ar_end r"
  shows "if \<exists>i < length ms. isInAddrMap (ms ! i) \<and> isSubset r (am_range (ms ! i)) = Inr True
    then \<exists>i p'. pmem_access p True r = Inr (i, p') \<and>
      (\<forall>j. j < length ms \<and> isInAddrMap (ms ! j) \<and> isSubset r (am_range (ms ! j)) = Inr True \<longleftrightarrow> j = i)
    else pmem_access p True r = Inl Assert_Failed"
proof (rule rm_contains_result [OF conjunct1 [OF inv [unfolded pmem_inv_def]] r])
  let ?t = "rm_tree (addrMap p)"
  fix res m'
  assume c: "rm_contains mem_cache (addrMap p) r = Inr (res, m')" "rm_tree m' = ?t"
    and res: "case res of None \<Rightarrow> \<forall>n \<in> set ?t. isSubset r (nrange n) = Inr False
     | Some it \<Rightarrow> \<exists>n. rm_deref ?t it = Inr n \<and> isSubset r (nrange n) = Inr True \<and> value_at ?t (ar_start r) = Some (nvalue n)"
  note node = pmem_inv_node [OF inv]
  have t: "tree_ok ?t" using inv by (simp add: pmem_inv_def rm_ok_def)
  have holds: "\<exists>n \<in> set ?t. nvalue n = i \<and> isSubset r (nrange n) = Inr True \<and> value_at ?t (ar_start r) = Some i"
    if "i < length ms" "isInAddrMap (ms ! i)" "isSubset r (am_range (ms ! i)) = Inr True" for i
  proof -
    from node [of "am_range (ms ! i)" i] that obtain n where n: "n \<in> set ?t" "snd n = (am_range (ms ! i), i)" by auto
    have "rng_ok (nrange n)" using t n(1) by (auto simp: tree_ok_def list_all_iff)
    then have "contains (nrange n) (ar_start r)" using isSubset_start that(3) r(2) n(2) by simp
    from value_at_node [OF t n(1) this] n that(3) show ?thesis by (intro bexI [of _ n]) simp_all
  qed
  show ?thesis
  proof (cases res)
    case None
    with res holds have "\<not> (\<exists>i < length ms. isInAddrMap (ms ! i) \<and> isSubset r (am_range (ms ! i)) = Inr True)" by force
    moreover have "pmem_access p True r = Inl Assert_Failed" using c None by (simp add: pmem_access_def)
    ultimately show ?thesis by simp
  next
    case (Some it)
    with res obtain n where n: "rm_deref ?t it = Inr n" "isSubset r (nrange n) = Inr True"
      "value_at ?t (ar_start r) = Some (nvalue n)" by auto
    have mem: "nvalue n < length ms" "isInAddrMap (ms ! nvalue n)" "nrange n = am_range (ms ! nvalue n)"
      using node [of "nrange n" "nvalue n"] rm_deref_Inr [OF n(1)] by force+
    have "pmem_access p True r = Inr (nvalue n, p\<lparr>addrMap := m'\<rparr>)" using c n(1) Some by (simp add: pmem_access_def)
    moreover have "j < length ms \<and> isInAddrMap (ms ! j) \<and> isSubset r (am_range (ms ! j)) = Inr True \<longleftrightarrow> j = nvalue n" for j
      using holds [of j] n mem by auto
    ultimately show ?thesis using mem n(2) by metis
  qed
qed

lemma getConfAddrRanges_covers:
  assumes "pmem_inv ms p" "getConfAddrRanges ms p = Inr rs"
  shows "covers rs a \<longleftrightarrow>
    (\<exists>i < length ms. isInAddrMap (ms ! i) \<and> isConfReported (ms ! i) \<and> contains (am_range (ms ! i)) a)"
proof -
  have s: "rm_ok mem_cache (addrMap p)" "rm_entries (addrMap p) = set (mapped ms [0..<length ms])"
    using assms(1) by (simp_all add: pmem_inv_def)
  have "list_all (\<lambda>x. rng_ok (fst x)) (map snd (rm_tree (addrMap p)))"
    using s(1) by (simp add: rm_ok_def tree_ok_def list_all_iff)
  from conf_ranges_covers [OF assms(2) [unfolded getConfAddrRanges_def] _ this, of a]
  have "covers rs a \<longleftrightarrow> (\<exists>x \<in> rm_entries (addrMap p). isConfReported (ms ! snd x) \<and> contains (fst x) a)"
    by (simp add: siblings_def rm_entries_def)
  also have "\<dots> \<longleftrightarrow> (\<exists>i < length ms. isInAddrMap (ms ! i) \<and> isConfReported (ms ! i) \<and> contains (am_range (ms ! i)) a)"
    unfolding s(2) by (auto simp: mapped_def)
  finally show ?thesis .
qed

section \<open>Properties\<close>

text \<open>An interleaved memory of two channels and a reference memory outside the address map.\<close>

definition demo_mems :: "amem list" where
  "demo_mems =
     [\<lparr>am_range = chan2 1, isInAddrMap = True, isConfReported = True, isKvmMap = True, isNull = False\<rparr>,
      \<lparr>am_range = AddrRange_plain 0 0x800, isInAddrMap = False, isConfReported = False, isKvmMap = False, isNull = False\<rparr>,
      \<lparr>am_range = chan2 0, isInAddrMap = True, isConfReported = True, isKvmMap = True, isNull = False\<rparr>]"

definition demo_pmem_config :: pmem_config where
  "demo_pmem_config = \<lparr>sharedBackstore = True, pageSize = 0x1000, shm_works = True, mmap_works = (\<lambda>_. True)\<rparr>"

lemma demo_pmem: "\<exists>p. PhysicalMemory demo_pmem_config demo_mems = Inr p" "good_memories demo_mems"
proof -
  have "case PhysicalMemory demo_pmem_config demo_mems of Inl _ \<Rightarrow> False | Inr p \<Rightarrow> length (backingStore p) = 2" by code_simp
  then show "\<exists>p. PhysicalMemory demo_pmem_config demo_mems = Inr p" by (auto split: sum.splits)
  show "good_memories demo_mems" by code_simp
qed

text \<open>
  C19. Backing stores. When the constructor succeeds, every memory has a backing store unless it
  is a null memory of the address map, and a store holds exactly the addresses of the memories
  that point to it, so that the channels of an interleaved memory share one store of their
  merged range and no store is larger or smaller than what it backs. The memories of the address
  map have well formed ranges, none of one byte within the bounds of an interleaved one.
\<close>

theorem physical_memory_backed:
  assumes "PhysicalMemory cfg ms = Inr p" "good_memories ms"
  shows "(\<forall>i < length ms. if isInAddrMap (ms ! i) \<and> isNull (ms ! i) then store_of p i = None
      else \<exists>k < length (backingStore p). store_of p i = Some k) \<and>
    (\<forall>k < length (backingStore p). \<forall>a. contains (bs_range (backingStore p ! k)) a \<longleftrightarrow>
      (\<exists>i. store_of p i = Some k \<and> contains (am_range (ms ! i)) a))"
  using PhysicalMemory_stores [OF assms] unfolding stores_ok_def by (metis option.exhaust)

theorem physical_memory_backed_witness:
  "\<exists>p. PhysicalMemory demo_pmem_config demo_mems = Inr p \<and>
     (\<exists>k < length (backingStore p). store_of p 0 = Some k) \<and> (\<exists>k < length (backingStore p). store_of p 1 = Some k)"
proof -
  obtain p where p: "PhysicalMemory demo_pmem_config demo_mems = Inr p" using demo_pmem(1) by blast
  from conjunct1 [OF physical_memory_backed [OF p demo_pmem(2)], rule_format, of 0]
    conjunct1 [OF physical_memory_backed [OF p demo_pmem(2)], rule_format, of 1] p
  show ?thesis by (auto simp: demo_mems_def)
qed

text \<open>
  C20. Dispatch by address, after the construction and any sequence of queries and accesses. An
  address is a memory address exactly when a memory of the address map contains it. An access
  whose bytes lie in a memory of the address map goes to that memory, which is the only one, and
  an access to no memory fails the assertion. The ranges reported to the configuration tables
  hold exactly the addresses of the memories that are to be reported. The memories are those of
  the previous property; the last address of the space is excluded.
\<close>

theorem physical_memory_dispatch:
  assumes "pmem_run cfg ms p" "good_memories ms"
  shows "(\<forall>a. a \<noteq> - 1 \<longrightarrow> (\<exists>p'. isMemAddr p a =
      Inr (\<exists>i < length ms. isInAddrMap (ms ! i) \<and> contains (am_range (ms ! i)) a, p'))) \<and>
    (\<forall>r. \<not> interleaved r \<and> ar_start r < ar_end r \<longrightarrow>
      (if \<exists>i < length ms. isInAddrMap (ms ! i) \<and> isSubset r (am_range (ms ! i)) = Inr True
       then \<exists>i p'. pmem_access p True r = Inr (i, p') \<and>
         (\<forall>j. j < length ms \<and> isInAddrMap (ms ! j) \<and> isSubset r (am_range (ms ! j)) = Inr True \<longleftrightarrow> j = i)
       else pmem_access p True r = Inl Assert_Failed)) \<and>
    (\<forall>rs a. getConfAddrRanges ms p = Inr rs \<longrightarrow>
      ((\<exists>r \<in> set rs. contains r a) \<longleftrightarrow>
        (\<exists>i < length ms. isInAddrMap (ms ! i) \<and> isConfReported (ms ! i) \<and> contains (am_range (ms ! i)) a)))"
proof -
  note inv = pmem_run_inv [OF assms]
  show ?thesis
    using isMemAddr_exact [OF inv] pmem_access_cases [OF inv] getConfAddrRanges_covers [OF inv]
    unfolding covers_def by blast
qed

text \<open>After an access to one channel has been cached, an access to the other channel.\<close>

theorem physical_memory_dispatch_witness:
  "\<exists>p p'. pmem_run demo_pmem_config demo_mems p \<and> rm_cache (addrMap p) \<noteq> [] \<and>
     pmem_access p True (RangeSize 0x40 8) = Inr (0, p')"
proof -
  have "case PhysicalMemory demo_pmem_config demo_mems of Inl _ \<Rightarrow> False | Inr q \<Rightarrow>
      (case pmem_access q True (RangeSize 0x80 8) of Inl _ \<Rightarrow> False | Inr (i, p) \<Rightarrow> rm_cache (addrMap p) \<noteq> [])" by code_simp
  then obtain q i p where q: "PhysicalMemory demo_pmem_config demo_mems = Inr q" "pmem_access q True (RangeSize 0x80 8) = Inr (i, p)"
    "rm_cache (addrMap p) \<noteq> []" by (auto split: sum.splits prod.splits)
  have run: "pmem_run demo_pmem_config demo_mems p" by (rule pmem_run.access [OF pmem_run.built [OF q(1)] q(2)])
  have "isSubset (RangeSize 0x40 8) (chan2 1) = Inr True" by code_simp
  then have sub: "0 < length demo_mems \<and> isInAddrMap (demo_mems ! 0) \<and> isSubset (RangeSize 0x40 8) (am_range (demo_mems ! 0)) = Inr True"
    by (simp add: demo_mems_def)
  have plain: "\<not> interleaved (RangeSize 0x40 8) \<and> ar_start (RangeSize 0x40 8) < ar_end (RangeSize 0x40 8)"
    by (simp add: RangeSize_def)
  have "\<exists>i < length demo_mems. isInAddrMap (demo_mems ! i) \<and> isSubset (RangeSize 0x40 8) (am_range (demo_mems ! i)) = Inr True"
    using sub by blast
  with conjunct1 [OF conjunct2 [OF physical_memory_dispatch [OF run demo_pmem(2)]], rule_format, OF plain]
  obtain j p' where "pmem_access p True (RangeSize 0x40 8) = Inr (j, p')" "0 = j" using sub by metis
  then show ?thesis using run q(3) by blast
qed

end
