(* ===== verification/PageTable.thy ===== *)
theory PageTable
  imports Contracts Intmath
begin

text \<open>
  The page table of a process in system-call emulation, \<^verbatim>\<open>mem/page_table.hh\<close> and
  \<^verbatim>\<open>mem/page_table.cc\<close>, and the generator that translates a range of addresses page by page. A
  table is a map from the addresses of virtual pages. What depends on the order of a hash table
  (\<^verbatim>\<open>getMappings\<close>, \<^verbatim>\<open>externalize\<close>, checkpoints) is left out.
\<close>

section \<open>Tables\<close>

record pte =
  pte_paddr :: addr
  pte_flags :: u64

type_synonym ptable = "addr \<Rightarrow> pte option"

record page_table =
  pTable :: ptable
  ptPageSize :: addr
  offsetMask :: addr

definition EmulationPageTable :: "addr \<Rightarrow> page_table outcome" where
  "EmulationPageTable pg =
     obind (floorLog2 8 (uint pg)) (\<lambda>k.
       check (isPowerOf2 pg) Assert_Failed
         (Inr \<lparr>pTable = Map.empty, ptPageSize = pg, offsetMask = mask_bf k\<rparr>))"

definition pageAlign :: "page_table \<Rightarrow> addr \<Rightarrow> addr" where
  "pageAlign pt a = a AND NOT (offsetMask pt)"

definition pageOffset :: "page_table \<Rightarrow> addr \<Rightarrow> addr" where
  "pageOffset pt a = a AND offsetMask pt"

section \<open>Mapping, moving and unmapping pages\<close>

text \<open>
  The loop \<^verbatim>\<open>while (size > 0)\<close> of the three operations: \<open>off\<close> is what has been added to the
  addresses so far. The size is an \<^verbatim>\<open>int64_t\<close> and falls by the page size until it is not positive;
  the constructor asserts that the page size is not zero.
\<close>

function page_loop :: "addr \<Rightarrow> (addr \<Rightarrow> ptable \<Rightarrow> ptable outcome) \<Rightarrow> int \<Rightarrow> addr \<Rightarrow> ptable \<Rightarrow> ptable outcome" where
  "page_loop pg f sz off t =
     (if sz \<le> 0 then Inr t
      else if pg = 0 then Inl Diverges
      else obind (f off t) (\<lambda>t. page_loop pg f (sz - uint pg) (off + pg) t))"
  by pat_completeness auto
termination
  by (relation "measure (\<lambda>(pg, f, sz, off, t). nat sz)") (auto simp: word_neq_0_conv word_less_def)

declare page_loop.simps [simp del]

definition Clobber :: u64 where
  "Clobber = 1"

definition map_page :: "addr \<Rightarrow> addr \<Rightarrow> u64 \<Rightarrow> ptable \<Rightarrow> ptable outcome" where
  "map_page vaddr paddr flags t =
     (let clobber = flags AND Clobber \<noteq> 0;
          e = \<lparr>pte_paddr = paddr, pte_flags = flags\<rparr>
      in case t vaddr of
           Some _ \<Rightarrow> check clobber Panic (Inr (t(vaddr \<mapsto> e)))
         | None \<Rightarrow> Inr (t(vaddr \<mapsto> e)))"

definition pt_map :: "page_table \<Rightarrow> addr \<Rightarrow> addr \<Rightarrow> int \<Rightarrow> u64 \<Rightarrow> page_table outcome" where
  "pt_map pt vaddr paddr sz flags =
     check (pageOffset pt vaddr = 0) Assert_Failed
      (obind (page_loop (ptPageSize pt) (\<lambda>off. map_page (vaddr + off) (paddr + off) flags) sz 0 (pTable pt)) (\<lambda>t.
        Inr (pt\<lparr>pTable := t\<rparr>)))"

definition remap_page :: "addr \<Rightarrow> addr \<Rightarrow> ptable \<Rightarrow> ptable outcome" where
  "remap_page vaddr new_vaddr t =
     check (t vaddr \<noteq> None \<and> t new_vaddr = None) Assert_Failed
       (Inr ((t(new_vaddr := t vaddr))(vaddr := None)))"

definition pt_remap :: "page_table \<Rightarrow> addr \<Rightarrow> int \<Rightarrow> addr \<Rightarrow> page_table outcome" where
  "pt_remap pt vaddr sz new_vaddr =
     check (pageOffset pt vaddr = 0) Assert_Failed
      (check (pageOffset pt new_vaddr = 0) Assert_Failed
        (obind (page_loop (ptPageSize pt) (\<lambda>off. remap_page (vaddr + off) (new_vaddr + off)) sz 0 (pTable pt)) (\<lambda>t.
          Inr (pt\<lparr>pTable := t\<rparr>))))"

definition unmap_page :: "addr \<Rightarrow> ptable \<Rightarrow> ptable outcome" where
  "unmap_page vaddr t = check (t vaddr \<noteq> None) Assert_Failed (Inr (t(vaddr := None)))"

definition pt_unmap :: "page_table \<Rightarrow> addr \<Rightarrow> int \<Rightarrow> page_table outcome" where
  "pt_unmap pt vaddr sz =
     check (pageOffset pt vaddr = 0) Assert_Failed
      (obind (page_loop (ptPageSize pt) (\<lambda>off. unmap_page (vaddr + off)) sz 0 (pTable pt)) (\<lambda>t.
        Inr (pt\<lparr>pTable := t\<rparr>)))"

text \<open>
  The offset of \<^verbatim>\<open>isUnmapped\<close> is an \<^verbatim>\<open>int64_t\<close>. When it wraps around below zero the walk starts
  over and does not end; this is the value \<^term>\<open>Inl Diverges\<close>.
\<close>

function unmapped_from :: "page_table \<Rightarrow> addr \<Rightarrow> int \<Rightarrow> int \<Rightarrow> bool outcome" where
  "unmapped_from pt vaddr sz off =
     (if sz \<le> off then Inr True
      else if pTable pt (vaddr + word_of_int off) \<noteq> None then Inr False
      else if ptPageSize pt = 0 \<or> off + uint (ptPageSize pt) \<ge> 2 ^ 63 then Inl Diverges
      else unmapped_from pt vaddr sz (off + uint (ptPageSize pt)))"
  by pat_completeness auto
termination
  by (relation "measure (\<lambda>(pt, v, sz, off). nat (sz - off))") (auto simp: word_neq_0_conv word_less_def)

declare unmapped_from.simps [simp del]

definition pt_isUnmapped :: "page_table \<Rightarrow> addr \<Rightarrow> int \<Rightarrow> bool outcome" where
  "pt_isUnmapped pt vaddr sz = check (pageOffset pt vaddr = 0) Assert_Failed (unmapped_from pt vaddr sz 0)"

section \<open>Translation\<close>

definition pt_lookup :: "page_table \<Rightarrow> addr \<Rightarrow> pte option" where
  "pt_lookup pt vaddr = pTable pt (pageAlign pt vaddr)"

definition pt_translate :: "page_table \<Rightarrow> addr \<Rightarrow> addr option" where
  "pt_translate pt vaddr =
     (case pt_lookup pt vaddr of None \<Rightarrow> None | Some e \<Rightarrow> Some (pageOffset pt vaddr + pte_paddr e))"

text \<open>A request with its address and size; the result is its physical address, or none for the fault.\<close>

definition pt_translate_req :: "page_table \<Rightarrow> addr \<Rightarrow> u32 \<Rightarrow> addr option outcome" where
  "pt_translate_req pt vaddr sz =
     check (pageAlign pt (vaddr + ucast sz - 1) = pageAlign pt vaddr) Assert_Failed
      (case pt_translate pt vaddr of None \<Rightarrow> Inr None
       | Some paddr \<Rightarrow> check (\<not> (paddr AND (ptPageSize pt - 1)) + ucast sz > ptPageSize pt) Panic (Inr (Some paddr)))"

text \<open>A piece of a range being translated, with its physical address unless the translation faults.\<close>

record trange =
  tr_vaddr :: addr
  tr_size :: addr
  tr_paddr :: "addr option"

definition gen_translate :: "page_table \<Rightarrow> addr \<Rightarrow> addr \<Rightarrow> trange outcome" where
  "gen_translate pt vaddr sz =
     obind (roundUp vaddr (ptPageSize pt)) (\<lambda>nxt.
       let nxt = (if nxt = vaddr then nxt + ptPageSize pt else nxt)
       in Inr \<lparr>tr_vaddr = vaddr, tr_size = min sz (nxt - vaddr), tr_paddr = pt_translate pt vaddr\<rparr>)"

section \<open>Pages\<close>

text \<open>
  A page table with pages of \<open>2 ^ k\<close> bytes, whose entries are at page addresses.
\<close>

definition pt_ok :: "nat \<Rightarrow> page_table \<Rightarrow> bool" where
  "pt_ok k pt \<longleftrightarrow> k < 64 \<and> ptPageSize pt = 2 ^ k \<and> offsetMask pt = mask k \<and>
     (\<forall>a. pTable pt a \<noteq> None \<longrightarrow> pageOffset pt a = 0)"

text \<open>The page addresses among the \<open>n\<close> bytes from a page address on.\<close>

definition in_pages :: "nat \<Rightarrow> addr \<Rightarrow> int \<Rightarrow> addr \<Rightarrow> bool" where
  "in_pages k v n a \<longleftrightarrow> a AND mask k = 0 \<and> uint (a - v) < n"

lemma uint_and_mask: "k \<le> 64 \<Longrightarrow> uint ((w :: u64) AND mask k) = uint w mod 2 ^ k"
  by (simp flip: take_bit_eq_mask add: unsigned_take_bit_eq) (simp add: take_bit_eq_mod)

lemma uint_pow2: "k < 64 \<Longrightarrow> uint (2 ^ k :: u64) = 2 ^ k"
  using unat_pow2 [of k, where 'a = 64] by (simp add: uint_nat)

lemma aligned_iff: "k \<le> 64 \<Longrightarrow> (w :: u64) AND mask k = 0 \<longleftrightarrow> 2 ^ k dvd uint w"
  using uint_and_mask [of k w] by (metis mod_eq_0_iff_dvd uint_0_iff)

lemma uint_diff_mod: "k \<le> 64 \<Longrightarrow> uint (a - v :: u64) mod 2 ^ k = (uint a - uint v) mod 2 ^ k"
  unfolding uint_word_ariths using le_imp_power_dvd [of k 64 "2 :: int"] by (simp only: len_of_numeral_defs mod_mod_cancel) (simp add: mod_mod_cancel)

lemma aligned_diff:
  assumes "k \<le> 64" "(v :: u64) AND mask k = 0"
  shows "(a - v) AND mask k = a AND mask k"
proof -
  have "(uint a - uint v) mod 2 ^ k = uint a mod 2 ^ k"
    using assms by (metis aligned_iff diff_zero mod_0_imp_dvd dvd_imp_mod_0 mod_diff_right_eq)
  then show ?thesis using uint_and_mask [OF assms(1)] uint_diff_mod [OF assms(1)]
    by (metis word_uint_eq_iff)
qed

lemma aligned_add: "k \<le> 64 \<Longrightarrow> (v :: u64) AND mask k = 0 \<Longrightarrow> w AND mask k = 0 \<Longrightarrow> (v + w) AND mask k = 0"
  using aligned_diff [of k v "v + w"] by simp

lemma aligned_sub: "k \<le> 64 \<Longrightarrow> (v :: u64) AND mask k = 0 \<Longrightarrow> w AND mask k = 0 \<Longrightarrow> (w - v) AND mask k = 0"
  by (simp add: aligned_diff)

lemma aligned_pow2: "k < 64 \<Longrightarrow> (2 ^ k :: u64) AND mask k = 0"
  by (simp add: aligned_iff uint_pow2)

lemma uint_of_small_int: "0 \<le> i \<Longrightarrow> i < 2 ^ 64 \<Longrightarrow> uint (word_of_int i :: u64) = i"
  by (simp add: uint_word_of_int)

lemma page_split: "(a AND NOT (mask k)) + (a AND mask k) = (a :: u64)"
proof -
  have d: "(a AND NOT (mask k)) AND (a AND mask k) = 0" by (rule bit_word_eqI) (auto simp: bit_simps)
  have "(a AND NOT (mask k)) OR (a AND mask k) = a" by (rule bit_word_eqI) (auto simp: bit_simps)
  then show ?thesis using disjunctive_add_eq_or [OF d] by simp
qed

lemma page_align_aligned: "((a :: u64) AND NOT (mask k)) AND mask k = 0"
  by (rule bit_word_eqI) (auto simp: bit_simps)

lemma page_align_of_page: "(a :: u64) AND mask k = 0 \<Longrightarrow> a AND NOT (mask k) = a"
  using page_split [of a k] by simp

text \<open>Page by page.\<close>

lemma in_pages_0 [simp]: "\<not> in_pages k v 0 a"
  by (simp add: in_pages_def not_less)

lemma in_pages_step:
  assumes "k < 64" "v AND mask k = 0" "2 ^ k dvd i" "0 \<le> i" "i < 2 ^ 64"
  shows "in_pages k v (i + 2 ^ k) a \<longleftrightarrow> in_pages k v i a \<or> a = v + word_of_int i"
proof -
  have w: "uint (word_of_int i :: u64) = i" using assms(4,5) by (simp add: uint_of_small_int)
  have al: "(word_of_int i :: u64) AND mask k = 0" using assms(1,3) w by (simp add: aligned_iff)
  have *: "uint (a - v) < i + 2 ^ k \<longleftrightarrow> uint (a - v) < i \<or> a = v + word_of_int i" if "a AND mask k = 0"
  proof -
    have "2 ^ k dvd uint (a - v)" using aligned_sub [of k v a] assms(1,2) that by (simp add: aligned_iff)
    then obtain q r where q: "uint (a - v) = 2 ^ k * q" "i = 2 ^ k * r" using assms(3) by (auto elim!: dvdE)
    have "2 ^ k * q < 2 ^ k * r + 2 ^ k \<longleftrightarrow> 2 ^ k * q < 2 ^ k * (r + 1)" by (simp add: distrib_left)
    also have "\<dots> \<longleftrightarrow> q < r \<or> q = r" by auto
    finally have "uint (a - v) < i + 2 ^ k \<longleftrightarrow> uint (a - v) < i \<or> uint (a - v) = i" using q by auto
    moreover have "uint (a - v) = i \<longleftrightarrow> a = v + word_of_int i" using w by (metis add.commute diff_add_cancel add_diff_cancel_left' word_uint_eq_iff)
    ultimately show ?thesis by simp
  qed
  have "(v + word_of_int i) AND mask k = 0" using aligned_add [of k v "word_of_int i"] assms(1,2) al by simp
  with * show ?thesis by (auto simp: in_pages_def)
qed

lemma in_pages_round:
  assumes "k < 64" "v AND mask k = 0" "2 ^ k dvd i" "n \<le> i" "i < n + 2 ^ k"
  shows "in_pages k v i a \<longleftrightarrow> in_pages k v n a"
proof (cases "a AND mask k = 0")
  case True
  then have "2 ^ k dvd uint (a - v)" using aligned_sub [of k v a] assms(1,2) by (simp add: aligned_iff)
  then obtain q r where q: "uint (a - v) = 2 ^ k * q" "i = 2 ^ k * r" using assms(3) by (auto elim!: dvdE)
  have "2 ^ k * q < n" if "2 ^ k * q < 2 ^ k * r"
  proof -
    have "q + 1 \<le> r" using that by simp
    then have "2 ^ k * (q + 1) \<le> 2 ^ k * r" by simp
    with assms(5) q(2) show ?thesis by (simp add: distrib_left)
  qed
  moreover have "2 ^ k * q < 2 ^ k * r" if "2 ^ k * q < n" using less_le_trans [OF that assms(4)] q(2) by simp
  ultimately show ?thesis unfolding in_pages_def q(1) q(2) by blast
qed (simp add: in_pages_def)

lemma in_pages_loop:
  assumes "k < 64" "v AND mask k = 0" "2 ^ k dvd i" "max 0 n \<le> i" "i < max 0 n + 2 ^ k"
  shows "in_pages k v i a \<longleftrightarrow> in_pages k v n a"
proof -
  have "uint (a - v) < max 0 n \<longleftrightarrow> uint (a - v) < n" using uint_ge_0 [of "a - v"] by linarith
  then show ?thesis using in_pages_round [OF assms] by (simp add: in_pages_def)
qed

lemma page_loop_rule:
  assumes k: "k < 64" and P: "P 0 t"
    and step: "\<And>i t. 0 \<le> i \<Longrightarrow> i < sz \<Longrightarrow> 2 ^ k dvd i \<Longrightarrow> P i t \<Longrightarrow>
      (\<exists>t'. f (word_of_int i) t = Inr t' \<and> P (i + 2 ^ k) t') \<or> (f (word_of_int i) t = Inl e \<and> Q)"
  shows "(\<exists>t' i. page_loop (2 ^ k) f sz 0 t = Inr t' \<and> P i t' \<and> 2 ^ k dvd i \<and> max 0 sz \<le> i \<and> i < max 0 sz + 2 ^ k) \<or>
    (page_loop (2 ^ k) f sz 0 t = Inl e \<and> Q)"
proof -
  have "(\<exists>t' j. page_loop (2 ^ k) f (sz - i) (word_of_int i) t = Inr t' \<and> P j t' \<and> 2 ^ k dvd j \<and> max 0 sz \<le> j \<and> j < max 0 sz + 2 ^ k) \<or>
      (page_loop (2 ^ k) f (sz - i) (word_of_int i) t = Inl e \<and> Q)"
    if "P i t" "0 \<le> i" "2 ^ k dvd i" "i < max 0 sz + 2 ^ k" for i t
    using that
  proof (induction "nat (sz - i)" arbitrary: i t rule: less_induct)
    case less
    have unfold: "page_loop (2 ^ k) f (sz - i) (word_of_int i) t =
        obind (f (word_of_int i) t) (page_loop (2 ^ k) f (sz - (i + 2 ^ k)) (word_of_int (i + 2 ^ k)))" if "i < sz"
      using that k by (subst page_loop.simps) (simp add: uint_pow2 diff_diff_eq)
    consider "\<not> i < sz" | "i < sz" "f (word_of_int i) t = Inl e" Q
      | t' where "i < sz" "f (word_of_int i) t = Inr t'" "P (i + 2 ^ k) t'" using step [OF less(3) _ less(4,2)] by blast
    then show ?case
    proof cases
      case 3
      have "nat (sz - (i + 2 ^ k)) < nat (sz - i)" using 3 by simp
      moreover have "0 \<le> i + 2 ^ k" "2 ^ k dvd i + 2 ^ k" "i + 2 ^ k < max 0 sz + 2 ^ k" using less 3 by auto
      ultimately show ?thesis using less(1) [of "i + 2 ^ k" t'] 3 unfold by simp
    qed (use less unfold in \<open>auto simp: page_loop.simps [of _ _ "sz - i"]\<close>)
  qed
  from this [of 0 t] P show ?thesis by (simp add: add_strict_increasing2)
qed

section \<open>What the operations do\<close>

lemma EmulationPageTable_ok:
  assumes "k < 64"
  shows "\<exists>pt. EmulationPageTable (2 ^ k) = Inr pt \<and> pt_ok k pt \<and> pTable pt = Map.empty"
proof -
  obtain y where y: "floorLog2 8 (2 ^ k) = Inr y" "2 ^ y \<le> (2 :: int) ^ k" "(2 :: int) ^ k < 2 ^ (y + 1)"
    using floorLog2_bounds [of 8 "2 ^ k"] power_strict_increasing [OF assms, of "2 :: int"] by auto
  have "y \<le> k" "k < y + 1" using y(2) power_less_imp_less_exp [OF _ y(3)] by auto
  then have "y = k" by simp
  moreover have "isPowerOf2 (2 ^ k :: u64)" using assms by (auto simp: isPowerOf2_iff)
  ultimately show ?thesis using y(1) assms
    by (simp add: EmulationPageTable_def uint_pow2 pt_ok_def mask_bf_def pow2_minus_1)
qed

definition mapped_pages :: "nat \<Rightarrow> addr \<Rightarrow> addr \<Rightarrow> int \<Rightarrow> u64 \<Rightarrow> ptable \<Rightarrow> ptable" where
  "mapped_pages k v p n flags t =
     (\<lambda>a. if in_pages k v n a then Some \<lparr>pte_paddr = p + (a - v), pte_flags = flags\<rparr> else t a)"

lemma pt_map_exact:
  assumes ok: "pt_ok k pt" and v: "v AND mask k = 0" and sz: "sz < 2 ^ 63"
  shows "pt_map pt v p sz flags =
    (if \<forall>a. in_pages k v sz a \<longrightarrow> flags AND Clobber \<noteq> 0 \<or> pTable pt a = None
     then Inr (pt\<lparr>pTable := mapped_pages k v p sz flags (pTable pt)\<rparr>) else Inl Panic)"
proof -
  let ?t = "pTable pt"
  let ?free = "\<lambda>n. \<forall>a. in_pages k v n a \<longrightarrow> flags AND Clobber \<noteq> 0 \<or> ?t a = None"
  let ?f = "\<lambda>off. map_page (v + off) (p + off) flags"
  have k: "k < 64" using ok by (simp add: pt_ok_def)
  have "(\<exists>t' i. page_loop (2 ^ k) ?f sz 0 ?t = Inr t' \<and> (t' = mapped_pages k v p i flags ?t \<and> ?free i) \<and>
       2 ^ k dvd i \<and> max 0 sz \<le> i \<and> i < max 0 sz + 2 ^ k) \<or>
    (page_loop (2 ^ k) ?f sz 0 ?t = Inl Panic \<and> \<not> ?free sz)"
  proof (rule page_loop_rule [OF k])
    show "?t = mapped_pages k v p 0 flags ?t \<and> ?free 0" by (simp add: mapped_pages_def)
  next
    fix i t
    assume i: "0 \<le> i" "i < sz" "2 ^ k dvd i" and t: "t = mapped_pages k v p i flags ?t \<and> ?free i"
    let ?a = "v + word_of_int i"
    have i64: "i < 2 ^ 64" using i sz by simp
    note st = in_pages_step [OF k v i(3,1) i64]
    have u: "uint (word_of_int i :: u64) = i" using i i64 by (simp add: uint_of_small_int)
    have new: "\<not> in_pages k v i ?a" using u by (simp add: in_pages_def)
    then have ta: "t ?a = ?t ?a" using t by (simp add: mapped_pages_def)
    have inn: "in_pages k v sz ?a" using st [of ?a] i u by (simp add: in_pages_def)
    have upd: "t(?a \<mapsto> \<lparr>pte_paddr = p + word_of_int i, pte_flags = flags\<rparr>) = mapped_pages k v p (i + 2 ^ k) flags ?t"
      using t st by (auto simp: mapped_pages_def fun_eq_iff)
    show "(\<exists>t'. ?f (word_of_int i) t = Inr t' \<and> t' = mapped_pages k v p (i + 2 ^ k) flags ?t \<and> ?free (i + 2 ^ k)) \<or>
      ?f (word_of_int i) t = Inl Panic \<and> \<not> ?free sz"
    proof (cases "flags AND Clobber \<noteq> 0 \<or> ?t ?a = None")
      case True
      then have "?f (word_of_int i) t = Inr (t(?a \<mapsto> \<lparr>pte_paddr = p + word_of_int i, pte_flags = flags\<rparr>))"
        using ta by (auto simp: map_page_def Let_def split: option.splits)
      moreover have "?free (i + 2 ^ k)" using t st True by auto
      ultimately show ?thesis using upd by blast
    next
      case False
      then show ?thesis using ta inn by (auto simp: map_page_def Let_def check_def split: option.splits)
    qed
  qed
  moreover note in_pages_loop [OF k v, of _ sz]
  ultimately show ?thesis using ok v by (auto simp: pt_map_def pt_ok_def pageOffset_def mapped_pages_def)
qed

lemma pt_unmap_exact:
  assumes ok: "pt_ok k pt" and v: "v AND mask k = 0" and sz: "sz < 2 ^ 63"
  shows "pt_unmap pt v sz =
    (if \<forall>a. in_pages k v sz a \<longrightarrow> pTable pt a \<noteq> None
     then Inr (pt\<lparr>pTable := (\<lambda>a. if in_pages k v sz a then None else pTable pt a)\<rparr>) else Inl Assert_Failed)"
proof -
  let ?t = "pTable pt"
  let ?all = "\<lambda>n. \<forall>a. in_pages k v n a \<longrightarrow> ?t a \<noteq> None"
  let ?cut = "\<lambda>n a. if in_pages k v n a then None else ?t a"
  let ?f = "\<lambda>off. unmap_page (v + off)"
  have k: "k < 64" using ok by (simp add: pt_ok_def)
  have "(\<exists>t' i. page_loop (2 ^ k) ?f sz 0 ?t = Inr t' \<and> (t' = ?cut i \<and> ?all i) \<and>
       2 ^ k dvd i \<and> max 0 sz \<le> i \<and> i < max 0 sz + 2 ^ k) \<or>
    (page_loop (2 ^ k) ?f sz 0 ?t = Inl Assert_Failed \<and> \<not> ?all sz)"
  proof (rule page_loop_rule [OF k])
    show "?t = ?cut 0 \<and> ?all 0" by simp
  next
    fix i t
    assume i: "0 \<le> i" "i < sz" "2 ^ k dvd i" and t: "t = ?cut i \<and> ?all i"
    let ?a = "v + word_of_int i"
    have i64: "i < 2 ^ 64" using i sz by simp
    note st = in_pages_step [OF k v i(3,1) i64]
    have u: "uint (word_of_int i :: u64) = i" using i i64 by (simp add: uint_of_small_int)
    have "\<not> in_pages k v i ?a" using u by (simp add: in_pages_def)
    then have ta: "t ?a = ?t ?a" using t by simp
    have inn: "in_pages k v sz ?a" using st [of ?a] i u by (simp add: in_pages_def)
    have "t(?a := None) = ?cut (i + 2 ^ k)" using t st by (auto simp: fun_eq_iff)
    then show "(\<exists>t'. ?f (word_of_int i) t = Inr t' \<and> t' = ?cut (i + 2 ^ k) \<and> ?all (i + 2 ^ k)) \<or>
      ?f (word_of_int i) t = Inl Assert_Failed \<and> \<not> ?all sz"
      using t st ta inn by (cases "?t ?a") (auto simp: unmap_page_def check_def)
  qed
  moreover note in_pages_loop [OF k v, of _ sz]
  ultimately show ?thesis using ok v by (auto simp: pt_unmap_def pt_ok_def pageOffset_def)
qed

lemma in_one_page: "k < 64 \<Longrightarrow> v AND mask k = 0 \<Longrightarrow> in_pages k v (2 ^ k) a \<longleftrightarrow> a = v"
  using in_pages_step [of k v 0 a] by simp

lemma unmapped_from_exact:
  assumes ok: "pt_ok k pt" and v: "v AND mask k = 0" and sz: "sz \<le> 2 ^ 63 - 2 ^ k"
  shows "0 \<le> i \<Longrightarrow> 2 ^ k dvd i \<Longrightarrow>
    unmapped_from pt v sz i = Inr (\<forall>a. in_pages k v sz a \<and> \<not> in_pages k v i a \<longrightarrow> pTable pt a = None)"
proof (induction "nat (sz - i)" arbitrary: i rule: less_induct)
  case less
  have k: "k < 64" and pg: "ptPageSize pt = 2 ^ k" using ok by (simp_all add: pt_ok_def)
  show ?case
  proof (cases "sz \<le> i")
    case True
    then have "in_pages k v i a" if "in_pages k v sz a" for a using that by (simp add: in_pages_def)
    then show ?thesis using True by (subst unmapped_from.simps) auto
  next
    case False
    have fit: "i + 2 ^ k < 2 ^ 63" using False sz by simp
    then have i64: "i < 2 ^ 64" using zero_less_power [of "2 :: int" k] by (simp del: zero_less_power)
    note st = in_pages_step [OF k v less(3,2) i64]
    have "uint (word_of_int i :: u64) = i" using less i64 by (simp add: uint_of_small_int)
    then have here: "in_pages k v sz (v + word_of_int i)" "\<not> in_pages k v i (v + word_of_int i)"
      using st [of "v + word_of_int i"] False by (simp_all add: in_pages_def)
    have "nat (sz - (i + 2 ^ k)) < nat (sz - i)" using False by simp
    from less(1) [OF this] less(2,3)
    have "unmapped_from pt v sz (i + 2 ^ k) = Inr (\<forall>a. in_pages k v sz a \<and> \<not> in_pages k v (i + 2 ^ k) a \<longrightarrow> pTable pt a = None)" by simp
    then show ?thesis using False fit here st k pg
      by (subst unmapped_from.simps) (auto simp: uint_pow2)
  qed
qed

lemma pt_isUnmapped_exact:
  assumes "pt_ok k pt" "v AND mask k = 0" "sz \<le> 2 ^ 63 - 2 ^ k"
  shows "pt_isUnmapped pt v sz = Inr (\<forall>a. in_pages k v sz a \<longrightarrow> pTable pt a = None)"
  using unmapped_from_exact [OF assms, of 0] assms by (simp add: pt_isUnmapped_def pageOffset_def pt_ok_def)

text \<open>Operations keep the table well formed.\<close>

lemma pt_ok_update: "pt_ok k pt \<Longrightarrow> (\<forall>a. t a \<noteq> None \<longrightarrow> a AND mask k = 0) \<Longrightarrow> pt_ok k (pt\<lparr>pTable := t\<rparr>)"
  by (auto simp: pt_ok_def pageOffset_def)

lemma pt_ok_entry: "pt_ok k pt \<Longrightarrow> pTable pt a \<noteq> None \<Longrightarrow> a AND mask k = 0"
  by (auto simp: pt_ok_def pageOffset_def)

lemma mapped_pages_ok: "pt_ok k pt \<Longrightarrow> pt_ok k (pt\<lparr>pTable := mapped_pages k v p n flags (pTable pt)\<rparr>)"
  by (rule pt_ok_update) (auto simp: mapped_pages_def in_pages_def pt_ok_entry split: if_splits)

lemma pt_translate_page:
  assumes "pt_ok k pt"
  shows "pt_translate pt a = map_option (\<lambda>e. (a AND mask k) + pte_paddr e) (pTable pt (a AND NOT (mask k)))"
  using assms by (auto simp: pt_translate_def pt_lookup_def pageAlign_def pageOffset_def pt_ok_def split: option.splits)

lemma translate_mapped_pages:
  assumes ok: "pt_ok k pt" and v: "v AND mask k = 0"
  shows "pt_translate (pt\<lparr>pTable := mapped_pages k v p n flags (pTable pt)\<rparr>) a =
    (if in_pages k v n (a AND NOT (mask k)) then Some (p + (a - v)) else pt_translate pt a)"
proof -
  have "(a AND mask k) + (p + ((a AND NOT (mask k)) - v)) = p + (a - v)"
    using page_split [of a k] by (simp add: algebra_simps)
  then show ?thesis
    using pt_translate_page [OF mapped_pages_ok [OF ok], of v p n flags a] pt_translate_page [OF ok, of a]
    by (auto simp: mapped_pages_def)
qed

section \<open>Properties\<close>

text \<open>
  C24. Mapping pages. \<^verbatim>\<open>map\<close> panics exactly when a page of the region is mapped and it may not
  clobber; else every address of the region translates to the same distance from the physical
  address, to the end of its last page, and all others translate as before.
\<close>

theorem page_table_map_translates:
  assumes "pt_ok k pt" "v AND mask k = 0" "sz < 2 ^ 63"
  shows "(pt_map pt v p sz flags = Inl Panic \<longleftrightarrow>
      flags AND Clobber = 0 \<and> (\<exists>a. in_pages k v sz a \<and> pTable pt a \<noteq> None)) \<and>
    (pt_map pt v p sz flags \<noteq> Inl Panic \<longrightarrow> (\<exists>pt'. pt_map pt v p sz flags = Inr pt' \<and> pt_ok k pt' \<and>
      (\<forall>a. pt_translate pt' a = (if in_pages k v sz (a AND NOT (mask k)) then Some (p + (a - v)) else pt_translate pt a))))"
  using pt_map_exact [OF assms, of p flags] mapped_pages_ok [OF assms(1), of v p sz flags]
    translate_mapped_pages [OF assms(1,2), of p sz flags] by auto

theorem page_table_map_translates_witness:
  "\<exists>pt pt'. EmulationPageTable (2 ^ 12) = Inr pt \<and> pt_map pt 0x4000 0x90000 0x1800 0 = Inr pt' \<and>
     pt_translate pt' 0x5abc = Some 0x91abc \<and> pt_translate pt' 0x6000 = None"
proof -
  obtain pt where pt: "EmulationPageTable (2 ^ 12) = Inr pt" "pt_ok 12 pt" "pTable pt = Map.empty"
    using EmulationPageTable_ok [of 12] by auto
  have v: "(0x4000 :: u64) AND mask 12 = 0" by code_simp
  have "in_pages 12 0x4000 0x1800 (0x5abc AND NOT (mask 12))" "\<not> in_pages 12 0x4000 0x1800 (0x6000 AND NOT (mask 12))"
    by code_simp+
  then show ?thesis using page_table_map_translates [OF pt(2) v, where sz = "0x1800" and p = "0x90000" and flags = "0"] pt(1,3) pt_translate_page [OF pt(2), of "0x6000"]
    by auto
qed

end
