(* ===== verification/MemPool.thy ===== *)
theory MemPool
  imports PageTable AddrRange
begin

text \<open>
  The pools of physical pages of system-call emulation, \<^verbatim>\<open>sim/mem_pool.hh\<close> and
  \<^verbatim>\<open>sim/mem_pool.cc\<close>. The counters are 64-bit signed integers; they are kept as words and the
  test of \<^verbatim>\<open>allocate\<close> reads the signed value. Checkpointing is left out.
\<close>

section \<open>Pools\<close>

record mem_pool =
  pageShift :: nat
  startPageNum :: u64
  freePageNum :: u64
  totalPages :: u64

definition MemPool :: "nat \<Rightarrow> addr \<Rightarrow> addr \<Rightarrow> mem_pool outcome" where
  "MemPool page_shift ptr limit =
     (let total = drop_bit page_shift (limit - ptr)
      in check (0 < sint total) Panic
           (Inr \<lparr>pageShift = page_shift, startPageNum = drop_bit page_shift ptr,
                 freePageNum = drop_bit page_shift ptr, totalPages = total\<rparr>))"

definition freePageAddr :: "mem_pool \<Rightarrow> addr" where
  "freePageAddr p = push_bit (pageShift p) (freePageNum p)"

definition allocatedPages :: "mem_pool \<Rightarrow> u64" where
  "allocatedPages p = freePageNum p - startPageNum p"

definition freePages :: "mem_pool \<Rightarrow> u64" where
  "freePages p = totalPages p - allocatedPages p"

definition mp_allocate :: "u64 \<Rightarrow> mem_pool \<Rightarrow> (addr \<times> mem_pool) outcome" where
  "mp_allocate npages p =
     (let return_addr = freePageAddr p;
          p = p\<lparr>freePageNum := freePageNum p + npages\<rparr>
      in check (\<not> sint (freePages p) \<le> 0) Fatal (Inr (return_addr, p)))"

definition populate :: "nat \<Rightarrow> addr_range list \<Rightarrow> mem_pool list \<Rightarrow> mem_pool list outcome" where
  "populate page_shift mems pools =
     ofold (\<lambda>ps r. obind (MemPool page_shift (ar_start r) (ar_end r)) (\<lambda>p. Inr (ps @ [p]))) pools mems"

definition allocPhysPages :: "int \<Rightarrow> nat \<Rightarrow> mem_pool list \<Rightarrow> (addr \<times> mem_pool list) outcome" where
  "allocPhysPages npages pool_id pools =
     check (pool_id < length pools) Undefined
      (obind (mp_allocate (word_of_int npages) (pools ! pool_id)) (\<lambda>(a, p).
        Inr (a, pools[pool_id := p])))"

definition memSize :: "nat \<Rightarrow> mem_pool list \<Rightarrow> addr outcome" where
  "memSize pool_id pools =
     check (pool_id < length pools) Undefined
       (Inr (push_bit (pageShift (pools ! pool_id)) (totalPages (pools ! pool_id))))"

definition freeMemSize :: "nat \<Rightarrow> mem_pool list \<Rightarrow> addr outcome" where
  "freeMemSize pool_id pools =
     check (pool_id < length pools) Undefined
       (Inr (push_bit (pageShift (pools ! pool_id)) (freePages (pools ! pool_id))))"

section \<open>Allocation\<close>

text \<open>A pool whose pages lie in the address space and have not all been handed out.\<close>

definition pool_ok :: "nat \<Rightarrow> mem_pool \<Rightarrow> bool" where
  "pool_ok k p \<longleftrightarrow> k < 64 \<and> pageShift p = k \<and> unat (startPageNum p) \<le> unat (freePageNum p) \<and>
     unat (freePageNum p) < unat (startPageNum p) + unat (totalPages p) \<and>
     (unat (startPageNum p) + unat (totalPages p)) * 2 ^ k \<le> 2 ^ 64 \<and> unat (totalPages p) < 2 ^ 63"

lemma sint_of_small: "\<bar>i\<bar> < 2 ^ 63 \<Longrightarrow> sint (word_of_int i :: u64) = i"
  using signed_take_bit_int_eq_self [of 63 i] by (auto simp: sint_sbintrunc')

lemma pages_left_bounds:
  assumes "(s :: nat) \<le> f" "f < s + t" "t < 2 ^ 63" "m < 2 ^ 62"
  shows "\<bar>int s + int t - (int f + int m)\<bar> < 2 ^ 63" "int s + int t - (int f + int m) \<le> 0 \<longleftrightarrow> \<not> f + m < s + t"
  using assms by auto

lemma mp_allocate_exact:
  assumes ok: "pool_ok k p" and n: "unat n < 2 ^ 62"
  shows "mp_allocate n p =
    (if unat (freePageNum p) + unat n < unat (startPageNum p) + unat (totalPages p)
     then Inr (freePageAddr p, p\<lparr>freePageNum := freePageNum p + n\<rparr>) else Inl Fatal)"
proof -
  let ?p = "p\<lparr>freePageNum := freePageNum p + n\<rparr>"
  let ?s = "unat (startPageNum p)" and ?f = "unat (freePageNum p)" and ?t = "unat (totalPages p)"
  have b: "?s \<le> ?f" "?f < ?s + ?t" "?t < 2 ^ 63" using ok by (simp_all add: pool_ok_def)
  note l = pages_left_bounds [OF b n]
  have "freePages ?p = word_of_int (int ?s + int ?t - (int ?f + int (unat n)))"
    by (simp add: freePages_def allocatedPages_def)
  then have "sint (freePages ?p) = int ?s + int ?t - (int ?f + int (unat n))"
    using sint_of_small [OF l(1)] by simp
  then have "sint (freePages ?p) \<le> 0 \<longleftrightarrow> \<not> ?f + unat n < ?s + ?t" using l(2) by (simp only:)
  then show ?thesis by (simp add: mp_allocate_def Let_def check_def freePageAddr_def)
qed

lemma sint_pos_u64: "0 < sint (w :: u64) \<Longrightarrow> unat w < 2 ^ 63"
proof -
  assume "0 < sint w"
  then have "\<not> bit (uint w) 63" using signed_take_bit_negative_iff [of 63 "uint w"] by (simp del: signed_take_bit_negative_iff add: sint_uint)
  then have "even (unat w div 2 ^ 63)" using bit_iff_unat [of w 63] by (simp only: bit_uint_iff) auto
  moreover have "unat w div 2 ^ 63 < 2" using unat_u64_lt [of w] by (simp add: less_mult_imp_div_less)
  ultimately have "unat w div 2 ^ 63 = 0" by (metis One_nat_def less_2_cases odd_one)
  then show ?thesis by (simp only: div_eq_0_iff) auto
qed

lemma MemPool_ok:
  assumes "MemPool k ptr limit = Inr p" "ptr \<le> limit" "k < 64"
  shows "pool_ok k p" "freePageNum p = startPageNum p"
proof -
  let ?s = "unat ptr div 2 ^ k" and ?t = "unat (limit - ptr) div 2 ^ k"
  have p: "pageShift p = k" "startPageNum p = drop_bit k ptr" "freePageNum p = drop_bit k ptr"
      "totalPages p = drop_bit k (limit - ptr)" "0 < sint (totalPages p)"
    using assms(1) by (auto simp: MemPool_def Let_def)
  have sum: "?s * 2 ^ k + ?t * 2 ^ k \<le> unat limit"
    using add_mono [OF div_times_less_eq_dividend [of "unat ptr" "2 ^ k"] div_times_less_eq_dividend [of "unat (limit - ptr)" "2 ^ k"]]
      unat_sub [OF assms(2)] assms(2) by (simp add: word_le_nat_alt)
  have "unat (totalPages p) < 2 ^ 63" using p(5) sint_pos_u64 by blast
  moreover have "0 < unat (totalPages p)" using p(5) by (metis less_irrefl signed_0 unat_eq_zero gr0I)
  ultimately show "pool_ok k p"
    using p assms(3) le_less_trans [OF sum unat_u64_lt] by (simp add: pool_ok_def unat_drop_bit_word distrib_right)
  show "freePageNum p = startPageNum p" using p by simp
qed

lemma pages_one_by_one:
  assumes "pool_ok k p"
  shows "odrain (mp_allocate 1) n p =
    (if unat (freePageNum p) + n < unat (startPageNum p) + unat (totalPages p)
     then Inr (map (\<lambda>i. push_bit k (freePageNum p + of_nat i)) [0..<n], p\<lparr>freePageNum := freePageNum p + of_nat n\<rparr>)
     else Inl Fatal)"
  using assms
proof (induction n arbitrary: p)
  case 0
  then show ?case by (simp add: pool_ok_def)
next
  case (Suc n)
  let ?p = "p\<lparr>freePageNum := freePageNum p + 1\<rparr>"
  have a: "mp_allocate 1 p = (if unat (freePageNum p) + 1 < unat (startPageNum p) + unat (totalPages p)
      then Inr (freePageAddr p, ?p) else Inl Fatal)" using mp_allocate_exact [OF Suc(2), of 1] by simp
  show ?case
  proof (cases "unat (freePageNum p) + 1 < unat (startPageNum p) + unat (totalPages p)")
    case True
    have "unat (startPageNum p) + unat (totalPages p) \<le> (unat (startPageNum p) + unat (totalPages p)) * 2 ^ k" by simp
    also have "\<dots> \<le> 2 ^ 64" using Suc(2) by (simp add: pool_ok_def)
    finally have u: "unat (freePageNum p + 1) = unat (freePageNum p) + 1" using True by (simp add: unat_word_ariths)
    with True Suc(2) have "pool_ok k ?p" by (simp add: pool_ok_def)
    note ih = Suc(1) [OF this]
    have "map (\<lambda>i. push_bit k (freePageNum p + of_nat i)) [0..<Suc n] =
        freePageAddr p # map (\<lambda>i. push_bit k (freePageNum p + 1 + of_nat i)) [0..<n]"
      using Suc(2) by (simp add: upt_rec [of 0 "Suc n"] map_Suc_upt [symmetric] freePageAddr_def pool_ok_def del: upt_Suc) (simp add: algebra_simps)
    then show ?thesis using a True ih u by (simp del: upt_Suc add: algebra_simps)
  qed (simp add: a)
qed

section \<open>Properties\<close>

text \<open>
  C35. Handing out pages. A pool over the addresses from \<open>ptr\<close> to \<open>limit\<close> hands out its pages in
  order, each once, and stops with a fatal error at its last page: of \<open>n\<close> pages the program gets
  \<open>n - 1\<close>.
\<close>

theorem mem_pool_hands_out:
  assumes "MemPool k ptr limit = Inr p" "ptr \<le> limit" "k < 64"
  shows "odrain (mp_allocate 1) n p =
    (if n < unat (totalPages p)
     then Inr (map (\<lambda>i. push_bit k (startPageNum p + of_nat i)) [0..<n], p\<lparr>freePageNum := startPageNum p + of_nat n\<rparr>)
     else Inl Fatal)"
  using pages_one_by_one [OF MemPool_ok(1) [OF assms], of n] MemPool_ok(2) [OF assms] by simp

theorem mem_pool_hands_out_witness:
  "\<exists>p. MemPool 12 0x1000 0x4000 = Inr p \<and> totalPages p = 3 \<and>
     odrain (mp_allocate 1) 2 p = Inr ([0x1000, 0x2000], p\<lparr>freePageNum := 3\<rparr>) \<and> odrain (mp_allocate 1) 3 p = Inl Fatal"
proof -
  obtain p where p: "MemPool 12 0x1000 0x4000 = Inr p" "totalPages p = 3" "startPageNum p = 1"
    by (simp add: MemPool_def Let_def)
  show ?thesis using p mem_pool_hands_out [OF p(1), of 2] mem_pool_hands_out [OF p(1), of 3] by (simp add: upt_rec)
qed

end
