(* ===== verification/VMA.thy ===== *)
theory VMA
  imports MemPool
begin

text \<open>
  Virtual memory areas, \<^verbatim>\<open>sim/vma.hh\<close> and \<^verbatim>\<open>sim/vma.cc\<close>, and the loops of \<^verbatim>\<open>sim/mem_state.cc\<close> that
  cut and move them. An area may be backed by a file that is mapped in the host; the mapping
  (\<^verbatim>\<open>MappedFileBuffer\<close>) is named by a number and a pointer into it is an offset. What the host
  answers to \<^verbatim>\<open>fstat\<close> and \<^verbatim>\<open>mmap\<close> is an argument; the destructor, which unmaps, is left out.
  What is shown is a refinement: the list of areas stands for a map from addresses to the name of
  their area and their place in its file.
\<close>

section \<open>Areas\<close>

record vma =
  vm_range :: addr_range
  vm_page :: addr
  origHostBuf :: "nat option"
  hostBuf :: addr
  hostBufLen :: u64
  vmaName :: string

abbreviation vm_start :: "vma \<Rightarrow> addr" where
  "vm_start v \<equiv> ar_start (vm_range v)"

abbreviation vm_end :: "vma \<Rightarrow> addr" where
  "vm_end v \<equiv> ar_end (vm_range v)"

definition sanityCheck :: "vma \<Rightarrow> vma outcome" where
  "sanityCheck v =
     check (vm_start v \<noteq> vm_end v) Assert_Failed
      (check (vm_start v < vm_end v) Assert_Failed
        (check (vm_page v \<noteq> 0) Undefined
          (check (vm_start v mod vm_page v = 0) Assert_Failed
            (check (vm_end v mod vm_page v = 0) Assert_Failed (Inr v)))))"

text \<open>
  A file of the host, as the constructor of \<^verbatim>\<open>MappedFileBuffer\<close> sees it: a name for the mapping that
  \<^verbatim>\<open>mmap\<close> makes of it, its size if \<^verbatim>\<open>fstat\<close> gives one, and whether \<^verbatim>\<open>mmap\<close> accepts a length
  and an offset. \<^verbatim>\<open>fstat\<close> returns -1 when it fails, which the test \<^verbatim>\<open>> 0\<close> lets pass, so that the
  size is then read uninitialised. The result is the length of the mapping.
\<close>

record host_file =
  hf_mapping :: nat
  hf_size :: "int option"
  hf_mmap :: "u64 \<Rightarrow> u64 \<Rightarrow> bool"

definition MappedFileBuffer :: "host_file \<Rightarrow> u64 \<Rightarrow> u64 \<Rightarrow> u64 outcome" where
  "MappedFileBuffer f len offset =
     check (len \<noteq> 0) Panic
      (case hf_size f of
         None \<Rightarrow> Inl Undefined
       | Some st_size \<Rightarrow>
           check (\<not> sint offset > st_size) Panic
            (check (st_size - sint offset < 2 ^ 63) Undefined
              (let len = min (word_of_int (st_size - sint offset)) len
               in check (len \<noteq> 0) Panic (check (hf_mmap f len offset) Panic (Inr len)))))"

text \<open>The constructor of an area; the file and the offset in it are absent when the descriptor is -1.\<close>

definition VMA :: "addr_range \<Rightarrow> addr \<Rightarrow> string \<Rightarrow> (host_file \<times> u64) option \<Rightarrow> vma outcome" where
  "VMA r page_bytes vma_name file =
     obind (case file of
              None \<Rightarrow> Inr (None, 0)
            | Some (f, off) \<Rightarrow> obind (MappedFileBuffer f (ar_size r) off) (\<lambda>n. Inr (Some (hf_mapping f), n)))
      (\<lambda>(b, n). sanityCheck
         \<lparr>vm_range = r, vm_page = page_bytes, origHostBuf = b, hostBuf = 0, hostBufLen = n, vmaName = vma_name\<rparr>)"

definition vma_remap :: "addr \<Rightarrow> vma \<Rightarrow> vma outcome" where
  "vma_remap new_start v =
     sanityCheck (v\<lparr>vm_range := AddrRange_plain new_start (new_start + ar_size (vm_range v))\<rparr>)"

definition hasHostBuf :: "vma \<Rightarrow> bool" where
  "hasHostBuf v \<longleftrightarrow> origHostBuf v \<noteq> None"

text \<open>What \<^verbatim>\<open>fillMemPages\<close> copies to the page at \<open>start\<close>: mapping, offset in it, and size.\<close>

definition fillMemPages :: "vma \<Rightarrow> addr \<Rightarrow> (nat \<times> addr \<times> u64) option" where
  "fillMemPages v start =
     (let offset = start - vm_start v
      in if offset < hostBufLen v
         then map_option (\<lambda>b. (b, hostBuf v + offset, min (hostBufLen v - offset) (vm_page v))) (origHostBuf v)
         else None)"

definition isStrictSuperset :: "vma \<Rightarrow> addr_range \<Rightarrow> bool" where
  "isStrictSuperset v r \<longleftrightarrow> ar_start r > vm_start v \<and> ar_end r < vm_end v"

definition sliceRegionRight :: "addr \<Rightarrow> vma \<Rightarrow> vma outcome" where
  "sliceRegionRight slice_addr v =
     (let v = (if hasHostBuf v
               then let nonoverlap_len = slice_addr - vm_start v
                    in v\<lparr>hostBufLen := min (hostBufLen v) nonoverlap_len\<rparr>
               else v)
      in sanityCheck (v\<lparr>vm_range := AddrRange_plain (vm_start v) slice_addr\<rparr>))"

definition sliceRegionLeft :: "addr \<Rightarrow> vma \<Rightarrow> vma outcome" where
  "sliceRegionLeft slice_addr v =
     (let v = (if hasHostBuf v
               then let overlap_len = slice_addr - vm_start v;
                        v = (if overlap_len \<ge> hostBufLen v
                             then v\<lparr>hostBufLen := 0, hostBuf := 0, origHostBuf := None\<rparr>
                             else v\<lparr>hostBufLen := hostBufLen v - overlap_len\<rparr>)
                    in v\<lparr>hostBuf := hostBuf v + overlap_len\<rparr>
               else v)
      in sanityCheck (v\<lparr>vm_range := AddrRange_plain slice_addr (vm_end v)\<rparr>))"

section \<open>Lists of areas\<close>

text \<open>
  The loop of \<^verbatim>\<open>MemState::unmapRegion\<close> over the list of areas; the first argument is the part of
  the list the iterator has passed.
\<close>

fun unmap_vmas :: "addr_range \<Rightarrow> vma list \<Rightarrow> vma list \<Rightarrow> vma list outcome" where
  "unmap_vmas r seen [] = Inr seen"
| "unmap_vmas r seen (v # vs) =
     (if isStrictSuperset v r
      then obind (sliceRegionRight (ar_start r) v) (\<lambda>clone.
             obind (sliceRegionLeft (ar_end r) v) (\<lambda>v. Inr (seen @ v # vs @ [clone])))
      else obind (isSubset (vm_range v) r) (\<lambda>sub.
        if sub then unmap_vmas r seen vs
        else obind (intersects (vm_range v) r) (\<lambda>i.
          if i
          then obind (if vm_start v < ar_start r then sliceRegionRight (ar_start r) v
                      else sliceRegionLeft (ar_end r) v) (\<lambda>v. unmap_vmas r (seen @ [v]) vs)
          else unmap_vmas r (seen @ [v]) vs)))"

text \<open>
  The loop of \<^verbatim>\<open>MemState::remapRegion\<close>. What it appends to the list the iterator reaches later; the
  areas it appends lie outside of the region, so that it ends.
\<close>

definition touches_region :: "addr_range \<Rightarrow> vma \<Rightarrow> bool" where
  "touches_region r v \<longleftrightarrow> \<not> (vm_start v \<ge> ar_end r \<or> vm_end v \<le> ar_start r)"

lemma slices_apart:
  "sliceRegionRight (ar_start r) v = Inr w \<Longrightarrow> \<not> touches_region r w"
  "sliceRegionLeft (ar_end r) v = Inr w \<Longrightarrow> \<not> touches_region r w"
  by (auto simp: sliceRegionRight_def sliceRegionLeft_def sanityCheck_def Let_def touches_region_def split: if_splits)

lemma intersects_touches: "intersects (vm_range v) r = Inr True \<Longrightarrow> touches_region r v"
  by (auto simp: intersects_def touches_region_def split: if_splits)

function remap_vmas :: "addr_range \<Rightarrow> addr \<Rightarrow> vma list \<Rightarrow> vma list \<Rightarrow> vma list outcome" where
  "remap_vmas r new_start seen [] = Inr seen"
| "remap_vmas r new_start seen (v # vs) =
     (if isStrictSuperset v r
      then obind (sliceRegionRight (ar_start r) v) (\<lambda>clone1.
        obind (sliceRegionLeft (ar_end r) v) (\<lambda>clone2.
          obind (sliceRegionLeft (ar_start r) v) (\<lambda>v.
            obind (sliceRegionRight (ar_end r) v) (\<lambda>v.
              obind (vma_remap new_start v) (\<lambda>v. Inr (seen @ v # vs @ [clone1, clone2]))))))
      else obind (isSubset (vm_range v) r) (\<lambda>sub.
        if sub
        then obind (vma_remap (vm_start v - ar_start r + new_start) v) (\<lambda>v. remap_vmas r new_start (seen @ [v]) vs)
        else obind (intersects (vm_range v) r) (\<lambda>i.
          if i
          then if vm_start v < ar_start r
               then obind (sliceRegionRight (ar_start r) v) (\<lambda>clone.
                 obind (sliceRegionLeft (ar_start r) v) (\<lambda>v.
                   obind (vma_remap new_start v) (\<lambda>v. remap_vmas r new_start (seen @ [v]) (vs @ [clone]))))
               else obind (sliceRegionLeft (ar_end r) v) (\<lambda>clone.
                 obind (sliceRegionRight (ar_end r) v) (\<lambda>v.
                   obind (vma_remap (new_start + vm_start v - ar_start r) v) (\<lambda>v.
                     remap_vmas r new_start (seen @ [v]) (vs @ [clone]))))
          else remap_vmas r new_start (seen @ [v]) vs)))"
  by pat_completeness auto
termination
  by (relation "measure (\<lambda>(r, n, seen, vs). sum_list (map (\<lambda>v. if touches_region r v then 2 else (1 :: nat)) vs))")
    (auto simp: slices_apart intersects_touches)

section \<open>What a list of areas stands for\<close>

text \<open>The place in its file of an address in an area.\<close>

definition backing :: "vma \<Rightarrow> addr \<Rightarrow> (nat \<times> addr) option" where
  "backing v a =
     (if a - vm_start v < hostBufLen v then map_option (\<lambda>b. (b, hostBuf v + (a - vm_start v))) (origHostBuf v) else None)"

definition vma_at :: "vma \<Rightarrow> addr \<Rightarrow> (string \<times> (nat \<times> addr) option) option" where
  "vma_at v a = (if vm_start v \<le> a \<and> a < vm_end v then Some (vmaName v, backing v a) else None)"

fun space :: "vma list \<Rightarrow> addr \<Rightarrow> (string \<times> (nat \<times> addr) option) option" where
  "space [] a = None"
| "space (v # vs) a = (case vma_at v a of None \<Rightarrow> space vs a | x \<Rightarrow> x)"

text \<open>An area as \<^verbatim>\<open>sanityCheck\<close> wants it, with pages of \<open>2 ^ k\<close> bytes, and lists of areas that do not overlap.\<close>

definition vma_ok :: "nat \<Rightarrow> vma \<Rightarrow> bool" where
  "vma_ok k v \<longleftrightarrow> vm_range v = AddrRange_plain (vm_start v) (vm_end v) \<and> vm_page v = 2 ^ k \<and> vm_start v < vm_end v \<and>
     vm_start v AND mask k = 0 \<and> vm_end v AND mask k = 0"

definition vmas_ok :: "nat \<Rightarrow> vma list \<Rightarrow> bool" where
  "vmas_ok k vs \<longleftrightarrow> list_all (vma_ok k) vs \<and>
     sorted_wrt (\<lambda>v w. vm_end v \<le> vm_start w \<or> vm_end w \<le> vm_start v) vs"

definition cov :: "vma \<Rightarrow> addr \<Rightarrow> bool" where
  "cov v a \<longleftrightarrow> vm_start v \<le> a \<and> a < vm_end v"

lemma vma_at_cov: "vma_at v a = (if cov v a then Some (vmaName v, backing v a) else None)"
  by (simp add: vma_at_def cov_def)

lemma apart_iff:
  assumes "vm_start v < vm_end v" "vm_start w < vm_end w"
  shows "(vm_end v \<le> vm_start w \<or> vm_end w \<le> vm_start v) \<longleftrightarrow> (\<forall>a. \<not> (cov v a \<and> cov w a))"
proof
  assume r: "\<forall>a. \<not> (cov v a \<and> cov w a)"
  have "\<not> (cov v (max (vm_start v) (vm_start w)) \<and> cov w (max (vm_start v) (vm_start w)))" using r by blast
  then show "vm_end v \<le> vm_start w \<or> vm_end w \<le> vm_start v" using assms by (auto simp: cov_def max_def split: if_splits)
qed (auto simp: cov_def)

lemma vmas_ok_cov: "vmas_ok k vs \<longleftrightarrow> list_all (vma_ok k) vs \<and> sorted_wrt (\<lambda>v w. \<forall>a. \<not> (cov v a \<and> cov w a)) vs"
proof -
  have "sorted_wrt (\<lambda>v w. vm_end v \<le> vm_start w \<or> vm_end w \<le> vm_start v) vs \<longleftrightarrow>
      sorted_wrt (\<lambda>v w. \<forall>a. \<not> (cov v a \<and> cov w a)) vs" if "list_all (vma_ok k) vs"
    using that by (induction vs) (auto simp: apart_iff list_all_iff vma_ok_def)
  then show ?thesis by (auto simp: vmas_ok_def)
qed

lemma space_eq:
  assumes "vmas_ok k vs"
  shows "space vs a = Some y \<longleftrightarrow> (\<exists>v \<in> set vs. vma_at v a = Some y)"
proof -
  have "sorted_wrt (\<lambda>v w. \<forall>a. \<not> (cov v a \<and> cov w a)) vs" using assms by (simp add: vmas_ok_cov)
  then show ?thesis by (induction vs) (auto simp: vma_at_cov split: if_splits)
qed

lemma space_None: "space vs a = None \<longleftrightarrow> (\<forall>v \<in> set vs. \<not> cov v a)"
  by (induction vs) (auto simp: vma_at_cov)

section \<open>Slices\<close>

lemma mod_pow2_aligned: "(w :: u64) mod 2 ^ k = 0 \<longleftrightarrow> w AND mask k = 0"
  by (simp flip: take_bit_eq_mod take_bit_eq_mask)

lemma sanityCheck_ok: "k < 64 \<Longrightarrow> vma_ok k v \<Longrightarrow> sanityCheck v = Inr v"
  by (auto simp: sanityCheck_def vma_ok_def check_def mod_pow2_aligned)

lemma word_diff_less: "(s :: u64) \<le> a \<Longrightarrow> s \<le> b \<Longrightarrow> a - s < b - s \<longleftrightarrow> a < b"
  by (simp add: word_less_nat_alt word_le_nat_alt unat_sub less_diff_iff)

lemma sliceRegionRight_ok:
  assumes k: "k < 64" and v: "vma_ok k v" and s: "s AND mask k = 0" "vm_start v < s" "s < vm_end v"
  obtains w where "sliceRegionRight s v = Inr w" "vma_ok k w" "vm_start w = vm_start v" "vm_end w = s"
    "\<And>a. vma_at w a = (if a < s then vma_at v a else None)"
proof -
  define u where "u = (if hasHostBuf v then v\<lparr>hostBufLen := min (hostBufLen v) (s - vm_start v)\<rparr> else v)"
  define w where "w = u\<lparr>vm_range := AddrRange_plain (vm_start v) s\<rparr>"
  have u: "vm_range u = vm_range v" "vm_page u = vm_page v" "vmaName u = vmaName v" "hostBuf u = hostBuf v" "origHostBuf u = origHostBuf v"
    by (simp_all add: u_def)
  have ok: "vma_ok k w" using v s by (simp add: w_def vma_ok_def u)
  have "sliceRegionRight s v = sanityCheck w" by (simp add: sliceRegionRight_def w_def u_def Let_def)
  then have 1: "sliceRegionRight s v = Inr w" using sanityCheck_ok [OF k ok] by simp
  have "vma_at w a = (if a < s then vma_at v a else None)" for a
  proof (cases "vm_start v \<le> a \<and> a < s")
    case True
    then have "a - vm_start v < s - vm_start v" using s by (simp add: word_diff_less)
    then have "backing w a = backing v a" by (simp add: backing_def w_def u_def hasHostBuf_def)
    with True s less_trans [of a s "vm_end v"] show ?thesis by (simp add: vma_at_def w_def u)
  qed (auto simp: vma_at_def w_def)
  then show thesis using that [OF 1 ok] by (simp add: w_def)
qed

lemma sliceRegionLeft_ok:
  assumes k: "k < 64" and v: "vma_ok k v" and s: "s AND mask k = 0" "vm_start v < s" "s < vm_end v"
  obtains w where "sliceRegionLeft s v = Inr w" "vma_ok k w" "vm_start w = s" "vm_end w = vm_end v"
    "\<And>a. vma_at w a = (if s \<le> a then vma_at v a else None)"
proof -
  define n where "n = s - vm_start v"
  define u where "u = (if hasHostBuf v
      then (if n \<ge> hostBufLen v then v\<lparr>hostBufLen := 0, origHostBuf := None, hostBuf := n\<rparr>
            else v\<lparr>hostBufLen := hostBufLen v - n, hostBuf := hostBuf v + n\<rparr>) else v)"
  define w where "w = u\<lparr>vm_range := AddrRange_plain s (vm_end v)\<rparr>"
  have u: "vm_range u = vm_range v" "vm_page u = vm_page v" "vmaName u = vmaName v" by (simp_all add: u_def)
  have ok: "vma_ok k w" using v s by (simp add: w_def vma_ok_def u)
  have "sliceRegionLeft s v = sanityCheck w" by (simp add: sliceRegionLeft_def w_def u_def n_def Let_def)
  then have 1: "sliceRegionLeft s v = Inr w" using sanityCheck_ok [OF k ok] by simp
  have "vma_at w a = (if s \<le> a then vma_at v a else None)" for a
  proof (cases "s \<le> a \<and> a < vm_end v")
    case True
    have ua: "unat (a - vm_start v) = unat (a - s) + unat n"
      using True s by (simp add: n_def unat_sub word_le_nat_alt word_less_nat_alt)
    have split: "a - vm_start v = (a - s) + n" by (simp add: n_def)
    have "hostBufLen v \<le> n \<Longrightarrow> \<not> a - vm_start v < hostBufLen v"
      using ua by (simp add: word_le_nat_alt word_less_nat_alt)
    moreover have "n < hostBufLen v \<Longrightarrow> a - s < hostBufLen v - n \<longleftrightarrow> a - vm_start v < hostBufLen v"
      using ua by (auto simp: word_less_nat_alt word_le_nat_alt unat_sub)
    ultimately have "backing w a = backing v a"
      by (auto simp: backing_def w_def u_def hasHostBuf_def split)
    with True s order_trans [of "vm_start v" s a] show ?thesis by (simp add: vma_at_def w_def u)
  qed (auto simp: vma_at_def w_def u)
  then show thesis using that [OF 1 ok] by (simp add: w_def)
qed

lemma len64: "LENGTH(64) = 64"
  by simp

lemma range_shift:
  assumes "unat n + unat m < 2 ^ 64"
  shows "n \<le> a \<and> a < n + (m :: u64) \<longleftrightarrow> a - n < m"
proof -
  have nm: "unat (n + m) = unat n + unat m" using assms by (simp add: unat_word_ariths)
  show ?thesis
  proof (cases "n \<le> a")
    case True
    then show ?thesis by (auto simp: word_less_nat_alt word_le_nat_alt unat_sub nm)
  next
    case False
    then have "a = (a - n) + n" "unat a < unat n" by (simp_all add: word_le_nat_alt)
    moreover have "unat ((a - n) + n) = unat (a - n) + unat n" if "unat (a - n) + unat n < 2 ^ 64"
      using that unat_word_ariths(1) [of "a - n" n] by (simp only: len64 mod_less)
    ultimately have "2 ^ 64 \<le> unat (a - n) + unat n" by (metis not_less le_add2 leD)
    with assms False show ?thesis by (simp add: word_less_nat_alt)
  qed
qed

lemma vma_remap_ok:
  assumes k: "k < 64" and v: "vma_ok k v" and n: "n AND mask k = 0" "unat n + unat (vm_end v - vm_start v) < 2 ^ 64"
  obtains w where "vma_remap n v = Inr w" "vma_ok k w" "\<And>a. cov w a \<longleftrightarrow> a - n < vm_end v - vm_start v"
    "\<And>a. vma_at w a = vma_at v (a - n + vm_start v)" "vm_start w = n"
proof -
  let ?m = "vm_end v - vm_start v"
  define w where "w = v\<lparr>vm_range := AddrRange_plain n (n + ?m)\<rparr>"
  have sz: "ar_size (vm_range v) = ?m"
    using v by (metis AddrRange_plain_simps(3) ar_size_def drop_bit_0 id_apply list.size(3) vma_ok_def)
  have "?m \<noteq> 0" using v by (auto simp: vma_ok_def)
  then have "n < n + ?m" using n(2) by (simp add: word_less_nat_alt unat_word_ariths unat_gt_0)
  then have ok: "vma_ok k w" using v n k by (simp add: w_def vma_ok_def aligned_add aligned_sub)
  have 1: "vma_remap n v = Inr w" using sanityCheck_ok [OF k ok] by (simp add: vma_remap_def w_def sz)
  have c: "cov w a \<longleftrightarrow> a - n < ?m" for a using range_shift [OF n(2)] by (simp add: cov_def w_def)
  have "unat (vm_start v) + unat ?m < 2 ^ 64"
    using v unat_u64_lt [of "vm_end v"] unat_sub [of "vm_start v" "vm_end v"] by (simp add: vma_ok_def word_less_nat_alt word_le_nat_alt)
  from range_shift [OF this] have "cov v (a - n + vm_start v) \<longleftrightarrow> a - n < ?m" for a by (simp add: cov_def)
  then have "vma_at w a = vma_at v (a - n + vm_start v)" for a using c by (simp add: vma_at_cov backing_def w_def)
  then show thesis using that [OF 1 ok] c by (simp add: w_def)
qed

section \<open>Unmapping\<close>

lemma vma_tests:
  assumes "vma_ok k v" "s < e"
  shows "isSubset (vm_range v) (AddrRange_plain s e) = Inr (s \<le> vm_start v \<and> vm_end v \<le> e)"
    "intersects (vm_range v) (AddrRange_plain s e) = Inr (vm_start v < e \<and> s < vm_end v)"
proof -
  have "\<not> interleaved (vm_range v)" using assms(1) by (metis AddrRange_plain_simps(3) interleaved_def list.size(3) less_irrefl vma_ok_def)
  moreover have "\<not> interleaved (AddrRange_plain s e)" by (simp add: interleaved_def)
  ultimately show "isSubset (vm_range v) (AddrRange_plain s e) = Inr (s \<le> vm_start v \<and> vm_end v \<le> e)"
    "intersects (vm_range v) (AddrRange_plain s e) = Inr (vm_start v < e \<and> s < vm_end v)"
    using assms by (auto simp: isSubset_def intersects_def vma_ok_def)
qed

lemma cov_vma_at: "cov v a \<longleftrightarrow> vma_at v a \<noteq> None"
  by (simp add: vma_at_cov)

lemma vmas_ok_replace:
  "vmas_ok k (xs @ v # ys) \<Longrightarrow> vma_ok k w \<Longrightarrow> (\<And>a. cov w a \<Longrightarrow> cov v a) \<Longrightarrow> vmas_ok k (xs @ w # ys)"
  by (auto simp: vmas_ok_cov sorted_wrt_append)

lemma vmas_ok_snoc:
  "vmas_ok k (xs @ [c]) \<longleftrightarrow> vmas_ok k xs \<and> vma_ok k c \<and> (\<forall>v \<in> set xs. \<forall>a. \<not> (cov v a \<and> cov c a))"
  by (auto simp: vmas_ok_cov sorted_wrt_append)

lemma vmas_ok_remove: "vmas_ok k (xs @ v # ys) \<Longrightarrow> vmas_ok k (xs @ ys)"
  by (auto simp: vmas_ok_def sorted_wrt_append)

lemma split_area:
  assumes k: "k < 64" and se: "s < e" "s AND mask k = 0" "e AND mask k = 0" and v: "vma_ok k v"
    and vs: "vmas_ok k (seen @ v # vs)" and st: "vm_start v < s" "e < vm_end v"
  shows "\<exists>c w. sliceRegionRight s v = Inr c \<and> sliceRegionLeft e v = Inr w \<and> vmas_ok k (seen @ w # vs @ [c]) \<and>
    (\<forall>a y. (\<exists>u \<in> set (seen @ w # vs @ [c]). vma_at u a = Some y) \<longleftrightarrow>
      \<not> (s \<le> a \<and> a < e) \<and> (\<exists>u \<in> set (seen @ v # vs). vma_at u a = Some y))"
proof -
  have apart: "vma_at w a = None" if "w \<in> set seen \<or> w \<in> set vs" "cov v a" for w a
    using vs that by (auto simp: vmas_ok_cov sorted_wrt_append vma_at_cov)
  obtain c where c: "sliceRegionRight s v = Inr c" "vma_ok k c" "\<And>a. vma_at c a = (if a < s then vma_at v a else None)"
    using sliceRegionRight_ok [OF k v se(2) st(1)] less_trans [OF se(1) st(2)] by metis
  obtain w where w: "sliceRegionLeft e v = Inr w" "vma_ok k w" "\<And>a. vma_at w a = (if e \<le> a then vma_at v a else None)"
    using sliceRegionLeft_ok [OF k v se(3) less_trans [OF st(1) se(1)] st(2)] by metis
  have "vmas_ok k (seen @ w # vs)" by (rule vmas_ok_replace [OF vs w(2)]) (simp add: cov_vma_at w(3) split: if_splits)
  then have "vmas_ok k ((seen @ w # vs) @ [c])"
    unfolding vmas_ok_snoc using c(2,3) w(3) apart se(1) by (auto simp: cov_vma_at split: if_splits)
  moreover have "(\<exists>u \<in> set (seen @ w # vs @ [c]). vma_at u a = Some y) \<longleftrightarrow>
      \<not> (s \<le> a \<and> a < e) \<and> (\<exists>u \<in> set (seen @ v # vs). vma_at u a = Some y)" for a y
  proof -
    have "cov v a" if "s \<le> a" "a < e" using that st by (auto simp: cov_def)
    then show ?thesis using apart [of _ a] c(3) [of a] w(3) [of a] by (auto simp: cov_vma_at)
  qed
  ultimately show ?thesis using c(1) w(1) by simp
qed

lemma unmap_vmas_ok:
  assumes k: "k < 64" and se: "s < e" "s AND mask k = 0" "e AND mask k = 0"
  shows "vmas_ok k (seen @ vs) \<Longrightarrow> \<forall>v \<in> set seen. \<forall>a. cov v a \<longrightarrow> \<not> (s \<le> a \<and> a < e) \<Longrightarrow>
    \<exists>ws. unmap_vmas (AddrRange_plain s e) seen vs = Inr ws \<and> vmas_ok k ws \<and>
      (\<forall>a y. (\<exists>w \<in> set ws. vma_at w a = Some y) \<longleftrightarrow> \<not> (s \<le> a \<and> a < e) \<and> (\<exists>v \<in> set (seen @ vs). vma_at v a = Some y))"
proof (induction vs arbitrary: seen)
  case Nil
  then show ?case by (auto simp: vma_at_cov split: if_splits)
next
  case (Cons v vs)
  let ?r = "AddrRange_plain s e"
  have v: "vma_ok k v" using Cons(2) by (simp add: vmas_ok_def)
  note t = vma_tests [OF v se(1)]
  have rest: "\<exists>ws. unmap_vmas ?r (seen @ [c]) vs = Inr ws \<and> vmas_ok k ws \<and> (\<forall>a y. (\<exists>w \<in> set ws. vma_at w a = Some y) \<longleftrightarrow>
      \<not> (s \<le> a \<and> a < e) \<and> (\<exists>v \<in> set (seen @ v # vs). vma_at v a = Some y))"
    if c: "vma_ok k c" "\<And>a. vma_at c a = (if s \<le> a \<and> a < e then None else vma_at v a)" for c
  proof -
    have "vmas_ok k (seen @ c # vs)" by (rule vmas_ok_replace [OF Cons(2) c(1)]) (simp add: cov_vma_at c(2) split: if_splits)
    then have "vmas_ok k ((seen @ [c]) @ vs)" by simp
    from Cons(1) [OF this] Cons(3) c(2) show ?thesis by (fastforce simp: cov_vma_at split: if_splits)
  qed
  consider (split) "vm_start v < s" "e < vm_end v" | (drop) "s \<le> vm_start v" "vm_end v \<le> e"
    | (right) "vm_start v < s" "s < vm_end v" "vm_end v \<le> e" | (left) "s \<le> vm_start v" "vm_start v < e" "e < vm_end v"
    | (keep) "vm_end v \<le> s \<or> e \<le> vm_start v" by (meson not_less)
  then show ?case
  proof cases
    case split
    from split_area [OF k se v Cons(2) split] split show ?thesis by (auto simp: isStrictSuperset_def)
  next
    case drop
    have "vma_at v a = Some y \<Longrightarrow> s \<le> a \<and> a < e" for a y
      using drop by (auto simp: vma_at_def split: if_splits)
    then show ?thesis using Cons(1) [OF vmas_ok_remove [OF Cons(2)] Cons(3)] t drop
      by (auto simp: isStrictSuperset_def)
  next
    case right
    obtain c where c: "sliceRegionRight s v = Inr c" "vma_ok k c" "\<And>a. vma_at c a = (if a < s then vma_at v a else None)"
      using sliceRegionRight_ok [OF k v se(2) right(1,2)] by metis
    have "vma_at c a = (if s \<le> a \<and> a < e then None else vma_at v a)" for a
      using c(3) right by (auto simp: vma_at_def)
    moreover have "unmap_vmas ?r seen (v # vs) = unmap_vmas ?r (seen @ [c]) vs"
      using c(1) t right less_trans [OF right(1) se(1)] by (auto simp: isStrictSuperset_def)
    ultimately show ?thesis using rest [OF c(2)] by simp
  next
    case left
    obtain c where c: "sliceRegionLeft e v = Inr c" "vma_ok k c" "\<And>a. vma_at c a = (if e \<le> a then vma_at v a else None)"
      using sliceRegionLeft_ok [OF k v se(3) left(2,3)] by metis
    have "vma_at c a = (if s \<le> a \<and> a < e then None else vma_at v a)" for a
      using c(3) left by (auto simp: vma_at_def)
    moreover have "unmap_vmas ?r seen (v # vs) = unmap_vmas ?r (seen @ [c]) vs"
      using c(1) t left le_less_trans [OF left(1) left(2)] less_trans [OF se(1) left(3)] by (auto simp: isStrictSuperset_def)
    ultimately show ?thesis using rest [OF c(2)] by simp
  next
    case keep
    have ne: "vm_start v < vm_end v" using v by (simp add: vma_ok_def)
    have "vma_at v a = (if s \<le> a \<and> a < e then None else vma_at v a)" for a
      using keep by (auto simp: vma_at_def)
    note r = rest [OF v this]
    have "\<not> isStrictSuperset v ?r" "\<not> (s \<le> vm_start v \<and> vm_end v \<le> e)" "\<not> (vm_start v < e \<and> s < vm_end v)"
      using keep ne se(1) by (auto simp: isStrictSuperset_def)
    then have "unmap_vmas ?r seen (v # vs) = unmap_vmas ?r (seen @ [v]) vs" using t by auto
    then show ?thesis using r by simp
  qed
qed

section \<open>Moving\<close>

text \<open>What an area becomes when the \<open>m\<close> bytes from \<open>s\<close> on move to \<open>n\<close>.\<close>

definition moved :: "addr \<Rightarrow> addr \<Rightarrow> addr \<Rightarrow> vma \<Rightarrow> addr \<Rightarrow> (string \<times> (nat \<times> addr) option) option" where
  "moved s m n v a = (if a - n < m then vma_at v (a - n + s) else if a - s < m then None else vma_at v a)"

text \<open>
  The state of the loop: the areas passed have their places, those ahead do not cover the target,
  and where they are going nothing is.
\<close>

definition remap_inv :: "nat \<Rightarrow> addr \<Rightarrow> addr \<Rightarrow> addr \<Rightarrow> vma list \<Rightarrow> vma list \<Rightarrow> bool" where
  "remap_inv k s m n seen vs \<longleftrightarrow> vmas_ok k seen \<and> vmas_ok k vs \<and> (\<forall>v \<in> set vs. \<forall>a. cov v a \<longrightarrow> \<not> a - n < m) \<and>
     (\<forall>w \<in> set seen. \<forall>v \<in> set vs. \<forall>a. \<not> (cov w a \<and> moved s m n v a \<noteq> None))"

definition reached :: "addr \<Rightarrow> addr \<Rightarrow> addr \<Rightarrow> vma list \<Rightarrow> vma list \<Rightarrow> addr \<Rightarrow> (string \<times> (nat \<times> addr) option) \<Rightarrow> bool" where
  "reached s m n seen vs a y \<longleftrightarrow> (\<exists>w \<in> set seen. vma_at w a = Some y) \<or> (\<exists>v \<in> set vs. moved s m n v a = Some y)"

lemma vmas_ok_append:
  "vmas_ok k (xs @ ys) \<longleftrightarrow> vmas_ok k xs \<and> vmas_ok k ys \<and> (\<forall>v \<in> set xs. \<forall>w \<in> set ys. \<forall>a. \<not> (cov v a \<and> cov w a))"
  by (auto simp: vmas_ok_cov sorted_wrt_append)

lemma vmas_ok_Cons:
  "vmas_ok k (v # ys) \<longleftrightarrow> vma_ok k v \<and> vmas_ok k ys \<and> (\<forall>w \<in> set ys. \<forall>a. \<not> (cov v a \<and> cov w a))"
  by (auto simp: vmas_ok_cov)

lemma moved_apart:
  assumes "\<forall>a. \<not> (cov v a \<and> cov w a)" "moved s m n v a \<noteq> None" "moved s m n w a \<noteq> None"
  shows False
  using assms by (auto simp: moved_def vma_at_cov split: if_splits)

lemma remap_advance:
  assumes inv: "remap_inv k s m n seen (v # vs)" and v': "vma_ok k v'" and cs: "vmas_ok k cs"
    and sub: "\<forall>c \<in> set cs. \<forall>a. cov c a \<longrightarrow> cov v a"
    and here: "\<forall>a. cov v' a \<longrightarrow> vma_at v' a = moved s m n v a"
    and later: "\<forall>c \<in> set cs. \<forall>a. moved s m n c a \<noteq> None \<longrightarrow> moved s m n c a = moved s m n v a \<and> \<not> cov v' a"
    and all: "\<forall>a. moved s m n v a \<noteq> None \<longrightarrow> cov v' a \<or> (\<exists>c \<in> set cs. moved s m n c a \<noteq> None)"
  shows "remap_inv k s m n (seen @ [v']) (vs @ cs)" "reached s m n (seen @ [v']) (vs @ cs) = reached s m n seen (v # vs)"
proof -
  have i: "vmas_ok k seen" "vmas_ok k (v # vs)" "\<forall>u \<in> set (v # vs). \<forall>a. cov u a \<longrightarrow> \<not> a - n < m"
      "\<forall>w \<in> set seen. \<forall>u \<in> set (v # vs). \<forall>a. \<not> (cov w a \<and> moved s m n u a \<noteq> None)"
    using inv unfolding remap_inv_def by blast+
  have v'_moved: "cov v' a \<Longrightarrow> moved s m n v a \<noteq> None" for a using here by (metis cov_vma_at)
  have other: "\<not> (moved s m n v a \<noteq> None \<and> moved s m n u a \<noteq> None)" if "u \<in> set vs" for u a
    using moved_apart [of v u s m n a] i(2) that unfolding vmas_ok_Cons by blast
  have far: "\<not> (cov w a \<and> cov v' a)" if "w \<in> set seen" for w a using i(4) that v'_moved by (meson list.set_intros(1))
  have a1: "vmas_ok k (seen @ [v'])" unfolding vmas_ok_snoc using i(1) v' far by blast
  have a2: "vmas_ok k (vs @ cs)" using i(2) cs sub unfolding vmas_ok_append vmas_ok_Cons by blast
  have a3: "\<forall>u \<in> set (vs @ cs). \<forall>a. cov u a \<longrightarrow> \<not> a - n < m" using i(3) sub by auto
  have "\<not> (cov w a \<and> moved s m n u a \<noteq> None)" if wu: "w \<in> set (seen @ [v'])" "u \<in> set (vs @ cs)" for w u a
  proof -
    consider "w \<in> set seen" "u \<in> set vs" | "w \<in> set seen" "u \<in> set cs" | "w = v'" "u \<in> set vs" | "w = v'" "u \<in> set cs"
      using wu by auto
    then show ?thesis
    proof cases
      case 2
      then have "moved s m n u a \<noteq> None \<Longrightarrow> moved s m n v a \<noteq> None" using later by metis
      then show ?thesis using i(4) 2(1) by (meson list.set_intros(1))
    qed (use i(4) later v'_moved other in \<open>simp_all del: not_None_eq, blast+\<close>)
  qed
  with a1 a2 a3 show "remap_inv k s m n (seen @ [v']) (vs @ cs)" unfolding remap_inv_def by blast
  have "(vma_at v' a = Some y \<or> (\<exists>c \<in> set cs. moved s m n c a = Some y)) \<longleftrightarrow> moved s m n v a = Some y" for a y
    using here later all cov_vma_at by (metis option.distinct(1))
  then show "reached s m n (seen @ [v']) (vs @ cs) = reached s m n seen (v # vs)"
    by (intro ext) (simp add: reached_def bex_Un, blast)
qed

lemma remap_done:
  assumes inv: "remap_inv k s m n seen vs" and still: "\<forall>v \<in> set vs. \<forall>a. moved s m n v a = vma_at v a"
  shows "vmas_ok k (seen @ vs)" "(\<exists>w \<in> set (seen @ vs). vma_at w a = Some y) \<longleftrightarrow> reached s m n seen vs a y"
proof -
  show "vmas_ok k (seen @ vs)" unfolding vmas_ok_append using inv still by (auto simp: remap_inv_def cov_vma_at)
  show "(\<exists>w \<in> set (seen @ vs). vma_at w a = Some y) \<longleftrightarrow> reached s m n seen vs a y"
    using still by (auto simp: reached_def)
qed

text \<open>The part of an area that lies in the region moves; clones of the rest stay.\<close>

lemma src_iff:
  assumes "(s :: addr) < e"
  shows "a - s < e - s \<longleftrightarrow> s \<le> a \<and> a < e"
proof -
  have "unat s + unat (e - s) < 2 ^ 64" using assms unat_u64_lt [of e] unat_sub [of s e] by (simp add: word_less_nat_alt word_le_nat_alt)
  from range_shift [OF this, of a] show ?thesis by simp
qed

lemma unat_diff_mono:
  assumes "(s :: addr) \<le> x" "y \<le> e" "x < y" shows "unat (y - x) \<le> unat (e - s)"
  using assms by (simp add: unat_sub word_le_nat_alt word_less_nat_alt)

lemma remap_piece:
  assumes k: "k < 64" and p: "vma_ok k p" and se: "s < e" "s \<le> vm_start p" "vm_end p \<le> e" "s AND mask k = 0"
    and n: "n AND mask k = 0" "unat n + unat (e - s) < 2 ^ 64" and x: "x = vm_start p - s + n"
  obtains w where "vma_remap x p = Inr w" "vma_ok k w" "\<And>a. vma_at w a = (if a - n < e - s then vma_at p (a - n + s) else None)"
proof -
  let ?d = "vm_start p - s"
  have lt: "vm_start p < vm_end p" using p by (simp add: vma_ok_def)
  have d: "unat ?d + unat (vm_end p - vm_start p) \<le> unat (e - s)"
    using lt se by (simp add: unat_sub word_le_nat_alt word_less_nat_alt)
  then have x': "unat x = unat ?d + unat n" using n(2) by (simp add: x unat_word_ariths)
  have "x AND mask k = 0" using k p se(4) n(1) by (simp add: x aligned_add aligned_sub vma_ok_def)
  moreover have "unat x + unat (vm_end p - vm_start p) < 2 ^ 64" using d n(2) x' by simp
  ultimately obtain w where w: "vma_remap x p = Inr w" "vma_ok k w" "\<And>a. vma_at w a = vma_at p (a - x + vm_start p)"
    using vma_remap_ok [OF k p] by metis
  have "vma_at p (a - n + s) = None" if "\<not> a - n < e - s" for a
    using that src_iff [OF se(1), of "a - n + s"] se(2,3) by (auto simp: vma_at_def)
  moreover have e: "a - x + vm_start p = a - n + s" for a by (simp add: x)
  have "vma_at w a = vma_at p (a - n + s)" for a unfolding w(3) e ..
  ultimately show thesis using that [OF w(1,2)] by simp
qed

lemma moved_outside:
  assumes "\<forall>a. cov c a \<longrightarrow> \<not> a - s < m \<and> \<not> a - n < m"
  shows "moved s m n c a = vma_at c a"
proof -
  have "vma_at c (a - n + s) = None" if "a - n < m" using that assms by (auto simp: vma_at_cov)
  moreover have "vma_at c a = None" if "a - n < m \<or> a - s < m" using that assms by (auto simp: vma_at_cov)
  ultimately show ?thesis by (auto simp: moved_def)
qed

text \<open>One round of the loop: the piece \<open>p\<close> of \<open>v\<close> in the region moves, the areas \<open>cs\<close> are what stays.\<close>

lemma remap_round:
  assumes k: "k < 64" and se: "s < e" and inv: "remap_inv k s (e - s) n seen (v # vs)"
    and v': "vma_ok k v'" "\<And>a. vma_at v' a = (if a - n < e - s then vma_at p (a - n + s) else None)"
    and p: "\<And>a. s \<le> a \<Longrightarrow> a < e \<Longrightarrow> vma_at p a = vma_at v a"
    and cs: "vmas_ok k cs" "\<And>a y. (\<exists>c \<in> set cs. vma_at c a = Some y) \<longleftrightarrow> \<not> (s \<le> a \<and> a < e) \<and> vma_at v a = Some y"
  shows "remap_inv k s (e - s) n (seen @ [v']) (vs @ cs)"
    "reached s (e - s) n (seen @ [v']) (vs @ cs) = reached s (e - s) n seen (v # vs)"
    "\<forall>c \<in> set cs. \<forall>a. moved s (e - s) n c a = vma_at c a"
proof -
  note src = src_iff [OF se]
  let ?m = "e - s"
  have vt: "cov v a \<Longrightarrow> \<not> a - n < ?m" for a using inv by (auto simp: remap_inv_def)
  have sub: "\<forall>c \<in> set cs. \<forall>a. cov c a \<longrightarrow> cov v a \<and> \<not> a - s < ?m"
    using cs(2) src unfolding cov_vma_at by (metis not_None_eq)
  have still: "moved s ?m n c a = vma_at c a" if "c \<in> set cs" for c a
    by (rule moved_outside) (use that sub vt in blast)
  then show st: "\<forall>c \<in> set cs. \<forall>a. moved s ?m n c a = vma_at c a" by blast
  have here: "vma_at v' a = moved s ?m n v a" if "a - n < ?m" for a
    using that v'(2) [of a] p [of "a - n + s"] src [of "a - n + s"] by (simp add: moved_def)
  have away: "vma_at v' a = None" if "\<not> a - n < ?m" for a using that v'(2) by simp
  have c_v: "vma_at c a = moved s ?m n v a \<and> \<not> a - n < ?m" if c: "c \<in> set cs" "vma_at c a \<noteq> None" for c a
  proof -
    obtain y where y: "vma_at c a = Some y" using c by blast
    then have "\<not> (s \<le> a \<and> a < e)" "vma_at v a = Some y" using cs(2) [of a y] c(1) by blast+
    moreover from this(2) have "\<not> a - n < ?m" using vt [of a] by (auto simp: cov_vma_at)
    ultimately show ?thesis using y src by (simp add: moved_def)
  qed
  have "cov v' a \<or> (\<exists>c \<in> set cs. moved s ?m n c a \<noteq> None)" if "moved s ?m n v a \<noteq> None" for a
  proof (cases "a - n < ?m")
    case True
    then show ?thesis using here that by (simp add: cov_vma_at)
  next
    case False
    then have out: "\<not> (s \<le> a \<and> a < e)" "vma_at v a \<noteq> None" using that src by (auto simp: moved_def split: if_splits)
    then obtain y where "vma_at v a = Some y" by blast
    with out(1) obtain c where "c \<in> set cs" "vma_at c a = Some y" using cs(2) [of a y] by blast
    then show ?thesis using still by (metis option.distinct(1))
  qed
  then have A: "\<forall>a. moved s ?m n v a \<noteq> None \<longrightarrow> cov v' a \<or> (\<exists>c \<in> set cs. moved s ?m n c a \<noteq> None)" by blast
  have B: "\<forall>c \<in> set cs. \<forall>a. moved s ?m n c a \<noteq> None \<longrightarrow> moved s ?m n c a = moved s ?m n v a \<and> \<not> cov v' a"
    using c_v still away by (metis cov_vma_at)
  have C: "\<forall>a. cov v' a \<longrightarrow> vma_at v' a = moved s ?m n v a" using here away by (metis cov_vma_at)
  from remap_advance [OF inv v'(1) cs(1) _ C B A] sub
  show "remap_inv k s ?m n (seen @ [v']) (vs @ cs)" "reached s ?m n (seen @ [v']) (vs @ cs) = reached s ?m n seen (v # vs)" by blast+
qed

definition area_weight :: "addr_range \<Rightarrow> vma \<Rightarrow> nat" where
  "area_weight r v = (if touches_region r v then 2 else 1)"

lemma vmas_ok_small [simp]: "vmas_ok k []" "vmas_ok k [c] \<longleftrightarrow> vma_ok k c"
  by (simp_all add: vmas_ok_def)

text \<open>The rounds of the loop, by how the area lies to the region.\<close>

lemma remap_whole:
  assumes k: "k < 64" and se: "s < e" "s AND mask k = 0" and n: "n AND mask k = 0" "unat n + unat (e - s) < 2 ^ 64"
    and inv: "remap_inv k s (e - s) n seen (v # us)" and v: "s \<le> vm_start v" "vm_end v \<le> e"
  shows "\<exists>v'. remap_vmas (AddrRange_plain s e) n seen (v # us) = remap_vmas (AddrRange_plain s e) n (seen @ [v']) us \<and>
    remap_inv k s (e - s) n (seen @ [v']) us \<and> reached s (e - s) n (seen @ [v']) us = reached s (e - s) n seen (v # us)"
proof -
  have ok: "vma_ok k v" using inv by (simp add: remap_inv_def vmas_ok_Cons)
  obtain v' where v': "vma_remap (vm_start v - s + n) v = Inr v'" "vma_ok k v'"
      "\<And>a. vma_at v' a = (if a - n < e - s then vma_at v (a - n + s) else None)"
    using remap_piece [OF k ok se(1) v se(2) n refl] by metis
  have "(\<exists>c \<in> set []. vma_at c a = Some y) \<longleftrightarrow> \<not> (s \<le> a \<and> a < e) \<and> vma_at v a = Some y" for a y
    using v by (auto simp: vma_at_def split: if_splits)
  from remap_round [OF k se(1) inv v'(2,3) refl vmas_ok_small(1) this]
  have "remap_inv k s (e - s) n (seen @ [v']) us" "reached s (e - s) n (seen @ [v']) us = reached s (e - s) n seen (v # us)" by simp_all
  moreover have "remap_vmas (AddrRange_plain s e) n seen (v # us) = remap_vmas (AddrRange_plain s e) n (seen @ [v']) us"
    using v'(1) vma_tests [OF ok se(1)] v by (auto simp: isStrictSuperset_def)
  ultimately show ?thesis by blast
qed

lemma remap_keep:
  assumes se: "s < e" and inv: "remap_inv k s (e - s) n seen (v # us)" and v: "vm_end v \<le> s \<or> e \<le> vm_start v"
  shows "remap_vmas (AddrRange_plain s e) n seen (v # us) = remap_vmas (AddrRange_plain s e) n (seen @ [v]) us"
    "remap_inv k s (e - s) n (seen @ [v]) us" "reached s (e - s) n (seen @ [v]) us = reached s (e - s) n seen (v # us)"
proof -
  have ok: "vma_ok k v" using inv by (simp add: remap_inv_def vmas_ok_Cons)
  have "\<forall>a. cov v a \<longrightarrow> \<not> a - s < e - s \<and> \<not> a - n < e - s"
  proof (intro allI impI)
    fix a
    assume a: "cov v a"
    then have "\<not> (s \<le> a \<and> a < e)" using v by (auto simp: cov_def)
    moreover have "\<not> a - n < e - s" using inv a unfolding remap_inv_def by simp
    ultimately show "\<not> a - s < e - s \<and> \<not> a - n < e - s" using src_iff [OF se] by blast
  qed
  then have m: "moved s (e - s) n v a = vma_at v a" for a by (rule moved_outside)
  have 1: "\<forall>a. cov v a \<longrightarrow> vma_at v a = moved s (e - s) n v a" by (simp only: m) simp
  have 2: "\<forall>a. moved s (e - s) n v a \<noteq> None \<longrightarrow> cov v a \<or> (\<exists>c \<in> set []. moved s (e - s) n c a \<noteq> None)"
    unfolding m cov_vma_at by blast
  have 3: "\<forall>c \<in> set []. \<forall>a. moved s (e - s) n c a \<noteq> None \<longrightarrow> moved s (e - s) n c a = moved s (e - s) n v a \<and> \<not> cov v a" by simp
  from remap_advance [OF inv ok vmas_ok_small(1) _ 1 3 2]
  show "remap_inv k s (e - s) n (seen @ [v]) us" "reached s (e - s) n (seen @ [v]) us = reached s (e - s) n seen (v # us)"
    by simp_all
  have "vm_start v < vm_end v" using ok by (simp add: vma_ok_def)
  then show "remap_vmas (AddrRange_plain s e) n seen (v # us) = remap_vmas (AddrRange_plain s e) n (seen @ [v]) us"
    using vma_tests [OF ok se] v se by (auto simp: isStrictSuperset_def)
qed

lemma remap_right:
  assumes k: "k < 64" and se: "s < e" "s AND mask k = 0" and n: "n AND mask k = 0" "unat n + unat (e - s) < 2 ^ 64"
    and inv: "remap_inv k s (e - s) n seen (v # us)" and v: "vm_start v < s" "s < vm_end v" "vm_end v \<le> e"
  shows "\<exists>v' c. remap_vmas (AddrRange_plain s e) n seen (v # us) = remap_vmas (AddrRange_plain s e) n (seen @ [v']) (us @ [c]) \<and>
    \<not> touches_region (AddrRange_plain s e) c \<and> remap_inv k s (e - s) n (seen @ [v']) (us @ [c]) \<and>
    reached s (e - s) n (seen @ [v']) (us @ [c]) = reached s (e - s) n seen (v # us)"
proof -
  have ok: "vma_ok k v" using inv by (simp add: remap_inv_def vmas_ok_Cons)
  obtain c where c: "sliceRegionRight s v = Inr c" "vma_ok k c" "vm_end c = s" "\<And>a. vma_at c a = (if a < s then vma_at v a else None)"
    using sliceRegionRight_ok [OF k ok se(2) v(1,2)] by metis
  obtain p where p: "sliceRegionLeft s v = Inr p" "vma_ok k p" "vm_start p = s" "vm_end p = vm_end v"
      "\<And>a. vma_at p a = (if s \<le> a then vma_at v a else None)"
    using sliceRegionLeft_ok [OF k ok se(2) v(1,2)] by metis
  obtain v' where v': "vma_remap n p = Inr v'" "vma_ok k v'"
      "\<And>a. vma_at v' a = (if a - n < e - s then vma_at p (a - n + s) else None)"
    using remap_piece [OF k p(2) se(1) _ _ se(2) n, of n] p(3,4) v(3) by auto
  have "vma_at v a = None" if "e \<le> a" for a using that v(3) by (auto simp: vma_at_def)
  then have "(\<exists>u \<in> set [c]. vma_at u a = Some y) \<longleftrightarrow> \<not> (s \<le> a \<and> a < e) \<and> vma_at v a = Some y" for a y
    using c(4) [of a] by (cases "a < s"; cases "a < e") auto
  from remap_round [OF k se(1) inv v'(2,3) _ _ this] p(5) c(2)
  have "remap_inv k s (e - s) n (seen @ [v']) (us @ [c])" "reached s (e - s) n (seen @ [v']) (us @ [c]) = reached s (e - s) n seen (v # us)" by simp_all
  moreover have "remap_vmas (AddrRange_plain s e) n seen (v # us) = remap_vmas (AddrRange_plain s e) n (seen @ [v']) (us @ [c])"
    using c(1) p(1) v'(1) vma_tests [OF ok se(1)] v less_trans [OF v(1) se(1)] by (auto simp: isStrictSuperset_def)
  ultimately show ?thesis using c(3) by (auto simp: touches_region_def)
qed

lemma remap_left:
  assumes k: "k < 64" and se: "s < e" "s AND mask k = 0" "e AND mask k = 0" and n: "n AND mask k = 0" "unat n + unat (e - s) < 2 ^ 64"
    and inv: "remap_inv k s (e - s) n seen (v # us)" and v: "s \<le> vm_start v" "vm_start v < e" "e < vm_end v"
  shows "\<exists>v' c. remap_vmas (AddrRange_plain s e) n seen (v # us) = remap_vmas (AddrRange_plain s e) n (seen @ [v']) (us @ [c]) \<and>
    \<not> touches_region (AddrRange_plain s e) c \<and> remap_inv k s (e - s) n (seen @ [v']) (us @ [c]) \<and>
    reached s (e - s) n (seen @ [v']) (us @ [c]) = reached s (e - s) n seen (v # us)"
proof -
  have ok: "vma_ok k v" using inv by (simp add: remap_inv_def vmas_ok_Cons)
  obtain c where c: "sliceRegionLeft e v = Inr c" "vma_ok k c" "vm_start c = e" "\<And>a. vma_at c a = (if e \<le> a then vma_at v a else None)"
    using sliceRegionLeft_ok [OF k ok se(3) v(2,3)] by metis
  obtain p where p: "sliceRegionRight e v = Inr p" "vma_ok k p" "vm_start p = vm_start v" "vm_end p = e"
      "\<And>a. vma_at p a = (if a < e then vma_at v a else None)"
    using sliceRegionRight_ok [OF k ok se(3) v(2,3)] by metis
  obtain v' where v': "vma_remap (n + vm_start p - s) p = Inr v'" "vma_ok k v'"
      "\<And>a. vma_at v' a = (if a - n < e - s then vma_at p (a - n + s) else None)"
    using remap_piece [OF k p(2) se(1) _ _ se(2) n, of "n + vm_start p - s"] p(3,4) v(1) by (auto simp: algebra_simps)
  have "vma_at v a = None" if "a < s" for a using that v(1) by (auto simp: vma_at_def)
  then have "(\<exists>u \<in> set [c]. vma_at u a = Some y) \<longleftrightarrow> \<not> (s \<le> a \<and> a < e) \<and> vma_at v a = Some y" for a y
    using c(4) [of a] se(1) by (cases "a < s"; cases "a < e") auto
  from remap_round [OF k se(1) inv v'(2,3) _ _ this] p(5) c(2)
  have "remap_inv k s (e - s) n (seen @ [v']) (us @ [c])" "reached s (e - s) n (seen @ [v']) (us @ [c]) = reached s (e - s) n seen (v # us)" by simp_all
  moreover have "remap_vmas (AddrRange_plain s e) n seen (v # us) = remap_vmas (AddrRange_plain s e) n (seen @ [v']) (us @ [c])"
    using c(1) p(1) v'(1) vma_tests [OF ok se(1)] v less_trans [OF se(1) v(3)] by (auto simp: isStrictSuperset_def)
  ultimately show ?thesis using c(3) by (auto simp: touches_region_def)
qed

lemma remap_split:
  assumes k: "k < 64" and se: "s < e" "s AND mask k = 0" "e AND mask k = 0" and n: "n AND mask k = 0" "unat n + unat (e - s) < 2 ^ 64"
    and inv: "remap_inv k s (e - s) n seen (v # us)" and v: "vm_start v < s" "e < vm_end v"
  shows "\<exists>v' cs. remap_vmas (AddrRange_plain s e) n seen (v # us) = Inr (seen @ v' # us @ cs) \<and>
    remap_inv k s (e - s) n (seen @ [v']) (us @ cs) \<and> reached s (e - s) n (seen @ [v']) (us @ cs) = reached s (e - s) n seen (v # us) \<and>
    (\<forall>c \<in> set cs. \<forall>a. moved s (e - s) n c a = vma_at c a)"
proof -
  have ok: "vma_ok k v" using inv by (simp add: remap_inv_def vmas_ok_Cons)
  have lt: "s < vm_end v" "vm_start v < e" using less_trans [OF se(1) v(2)] less_trans [OF v(1) se(1)] by auto
  obtain c1 where c1: "sliceRegionRight s v = Inr c1" "vma_ok k c1" "\<And>a. vma_at c1 a = (if a < s then vma_at v a else None)"
    using sliceRegionRight_ok [OF k ok se(2) v(1) lt(1)] by metis
  obtain c2 where c2: "sliceRegionLeft e v = Inr c2" "vma_ok k c2" "\<And>a. vma_at c2 a = (if e \<le> a then vma_at v a else None)"
    using sliceRegionLeft_ok [OF k ok se(3) lt(2) v(2)] by metis
  obtain q where q: "sliceRegionLeft s v = Inr q" "vma_ok k q" "vm_start q = s" "vm_end q = vm_end v"
      "\<And>a. vma_at q a = (if s \<le> a then vma_at v a else None)"
    using sliceRegionLeft_ok [OF k ok se(2) v(1) lt(1)] by metis
  obtain p where p: "sliceRegionRight e q = Inr p" "vma_ok k p" "vm_start p = s" "vm_end p = e"
      "\<And>a. vma_at p a = (if a < e then vma_at q a else None)"
    using sliceRegionRight_ok [OF k q(2) se(3)] q(3,4) se(1) v(2) by metis
  obtain v' where v': "vma_remap n p = Inr v'" "vma_ok k v'"
      "\<And>a. vma_at v' a = (if a - n < e - s then vma_at p (a - n + s) else None)"
    using remap_piece [OF k p(2) se(1) _ _ se(2) n, of n] p(3,4) by auto
  have cs: "(\<exists>u \<in> set [c1, c2]. vma_at u a = Some y) \<longleftrightarrow> \<not> (s \<le> a \<and> a < e) \<and> vma_at v a = Some y" for a y
    using c1(3) [of a] c2(3) [of a] se(1) by (cases "a < s"; cases "a < e") auto
  have "vmas_ok k [c1, c2]" using c1(2,3) c2(2,3) se(1) by (auto simp: vmas_ok_Cons cov_vma_at)
  from remap_round [OF k se(1) inv v'(2,3) _ this cs] p(5) q(5)
  have "remap_inv k s (e - s) n (seen @ [v']) (us @ [c1, c2])"
    "reached s (e - s) n (seen @ [v']) (us @ [c1, c2]) = reached s (e - s) n seen (v # us)"
    "\<forall>c \<in> set [c1, c2]. \<forall>a. moved s (e - s) n c a = vma_at c a" by simp_all
  moreover have "remap_vmas (AddrRange_plain s e) n seen (v # us) = Inr (seen @ v' # us @ [c1, c2])"
    using c1(1) c2(1) q(1) p(1) v'(1) v by (simp add: isStrictSuperset_def)
  ultimately show ?thesis by blast
qed

lemma remap_vmas_ok:
  assumes k: "k < 64" and se: "s < e" "s AND mask k = 0" "e AND mask k = 0"
    and n: "n AND mask k = 0" "unat n + unat (e - s) < 2 ^ 64"
  shows "remap_inv k s (e - s) n seen vs \<Longrightarrow>
    \<exists>ws. remap_vmas (AddrRange_plain s e) n seen vs = Inr ws \<and> vmas_ok k ws \<and>
      (\<forall>a y. (\<exists>w \<in> set ws. vma_at w a = Some y) \<longleftrightarrow> reached s (e - s) n seen vs a y)"
proof (induction "sum_list (map (area_weight (AddrRange_plain s e)) vs)" arbitrary: seen vs rule: less_induct)
  case less
  let ?r = "AddrRange_plain s e" and ?m = "e - s"
  show ?case
  proof (cases vs)
    case Nil
    then show ?thesis using remap_done [OF less(2)] by simp
  next
    case (Cons v us)
    note inv = less(2) [unfolded Cons]
    have go: ?thesis
      if eq: "remap_vmas ?r n seen (v # us) = remap_vmas ?r n (seen @ [v']) (us @ cs)"
        and w: "sum_list (map (area_weight ?r) cs) < area_weight ?r v"
        and r: "remap_inv k s ?m n (seen @ [v']) (us @ cs)" "reached s ?m n (seen @ [v']) (us @ cs) = reached s ?m n seen (v # us)" for v' cs
      using less(1) [OF _ r(1)] w unfolding Cons eq r(2) by simp
    consider (split) "vm_start v < s" "e < vm_end v" | (whole) "s \<le> vm_start v" "vm_end v \<le> e"
      | (right) "vm_start v < s" "s < vm_end v" "vm_end v \<le> e" | (left) "s \<le> vm_start v" "vm_start v < e" "e < vm_end v"
      | (keep) "vm_end v \<le> s \<or> e \<le> vm_start v" by (meson not_less)
    then show ?thesis
    proof cases
      case whole
      show ?thesis using remap_whole [OF k se(1,2) n inv whole] go [where cs = "[]"] by (auto simp: area_weight_def)
    next
      case keep
      show ?thesis using remap_keep [OF se(1) inv keep] go [where cs = "[]"] by (simp add: area_weight_def)
    next
      case right
      have "touches_region ?r v" using right less_trans [OF right(1) se(1)] by (auto simp: touches_region_def)
      then show ?thesis using remap_right [OF k se(1,2) n inv right] go [where cs = "[c]" for c] by (auto simp: area_weight_def)
    next
      case left
      have "touches_region ?r v" using left less_trans [OF se(1) left(3)] by (auto simp: touches_region_def)
      then show ?thesis using remap_left [OF k se n inv left] go [where cs = "[c]" for c] by (auto simp: area_weight_def)
    next
      case split
      obtain v' cs where r: "remap_vmas ?r n seen (v # us) = Inr (seen @ v' # us @ cs)" "remap_inv k s ?m n (seen @ [v']) (us @ cs)"
          "reached s ?m n (seen @ [v']) (us @ cs) = reached s ?m n seen (v # us)" "\<forall>c \<in> set cs. \<forall>a. moved s ?m n c a = vma_at c a"
        using remap_split [OF k se n inv split] by blast
      have "moved s ?m n u a = vma_at u a" if "u \<in> set us" for u a
      proof (rule moved_outside, intro allI impI)
        fix b
        assume b: "cov u b"
        have "\<not> cov v b" "\<not> b - n < ?m" using inv b that by (auto simp: remap_inv_def vmas_ok_Cons)
        then show "\<not> b - s < ?m \<and> \<not> b - n < ?m" using split src_iff [OF se(1), of b] by (auto simp: cov_def)
      qed
      then have "\<forall>u \<in> set (us @ cs). \<forall>a. moved s ?m n u a = vma_at u a" using r(4) by auto
      from remap_done [OF r(2) this] show ?thesis using r(1,3) Cons by simp
    qed
  qed
qed

end
