(* ===== verification/MemState.thy ===== *)
theory MemState
  imports VMA
begin

text \<open>
  The memory of an emulated process, \<^verbatim>\<open>sim/mem_state.cc\<close>, with the allocation of pages by
  \<^verbatim>\<open>Process::allocateMem\<close> (\<^verbatim>\<open>sim/process.cc\<close>) and the system calls that unmap and move memory
  (\<^verbatim>\<open>sim/syscall_emul.hh\<close>). The areas of \<^verbatim>\<open>VMA\<close>, the page table of \<^verbatim>\<open>PageTable\<close> and the pools of
  \<^verbatim>\<open>MemPool\<close> meet here. The contents of memory and the TLBs, which are flushed whenever a
  mapping changes, are not modelled; checkpoints and the text of \<^verbatim>\<open>/proc/self/maps\<close> are left out.
\<close>

section \<open>State\<close>

record mem_state =
  pageBytes :: addr
  brkPoint :: addr
  stackBase :: addr
  stackSize :: addr
  maxStackSize :: addr
  stackMin :: addr
  nextThreadStackBase :: addr
  mmapEnd :: addr
  vmaList :: "vma list"

definition MemState :: "addr \<Rightarrow> addr \<Rightarrow> addr \<Rightarrow> addr \<Rightarrow> addr \<Rightarrow> addr \<Rightarrow> mem_state" where
  "MemState page_size brk_point stack_base max_stack_size next_thread_stack_base mmap_end =
     \<lparr>pageBytes = page_size, brkPoint = brk_point, stackBase = stack_base, stackSize = max_stack_size,
      maxStackSize = max_stack_size, stackMin = stack_base - max_stack_size,
      nextThreadStackBase = next_thread_stack_base, mmapEnd = mmap_end, vmaList = []\<rparr>"

text \<open>
  The process: its page table and memory state, the numbers of its thread contexts, and whether its
  \<^verbatim>\<open>mmap\<close> region grows down.
\<close>

record se_process =
  proc_pt :: page_table
  proc_ms :: mem_state
  contextIds :: "nat list"
  mmapGrowsDown :: bool

abbreviation areas :: "se_process \<Rightarrow> vma list" where
  "areas pr \<equiv> vmaList (proc_ms pr)"

abbreviation set_areas :: "vma list \<Rightarrow> se_process \<Rightarrow> se_process" where
  "set_areas vs pr \<equiv> pr\<lparr>proc_ms := (proc_ms pr)\<lparr>vmaList := vs\<rparr>\<rparr>"

section \<open>Regions\<close>

fun any_intersects :: "addr_range \<Rightarrow> vma list \<Rightarrow> bool outcome" where
  "any_intersects r [] = Inr False"
| "any_intersects r (v # vs) = obind (intersects (vm_range v) r) (\<lambda>i. if i then Inr True else any_intersects r vs)"

text \<open>
  The walk over the page table. It need not end: the address may wrap around at the end of the
  address space.
\<close>

partial_function (option) pages_free :: "page_table \<Rightarrow> addr \<Rightarrow> addr \<Rightarrow> addr \<Rightarrow> bool outcome option" where
  "pages_free pt pg start e =
     (if \<not> start < e then Some (Inr True)
      else if pt_lookup pt start \<noteq> None then Some (Inl Panic)
      else pages_free pt pg (start + pg) e)"

definition ms_isUnmapped :: "addr \<Rightarrow> addr \<Rightarrow> se_process \<Rightarrow> bool outcome" where
  "ms_isUnmapped start_addr len pr =
     (let end_addr = start_addr + len
      in obind (any_intersects (AddrRange_plain start_addr end_addr) (areas pr)) (\<lambda>i.
           if i then Inr False else after_loop (pages_free (proc_pt pr) (pageBytes (proc_ms pr)) start_addr end_addr) (\<lambda>r. r)))"

definition mapRegion :: "addr \<Rightarrow> addr \<Rightarrow> string \<Rightarrow> (host_file \<times> u64) option \<Rightarrow> se_process \<Rightarrow> se_process outcome" where
  "mapRegion start_addr len region_name file pr =
     obind (ms_isUnmapped start_addr len pr) (\<lambda>u.
      check u Assert_Failed
       (obind (VMA (AddrRange_plain start_addr (start_addr + len)) (pageBytes (proc_ms pr)) region_name file) (\<lambda>v.
         Inr (set_areas (areas pr @ [v]) pr))))"

text \<open>
  The loop \<^verbatim>\<open>do \<dots> while (length > 0)\<close> over the pages of a region. The length is unsigned: one that
  is not a multiple of the page size passes below zero and the loop does not end, and the length 0
  passes over every page of the address space.
\<close>

partial_function (option) pages_loop :: "addr \<Rightarrow> (addr \<Rightarrow> page_table \<Rightarrow> page_table outcome) \<Rightarrow> u64 \<Rightarrow> addr \<Rightarrow> page_table \<Rightarrow> page_table outcome option" where
  "pages_loop pg f len off pt =
     (case f off pt of
        Inl e \<Rightarrow> Some (Inl e)
      | Inr pt \<Rightarrow> if len - pg = 0 then Some (Inr pt) else pages_loop pg f (len - pg) (off + pg) pt)"

definition pages_do :: "addr \<Rightarrow> (addr \<Rightarrow> page_table \<Rightarrow> page_table outcome) \<Rightarrow> u64 \<Rightarrow> addr \<Rightarrow> page_table \<Rightarrow> page_table outcome" where
  "pages_do pg f len off pt = after_loop (pages_loop pg f len off pt) (\<lambda>r. r)"

lemma pages_do_step:
  "pages_do pg f len off pt = obind (f off pt) (\<lambda>pt. if len - pg = 0 then Inr pt else pages_do pg f (len - pg) (off + pg) pt)"
  unfolding pages_do_def by (cases "f off pt") (subst pages_loop.simps, simp)+

definition unmap_one :: "addr \<Rightarrow> addr \<Rightarrow> addr \<Rightarrow> page_table \<Rightarrow> page_table outcome" where
  "unmap_one pg start_addr off pt =
     obind (pt_isUnmapped pt (start_addr + off) (sint pg)) (\<lambda>u.
       if \<not> u then pt_unmap pt (start_addr + off) (sint pg) else Inr pt)"

definition unmapRegion :: "addr \<Rightarrow> addr \<Rightarrow> se_process \<Rightarrow> se_process outcome" where
  "unmapRegion start_addr len pr =
     (let pg = pageBytes (proc_ms pr)
      in obind (unmap_vmas (AddrRange_plain start_addr (start_addr + len)) [] (areas pr)) (\<lambda>vs.
           obind (pages_do pg (unmap_one pg start_addr) len 0 (proc_pt pr)) (\<lambda>pt.
             Inr (set_areas vs pr\<lparr>proc_pt := pt\<rparr>))))"

definition remap_one :: "addr \<Rightarrow> addr \<Rightarrow> addr \<Rightarrow> addr \<Rightarrow> page_table \<Rightarrow> page_table outcome" where
  "remap_one pg start_addr new_start_addr off pt =
     obind (pt_isUnmapped pt (start_addr + off) (sint pg)) (\<lambda>u.
       if \<not> u then pt_remap pt (start_addr + off) (sint pg) (new_start_addr + off) else Inr pt)"

definition remapRegion :: "addr \<Rightarrow> addr \<Rightarrow> addr \<Rightarrow> se_process \<Rightarrow> se_process outcome" where
  "remapRegion start_addr new_start_addr len pr =
     (let pg = pageBytes (proc_ms pr)
      in obind (remap_vmas (AddrRange_plain start_addr (start_addr + len)) new_start_addr [] (areas pr)) (\<lambda>vs.
           obind (pages_do pg (remap_one pg start_addr new_start_addr) len 0 (proc_pt pr)) (\<lambda>pt.
             Inr (set_areas vs pr\<lparr>proc_pt := pt\<rparr>))))"

definition updateBrkRegion :: "addr \<Rightarrow> addr \<Rightarrow> se_process \<Rightarrow> se_process outcome" where
  "updateBrkRegion old_brk new_brk pr =
     obind (roundUp new_brk (pageBytes (proc_ms pr))) (\<lambda>aligned_new.
      obind (roundUp old_brk (pageBytes (proc_ms pr))) (\<lambda>aligned_old.
       let set_brk = (\<lambda>pr. pr\<lparr>proc_ms := (proc_ms pr)\<lparr>brkPoint := new_brk\<rparr>\<rparr>)
       in if new_brk < old_brk
          then let len = aligned_old - aligned_new
               in obind (if 0 < len then unmapRegion aligned_new len pr else Inr pr) (\<lambda>pr. Inr (set_brk pr))
          else if aligned_new > aligned_old
          then let len = aligned_new - aligned_old
               in obind (ms_isUnmapped aligned_old len pr) (\<lambda>u.
                    if \<not> u then Inr pr
                    else obind (mapRegion aligned_old len ''heap'' None pr) (\<lambda>pr. Inr (set_brk pr)))
          else Inr (set_brk pr)))"

section \<open>Allocating pages\<close>

definition allocateMem :: "addr \<Rightarrow> int \<Rightarrow> bool \<Rightarrow> mem_pool list \<Rightarrow> se_process \<Rightarrow> (mem_pool list \<times> se_process) outcome" where
  "allocateMem vaddr sz clobber pools pr =
     (let page_size = ptPageSize (proc_pt pr)
      in obind (roundDown vaddr page_size) (\<lambda>page_addr.
           if \<not> clobber \<and> pt_lookup (proc_pt pr) page_addr \<noteq> None then Inr (pools, pr)
           else obind (divCeil (word_of_int sz) page_size) (\<lambda>n.
             let npages = sint (ucast n :: u32)
             in obind (allocPhysPages npages 0 pools) (\<lambda>(paddr, pools).
                  let pages_size = word_of_int npages * page_size
                  in obind (pt_map (proc_pt pr) page_addr paddr (sint pages_size) (if clobber then Clobber else 0)) (\<lambda>pt.
                       Inr (pools, pr\<lparr>proc_pt := pt\<rparr>))))))"

text \<open>Growing the stack: each round takes the bottom of the stack down by a page.\<close>

partial_function (option) grow_stack :: "addr \<Rightarrow> mem_pool list \<Rightarrow> se_process \<Rightarrow> (mem_pool list \<times> se_process) outcome option" where
  "grow_stack vaddr pools pr =
     (let ms = proc_ms pr;
          new_min = stackMin ms - pageBytes ms
      in if \<not> vaddr < stackMin ms then Some (Inr (pools, pr))
         else if stackBase ms - new_min > maxStackSize ms then Some (Inl Fatal)
         else case allocateMem new_min (sint (pageBytes ms)) False pools (pr\<lparr>proc_ms := ms\<lparr>stackMin := new_min\<rparr>\<rparr>) of
                Inl e \<Rightarrow> Some (Inl e)
              | Inr s \<Rightarrow> grow_stack vaddr (fst s) (snd s))"

text \<open>
  The result tells whether the fault is fixed and what is copied from a file to the page: for each
  thread context of the process, in order, a call of \<^verbatim>\<open>fillMemPages\<close> through that context.
\<close>

fun fill_contexts :: "vma \<Rightarrow> addr \<Rightarrow> nat list \<Rightarrow> (nat \<times> nat \<times> addr \<times> u64) list" where
  "fill_contexts v vpage_start [] = []"
| "fill_contexts v vpage_start (cid # cids) =
     (case fillMemPages v vpage_start of None \<Rightarrow> [] | Some blob \<Rightarrow> [(cid, blob)]) @ fill_contexts v vpage_start cids"

definition fixupFault :: "addr \<Rightarrow> mem_pool list \<Rightarrow> se_process \<Rightarrow>
    (bool \<times> (nat \<times> nat \<times> addr \<times> u64) list \<times> mem_pool list \<times> se_process) outcome" where
  "fixupFault vaddr pools pr =
     (let ms = proc_ms pr
      in case find (\<lambda>v. contains (vm_range v) vaddr) (vmaList ms) of
           Some v \<Rightarrow>
             obind (roundDown vaddr (pageBytes ms)) (\<lambda>vpage_start.
              obind (allocateMem vpage_start (sint (pageBytes ms)) False pools pr) (\<lambda>(pools, pr).
               Inr (True, if hasHostBuf v then fill_contexts v vpage_start (contextIds pr) else [], pools, pr)))
         | None \<Rightarrow>
             if stackMin ms \<le> vaddr \<and> vaddr < stackBase ms
             then obind (roundDown vaddr (pageBytes ms)) (\<lambda>page.
                    obind (allocateMem page (sint (pageBytes ms)) False pools pr) (\<lambda>(pools, pr).
                      Inr (True, [], pools, pr)))
             else if vaddr < stackMin ms \<and> stackBase ms - maxStackSize ms \<le> vaddr
             then after_loop (grow_stack vaddr pools pr) (\<lambda>r. obind r (\<lambda>(pools, pr). Inr (True, [], pools, pr)))
             else Inr (False, [], pools, pr))"

section \<open>Extending the mmap region\<close>

partial_function (option) extend_from :: "addr \<Rightarrow> se_process \<Rightarrow> addr \<Rightarrow> addr outcome option" where
  "extend_from len pr start =
     (case ms_isUnmapped start len pr of
        Inl e \<Rightarrow> Some (Inl e)
      | Inr u \<Rightarrow> if u then Some (Inr start)
                else extend_from len pr (if mmapGrowsDown pr then start - pageBytes (proc_ms pr) else start + pageBytes (proc_ms pr)))"

definition extendMmap :: "addr \<Rightarrow> se_process \<Rightarrow> (addr \<times> se_process) outcome" where
  "extendMmap len pr =
     (let ms = proc_ms pr;
          start = (if mmapGrowsDown pr then mmapEnd ms - len else mmapEnd ms)
      in after_loop (extend_from len pr start) (\<lambda>r.
           obind r (\<lambda>start.
             Inr (start, pr\<lparr>proc_ms := ms\<lparr>mmapEnd := if mmapGrowsDown pr then start else start + len\<rparr>\<rparr>))))"

section \<open>System calls\<close>

definition munmapFunc :: "addr \<Rightarrow> u64 \<Rightarrow> se_process \<Rightarrow> (int \<times> se_process) outcome" where
  "munmapFunc start len pr =
     (if pageOffset (proc_pt pr) start \<noteq> 0 then Inr (- 22, pr)
      else obind (roundUp len (ptPageSize (proc_pt pr))) (\<lambda>len.
             obind (unmapRegion start len pr) (\<lambda>pr. Inr (0, pr))))"

section \<open>Pages of a region\<close>

lemma sint_pow2: "k < 63 \<Longrightarrow> sint (2 ^ k :: u64) = 2 ^ k"
proof -
  assume k: "k < 63"
  then have "(2 :: int) ^ k < 2 ^ 63" by (simp only: power_strict_increasing_iff one_less_numeral_iff semiring_norm)
  then show ?thesis using sint_of_small [of "2 ^ k"] by simp
qed

text \<open>The loop over the pages of a region of \<open>L\<close> bytes; the length 0 stands for all of the address space.\<close>

lemma pages_do_rule:
  assumes k: "k < 64" and L: "2 ^ k dvd L" "0 < L" "L \<le> 2 ^ 64" and P: "P 0 pt"
    and step: "\<And>j pt. 0 \<le> j \<Longrightarrow> j < L \<Longrightarrow> 2 ^ k dvd j \<Longrightarrow> P j pt \<Longrightarrow> \<exists>pt'. f (word_of_int j) pt = Inr pt' \<and> P (j + 2 ^ k) pt'"
  shows "\<exists>pt'. pages_do (2 ^ k) f (word_of_int L) 0 pt = Inr pt' \<and> P L pt'"
proof -
  have "\<exists>pt'. pages_do (2 ^ k) f (word_of_int (L - j)) (word_of_int j) pt = Inr pt' \<and> P L pt'"
    if "P j pt" "0 \<le> j" "j < L" "2 ^ k dvd j" for j pt
    using that
  proof (induction "nat (L - j)" arbitrary: j pt rule: less_induct)
    case less
    obtain pt' where pt': "f (word_of_int j) pt = Inr pt'" "P (j + 2 ^ k) pt'" using step [OF less(3,4,5,2)] by blast
    have "2 ^ k dvd L - j" using L(1) less(5) by simp
    then have ge: "2 ^ k \<le> L - j" using less(4) by (auto dest: zdvd_imp_le)
    have len: "word_of_int (L - j) - 2 ^ k = (word_of_int (L - (j + 2 ^ k)) :: u64)" by simp
    have u: "uint (word_of_int (L - (j + 2 ^ k)) :: u64) = L - (j + 2 ^ k)"
      using ge less(3) L(3) zero_less_power [of "2 :: int" k] by (intro uint_of_small_int) (simp_all del: zero_less_power)
    have z: "(word_of_int (L - (j + 2 ^ k)) :: u64) = 0 \<longleftrightarrow> L = j + 2 ^ k" using u by (metis diff_eq_eq add_0 uint_0_iff)
    have eq: "pages_do (2 ^ k) f (word_of_int (L - j)) (word_of_int j) pt =
        (if L = j + 2 ^ k then Inr pt' else pages_do (2 ^ k) f (word_of_int (L - (j + 2 ^ k))) (word_of_int (j + 2 ^ k)) pt')"
      by (subst pages_do_step) (use pt'(1) len z in \<open>auto simp del: of_int_diff\<close>)
    show ?case
    proof (cases "L = j + 2 ^ k")
      case False
      with ge have "j + 2 ^ k < L" "nat (L - (j + 2 ^ k)) < nat (L - j)" using less(4) by simp_all
      then show ?thesis using less(1) [OF _ pt'(2)] less(3,5) eq False by simp
    qed (use eq pt'(2) in simp)
  qed
  from this [OF P] L(2) show ?thesis by simp
qed

lemma int_div_less_iff:
  assumes "0 < (b :: int)" shows "x div b < q \<longleftrightarrow> x < b * q"
proof -
  have d: "b * (x div b) + x mod b = x" "0 \<le> x mod b" "x mod b < b" using assms by simp_all
  show ?thesis
  proof (cases "x div b < q")
    case True
    then have "b * (x div b + 1) \<le> b * q" using assms by (intro mult_left_mono) auto
    then have "b * (x div b) + b \<le> b * q" by (simp add: distrib_left)
    with True d show ?thesis by linarith
  next
    case False
    then have "b * q \<le> b * (x div b)" using assms by (intro mult_left_mono) auto
    with False d show ?thesis by linarith
  qed
qed

lemma page_in_region:
  assumes k: "k < 64" and v: "v AND mask k = 0" and L: "2 ^ k dvd L"
  shows "in_pages k v L (a AND NOT (mask k)) \<longleftrightarrow> uint (a - v) < L"
proof -
  have "((a AND NOT (mask k)) - v) + (a AND mask k) = a - v" using page_split [of a k] by (simp add: algebra_simps)
  also have "\<dots> = ((a - v) AND NOT (mask k)) + (a AND mask k)"
    using page_split [of "a - v" k] aligned_diff [of k v a] k v by simp
  finally have "(a AND NOT (mask k)) - v = (a - v) AND NOT (mask k)" by (simp only: add_right_cancel)
  moreover have "int (unat (a - v) div 2 ^ k * 2 ^ k) = int (unat (a - v)) - int (unat (a - v)) mod 2 ^ k"
    by (simp add: minus_mod_eq_mult_div zdiv_int mult.commute)
  ultimately have "uint ((a AND NOT (mask k)) - v) = uint (a - v) - uint (a - v) mod 2 ^ k"
    using unat_and_not_mask [of "a - v" k] by (simp only: uint_nat)
  moreover have "x - x mod 2 ^ k < L \<longleftrightarrow> x < L" if "0 \<le> x" for x :: int
  proof -
    obtain q where q: "L = 2 ^ k * q" using L by (auto elim: dvdE)
    have x: "x - x mod 2 ^ k = 2 ^ k * (x div 2 ^ k)" by (simp add: minus_mod_eq_mult_div)
    have "2 ^ k * (x div 2 ^ k) < 2 ^ k * q \<longleftrightarrow> x div 2 ^ k < q" by simp
    also have "\<dots> \<longleftrightarrow> x < 2 ^ k * q" using int_div_less_iff [of "2 ^ k" x q] by simp
    finally show ?thesis using q x by simp
  qed
  ultimately show ?thesis by (simp add: in_pages_def page_align_aligned)
qed

section \<open>Unmapping regions\<close>

definition proc_ok :: "nat \<Rightarrow> se_process \<Rightarrow> bool" where
  "proc_ok k pr \<longleftrightarrow> k < 63 \<and> pt_ok k (proc_pt pr) \<and> vmas_ok k (areas pr) \<and> pageBytes (proc_ms pr) = 2 ^ k"

definition cut_pages :: "nat \<Rightarrow> addr \<Rightarrow> int \<Rightarrow> page_table \<Rightarrow> page_table" where
  "cut_pages k s n pt = pt\<lparr>pTable := (\<lambda>a. if in_pages k s n a then None else pTable pt a)\<rparr>"

lemma cut_pages_ok: "pt_ok k pt \<Longrightarrow> pt_ok k (cut_pages k s n pt)"
  unfolding cut_pages_def by (rule pt_ok_update) (auto simp: pt_ok_entry split: if_splits)

lemma page_fits: "k < 63 \<Longrightarrow> (2 :: int) ^ k \<le> 2 ^ 63 - 2 ^ k"
proof -
  assume "k < 63"
  then have "(2 :: int) ^ Suc k \<le> 2 ^ 63" by (intro power_increasing) auto
  then show ?thesis by simp
qed

lemma unmap_one_ok:
  assumes k: "k < 63" and pt: "pt_ok k pt" and a: "(s + off) AND mask k = 0"
  shows "unmap_one (2 ^ k) s off pt = Inr (pt\<lparr>pTable := (pTable pt)(s + off := None)\<rparr>)"
proof -
  have k64: "k < 64" using k by simp
  note one = in_one_page [OF k64 a]
  have fits: "(2 :: int) ^ k < 2 ^ 63" using k by (simp only: power_strict_increasing_iff one_less_numeral_iff semiring_norm)
  have "pt_isUnmapped pt (s + off) (sint (2 ^ k :: u64)) = Inr (pTable pt (s + off) = None)"
    using pt_isUnmapped_exact [OF pt a page_fits [OF k]] one by (simp add: sint_pow2 k)
  moreover have "pt_unmap pt (s + off) (sint (2 ^ k :: u64)) = Inr (pt\<lparr>pTable := (pTable pt)(s + off := None)\<rparr>)" if "pTable pt (s + off) \<noteq> None"
    using pt_unmap_exact [OF pt a fits] one that by (simp add: sint_pow2 k fun_upd_def)
  moreover have "pt\<lparr>pTable := (pTable pt)(s + off := None)\<rparr> = pt" if "pTable pt (s + off) = None"
    using fun_upd_triv [of "pTable pt" "s + off"] that by simp
  ultimately show ?thesis by (auto simp: unmap_one_def)
qed

lemma aligned_offset:
  "k < 64 \<Longrightarrow> s AND mask k = 0 \<Longrightarrow> 2 ^ k dvd j \<Longrightarrow> 0 \<le> j \<Longrightarrow> j < 2 ^ 64 \<Longrightarrow> (s + word_of_int j) AND mask k = (0 :: u64)"
  by (rule aligned_add) (simp_all add: aligned_iff uint_of_small_int)

lemma unmap_pages_ok:
  assumes k: "k < 63" and pt: "pt_ok k pt" and s: "s AND mask k = 0" and L: "2 ^ k dvd L" "0 < L" "L \<le> 2 ^ 64"
  shows "pages_do (2 ^ k) (unmap_one (2 ^ k) s) (word_of_int L) 0 pt = Inr (cut_pages k s L pt)"
proof -
  have k64: "k < 64" using k by simp
  have "\<exists>pt'. pages_do (2 ^ k) (unmap_one (2 ^ k) s) (word_of_int L) 0 pt = Inr pt' \<and> pt' = cut_pages k s L pt"
  proof (rule pages_do_rule [OF k64 L])
    show "pt = cut_pages k s 0 pt" by (simp add: cut_pages_def)
  next
    fix j p
    assume j: "0 \<le> j" "j < L" "2 ^ k dvd j" and p: "p = cut_pages k s j pt"
    have j64: "j < 2 ^ 64" using j(2) L(3) by simp
    have "p\<lparr>pTable := (pTable p)(s + word_of_int j := None)\<rparr> = cut_pages k s (j + 2 ^ k) pt"
      using p in_pages_step [OF k64 s j(3,1) j64] by (auto simp: cut_pages_def fun_eq_iff)
    then show "\<exists>pt'. unmap_one (2 ^ k) s (word_of_int j) p = Inr pt' \<and> pt' = cut_pages k s (j + 2 ^ k) pt"
      using unmap_one_ok [OF k cut_pages_ok [OF pt] aligned_offset [OF k64 s j(3,1) j64]] p by simp
  qed
  then show ?thesis by simp
qed

lemma space_ext:
  assumes "vmas_ok k ws" "\<And>y. (\<exists>w \<in> set ws. vma_at w a = Some y) \<longleftrightarrow> x = Some y"
  shows "space ws a = x"
  using space_eq [OF assms(1)] assms(2) by (metis option.exhaust)

lemma translate_cut:
  assumes "k < 64" "pt_ok k pt" "s AND mask k = 0" "2 ^ k dvd L"
  shows "pt_translate (cut_pages k s L pt) a = (if uint (a - s) < L then None else pt_translate pt a)"
  using pt_translate_page [OF cut_pages_ok [OF assms(2)], of s L a] pt_translate_page [OF assms(2), of a]
    page_in_region [OF assms(1,3,4), of a] by (simp add: cut_pages_def)

lemma unmapRegion_ok:
  assumes pr: "proc_ok k pr" and s: "s AND mask k = 0" and len: "len AND mask k = 0" "0 < len" "unat s + unat len < 2 ^ 64"
  shows "\<exists>vs. unmapRegion s len pr = Inr (set_areas vs pr\<lparr>proc_pt := cut_pages k s (uint len) (proc_pt pr)\<rparr>) \<and>
    vmas_ok k vs \<and> (\<forall>a. space vs a = (if a - s < len then None else space (areas pr) a))"
proof -
  have k: "k < 63" "k < 64" and pt: "pt_ok k (proc_pt pr)" and vs: "vmas_ok k (areas pr)" and pg: "pageBytes (proc_ms pr) = 2 ^ k"
    using pr by (simp_all add: proc_ok_def)
  have se: "s < s + len" using len(2,3) by (simp add: word_less_nat_alt unat_word_ariths)
  obtain ws where ws: "unmap_vmas (AddrRange_plain s (s + len)) [] (areas pr) = Inr ws" "vmas_ok k ws"
      "\<forall>a y. (\<exists>w \<in> set ws. vma_at w a = Some y) \<longleftrightarrow> \<not> (s \<le> a \<and> a < s + len) \<and> (\<exists>v \<in> set (areas pr). vma_at v a = Some y)"
    using unmap_vmas_ok [OF k(2) se s aligned_add [OF _ s len(1)], of "[]" "areas pr"] vs k by auto
  have "2 ^ k dvd uint len" using len(1) k(2) by (simp add: aligned_iff)
  then have pages: "pages_do (2 ^ k) (unmap_one (2 ^ k) s) len 0 (proc_pt pr) = Inr (cut_pages k s (uint len) (proc_pt pr))"
    using unmap_pages_ok [OF k(1) pt s, of "uint len"] len(2) uint_lt2p [of len] by (simp add: word_less_def)
  have "(\<exists>w \<in> set ws. vma_at w a = Some y) \<longleftrightarrow> \<not> a - s < len \<and> space (areas pr) a = Some y" for a y
    using ws(3) range_shift [OF len(3), of a] space_eq [OF vs, of a y] by (simp only: simp_thms)
  then have "space ws a = (if a - s < len then None else space (areas pr) a)" for a
    by (intro space_ext [OF ws(2)]) simp
  then show ?thesis using ws(1,2) pages by (intro exI [of _ ws]) (simp add: unmapRegion_def Let_def pg)
qed

text \<open>
  A length of zero. The empty range counts as one that reaches to the end of the address space,
  so that every area from its start on is a subset of it.
\<close>

lemma unmap_one_empty:
  assumes v: "vma_ok k v" "vm_start v < vm_end v" and s: "\<not> (vm_start v < s \<and> s < vm_end v)"
  shows "unmap_vmas (AddrRange_plain s s) seen (v # vs) =
    unmap_vmas (AddrRange_plain s s) (if vm_start v < s then seen @ [v] else seen) vs"
proof -
  have "\<not> interleaved (vm_range v)" using v(1) by (metis AddrRange_plain_simps(3) interleaved_def list.size(3) less_irrefl vma_ok_def)
  moreover have "\<not> interleaved (AddrRange_plain s s)" by (simp add: interleaved_def)
  ultimately have "isSubset (vm_range v) (AddrRange_plain s s) = Inr (\<not> vm_start v < s)"
      "vm_start v < s \<Longrightarrow> intersects (vm_range v) (AddrRange_plain s s) = Inr False"
    using v(2) s by (auto simp: isSubset_def intersects_def)
  moreover have "\<not> isStrictSuperset v (AddrRange_plain s s)" using s by (simp add: isStrictSuperset_def)
  ultimately show ?thesis by simp
qed

lemma unmap_vmas_empty_range:
  "list_all (vma_ok k) vs \<Longrightarrow> \<forall>v \<in> set vs. \<not> (vm_start v < s \<and> s < vm_end v) \<Longrightarrow>
   unmap_vmas (AddrRange_plain s s) seen vs = Inr (seen @ filter (\<lambda>v. vm_start v < s) vs)"
proof (induction vs arbitrary: seen)
  case (Cons v vs)
  then have v: "vma_ok k v" "vm_start v < vm_end v" "\<not> (vm_start v < s \<and> s < vm_end v)" by (simp_all add: vma_ok_def)
  show ?case using Cons unmap_one_empty [OF v] by simp
qed simp

lemma filter_space:
  assumes "\<forall>v \<in> set vs. vm_start v < vm_end v \<and> \<not> (vm_start v < s \<and> s < vm_end v)"
  shows "space (filter (\<lambda>v. vm_start v < s) vs) a = (if s \<le> a then None else space vs a)"
  using assms by (induction vs) (auto simp: vma_at_def)

text \<open>An area that the address cuts is split in place, and the walk stops there.\<close>

lemma unmap_vmas_stops:
  assumes "k < 64" "list_all (vma_ok k) (us @ v # ws)" "\<forall>u \<in> set us. \<not> (vm_start u < s \<and> s < vm_end u)"
    "s AND mask k = 0" "vm_start v < s" "s < vm_end v"
  shows "\<exists>l r. unmap_vmas (AddrRange_plain s s) seen (us @ v # ws) = Inr (seen @ filter (\<lambda>u. vm_start u < s) us @ r # ws @ [l]) \<and>
    (\<forall>a. vma_at l a = (if a < s then vma_at v a else None)) \<and> (\<forall>a. vma_at r a = (if s \<le> a then vma_at v a else None))"
  using assms(2,3)
proof (induction us arbitrary: seen)
  case Nil
  then have v: "vma_ok k v" by simp
  obtain l where l: "sliceRegionRight s v = Inr l" "\<And>a. vma_at l a = (if a < s then vma_at v a else None)"
    using sliceRegionRight_ok [OF assms(1) v assms(4-6)] by blast
  obtain r where r: "sliceRegionLeft s v = Inr r" "\<And>a. vma_at r a = (if s \<le> a then vma_at v a else None)"
    using sliceRegionLeft_ok [OF assms(1) v assms(4-6)] by blast
  have "isStrictSuperset v (AddrRange_plain s s)" using assms(5,6) by (simp add: isStrictSuperset_def)
  with l(1) r(1) have "unmap_vmas (AddrRange_plain s s) seen (v # ws) = Inr (seen @ r # ws @ [l])" by simp
  with l(2) r(2) show ?case by auto
next
  case (Cons u us)
  have u: "vma_ok k u" "vm_start u < vm_end u" using Cons(2) by (simp_all add: vma_ok_def)
  have "\<not> (vm_start u < s \<and> s < vm_end u)" using Cons(3) by simp
  note one = unmap_one_empty [OF u this]
  show ?case using Cons.IH [of "if vm_start u < s then seen @ [u] else seen"] Cons.prems one by (cases "vm_start u < s") simp_all
qed

lemma unmap_vmas_zero:
  assumes k: "k < 64" and vs: "vmas_ok k vs" and s: "s AND mask k = 0"
  shows "\<exists>ws. unmap_vmas (AddrRange_plain s s) [] vs = Inr ws \<and>
    (if \<forall>v \<in> set vs. \<not> (vm_start v < s \<and> s < vm_end v)
     then \<forall>a. space ws a = (if s \<le> a then None else space vs a)
     else \<forall>v \<in> set vs. vm_start v < s \<and> s < vm_end v \<longrightarrow> (\<forall>a. vm_start v \<le> a \<and> a < vm_end v \<longrightarrow> space ws a = space vs a))"
proof (cases "\<forall>v \<in> set vs. \<not> (vm_start v < s \<and> s < vm_end v)")
  case True
  have ok: "list_all (vma_ok k) vs" "\<forall>v \<in> set vs. vm_start v < vm_end v"
    using vs by (auto simp: vmas_ok_def list_all_iff vma_ok_def)
  then show ?thesis using True unmap_vmas_empty_range [OF ok(1) True, of "[]"] filter_space [of vs s] by simp
next
  case False
  then obtain us v ws where v: "vs = us @ v # ws" "vm_start v < s" "s < vm_end v"
    "\<forall>u \<in> set us. \<not> (vm_start u < s \<and> s < vm_end u)"
    using split_list_first_prop [of vs "\<lambda>v. vm_start v < s \<and> s < vm_end v"] by blast
  have ok: "list_all (vma_ok k) (us @ v # ws)" using vs v(1) by (simp add: vmas_ok_def)
  from unmap_vmas_stops [OF k ok v(4) s v(2,3), of "[]"] obtain l r where
    u: "unmap_vmas (AddrRange_plain s s) [] vs = Inr (filter (\<lambda>u. vm_start u < s) us @ r # ws @ [l])"
    "\<forall>a. vma_at l a = (if a < s then vma_at v a else None)" "\<forall>a. vma_at r a = (if s \<le> a then vma_at v a else None)"
    by (auto simp: v(1))
  have apart: "\<not> cov x a" if "cov v a" "x \<in> set us \<union> set ws" for x a
    using vs that unfolding vmas_ok_cov v(1) by (auto simp: sorted_wrt_append)
  have only: "x = v" if "x \<in> set vs" "vm_start x < s" "s < vm_end x" for x
  proof -
    have "cov x s" "cov v s" using that(2,3) v(2,3) by (simp_all add: cov_def)
    then show ?thesis using apart [of s x] that(1) v(1) by auto
  qed
  have "space (filter (\<lambda>u. vm_start u < s) us @ r # ws @ [l]) a = space vs a" if "cov v a" for a
  proof -
    have "space xs a = None" if "set xs \<subseteq> set us \<union> set ws" for xs
      using apart [OF \<open>cov v a\<close>] that by (auto simp: space_None)
    then have e: "space (filter (\<lambda>u. vm_start u < s) us) a = None" "space us a = None" "space ws a = None"
      by (auto simp: subset_iff)
    have "space (xs @ ys) a = (case space xs a of None \<Rightarrow> space ys a | x \<Rightarrow> x)" for xs ys
      by (induction xs) (auto split: option.splits)
    then show ?thesis using e u(2,3) by (auto simp: v(1) split: option.splits)
  qed
  then show ?thesis using False u(1) only by (auto simp: cov_def)
qed

lemma vmas_ok_filter: "vmas_ok k vs \<Longrightarrow> vmas_ok k (filter P vs)"
  by (auto simp: vmas_ok_def list_all_iff sorted_wrt_filter)

section \<open>Moving regions\<close>

definition move_pages :: "nat \<Rightarrow> addr \<Rightarrow> addr \<Rightarrow> int \<Rightarrow> page_table \<Rightarrow> page_table" where
  "move_pages k s n L pt = pt\<lparr>pTable := (\<lambda>a. if in_pages k n L a then pTable pt (a - n + s)
     else if in_pages k s L a then None else pTable pt a)\<rparr>"

lemma move_pages_ok:
  assumes "k < 64" "pt_ok k pt"
  shows "pt_ok k (move_pages k s n L pt)"
  unfolding move_pages_def
  by (rule pt_ok_update [OF assms(2)]) (auto simp: in_pages_def pt_ok_entry [OF assms(2)] split: if_splits)

lemma remap_one_ok:
  assumes k: "k < 63" and pt: "pt_ok k pt" and a: "(s + off) AND mask k = 0" "(n + off) AND mask k = 0"
    and free: "pTable pt (n + off) = None" and ne: "n \<noteq> s"
  shows "remap_one (2 ^ k) s n off pt = Inr (pt\<lparr>pTable := (pTable pt)(n + off := pTable pt (s + off), s + off := None)\<rparr>)"
proof -
  have k64: "k < 64" and pg: "ptPageSize pt = 2 ^ k" "offsetMask pt = mask k" using k pt by (simp_all add: pt_ok_def)
  have pos: "(0 :: int) < 2 ^ k" by simp
  have u: "pt_isUnmapped pt (s + off) (sint (2 ^ k :: u64)) = Inr (pTable pt (s + off) = None)"
    using pt_isUnmapped_exact [OF pt a(1) page_fits [OF k]] in_one_page [OF k64 a(1)] by (simp add: sint_pow2 k)
  have "page_loop (2 ^ k) f (2 ^ k) 0 t = obind (f 0 t) Inr" for f t
    using pos k64 by (subst page_loop.simps) (simp add: uint_pow2 page_loop.simps [of _ _ 0] del: zero_less_power cong: obind_cong)
  then have "pt_remap pt (s + off) (sint (2 ^ k :: u64)) (n + off) =
      Inr (pt\<lparr>pTable := (pTable pt)(n + off := pTable pt (s + off), s + off := None)\<rparr>)" if "pTable pt (s + off) \<noteq> None"
    using that free a by (simp add: pt_remap_def remap_page_def pg pageOffset_def sint_pow2 k)
  moreover have "(pTable pt)(n + off := pTable pt (s + off), s + off := None) = pTable pt" if "pTable pt (s + off) = None"
    using that free by (auto simp: fun_eq_iff)
  ultimately show ?thesis using u by (auto simp: remap_one_def)
qed

lemma remap_pages_ok:
  assumes k: "k < 63" and pt: "pt_ok k pt" and al: "s AND mask k = 0" "n AND mask k = 0" and L: "2 ^ k dvd L" "0 < L" "L \<le> 2 ^ 64"
    and apart: "\<forall>a. \<not> (uint (a - s) < L \<and> uint (a - n) < L)" and free: "\<forall>a. in_pages k n L a \<longrightarrow> pTable pt a = None"
  shows "pages_do (2 ^ k) (remap_one (2 ^ k) s n) (word_of_int L) 0 pt = Inr (move_pages k s n L pt)"
proof -
  have k64: "k < 64" using k by simp
  have ne: "n \<noteq> s" using apart [rule_format, of s] L(2) by auto
  have "\<exists>pt'. pages_do (2 ^ k) (remap_one (2 ^ k) s n) (word_of_int L) 0 pt = Inr pt' \<and> pt' = move_pages k s n L pt"
  proof (rule pages_do_rule [OF k64 L])
    show "pt = move_pages k s n 0 pt" by (simp add: move_pages_def)
  next
    fix j p
    assume j: "0 \<le> j" "j < L" "2 ^ k dvd j" and p: "p = move_pages k s n j pt"
    let ?x = "s + word_of_int j" and ?y = "n + word_of_int j"
    have j64: "j < 2 ^ 64" using j(2) L(3) by simp
    have u: "uint (word_of_int j :: u64) = j" using j(1) j64 by (rule uint_of_small_int)
    note xa = aligned_offset [OF k64 al(1) j(3,1) j64] and ya = aligned_offset [OF k64 al(2) j(3,1) j64]
    have far: "\<not> uint (?y - s) < L" "\<not> uint (?x - n) < L"
      using apart [rule_format, of ?y] apart [rule_format, of ?x] u j(2) by simp_all
    then have pages: "\<not> in_pages k s j ?y" "\<not> in_pages k n j ?x" "\<not> in_pages k n j ?y" "\<not> in_pages k s j ?x"
      using j(2) u by (simp_all add: in_pages_def)
    have py: "pTable p ?y = None" "pTable p ?x = pTable pt ?x"
      using p pages free [rule_format, of ?y] ya u j(2) by (auto simp: move_pages_def in_pages_def)
    note sx = in_pages_step [OF k64 al(1) j(3,1) j64] and sy = in_pages_step [OF k64 al(2) j(3,1) j64]
    have xy: "?x \<noteq> ?y" using ne by simp
    have "p\<lparr>pTable := (pTable p)(?y := pTable p ?x, ?x := None)\<rparr> = move_pages k s n (j + 2 ^ k) pt"
      using p py pages xy by (auto simp: move_pages_def sx sy fun_eq_iff algebra_simps)
    then show "\<exists>pt'. remap_one (2 ^ k) s n (word_of_int j) p = Inr pt' \<and> pt' = move_pages k s n (j + 2 ^ k) pt"
      using remap_one_ok [OF k _ xa ya py(1) ne] move_pages_ok [OF k64 pt] p by simp
  qed
  then show ?thesis by simp
qed

lemma translate_move:
  assumes k: "k < 64" and pt: "pt_ok k pt" and al: "s AND mask k = 0" "n AND mask k = 0" and L: "2 ^ k dvd L"
  shows "pt_translate (move_pages k s n L pt) a =
    (if uint (a - n) < L then pt_translate pt (a - n + s) else if uint (a - s) < L then None else pt_translate pt a)"
proof -
  have d: "(n - s) AND mask k = 0" using aligned_sub [of k s n] al k by simp
  have e: "a - n + s = a - (n - s)" by simp
  have o: "(a - n + s) AND mask k = a AND mask k" unfolding e using aligned_diff [OF _ d, of a] k by simp
  have "((a AND NOT (mask k)) - n + s) + (a AND mask k) = a - n + s" using page_split [of a k] by (simp add: algebra_simps)
  also have "\<dots> = ((a - n + s) AND NOT (mask k)) + (a AND mask k)" using page_split [of "a - n + s" k] o by simp
  finally have p: "(a AND NOT (mask k)) - n + s = (a - n + s) AND NOT (mask k)" by (simp only: add_right_cancel)
  show ?thesis
    using pt_translate_page [OF move_pages_ok [OF k pt], of s n L a] pt_translate_page [OF pt, of a] pt_translate_page [OF pt, of "a - n + s"]
      page_in_region [OF k al(1) L, of a] page_in_region [OF k al(2) L, of a] by (simp add: move_pages_def p o)
qed

lemma remapRegion_ok:
  assumes pr: "proc_ok k pr" and al: "s AND mask k = 0" "n AND mask k = 0" and len: "len AND mask k = 0" "0 < len"
    and fit: "unat s + unat len < 2 ^ 64" "unat n + unat len < 2 ^ 64" and apart: "\<forall>a. \<not> (a - s < len \<and> a - n < len)"
    and free: "\<forall>a. a - n < len \<longrightarrow> space (areas pr) a = None \<and> pt_translate (proc_pt pr) a = None"
  shows "\<exists>vs. remapRegion s n len pr = Inr (set_areas vs pr\<lparr>proc_pt := move_pages k s n (uint len) (proc_pt pr)\<rparr>) \<and> vmas_ok k vs \<and>
    (\<forall>a. space vs a = (if a - n < len then space (areas pr) (a - n + s) else if a - s < len then None else space (areas pr) a))"
proof -
  have k: "k < 63" "k < 64" and pt: "pt_ok k (proc_pt pr)" and vs: "vmas_ok k (areas pr)" and pg: "pageBytes (proc_ms pr) = 2 ^ k"
    using pr by (simp_all add: proc_ok_def)
  have se: "s < s + len" using fit(1) len(2) by (simp add: word_less_nat_alt unat_word_ariths)
  have "\<forall>v \<in> set (areas pr). \<forall>a. cov v a \<longrightarrow> \<not> a - n < len" using free by (auto simp: space_None)
  then have "remap_inv k s (s + len - s) n [] (areas pr)" using vs by (simp add: remap_inv_def)
  from remap_vmas_ok [OF k(2) se al(1) aligned_add [OF _ al(1) len(1)] al(2) _ this] fit(2) k
  obtain ws where ws: "remap_vmas (AddrRange_plain s (s + len)) n [] (areas pr) = Inr ws" "vmas_ok k ws"
      "\<forall>a y. (\<exists>w \<in> set ws. vma_at w a = Some y) \<longleftrightarrow> reached s len n [] (areas pr) a y" by auto
  have dv: "2 ^ k dvd uint len" using len(1) k(2) by (simp add: aligned_iff)
  have nopage: "\<forall>a. in_pages k n (uint len) a \<longrightarrow> pTable (proc_pt pr) a = None"
    using free pt_translate_page [OF pt] page_align_of_page by (auto simp: in_pages_def word_less_def)
  have pages: "pages_do (2 ^ k) (remap_one (2 ^ k) s n) len 0 (proc_pt pr) = Inr (move_pages k s n (uint len) (proc_pt pr))"
    using remap_pages_ok [OF k(1) pt al dv _ _ _ nopage] apart len(2) uint_lt2p [of len] by (simp add: word_less_def)
  have r: "reached s len n [] (areas pr) a y \<longleftrightarrow>
      (if a - n < len then space (areas pr) (a - n + s) else if a - s < len then None else space (areas pr) a) = Some y" for a y
    by (auto simp: reached_def moved_def space_eq [OF vs])
  have "space ws a = (if a - n < len then space (areas pr) (a - n + s) else if a - s < len then None else space (areas pr) a)" for a
    by (rule space_ext [OF ws(2)]) (simp only: ws(3) r)
  then show ?thesis using ws(1,2) pages by (intro exI [of _ ws]) (simp add: remapRegion_def Let_def pg)
qed

section \<open>Allocation\<close>

text \<open>The pages an allocation needs; \<^verbatim>\<open>npages\<close> is an \<^verbatim>\<open>int\<close>.\<close>

definition pages_for :: "nat \<Rightarrow> int \<Rightarrow> int" where
  "pages_for k sz = (sz + 2 ^ k - 1) div 2 ^ k"

definition alloc_size_ok :: "nat \<Rightarrow> int \<Rightarrow> bool" where
  "alloc_size_ok k sz \<longleftrightarrow> 0 \<le> sz \<and> pages_for k sz < 2 ^ 31 \<and> pages_for k sz * 2 ^ k < 2 ^ 63"

lemma pages_for_page: "pages_for k (2 ^ k) = 1"
  unfolding pages_for_def by (rule int_div_pos_eq [of _ _ _ "2 ^ k - 1"]) simp_all

lemma alloc_page_ok: "k < 63 \<Longrightarrow> alloc_size_ok k (2 ^ k)"
  using power_strict_increasing [of k 63 "2 :: int"] by (simp add: alloc_size_ok_def pages_for_page)

lemma pages_for_ge: "sz \<le> pages_for k sz * 2 ^ k"
proof -
  have "(sz + 2 ^ k - 1) mod 2 ^ k < 2 ^ k" by simp
  then show ?thesis using div_mult_mod_eq [of "sz + 2 ^ k - 1" "2 ^ k"] by (simp only: pages_for_def)
qed

lemma alloc_arith:
  assumes k: "k < 63" and sz: "alloc_size_ok k sz"
  shows "\<exists>w. divCeil (word_of_int sz) (2 ^ k) = Inr w \<and> sint (ucast w :: u32) = pages_for k sz"
    "sint (word_of_int (pages_for k sz) * 2 ^ k :: u64) = pages_for k sz * 2 ^ k" "0 \<le> pages_for k sz"
    "unat (word_of_int (pages_for k sz) :: u64) = nat (pages_for k sz)"
proof -
  let ?N = "pages_for k sz"
  have b: "0 \<le> sz" "?N < 2 ^ 31" "?N * 2 ^ k < 2 ^ 63" using sz by (simp_all add: alloc_size_ok_def)
  show N0: "0 \<le> ?N" using b(1) one_le_power [of "2 :: int" k] by (simp add: pages_for_def pos_imp_zdiv_nonneg_iff del: one_le_power)
  have pk: "(2 :: int) ^ k < 2 ^ 63" using k by (simp only: power_strict_increasing_iff one_less_numeral_iff semiring_norm)
  have "sz + 2 ^ k - 1 < 2 ^ 63 + 2 ^ 63" using b pages_for_ge [of sz k] pk by linarith
  then have small: "0 \<le> sz + 2 ^ k - 1" "sz + 2 ^ k - 1 < 2 ^ 64" using b(1) one_le_power [of "2 :: int" k] by (simp_all del: one_le_power)
  have "word_of_int sz + 2 ^ k - 1 = (word_of_int (sz + 2 ^ k - 1) :: u64)" by simp
  then have w: "uint ((word_of_int sz + 2 ^ k - 1 :: u64) div 2 ^ k) = ?N"
    using small k by (simp add: uint_div_distrib uint_of_small_int uint_pow2 pages_for_def del: of_int_add of_int_diff)
  have "sint (ucast ((word_of_int sz + 2 ^ k - 1 :: u64) div 2 ^ k) :: u32) = sint (word_of_int ?N :: u32)"
    by (simp only: ucast_eq w)
  also have "\<dots> = ?N" using signed_take_bit_int_eq_self [of 31 ?N] N0 b(2) by (simp add: sint_sbintrunc')
  finally have "sint (ucast ((word_of_int sz + 2 ^ k - 1 :: u64) div 2 ^ k) :: u32) = ?N" .
  then show "\<exists>w. divCeil (word_of_int sz) (2 ^ k) = Inr w \<and> sint (ucast w :: u32) = ?N"
    using k by (simp add: divCeil_def)
  have "(word_of_int ?N * 2 ^ k :: u64) = word_of_int (?N * 2 ^ k)" by simp
  moreover have "\<bar>?N * 2 ^ k\<bar> < 2 ^ 63" using N0 b(3) by simp
  ultimately show "sint (word_of_int ?N * 2 ^ k :: u64) = ?N * 2 ^ k" by (simp only: sint_of_small)
  show "unat (word_of_int ?N :: u64) = nat ?N" using N0 b(2) uint_of_small_int [of ?N] by (simp add: unat_eq_nat_uint)
qed

lemma roundDown_page: "k < 64 \<Longrightarrow> roundDown v (2 ^ k) = Inr (v AND NOT (mask k))"
  by (auto simp: roundDown_def isPowerOf2_iff pow2_minus_1)

text \<open>What \<^verbatim>\<open>allocateMem\<close> does: nothing, run out of memory, panic over a mapped page, or map fresh pages.\<close>

lemma allocateMem_cases:
  fixes vaddr :: addr
  assumes k: "k < 63" and pt: "pt_ok k (proc_pt pr)" and pools: "pools \<noteq> []" "pool_ok k (pools ! 0)" and sz: "alloc_size_ok k sz"
  defines "p \<equiv> pools ! 0" and "N \<equiv> pages_for k sz" and "page \<equiv> vaddr AND NOT (mask k)"
  shows "allocateMem vaddr sz clobber pools pr =
    (if \<not> clobber \<and> pTable (proc_pt pr) page \<noteq> None then Inr (pools, pr)
     else if \<not> unat (freePageNum p) + nat N < unat (startPageNum p) + unat (totalPages p) then Inl Fatal
     else if \<exists>a. in_pages k page (N * 2 ^ k) a \<and> \<not> clobber \<and> pTable (proc_pt pr) a \<noteq> None then Inl Panic
     else Inr (pools[0 := p\<lparr>freePageNum := freePageNum p + word_of_int N\<rparr>],
       pr\<lparr>proc_pt := (proc_pt pr)\<lparr>pTable := mapped_pages k page (freePageAddr p) (N * 2 ^ k) (if clobber then Clobber else 0)
         (pTable (proc_pt pr))\<rparr>\<rparr>))"
proof -
  note ar = alloc_arith [OF k sz, folded N_def]
  obtain w where w: "divCeil (word_of_int sz) (2 ^ k) = Inr w" "sint (ucast w :: u32) = N" using ar(1) by blast
  have sc: "(scast (ucast w :: u32) :: u64) = word_of_int N" using w(2) by (metis scast_eq)
  have pg: "ptPageSize (proc_pt pr) = 2 ^ k" and k64: "k < 64" using pt k by (simp_all add: pt_ok_def)
  have al: "page AND mask k = 0" by (simp add: page_def page_align_aligned)
  then have look: "pt_lookup (proc_pt pr) page = pTable (proc_pt pr) page"
    using pt page_align_of_page by (simp add: pt_lookup_def pageAlign_def pt_ok_def)
  have N: "unat (word_of_int N :: u64) < 2 ^ 62" "N * 2 ^ k < 2 ^ 63" using ar(3,4) sz by (simp_all add: alloc_size_ok_def N_def nat_less_iff)
  have alloc: "allocPhysPages N 0 pools = (if unat (freePageNum p) + nat N < unat (startPageNum p) + unat (totalPages p)
      then Inr (freePageAddr p, pools[0 := p\<lparr>freePageNum := freePageNum p + word_of_int N\<rparr>]) else Inl Fatal)"
    using mp_allocate_exact [OF pools(2) N(1)] pools(1) ar(4) by (auto simp: allocPhysPages_def p_def)
  have "(if clobber then Clobber else 0) AND Clobber = 0 \<longleftrightarrow> \<not> clobber" by (simp add: Clobber_def)
  then show ?thesis using pt_map_exact [OF pt al N(2), of "freePageAddr p" "if clobber then Clobber else 0"]
    by (auto simp: allocateMem_def Let_def pg roundDown_page [OF k64] page_def [symmetric] look w sc alloc ar(2))
qed

text \<open>A fault in an area takes the next page of the pool unless the page is there already.\<close>

lemma find_area:
  assumes "vmas_ok k vs" "space vs a = Some y"
  shows "\<exists>v. find (\<lambda>v. contains (vm_range v) a) vs = Some v \<and> v \<in> set vs \<and> vma_at v a = Some y"
proof -
  have c: "contains (vm_range v) a \<longleftrightarrow> cov v a" if "v \<in> set vs" for v
  proof -
    have "vm_range v = AddrRange_plain (vm_start v) (vm_end v)" using assms(1) that by (simp add: vmas_ok_def list_all_iff vma_ok_def)
    then show ?thesis using contains_AddrRange_plain [of "vm_start v" "vm_end v" a] by (simp add: cov_def)
  qed
  obtain w where w: "w \<in> set vs" "vma_at w a = Some y" using assms(2) space_eq [OF assms(1)] by blast
  then have "cov w a" by (simp add: cov_vma_at)
  then obtain v where v: "find (\<lambda>v. contains (vm_range v) a) vs = Some v" using w(1) c by (metis find_None_iff not_None_eq)
  then have v': "v \<in> set vs" "cov v a" using c by (auto simp: find_Some_iff)
  then obtain z where "vma_at v a = Some z" by (auto simp: cov_vma_at)
  moreover from this v'(1) have "space vs a = Some z" using space_eq [OF assms(1)] by blast
  ultimately show ?thesis using v v'(1) assms(2) by simp
qed

lemma page_translates:
  assumes "pt_ok k pt"
  shows "pTable pt (a AND NOT (mask k)) \<noteq> None \<longleftrightarrow> pt_translate pt a \<noteq> None"
  using pt_translate_page [OF assms] by simp

definition page_at :: "nat \<Rightarrow> addr \<Rightarrow> addr" where
  "page_at k a = a AND NOT (mask k)"

lemma allocate_one_page:
  assumes k: "k < 63" and pt: "pt_ok k (proc_pt pr)" and pools: "pools \<noteq> []" "pool_ok k (pools ! 0)"
    and new: "pt_translate (proc_pt pr) a = None" and v: "page_at k v = page_at k a"
  defines "p \<equiv> pools ! 0"
  shows "if unat (freePageNum p) + 1 < unat (startPageNum p) + unat (totalPages p)
    then \<exists>pr'. allocateMem v (2 ^ k) False pools pr = Inr (pools[0 := p\<lparr>freePageNum := freePageNum p + 1\<rparr>], pr') \<and>
      proc_ms pr' = proc_ms pr \<and> contextIds pr' = contextIds pr \<and> pt_ok k (proc_pt pr') \<and>
      (\<forall>b. pt_translate (proc_pt pr') b =
        (if page_at k b = page_at k a then Some (freePageAddr p + (b AND mask k)) else pt_translate (proc_pt pr) b))
    else allocateMem v (2 ^ k) False pools pr = Inl Fatal"
proof -
  let ?page = "a AND NOT (mask k)"
  have k64: "k < 64" using k by simp
  have al: "?page AND mask k = 0" by (rule page_align_aligned)
  have free: "pTable (proc_pt pr) ?page = None" using page_translates [OF pt, of a] new by simp
  note one = in_one_page [OF k64 al]
  have o: "p + (b - ?page) = p + (b AND mask k)" if "b AND NOT (mask k) = ?page" for b p
    using page_split [of b k] that by (simp add: algebra_simps)
  let ?pt' = "(proc_pt pr)\<lparr>pTable := mapped_pages k ?page (freePageAddr p) (2 ^ k) 0 (pTable (proc_pt pr))\<rparr>"
  have ok: "pt_ok k ?pt'" by (rule mapped_pages_ok [OF pt])
  have tr: "pt_translate ?pt' b = (if page_at k b = page_at k a then Some (freePageAddr p + (b AND mask k)) else pt_translate (proc_pt pr) b)" for b
    using translate_mapped_pages [OF pt al, of "freePageAddr p" "2 ^ k" 0 b] one o by (simp add: page_at_def)
  show ?thesis
    using allocateMem_cases [OF k pt pools alloc_page_ok [OF k], of v False] v one free ok tr
    by (simp add: pages_for_page p_def page_at_def)
qed

lemma aligned_unat: "(w :: u64) AND mask k = 0 \<longleftrightarrow> 2 ^ k dvd unat w"
  by (metis unat_and_mask_word dvd_eq_mod_eq_0 unat_eq_zero)

lemma dvd_gap: "(d :: nat) dvd x \<Longrightarrow> d dvd y \<Longrightarrow> x < y \<Longrightarrow> x + d \<le> y"
  by (metis add_le_imp_le_diff dvd_diff_nat dvd_imp_le less_or_eq_imp_le zero_less_diff le_diff_conv2 add.commute)

lemma area_page:
  assumes k: "k < 63" and v: "vma_ok k v" "cov v a"
  shows "cov v (page_at k a)"
proof -
  have "vm_start v \<le> page_at k a"
  proof -
    have "2 ^ k dvd uint (vm_start v)" using v(1) k by (simp add: vma_ok_def aligned_iff)
    then obtain q where q: "uint (vm_start v) = 2 ^ k * q" by (auto elim: dvdE)
    have "int (unat (page_at k a)) = int (unat a) div 2 ^ k * 2 ^ k"
      by (simp only: page_at_def unat_and_not_mask of_nat_mult zdiv_int of_nat_power of_nat_numeral)
    then have u: "uint (page_at k a) = 2 ^ k * (uint a div 2 ^ k)" by (simp add: mult.commute)
    have "uint (vm_start v) \<le> uint a" using v(2) by (simp add: cov_def word_le_def)
    then have "q \<le> uint a div 2 ^ k" using q int_div_less_iff [of "2 ^ k" "uint a" q] by (simp add: not_less [symmetric])
    then show ?thesis by (simp add: word_le_def u q)
  qed
  moreover have "page_at k a \<le> a"
    using unat_and_not_mask [of a k] div_times_less_eq_dividend [of "unat a" "2 ^ k"] by (simp add: page_at_def word_le_nat_alt)
  ultimately show ?thesis using v(2) by (auto simp: cov_def)
qed

text \<open>The other end of the page of a covered address is covered, too.\<close>

lemma area_page_end:
  assumes k: "k < 63" and v: "vma_ok k v" "cov v a" and b: "page_at k b = page_at k a"
  shows "cov v b" "unat b = unat (page_at k a) + unat (b - page_at k a)" "unat (b - page_at k a) < 2 ^ k"
proof -
  have split: "b = page_at k a + (b AND mask k)" using page_split [of b k] b by (simp add: page_at_def add.commute)
  have m: "unat (b AND mask k) < 2 ^ k" by (simp add: unat_and_mask_word)
  have ub: "unat b = unat (page_at k a) + unat (b AND mask k)"
    unfolding b [symmetric] by (simp only: page_at_def unat_and_not_mask unat_and_mask_word div_mult_mod_eq)
  have d: "b - page_at k a = b AND mask k" using split by (simp add: diff_eq_eq add.commute)
  show "unat b = unat (page_at k a) + unat (b - page_at k a)" "unat (b - page_at k a) < 2 ^ k"
    using ub m by (simp_all only: d)
  have pa: "cov v (page_at k a)" by (rule area_page [OF k v])
  have "unat b < unat (vm_end v)"
  proof -
    have "2 ^ k dvd unat (vm_end v)" using v(1) k by (simp add: vma_ok_def aligned_unat)
    moreover have "2 ^ k dvd unat (page_at k a)" by (simp add: page_at_def unat_and_not_mask)
    moreover have "unat (page_at k a) < unat (vm_end v)" using pa by (simp add: cov_def word_less_nat_alt)
    ultimately have "unat (page_at k a) + 2 ^ k \<le> unat (vm_end v)" by (intro dvd_gap)
    then show ?thesis using ub m by simp
  qed
  then show "cov v b" using pa ub by (simp add: cov_def word_less_nat_alt word_le_nat_alt)
qed

text \<open>
  What is copied to a page: the file, the place in it and the number of bytes. The bytes of the page
  from the first on, up to that number, have their place in the file, and the others have none.
\<close>

definition page_fill :: "nat \<Rightarrow> vma list \<Rightarrow> addr \<Rightarrow> (nat \<times> addr \<times> u64) option \<Rightarrow> bool" where
  "page_fill k vs a fill \<longleftrightarrow> (\<forall>b. page_at k b = page_at k a \<longrightarrow>
     map_option snd (space vs b) = Some (case fill of None \<Rightarrow> None
       | Some (f, off, n) \<Rightarrow> if b - page_at k a < n then Some (f, off + (b - page_at k a)) else None)) \<and>
     (case fill of None \<Rightarrow> True | Some (f, off, n) \<Rightarrow> 0 < n \<and> n \<le> 2 ^ k)"

lemma window_less:
  fixes x :: u64
  assumes p2: "unat (2 ^ k :: u64) = 2 ^ k" and x: "unat x = unat o1 + unat d" "unat d < 2 ^ k"
  shows "x < n \<longleftrightarrow> o1 < n \<and> d < min (n - o1) (2 ^ k)"
proof (cases "o1 < n")
  case True
  then have "unat (n - o1) = unat n - unat o1" by (intro unat_sub) simp
  then have "d < n - o1 \<longleftrightarrow> x < n" unfolding word_less_nat_alt x(1) by linarith
  moreover have "d < 2 ^ k" unfolding word_less_nat_alt p2 by (rule x(2))
  ultimately show ?thesis using True by simp
next
  case False
  then show ?thesis unfolding word_less_nat_alt x(1) by simp
qed

lemma window_pos: "unat (2 ^ k :: u64) = 2 ^ k \<Longrightarrow> o1 < n \<Longrightarrow> 0 < min (n - o1) (2 ^ k :: u64)"
proof -
  assume "unat (2 ^ k :: u64) = 2 ^ k" "o1 < n"
  then have "(2 ^ k :: u64) \<noteq> 0" by (metis power_not_zero unat_0 zero_neq_numeral)
  moreover have "n - o1 \<noteq> 0" using \<open>o1 < n\<close> by auto
  ultimately show ?thesis by (simp add: word_gt_0)
qed

lemma fill_page:
  assumes k: "k < 63" and vs: "vmas_ok k vs" "v \<in> set vs" "cov v a"
  shows "page_fill k vs a (fillMemPages v (page_at k a))"
proof -
  have v: "vma_ok k v" "vm_page v = 2 ^ k" using vs(1,2) by (auto simp: vmas_ok_def list_all_iff vma_ok_def)
  define o1 where "o1 = page_at k a - vm_start v"
  have st: "vm_start v \<le> page_at k a" using area_page [OF k v(1) vs(3)] by (simp add: cov_def)
  have off: "b - vm_start v = o1 + (b - page_at k a)" for b by (simp add: o1_def)
  have uo: "unat (b - vm_start v) = unat o1 + unat (b - page_at k a)" "unat (b - page_at k a) < 2 ^ k" "cov v b"
    if "page_at k b = page_at k a" for b
  proof -
    note e = area_page_end [OF k v(1) vs(3) that]
    have "vm_start v \<le> b" using e(1) by (simp add: cov_def)
    then have "unat (b - vm_start v) = unat b - unat (vm_start v)" by (rule unat_sub)
    moreover have "unat o1 = unat (page_at k a) - unat (vm_start v)" unfolding o1_def using st by (rule unat_sub)
    moreover have "unat (vm_start v) \<le> unat (page_at k a)" using st by (simp add: word_le_nat_alt)
    ultimately show "unat (b - vm_start v) = unat o1 + unat (b - page_at k a)" using e(2) by linarith
  qed (use area_page_end [OF k v(1) vs(3) that] in simp_all)
  have sp: "map_option snd (space vs b) = Some (backing v b)" if "page_at k b = page_at k a" for b
  proof -
    have "space vs b = Some (vmaName v, backing v b)"
      unfolding space_eq [OF vs(1)] using uo(3) [OF that] vs(2) by (auto simp: vma_at_cov)
    then show ?thesis by simp
  qed
  have p2: "unat (2 ^ k :: u64) = 2 ^ k" using k by (simp add: unat_pow2)
  have lt: "b - vm_start v < hostBufLen v \<longleftrightarrow> o1 < hostBufLen v \<and> b - page_at k a < min (hostBufLen v - o1) (2 ^ k)"
    if "page_at k b = page_at k a" for b using p2 uo(1,2) [OF that] by (rule window_less)
  note pos = window_pos [OF p2, of o1 "hostBufLen v"]
  show ?thesis
  proof (cases "o1 < hostBufLen v \<and> origHostBuf v \<noteq> None")
    case True
    then obtain f where f: "origHostBuf v = Some f" by blast
    have "fillMemPages v (page_at k a) = Some (f, hostBuf v + o1, min (hostBufLen v - o1) (2 ^ k))"
      using True by (simp add: fillMemPages_def Let_def o1_def f v(2))
    moreover have "backing v b = (if b - page_at k a < min (hostBufLen v - o1) (2 ^ k) then Some (f, hostBuf v + o1 + (b - page_at k a)) else None)"
      if "page_at k b = page_at k a" for b
      unfolding backing_def lt [OF that] using True by (simp add: off f add.assoc)
    ultimately show ?thesis using True sp pos by (simp add: page_fill_def)
  next
    case False
    then have "fillMemPages v (page_at k a) = None" by (auto simp: fillMemPages_def Let_def o1_def)
    moreover have "backing v b = None" if "page_at k b = page_at k a" for b
      unfolding backing_def lt [OF that] using False by auto
    ultimately show ?thesis using sp by (simp add: page_fill_def)
  qed
qed

lemma fill_contexts_map:
  "fill_contexts v p cids = (case fillMemPages v p of None \<Rightarrow> [] | Some blob \<Rightarrow> map (\<lambda>cid. (cid, blob)) cids)"
  by (induction cids) (auto split: option.splits)

section \<open>Mapping regions\<close>

lemma any_intersects_exact:
  assumes "list_all (vma_ok k) vs" "s < e"
  shows "any_intersects (AddrRange_plain s e) vs = Inr (\<exists>a. s \<le> a \<and> a < e \<and> space vs a \<noteq> None)"
  using assms(1)
proof (induction vs)
  case (Cons v vs)
  have v: "vma_ok k v" "vm_start v < vm_end v" using Cons(2) by (simp_all add: vma_ok_def)
  have "vm_start v < e \<and> s < vm_end v \<longleftrightarrow> (\<exists>a. s \<le> a \<and> a < e \<and> cov v a)"
  proof
    assume "vm_start v < e \<and> s < vm_end v"
    then have "s \<le> max s (vm_start v) \<and> max s (vm_start v) < e \<and> cov v (max s (vm_start v))"
      using v(2) assms(2) by (auto simp: cov_def max_def)
    then show "\<exists>a. s \<le> a \<and> a < e \<and> cov v a" by blast
  next
    assume "\<exists>a. s \<le> a \<and> a < e \<and> cov v a"
    then show "vm_start v < e \<and> s < vm_end v" by (auto simp: cov_def)
  qed
  moreover have "space (v # vs) a \<noteq> None \<longleftrightarrow> cov v a \<or> space vs a \<noteq> None" for a unfolding space_None by auto
  ultimately show ?case using Cons vma_tests(2) [OF v(1) assms(2)] by auto
qed simp

lemma pages_free_exact:
  assumes k: "k < 64" and pt: "pt_ok k pt"
  shows "start AND mask k = 0 \<Longrightarrow> e AND mask k = 0 \<Longrightarrow>
    pages_free pt (2 ^ k) start e = Some (if \<exists>a. start \<le> a \<and> a < e \<and> pt_translate pt a \<noteq> None then Inl Panic else Inr True)"
proof (induction "unat e - unat start" arbitrary: start rule: less_induct)
  case less
  show ?case
  proof (cases "start < e")
    case False
    then show ?thesis by (subst pages_free.simps) auto
  next
    case True
    have pk: "unat (2 ^ k :: u64) = 2 ^ k" using k by (simp add: unat_pow2)
    have dv: "2 ^ k dvd uint (e - start)" using aligned_sub [of k start e] less(2,3) k by (simp add: aligned_iff)
    moreover have "0 < uint (e - start)" using True by (simp add: word_less_def uint_sub_if')
    ultimately have "2 ^ k \<le> uint (e - start)" by (auto dest: zdvd_imp_le)
    then have "int (2 ^ k) \<le> int (unat (e - start))" by simp
    then have "2 ^ k \<le> unat (e - start)" by (simp only: of_nat_le_iff)
    then have room: "unat start + 2 ^ k \<le> unat e" using True unat_sub [of start e] by (simp add: word_less_nat_alt word_le_nat_alt)
    then have nx: "unat (start + 2 ^ k) = unat start + 2 ^ k" using unat_u64_lt [of e] by (simp add: unat_word_ariths pk)
    have st: "start < start + 2 ^ k" "start + 2 ^ k \<le> e" using nx room by (simp_all add: word_less_nat_alt word_le_nat_alt)
    have al: "(start + 2 ^ k) AND mask k = 0" using less(2) k by (simp add: aligned_add aligned_pow2)
    have dec: "unat e - unat (start + 2 ^ k) < unat e - unat start" using True nx by (simp add: word_less_nat_alt diff_less_mono2)
    have here: "pt_lookup pt start = pTable pt start" using pt less(2) page_align_of_page by (simp add: pt_lookup_def pageAlign_def pt_ok_def)
    have page: "pt_translate pt a \<noteq> None \<longleftrightarrow> pTable pt start \<noteq> None" if "start \<le> a" "a < start + 2 ^ k" for a
    proof -
      have "a - start < 2 ^ k" using that range_shift [of start "2 ^ k" a] nx pk unat_u64_lt [of "start + 2 ^ k"] by simp
      then have "in_pages k start (2 ^ k) (a AND NOT (mask k))" using page_in_region [OF k less(2), of "2 ^ k" a] k by (simp add: word_less_def uint_pow2)
      then have "a AND NOT (mask k) = start" using in_one_page [OF k less(2)] by simp
      then show ?thesis using page_translates [OF pt, of a] by simp
    qed
    have "(\<exists>a. start \<le> a \<and> a < e \<and> pt_translate pt a \<noteq> None) \<longleftrightarrow>
        pTable pt start \<noteq> None \<or> (\<exists>a. start + 2 ^ k \<le> a \<and> a < e \<and> pt_translate pt a \<noteq> None)" (is "?l \<longleftrightarrow> ?r")
    proof
      assume ?l
      then show ?r using page by (meson not_less)
    next
      assume ?r
      then show ?l using page [of start] st(1) True by (meson less_imp_le order_refl order_trans)
    qed
    then show ?thesis using less(1) [OF dec al less(3)] st True here by (subst pages_free.simps) auto
  qed
qed

lemma ms_isUnmapped_exact:
  assumes pr: "proc_ok k pr" and s: "s AND mask k = 0" and len: "len AND mask k = 0" "0 < len" "unat s + unat len < 2 ^ 64"
  shows "ms_isUnmapped s len pr = (if \<exists>a. a - s < len \<and> space (areas pr) a \<noteq> None then Inr False
    else if \<exists>a. a - s < len \<and> pt_translate (proc_pt pr) a \<noteq> None then Inl Panic else Inr True)"
proof -
  have k: "k < 64" and pt: "pt_ok k (proc_pt pr)" and vs: "list_all (vma_ok k) (areas pr)" and pg: "pageBytes (proc_ms pr) = 2 ^ k"
    using pr by (simp_all add: proc_ok_def vmas_ok_def)
  have se: "s < s + len" using len(2,3) by (simp add: word_less_nat_alt unat_word_ariths)
  have e: "(s + len) AND mask k = 0" using s len(1) k by (simp add: aligned_add)
  note r = range_shift [OF len(3), symmetric]
  show ?thesis unfolding ms_isUnmapped_def Let_def any_intersects_exact [OF vs se] pg r
    using pages_free_exact [OF k pt s e] by (auto simp: conj_assoc)
qed

lemma space_snoc: "space (vs @ [v]) a = (case space vs a of None \<Rightarrow> vma_at v a | x \<Rightarrow> x)"
  by (induction vs) (auto split: option.splits)

text \<open>
  How many bytes of a file lie behind an offset, at most as many as the region has; and when a file
  can be mapped.
\<close>

definition file_reach :: "u64 \<Rightarrow> host_file \<Rightarrow> u64 \<Rightarrow> int" where
  "file_reach len f off = min (the (hf_size f) - sint off) (uint len)"

definition known_file :: "(host_file \<times> u64) option \<Rightarrow> bool" where
  "known_file file \<longleftrightarrow> (case file of None \<Rightarrow> True
     | Some (f, off) \<Rightarrow> hf_size f \<noteq> None \<and> the (hf_size f) < 2 ^ 63 \<and> 0 \<le> sint off)"

definition mappable :: "u64 \<Rightarrow> (host_file \<times> u64) option \<Rightarrow> bool" where
  "mappable len file \<longleftrightarrow> (case file of None \<Rightarrow> True
     | Some (f, off) \<Rightarrow> 0 < file_reach len f off \<and> hf_mmap f (word_of_int (file_reach len f off)) off)"

lemma file_reach_word:
  assumes "known_file (Some (f, off))" "\<not> sint off > the (hf_size f)"
  shows "uint (min (word_of_int (the (hf_size f) - sint off)) len) = file_reach len f off"
    "min (word_of_int (the (hf_size f) - sint off)) len = word_of_int (file_reach len f off)"
proof -
  have u: "uint (word_of_int (the (hf_size f) - sint off) :: u64) = the (hf_size f) - sint off"
    using assms by (intro uint_of_small_int) (auto simp: known_file_def)
  then show r: "uint (min (word_of_int (the (hf_size f) - sint off)) len) = file_reach len f off"
    unfolding file_reach_def min_def word_le_def by simp
  show "min (word_of_int (the (hf_size f) - sint off)) len = word_of_int (file_reach len f off)"
    unfolding r [symmetric] by simp
qed

lemma MappedFileBuffer_exact:
  assumes hf: "known_file (Some (f, off))" and len: "0 < len"
  shows "MappedFileBuffer f len off =
    (if mappable len (Some (f, off)) then Inr (word_of_int (file_reach len f off)) else Inl Panic)"
proof -
  obtain sz where sz: "hf_size f = Some sz" "sz - sint off < 2 ^ 63" using hf by (auto simp: known_file_def)
  show ?thesis
  proof (cases "sint off > sz")
    case True
    then have "file_reach len f off < 0" by (simp add: file_reach_def sz(1))
    then show ?thesis using True len sz by (auto simp: MappedFileBuffer_def mappable_def check_def)
  next
    case False
    note r = file_reach_word [OF hf, of len, unfolded sz(1) option.sel, OF False]
    have "0 \<le> file_reach len f off" using r(1) by (metis uint_ge_0)
    moreover have "min (word_of_int (sz - sint off)) len = 0 \<longleftrightarrow> file_reach len f off = 0" using r(1) by (metis uint_0_iff)
    ultimately show ?thesis using False len sz r(2)
      by (auto simp: MappedFileBuffer_def mappable_def check_def Let_def)
  qed
qed

lemma VMA_unmapped:
  assumes "0 < len" "known_file file" "\<not> mappable len file"
  shows "VMA (AddrRange_plain s (s + len)) pg name file = Inl Panic"
proof -
  obtain f off where hf: "file = Some (f, off)" using assms(3) by (cases "file") (auto simp: mappable_def)
  have "ar_size (AddrRange_plain s (s + len)) = len" by (simp add: ar_size_def)
  then show ?thesis using MappedFileBuffer_exact [OF assms(2) [unfolded hf] assms(1)] assms(3)
    by (simp add: VMA_def hf)
qed

lemma VMA_mapped:
  assumes k: "k < 64" and s: "s AND mask k = 0" and len: "len AND mask k = 0" "0 < len" "unat s + unat len < 2 ^ 64"
    and hf: "known_file file" "mappable len file"
  obtains v where "VMA (AddrRange_plain s (s + len)) (2 ^ k) name file = Inr v" "vma_ok k v" "\<And>a. cov v a \<longleftrightarrow> a - s < len"
    "\<And>a. vma_at v a = (if a - s < len then Some (name, case file of None \<Rightarrow> None
      | Some (f, off) \<Rightarrow> if uint (a - s) < file_reach len f off then Some (hf_mapping f, a - s) else None) else None)"
proof -
  define v where "v = \<lparr>vm_range = AddrRange_plain s (s + len), vm_page = 2 ^ k, origHostBuf = map_option (hf_mapping \<circ> fst) file, hostBuf = 0,
     hostBufLen = (case file of None \<Rightarrow> 0 | Some (f, off) \<Rightarrow> word_of_int (file_reach len f off)), vmaName = name\<rparr>"
  have se: "s < s + len" using len(2,3) by (simp add: word_less_nat_alt unat_word_ariths)
  have ok: "vma_ok k v" using se s len(1) k by (simp add: v_def vma_ok_def aligned_add)
  have size: "ar_size (AddrRange_plain s (s + len)) = len" by (simp add: ar_size_def)
  have new: "VMA (AddrRange_plain s (s + len)) (2 ^ k) name file = Inr v"
    using sanityCheck_ok [OF k ok] MappedFileBuffer_exact [OF _ len(2)] hf
    by (cases "file") (auto simp: VMA_def v_def size)
  have cv: "cov v a \<longleftrightarrow> a - s < len" for a using range_shift [OF len(3), of a] by (simp add: cov_def v_def)
  have reach: "uint (word_of_int (file_reach len f off) :: u64) = file_reach len f off" if "file = Some (f, off)" for f off
    using hf(2) that uint_lt2p [of len] by (intro uint_of_small_int) (auto simp: mappable_def file_reach_def)
  have at: "vma_at v a = (if a - s < len then Some (name, case file of None \<Rightarrow> None
      | Some (f, off) \<Rightarrow> if uint (a - s) < file_reach len f off then Some (hf_mapping f, a - s) else None) else None)" for a
    unfolding vma_at_cov cv using reach by (auto simp: v_def backing_def word_less_def split: option.splits)
  show ?thesis using that new ok cv at by blast
qed

lemma extend_from_first:
  assumes "\<And>i. i < n \<Longrightarrow> ms_isUnmapped (start + of_nat i * d) len pr = Inr False"
    and "ms_isUnmapped (start + of_nat n * d) len pr = Inr True"
    and "d = (if mmapGrowsDown pr then - pageBytes (proc_ms pr) else pageBytes (proc_ms pr))"
  shows "extend_from len pr start = Some (Inr (start + of_nat n * d))"
  using assms
proof (induction n arbitrary: start)
  case 0
  then show ?case by (simp add: extend_from.simps)
next
  case (Suc n)
  have nx: "(if mmapGrowsDown pr then start - pageBytes (proc_ms pr) else start + pageBytes (proc_ms pr)) = start + d" using Suc(4) by simp
  have "extend_from len pr (start + d) = Some (Inr (start + d + of_nat n * d))"
  proof (rule Suc(1) [OF _ _ Suc(4)])
    show "ms_isUnmapped (start + d + of_nat i * d) len pr = Inr False" if "i < n" for i
      using Suc(2) [of "Suc i"] that by (simp add: algebra_simps)
    show "ms_isUnmapped (start + d + of_nat n * d) len pr = Inr True" using Suc(3) by (simp add: algebra_simps)
  qed
  moreover have "ms_isUnmapped start len pr = Inr False" using Suc(2) [of 0] by simp
  ultimately show ?case using nx by (subst extend_from.simps) (simp add: algebra_simps)
qed

section \<open>Properties\<close>

text \<open>
  C21. Unmapping a region. For a region of whole pages \<^verbatim>\<open>unmapRegion\<close> succeeds whatever the areas
  are: no address of the region is in an area or translates any more, and outside of it every
  address keeps its area, its place in the mapped file and its translation.
\<close>

theorem unmapRegion_exact:
  assumes "proc_ok k pr" "s AND mask k = 0" "len AND mask k = 0" "0 < len" "unat s + unat len < 2 ^ 64"
  shows "\<exists>pr'. unmapRegion s len pr = Inr pr' \<and> proc_ok k pr' \<and>
    (\<forall>a. space (areas pr') a = (if a - s < len then None else space (areas pr) a)) \<and>
    (\<forall>a. pt_translate (proc_pt pr') a = (if a - s < len then None else pt_translate (proc_pt pr) a))"
proof -
  have k: "k < 64" and pt: "pt_ok k (proc_pt pr)" using assms(1) by (simp_all add: proc_ok_def)
  have "2 ^ k dvd uint len" using assms(3) k by (simp add: aligned_iff)
  from translate_cut [OF k pt assms(2) this] unmapRegion_ok [OF assms] assms(1) cut_pages_ok [OF pt]
  show ?thesis by (auto simp: proc_ok_def word_less_def)
qed

definition demo_area :: vma where
  "demo_area = \<lparr>vm_range = AddrRange_plain 0x10000 0x14000, vm_page = 0x1000, origHostBuf = Some 7, hostBuf = 0,
     hostBufLen = 0x2800, vmaName = ''libc''\<rparr>"

definition demo_table :: page_table where
  "demo_table = \<lparr>pTable = [0x10000 \<mapsto> \<lparr>pte_paddr = 0x3000, pte_flags = 0\<rparr>, 0x11000 \<mapsto> \<lparr>pte_paddr = 0x5000, pte_flags = 0\<rparr>],
     ptPageSize = 0x1000, offsetMask = mask 12\<rparr>"

definition demo_process :: se_process where
  "demo_process = \<lparr>proc_pt = demo_table,
     proc_ms = (MemState 0x1000 0x8000 0x7fff0000 0x100000 0x7ff00000 0x400000)\<lparr>vmaList := [demo_area]\<rparr>,
     contextIds = [0, 2], mmapGrowsDown = False\<rparr>"

lemma demo_process_ok: "proc_ok 12 demo_process"
proof -
  have "vmas_ok 12 [demo_area]" by code_simp
  moreover have "pt_ok 12 demo_table"
  proof -
    have "(0x10000 :: u64) AND mask 12 = 0" "(0x11000 :: u64) AND mask 12 = 0" by code_simp+
    then show ?thesis by (auto simp: pt_ok_def demo_table_def pageOffset_def)
  qed
  ultimately show ?thesis by (simp add: proc_ok_def demo_process_def MemState_def)
qed

theorem unmapRegion_exact_witness:
  "\<exists>pr'. unmapRegion 0x11000 0x1000 demo_process = Inr pr' \<and> space (areas pr') 0x11234 = None \<and>
     space (areas pr') 0x12010 = Some (''libc'', Some (7, 0x2010)) \<and> pt_translate (proc_pt pr') 0x10008 = Some 0x3008 \<and>
     pt_translate (proc_pt pr') 0x11008 = None"
proof -
  have "(0x11000 :: u64) AND mask 12 = 0" "(0x1000 :: u64) AND mask 12 = 0" by code_simp+
  from unmapRegion_exact [OF demo_process_ok this]
  obtain pr' where pr': "unmapRegion 0x11000 0x1000 demo_process = Inr pr'"
      "\<forall>a. space (areas pr') a = (if a - 0x11000 < 0x1000 then None else space (areas demo_process) a)"
      "\<forall>a. pt_translate (proc_pt pr') a = (if a - 0x11000 < 0x1000 then None else pt_translate (proc_pt demo_process) a)" by auto
  moreover have "space (areas demo_process) 0x12010 = Some (''libc'', Some (7, 0x2010))"
      "pt_translate (proc_pt demo_process) 0x10008 = Some 0x3008" by code_simp+
  ultimately show ?thesis by simp
qed

text \<open>
  C22. Moving a region. For a region and a target of whole pages that do not overlap, with nothing
  in the target, \<^verbatim>\<open>remapRegion\<close> succeeds: every address of the target gets the area, the place in
  the file and the translation its original had, the region is left empty, and nothing else changes.
\<close>

theorem remapRegion_exact:
  assumes "proc_ok k pr" "s AND mask k = 0" "n AND mask k = 0" "len AND mask k = 0" "0 < len"
    "unat s + unat len < 2 ^ 64" "unat n + unat len < 2 ^ 64" "\<forall>a. \<not> (a - s < len \<and> a - n < len)"
    "\<forall>a. a - n < len \<longrightarrow> space (areas pr) a = None \<and> pt_translate (proc_pt pr) a = None"
  shows "\<exists>pr'. remapRegion s n len pr = Inr pr' \<and> proc_ok k pr' \<and>
    (\<forall>a. space (areas pr') a =
      (if a - n < len then space (areas pr) (a - n + s) else if a - s < len then None else space (areas pr) a)) \<and>
    (\<forall>a. pt_translate (proc_pt pr') a =
      (if a - n < len then pt_translate (proc_pt pr) (a - n + s) else if a - s < len then None else pt_translate (proc_pt pr) a))"
proof -
  have k: "k < 64" and pt: "pt_ok k (proc_pt pr)" using assms(1) by (simp_all add: proc_ok_def)
  have "2 ^ k dvd uint len" using assms(4) k by (simp add: aligned_iff)
  from translate_move [OF k pt assms(2,3) this] remapRegion_ok [OF assms] assms(1) move_pages_ok [OF k pt]
  show ?thesis by (auto simp: proc_ok_def word_less_def)
qed

lemma demo_outside: "0x14000 \<le> a \<Longrightarrow> space (areas demo_process) a = None"
  by (auto simp: demo_process_def demo_area_def MemState_def vma_at_def)

lemma demo_unmapped: "0x20000 \<le> a \<Longrightarrow> a < 0x21000 \<Longrightarrow> pt_translate (proc_pt demo_process) a = None"
proof -
  assume a: "0x20000 \<le> a" "a < 0x21000"
  have "\<not> a AND NOT (mask 12) = 0x10000 \<and> \<not> a AND NOT (mask 12) = 0x11000"
  proof -
    have "unat (a AND NOT (mask 12)) = unat a div 2 ^ 12 * 2 ^ 12" by (rule unat_and_not_mask)
    moreover have "0x20 \<le> unat a div 2 ^ 12" using a(1) by (simp add: word_le_nat_alt)
    ultimately have "0x20000 \<le> unat (a AND NOT (mask 12))" by simp
    then show ?thesis by auto
  qed
  then show ?thesis by (simp add: demo_process_def demo_table_def pt_translate_def pt_lookup_def pageAlign_def)
qed

theorem remapRegion_exact_witness:
  "\<exists>pr'. remapRegion 0x11000 0x20000 0x1000 demo_process = Inr pr' \<and>
     space (areas pr') 0x20010 = Some (''libc'', Some (7, 0x1010)) \<and> pt_translate (proc_pt pr') 0x20008 = Some 0x5008 \<and>
     pt_translate (proc_pt pr') 0x11008 = None"
proof -
  have al: "(0x11000 :: u64) AND mask 12 = 0" "(0x20000 :: u64) AND mask 12 = 0" "(0x1000 :: u64) AND mask 12 = 0" by code_simp+
  have t: "a - 0x20000 < 0x1000 \<longleftrightarrow> 0x20000 \<le> a \<and> a < 0x21000" for a :: addr
    using range_shift [of "0x20000" "0x1000" a] by simp
  have s: "a - 0x11000 < 0x1000 \<longleftrightarrow> 0x11000 \<le> a \<and> a < 0x12000" for a :: addr
    using range_shift [of "0x11000" "0x1000" a] by simp
  have apart: "\<forall>a. \<not> ((a :: addr) - 0x11000 < 0x1000 \<and> a - 0x20000 < 0x1000)" unfolding t s by (auto simp: word_less_nat_alt word_le_nat_alt)
  have free: "\<forall>a. a - 0x20000 < 0x1000 \<longrightarrow> space (areas demo_process) a = None \<and> pt_translate (proc_pt demo_process) a = None"
    unfolding t using demo_outside demo_unmapped order_trans [of "0x14000" "0x20000 :: addr"] by auto
  from remapRegion_exact [OF demo_process_ok al _ _ _ apart free]
  obtain pr' where pr': "remapRegion 0x11000 0x20000 0x1000 demo_process = Inr pr'"
      "\<forall>a. space (areas pr') a = (if a - 0x20000 < 0x1000 then space (areas demo_process) (a - 0x20000 + 0x11000)
        else if a - 0x11000 < 0x1000 then None else space (areas demo_process) a)"
      "\<forall>a. pt_translate (proc_pt pr') a = (if a - 0x20000 < 0x1000 then pt_translate (proc_pt demo_process) (a - 0x20000 + 0x11000)
        else if a - 0x11000 < 0x1000 then None else pt_translate (proc_pt demo_process) a)" by auto
  moreover have "space (areas demo_process) 0x11010 = Some (''libc'', Some (7, 0x1010))"
      "pt_translate (proc_pt demo_process) 0x11008 = Some 0x5008" by code_simp+
  ultimately show ?thesis by simp
qed

text \<open>
  C40. \<^verbatim>\<open>munmap\<close> of zero bytes. A call with length 0 at a page boundary succeeds and takes every
  page of the address space out of the page table. If the address is not inside an area, every area
  from the address on leaves the list and the areas below it stay; if it is inside one, that area
  stays whole, although its pages are gone.
\<close>

theorem munmap_zero_unmaps_all:
  assumes "proc_ok k pr" "s AND mask k = 0"
  shows "\<exists>pr'. munmapFunc s 0 pr = Inr (0, pr') \<and> (\<forall>a. pt_translate (proc_pt pr') a = None) \<and>
    (if \<forall>v \<in> set (areas pr). \<not> (vm_start v < s \<and> s < vm_end v)
     then \<forall>a. space (areas pr') a = (if s \<le> a then None else space (areas pr) a)
     else \<forall>v \<in> set (areas pr). vm_start v < s \<and> s < vm_end v \<longrightarrow>
       (\<forall>a. vm_start v \<le> a \<and> a < vm_end v \<longrightarrow> space (areas pr') a = space (areas pr) a))"
proof -
  have k: "k < 63" "k < 64" and pt: "pt_ok k (proc_pt pr)" and vs: "vmas_ok k (areas pr)" and pg: "pageBytes (proc_ms pr) = 2 ^ k"
    using assms(1) by (simp_all add: proc_ok_def)
  have p: "ptPageSize (proc_pt pr) = 2 ^ k" "offsetMask (proc_pt pr) = mask k" using pt by (simp_all add: pt_ok_def)
  have dv: "(2 :: int) ^ k dvd 2 ^ 64" using k by (intro le_imp_power_dvd) simp
  have z: "word_of_int (2 ^ 64) = (0 :: u64)" by simp
  have pages: "pages_do (2 ^ k) (unmap_one (2 ^ k) s) 0 0 (proc_pt pr) = Inr (cut_pages k s (2 ^ 64) (proc_pt pr))"
    using unmap_pages_ok [OF k(1) pt assms(2) dv] unfolding z by simp
  obtain ws where ws: "unmap_vmas (AddrRange_plain s s) [] (areas pr) = Inr ws"
    "if \<forall>v \<in> set (areas pr). \<not> (vm_start v < s \<and> s < vm_end v)
     then \<forall>a. space ws a = (if s \<le> a then None else space (areas pr) a)
     else \<forall>v \<in> set (areas pr). vm_start v < s \<and> s < vm_end v \<longrightarrow>
       (\<forall>a. vm_start v \<le> a \<and> a < vm_end v \<longrightarrow> space ws a = space (areas pr) a)"
    using unmap_vmas_zero [OF k(2) vs assms(2)] by blast
  have "roundUp 0 (2 ^ k) = Inr 0" using k(2) by (auto simp: roundUp_def isPowerOf2_iff pow2_minus_1)
  then have "munmapFunc s 0 pr = Inr (0, set_areas ws pr\<lparr>proc_pt := cut_pages k s (2 ^ 64) (proc_pt pr)\<rparr>)"
    using assms(2) ws(1) pages by (simp add: munmapFunc_def pageOffset_def p unmapRegion_def Let_def pg)
  moreover have "pt_translate (cut_pages k s (2 ^ 64) (proc_pt pr)) a = None" for a
    using translate_cut [OF k(2) pt assms(2) dv, of a] uint_lt2p [of "a - s"] by simp
  ultimately show ?thesis using ws(2)
    by (intro exI [of _ "set_areas ws pr\<lparr>proc_pt := cut_pages k s (2 ^ 64) (proc_pt pr)\<rparr>"]) simp
qed

theorem munmap_zero_unmaps_all_witness:
  "\<exists>pr' pr''. munmapFunc 0x10000 0 demo_process = Inr (0, pr') \<and> pt_translate (proc_pt demo_process) 0x10008 = Some 0x3008 \<and>
     pt_translate (proc_pt pr') 0x10008 = None \<and> space (areas pr') 0x13000 = None \<and>
     munmapFunc 0x12000 0 demo_process = Inr (0, pr'') \<and> pt_translate (proc_pt pr'') 0x10008 = None \<and>
     space (areas pr'') 0x13000 \<noteq> None"
proof -
  have al: "(0x10000 :: u64) AND mask 12 = 0" "(0x12000 :: u64) AND mask 12 = 0" by code_simp+
  have d: "areas demo_process = [demo_area]" "vm_start demo_area = 0x10000" "vm_end demo_area = 0x14000"
    by (simp_all add: demo_process_def demo_area_def MemState_def)
  from munmap_zero_unmaps_all [OF demo_process_ok al(1)] obtain pr' where
    "munmapFunc 0x10000 0 demo_process = Inr (0, pr')" "\<forall>a. pt_translate (proc_pt pr') a = None"
    "\<forall>a. space (areas pr') a = (if 0x10000 \<le> a then None else space (areas demo_process) a)" by (auto simp: d)
  moreover from munmap_zero_unmaps_all [OF demo_process_ok al(2)] obtain pr'' where
    "munmapFunc 0x12000 0 demo_process = Inr (0, pr'')" "\<forall>a. pt_translate (proc_pt pr'') a = None"
    "\<forall>a. 0x10000 \<le> a \<and> a < 0x14000 \<longrightarrow> space (areas pr'') a = space (areas demo_process) a" by (auto simp: d)
  moreover have "pt_translate (proc_pt demo_process) 0x10008 = Some 0x3008" "space (areas demo_process) 0x13000 \<noteq> None" by code_simp+
  ultimately show ?thesis by auto
qed

text \<open>
  C23. Faults in areas. \<^verbatim>\<open>fixupFault\<close> of an address in an area maps the page of the address to the
  next page of the pool, if it is not mapped yet, and changes no other translation; a page that is
  mapped keeps its translation. In both cases the bytes of the page that have a place in the file of
  the area, and no others, are copied from there, once for each thread context of the process. It
  fails only when a page is wanted and the pool is used up.
\<close>

theorem fixupFault_area:
  assumes pr: "proc_ok k pr" and pools: "pools \<noteq> []" "pool_ok k (pools ! 0)" and a: "space (areas pr) a = Some y"
  defines "p \<equiv> pools ! 0"
  shows "\<exists>fill. page_fill k (areas pr) a fill \<and>
    (let copies = (case fill of None \<Rightarrow> [] | Some blob \<Rightarrow> map (\<lambda>cid. (cid, blob)) (contextIds pr))
     in if pt_translate (proc_pt pr) a \<noteq> None then fixupFault a pools pr = Inr (True, copies, pools, pr)
        else if unat (freePageNum p) + 1 < unat (startPageNum p) + unat (totalPages p)
        then \<exists>pr'. fixupFault a pools pr = Inr (True, copies, pools[0 := p\<lparr>freePageNum := freePageNum p + 1\<rparr>], pr') \<and>
          proc_ok k pr' \<and> areas pr' = areas pr \<and>
          (\<forall>b. pt_translate (proc_pt pr') b =
            (if page_at k b = page_at k a then Some (freePageAddr p + (b AND mask k)) else pt_translate (proc_pt pr) b))
        else fixupFault a pools pr = Inl Fatal)"
proof -
  have k: "k < 63" "k < 64" and pt: "pt_ok k (proc_pt pr)" and vs: "vmas_ok k (areas pr)" and pg: "pageBytes (proc_ms pr) = 2 ^ k"
    using pr by (simp_all add: proc_ok_def)
  obtain v where v: "find (\<lambda>v. contains (vm_range v) a) (areas pr) = Some v" "v \<in> set (areas pr)" "vma_at v a = Some y"
    using find_area [OF vs a] by blast
  have cv: "cov v a" using v(3) by (simp add: cov_vma_at)
  let ?fill = "fillMemPages v (page_at k a)"
  let ?copies = "\<lambda>pr. case ?fill of None \<Rightarrow> [] | Some blob \<Rightarrow> map (\<lambda>cid. (cid, blob)) (contextIds pr)"
  have none: "?fill = None" if "\<not> hasHostBuf v" using that by (simp add: hasHostBuf_def fillMemPages_def Let_def)
  have fx: "fixupFault a pools pr =
      obind (allocateMem (page_at k a) (2 ^ k) False pools pr) (\<lambda>(pools, pr). Inr (True, ?copies pr, pools, pr))"
    using none by (cases "hasHostBuf v")
      (simp_all add: fixupFault_def v(1) pg roundDown_page [OF k(2)] sint_pow2 [OF k(1)] page_at_def fill_contexts_map)
  have same: "page_at k (page_at k a) = page_at k a" unfolding page_at_def by (rule page_align_of_page) (rule page_align_aligned)
  have "page_fill k (areas pr) a ?fill" using k(1) vs v(2) cv by (rule fill_page)
  moreover have "if pt_translate (proc_pt pr) a \<noteq> None then fixupFault a pools pr = Inr (True, ?copies pr, pools, pr)
        else if unat (freePageNum p) + 1 < unat (startPageNum p) + unat (totalPages p)
        then \<exists>pr'. fixupFault a pools pr = Inr (True, ?copies pr, pools[0 := p\<lparr>freePageNum := freePageNum p + 1\<rparr>], pr') \<and>
          proc_ok k pr' \<and> areas pr' = areas pr \<and>
          (\<forall>b. pt_translate (proc_pt pr') b =
            (if page_at k b = page_at k a then Some (freePageAddr p + (b AND mask k)) else pt_translate (proc_pt pr) b))
        else fixupFault a pools pr = Inl Fatal"
  proof (cases "pt_translate (proc_pt pr) a = None")
    case True
    from allocate_one_page [OF k(1) pt pools True same] fx True pr pg vs show ?thesis
      unfolding p_def [symmetric] by (cases ?fill) (auto simp: proc_ok_def split: if_splits)
  next
    case False
    then have "pTable (proc_pt pr) (page_at k a AND NOT (mask k)) \<noteq> None"
      using page_translates [OF pt, of a] same by (simp add: page_at_def)
    then have "allocateMem (page_at k a) (2 ^ k) False pools pr = Inr (pools, pr)"
      using allocateMem_cases [OF k(1) pt pools alloc_page_ok [OF k(1)], of "page_at k a" False] by simp
    then show ?thesis using fx False by simp
  qed
  ultimately show ?thesis unfolding Let_def by blast
qed

theorem fixupFault_area_witness:
  "\<exists>p fill pr'. MemPool 12 0x8000 0x10000 = Inr p \<and> page_fill 12 [demo_area] 0x12010 (Some fill) \<and>
     fixupFault 0x12010 [p] demo_process = Inr (True, [(0, fill), (2, fill)], [p\<lparr>freePageNum := 9\<rparr>], pr') \<and>
     pt_translate (proc_pt pr') 0x12abc = Some 0x8abc \<and> pt_translate (proc_pt pr') 0x11008 = Some 0x5008"
proof -
  obtain p where p: "MemPool 12 0x8000 0x10000 = Inr p" "freePageNum p = 8" "startPageNum p = 8" "totalPages p = 8" "freePageAddr p = 0x8000"
    by (simp add: MemPool_def Let_def freePageAddr_def)
  have ok: "pool_ok 12 ([p] ! 0)" using MemPool_ok(1) [OF p(1)] by simp
  have sp: "space (areas demo_process) 0x12010 = Some (''libc'', Some (7, 0x2010))" by code_simp
  have facts: "pt_translate (proc_pt demo_process) 0x12010 = None" "pt_translate (proc_pt demo_process) 0x11008 = Some 0x5008" by code_simp+
  have d: "areas demo_process = [demo_area]" "contextIds demo_process = [0, 2]" by (simp_all add: demo_process_def)
  from fixupFault_area [OF demo_process_ok _ ok sp] obtain fill where fill: "page_fill 12 [demo_area] 0x12010 fill"
    "\<exists>pr'. fixupFault 0x12010 [p] demo_process =
        Inr (True, case fill of None \<Rightarrow> [] | Some blob \<Rightarrow> map (\<lambda>cid. (cid, blob)) [0, 2], [p\<lparr>freePageNum := 9\<rparr>], pr') \<and>
      (\<forall>b. pt_translate (proc_pt pr') b = (if page_at 12 b = page_at 12 0x12010 then Some (0x8000 + (b AND mask 12))
        else pt_translate (proc_pt demo_process) b))"
    using p facts(1) unfolding d Let_def by (auto simp del: list.map)
  have "map_option snd (space [demo_area] 0x12010) = Some (Some (7, 0x2010))" using sp by (simp add: d)
  then obtain m j n where f: "fill = Some (m, j, n)" using fill(1) by (cases fill) (auto simp: page_fill_def)
  have pages: "page_at 12 0x12abc = page_at 12 0x12010" "page_at 12 0x11008 \<noteq> page_at 12 0x12010" "(0x12abc :: u64) AND mask 12 = 0xabc"
    by code_simp+
  show ?thesis using fill p(1) facts pages by (auto simp: f)
qed

text \<open>
  C34. Mapping a region of whole pages. \<^verbatim>\<open>mapRegion\<close> fails its assertion when an area is in the way
  and panics over a page without an area. With a file whose size the host knows and an offset that
  is not negative, it panics when nothing of the file lies behind the offset or the host refuses the
  mapping. Else every address of the region is in the new area, at its distance from the start of
  the mapping as far as the file reaches, and the rest stays as it was.
\<close>

theorem mapRegion_exact:
  assumes pr: "proc_ok k pr" and s: "s AND mask k = 0" and len: "len AND mask k = 0" "0 < len" "unat s + unat len < 2 ^ 64"
    and hf: "known_file file"
  shows "if \<exists>a. a - s < len \<and> space (areas pr) a \<noteq> None then mapRegion s len name file pr = Inl Assert_Failed
    else if \<exists>a. a - s < len \<and> pt_translate (proc_pt pr) a \<noteq> None then mapRegion s len name file pr = Inl Panic
    else if \<not> mappable len file then mapRegion s len name file pr = Inl Panic
    else \<exists>pr'. mapRegion s len name file pr = Inr pr' \<and> proc_ok k pr' \<and> proc_pt pr' = proc_pt pr \<and>
      (\<forall>a. space (areas pr') a = (if a - s < len
        then Some (name, case file of None \<Rightarrow> None
          | Some (f, off) \<Rightarrow> if uint (a - s) < file_reach len f off then Some (hf_mapping f, a - s) else None)
        else space (areas pr) a))"
proof -
  have k: "k < 64" and vs: "vmas_ok k (areas pr)" and pg: "pageBytes (proc_ms pr) = 2 ^ k" using pr by (simp_all add: proc_ok_def)
  note free = ms_isUnmapped_exact [OF pr s len]
  show ?thesis
  proof (cases "\<exists>a. a - s < len \<and> space (areas pr) a \<noteq> None")
    case False
    then have no: "space (areas pr) a = None" if "a - s < len" for a using that by blast
    show ?thesis
    proof (cases "mappable len file")
      case True
      from VMA_mapped [OF k s len hf True, of name] obtain v where v: "VMA (AddrRange_plain s (s + len)) (2 ^ k) name file = Inr v"
        "vma_ok k v" "\<And>a. cov v a \<longleftrightarrow> a - s < len"
        "\<And>a. vma_at v a = (if a - s < len then Some (name, case file of None \<Rightarrow> None
          | Some (f, off) \<Rightarrow> if uint (a - s) < file_reach len f off then Some (hf_mapping f, a - s) else None) else None)" by blast
      have "vmas_ok k (areas pr @ [v])" unfolding vmas_ok_snoc using vs v(2,3) no by (metis space_None)
      then show ?thesis using False True free v(1,4) pr no
        by (auto simp: mapRegion_def pg proc_ok_def check_def space_snoc split: option.splits)
    next
      case np: False
      then show ?thesis using False free VMA_unmapped [OF len(2) hf np] by (auto simp: mapRegion_def pg check_def)
    qed
  qed (use free in \<open>simp add: mapRegion_def check_def\<close>)
qed

definition demo_file :: host_file where
  "demo_file = \<lparr>hf_mapping = 9, hf_size = Some 0x1800, hf_mmap = (\<lambda>len off. off AND mask 12 = 0)\<rparr>"

theorem mapRegion_exact_witness:
  "mapRegion 0x13000 0x2000 ''x'' None demo_process = Inl Assert_Failed \<and>
   mapRegion 0x20000 0x1000 ''data'' (Some (demo_file, 0x2000)) demo_process = Inl Panic \<and>
   (\<exists>pr'. mapRegion 0x20000 0x1000 ''data'' (Some (demo_file, 0x1000)) demo_process = Inr pr' \<and>
     space (areas pr') 0x20010 = Some (''data'', Some (9, 0x10)) \<and> space (areas pr') 0x20c00 = Some (''data'', None))"
proof (intro conjI)
  have al: "(0x13000 :: u64) AND mask 12 = 0" "(0x20000 :: u64) AND mask 12 = 0" "(0x1000 :: u64) AND mask 12 = 0" "(0x2000 :: u64) AND mask 12 = 0"
    by code_simp+
  have "space (areas demo_process) 0x13000 \<noteq> None" by code_simp
  then have "\<exists>a. a - 0x13000 < 0x2000 \<and> space (areas demo_process) a \<noteq> None" by (intro exI [of _ "0x13000"]) simp
  then show "mapRegion 0x13000 0x2000 ''x'' None demo_process = Inl Assert_Failed"
    using mapRegion_exact [OF demo_process_ok al(1,4), of None "''x''"] by (simp add: known_file_def)
  have t: "a - 0x20000 < 0x1000 \<longleftrightarrow> 0x20000 \<le> a \<and> a < 0x21000" for a :: addr using range_shift [of "0x20000" "0x1000" a] by simp
  have n: "\<not> (\<exists>a. a - 0x20000 < 0x1000 \<and> space (areas demo_process) a \<noteq> None)"
      "\<not> (\<exists>a. a - 0x20000 < 0x1000 \<and> pt_translate (proc_pt demo_process) a \<noteq> None)"
    unfolding t using demo_outside demo_unmapped order_trans [of "0x14000" "0x20000 :: addr"] by auto
  have fits: "0 < (0x1000 :: addr)" "unat (0x20000 :: addr) + unat (0x1000 :: addr) < 2 ^ 64" by simp_all
  have si: "sint (0x1000 :: u64) = 0x1000" "sint (0x2000 :: u64) = 0x2000" by simp_all
  have known: "known_file (Some (demo_file, 0x1000))" "known_file (Some (demo_file, 0x2000))"
    by (simp_all add: known_file_def demo_file_def si)
  have map: "mappable 0x1000 (Some (demo_file, 0x1000))" "\<not> mappable 0x1000 (Some (demo_file, 0x2000))"
    using al(3) by (simp_all add: mappable_def demo_file_def file_reach_def si)
  note m = mapRegion_exact [OF demo_process_ok al(2,3) fits, of _ "''data''", unfolded if_not_P [OF n(1)] if_not_P [OF n(2)]]
  show "mapRegion 0x20000 0x1000 ''data'' (Some (demo_file, 0x2000)) demo_process = Inl Panic"
    using m [OF known(2)] map(2) by simp
  obtain pr' where "mapRegion 0x20000 0x1000 ''data'' (Some (demo_file, 0x1000)) demo_process = Inr pr'"
      "\<forall>a. space (areas pr') a = (if a - 0x20000 < 0x1000
        then Some (''data'', if uint (a - 0x20000) < 0x800 then Some (9, a - 0x20000) else None) else space (areas demo_process) a)"
    using m [OF known(1)] map(1) by (auto simp: file_reach_def demo_file_def si)
  then show "\<exists>pr'. mapRegion 0x20000 0x1000 ''data'' (Some (demo_file, 0x1000)) demo_process = Inr pr' \<and>
     space (areas pr') 0x20010 = Some (''data'', Some (9, 0x10)) \<and> space (areas pr') 0x20c00 = Some (''data'', None)" by simp
qed

end
