(* ===== verification/Spec2Isabelle.thy ===== *)
theory Spec2Isabelle
  imports AddrRange EventSim FifoPolicies RripPolicies TreePLRU Dueling AssocCache
    RiscvPMP Trie BloomFilter NoncoherentXBar PhysicalMemory MemState
begin

text \<open>
  A verification library for the gem5 simulator (the C++ sources under \<^verbatim>\<open>src/\<close>). gem5 simulates a
  machine as a set of objects that schedule events on event queues, exchange memory requests over
  ports and crossbars, and keep their state in caches, tables and counters. The library models the
  parts these objects are built from, from the arithmetic helpers up to the event loop, the
  crossbars, the caches' replacement machinery, the protection unit of the RISC-V harts and the
  memory management of emulated processes, and proves what each part promises to the others.

  \<^bold>\<open>Conventions\<close> (\<^verbatim>\<open>Prelude\<close>). An operation that can fail returns an \<open>outcome\<close>: \<open>Inr\<close> its result or
  \<open>Inl\<close> how it ends, a failed \<^verbatim>\<open>assert\<close>, a \<^verbatim>\<open>panic\<close>, a \<^verbatim>\<open>fatal\<close>, an exception nothing catches, behaviour
  the language leaves undefined, or a loop that does not end. Operations without such a branch are
  plain functions. Unsigned machine integers are words of their width, so that they wrap as in the
  source; signed ones are words read with \<open>sint\<close>, or integers where the source cannot overflow.
  Structures are records, enumerations and class hierarchies datatypes, pointers to shared mutable
  objects addresses into an explicit store (events) or names (nodes of a map, backing stores,
  trees). A virtual function whose body belongs to other objects, a number drawn from the random
  generator, the current tick and the answers of the host system are arguments. Threads and locks
  are not modelled; parallel mode appears as the branches of the code that test for it.

  \<^bold>\<open>Loops.\<close> Loops over containers and counters are structural recursions, other loops that always
  end are functions with a termination proof. A loop that may run forever is a
  \<^theory_text>\<open>partial_function\<close> into \<open>option\<close>, and that it returns is then a theorem
  (\<^verbatim>\<open>serviceEvents\<close>, the destructor of a queue, the searches and page walks of \<^verbatim>\<open>MemState\<close>, the growth
  of the stack). No function takes fuel. Bounds appear as hypotheses only where the source would
  wrap: time stamps that leave room for one more stamp, regions that end below \<open>2 ^ 64\<close>, pages of
  less than \<open>2 ^ 63\<close> bytes.

  \<^bold>\<open>Interfaces\<close> are locales, interpreted on the model of the component that provides them:
  \<open>priority_list\<close> and \<open>membership_filter\<close> (\<^verbatim>\<open>Contracts\<close>) on the event queue and the Bloom filters,
  \<open>replacement_policy\<close> and \<open>ranked_policy\<close> (\<^verbatim>\<open>Replacement\<close>) on every replacement policy, \<open>duel\<close>
  (\<^verbatim>\<open>Dueling\<close>), which extends two policies to one, \<open>assoc_cache\<close> (\<^verbatim>\<open>AssocCache\<close>) on a set associative
  cache with LRU, and \<open>range_store\<close> (\<^verbatim>\<open>AddrRangeMap\<close>) on the port map of the crossbar and the memory
  map of the physical memory.

  \<^bold>\<open>Arithmetic and ranges.\<close>
    \<^item> \<^verbatim>\<open>Flags\<close> (\<^verbatim>\<open>base/flags.hh\<close>): the operations of the class template, bit by bit.
    \<^item> \<^verbatim>\<open>Bitfield\<close> (\<^verbatim>\<open>base/bitfield.hh\<close>, \<^verbatim>\<open>.cc\<close>): extraction, insertion and reversal of bits, searches for
      set bits; the binary searches agree with the builtins and with the extreme set bit.
    \<^item> \<^verbatim>\<open>Intmath\<close> (\<^verbatim>\<open>base/intmath.hh\<close>): logarithms, powers of two, rounding and double-width products;
      the manual multiplications equal the product over the integers.
    \<^item> \<^verbatim>\<open>SatCounter\<close> (\<^verbatim>\<open>base/sat_counter.hh\<close>): the counters refine saturating arithmetic on naturals.
    \<^item> \<^verbatim>\<open>AddrRange\<close> (\<^verbatim>\<open>base/addr_range.hh\<close>): the record \<open>addr_range\<close> with its interleaving masks;
      intersection, subset and merging against the sets of addresses, exclusion of ranges, removal
      and insertion of the interleaving bits as inverse functions.
    \<^item> \<^verbatim>\<open>AddrRangeMap\<close> (\<^verbatim>\<open>base/addr_range_map.hh\<close>): the ordered map with its cache of iterators as the
      record \<open>range_map\<close>; lookups and insertions against the finite map it stands for, and where
      the code leaves dangling iterators or hides an entry.
    \<^item> \<^verbatim>\<open>Trie\<close> (\<^verbatim>\<open>base/trie.hh\<close>): insertion, lookup and removal against the multiset of stored prefixes.
    \<^item> \<^verbatim>\<open>BloomFilter\<close> (\<^verbatim>\<open>base/filters\<close>): no false negatives for all filters and their combinations, and
      totality of the block filter.

  \<^bold>\<open>Events and clocks.\<close>
    \<^item> \<^verbatim>\<open>EventQueue\<close> (\<^verbatim>\<open>sim/eventq.hh\<close>, \<^verbatim>\<open>.cc\<close>): the heap of events (\<open>heap\<close>), linked in bins; insertion,
      removal and service pointer by pointer, refining a sorted list, and the order of service.
    \<^item> \<^verbatim>\<open>EventSim\<close> (the same files): the record \<open>world\<close> of events and queues with \<^verbatim>\<open>schedule\<close>,
      \<^verbatim>\<open>deschedule\<close>, \<^verbatim>\<open>reschedule\<close>, the asynchronous list, the service loop, checkpoint restore and
      destruction; the relations \<open>api_step\<close> and \<open>sim_step\<close> and the invariant they keep, termination
      of the loops, and time that only moves forward.
    \<^item> \<^verbatim>\<open>ClockDomain\<close> (\<^verbatim>\<open>sim/clocked_object.hh\<close>, \<^verbatim>\<open>sim/clock_domain.cc\<close>, \<^verbatim>\<open>.hh\<close>): clock edges, and changes of
      the period that reach a whole tree of domains.

  \<^bold>\<open>Caches.\<close>
    \<^item> \<^verbatim>\<open>Replacement\<close>, \<^verbatim>\<open>RecencyPolicies\<close>, \<^verbatim>\<open>FifoPolicies\<close>, \<^verbatim>\<open>RripPolicies\<close>, \<^verbatim>\<open>TreePLRU\<close>, \<^verbatim>\<open>Dueling\<close> (\<^verbatim>\<open>mem/cache/\<close>
      \<^verbatim>\<open>replacement_policies\<close>, \<^verbatim>\<open>mem/cache/tags/dueling.cc\<close>): the policies as records of their virtual
      functions, each with the rank, queue, tree or duel that decides its victims.
    \<^item> \<^verbatim>\<open>Indexing\<close> (\<^verbatim>\<open>mem/cache/tags/indexing_policies\<close>): sets, ways and tags; skewing functions and
      their inverses.
    \<^item> \<^verbatim>\<open>AssocCache\<close> (\<^verbatim>\<open>base/cache/associative_cache.hh\<close>, \<^verbatim>\<open>mem/cache/tags/tagged_entry.hh\<close>): the cache over
      any policy of these kinds, refining a partial map from blocks to entries.

  \<^bold>\<open>Memory system.\<close>
    \<^item> \<^verbatim>\<open>XBar\<close> (\<^verbatim>\<open>mem/xbar.cc\<close>, \<^verbatim>\<open>.hh\<close>): routing by announced ranges and the ranges passed on.
    \<^item> \<^verbatim>\<open>XBarLayer\<close> (the class \<^verbatim>\<open>BaseXBar::Layer\<close>): the steps \<open>layer_step\<close> of a layer and its
      surroundings; safety in all reachable states and absence of starvation in fair runs.
    \<^item> \<^verbatim>\<open>NoncoherentXBar\<close> (\<^verbatim>\<open>mem/noncoherent_xbar.cc\<close>): the handlers over the two theories above; every
      response returns to the port that sent its request.
    \<^item> \<^verbatim>\<open>PhysicalMemory\<close> (\<^verbatim>\<open>mem/physical.cc\<close>, \<^verbatim>\<open>.hh\<close>): backing stores and dispatch of accesses.
    \<^item> \<^verbatim>\<open>RiscvPMP\<close> (\<^verbatim>\<open>arch/riscv/pmp.cc\<close>, \<^verbatim>\<open>.hh\<close>, the register writes of \<^verbatim>\<open>arch/riscv/isa.cc\<close>): the check
      against the regions of the privileged specification, and locked entries.

  \<^bold>\<open>Emulated processes.\<close>
    \<^item> \<^verbatim>\<open>PageTable\<close> (\<^verbatim>\<open>mem/page_table.cc\<close>, \<^verbatim>\<open>mem/translation_gen.hh\<close>): the table as a map of pages, and the
      translation of ranges of addresses.
    \<^item> \<^verbatim>\<open>MemPool\<close> (\<^verbatim>\<open>sim/mem_pool.cc\<close>): pools of physical pages.
    \<^item> \<^verbatim>\<open>VMA\<close> (\<^verbatim>\<open>sim/vma.cc\<close>, \<^verbatim>\<open>.hh\<close>) and \<^verbatim>\<open>MemState\<close> (\<^verbatim>\<open>sim/mem_state.cc\<close>, \<^verbatim>\<open>Process::allocateMem\<close>, \<^verbatim>\<open>munmapFunc\<close>):
      areas and regions of a process against the function \<open>space\<close> from addresses to the area and
      the place in its file, together with the translations of the page table: mapping, unmapping,
      moving and faults change exactly the addresses they should.

  \<^bold>\<open>Not modelled.\<close> Output, statistics, debug traces and checkpoint files; the construction of objects
  from Python parameters; the TLB flushes and the contents of memory; the coherent crossbar, the
  caches with their queues of misses, snoop filters and prefetchers, the DRAM controllers and Ruby;
  the instruction set descriptions, from which the build generates decoders, and the processor and
  GPU models; devices, disk images, the emulation of system calls other than \<^verbatim>\<open>munmap\<close>, and the
  coupling to SystemC and SST. The manifest of the library lists them with reasons.
\<close>

end
